(* ===== verification/Nvx_Prelude.thy ===== *)
theory Nvx_Prelude
  imports Main "HOL-Library.Word" "HOL-Library.Code_Target_Numeral"
begin

text \<open>
  The vocabulary that every component shares: the machine integers of the Rust sources as words,
  the standard library's integer operations that the sources use (checked, saturating and
  little-endian ones), Rust's \<^verbatim>\<open>Result\<close> and its \<^verbatim>\<open>?\<close> operator over sums, the two-element arrays
  \<^verbatim>\<open>[T; 2]\<close>, \<^verbatim>\<open>Instant\<close> arithmetic, and the notion of a transition system with its reachable states
  and invariants, which every state machine of the library interprets.
\<close>

section \<open>Collections of the library\<close>

named_theorems wire_simps \<open>lengths and slices of wire encodings\<close>
named_theorems exec_defs \<open>definitions of the operations of the execution engine\<close>
named_theorems credit_simps \<open>facts of the credit arithmetic\<close>

section \<open>Machine integers\<close>

type_synonym u8 = "8 word"
type_synonym u16 = "16 word"
type_synonym u32 = "32 word"
type_synonym u64 = "64 word"
type_synonym i32 = "32 word"
type_synonym bytes = "u8 list"

text \<open>
  Lengths, offsets and counts of the host's 64-bit \<^verbatim>\<open>usize\<close> are natural numbers; the operations
  that saturate or check write the bound out.
\<close>

type_synonym usize = nat

definition usize_max :: nat where
  "usize_max = 2 ^ 64 - 1"

definition saturating_mul :: "usize \<Rightarrow> usize \<Rightarrow> usize" where
  "saturating_mul a b = min (a * b) usize_max"

definition saturating_add :: "usize \<Rightarrow> usize \<Rightarrow> usize" where
  "saturating_add a b = min (a + b) usize_max"

definition checked_add_usize :: "usize \<Rightarrow> usize \<Rightarrow> usize option" where
  "checked_add_usize a b = (if a + b \<le> usize_max then Some (a + b) else None)"

definition checked_add :: "'a::len word \<Rightarrow> 'a word \<Rightarrow> 'a word option" where
  "checked_add a b = (if unat a + unat b < 2 ^ LENGTH('a) then Some (a + b) else None)"

definition checked_mul :: "'a::len word \<Rightarrow> 'a word \<Rightarrow> 'a word option" where
  "checked_mul a b = (if unat a * unat b < 2 ^ LENGTH('a) then Some (a * b) else None)"

definition saturating_sub :: "'a::len word \<Rightarrow> 'a word \<Rightarrow> 'a word" where
  "saturating_sub a b = (if a < b then 0 else a - b)"

text \<open>\<^verbatim>\<open>uN::try_from(n).unwrap_or(uN::MAX)\<close>: a count as an N-bit word, saturated.\<close>

definition try_from_or_max :: "nat \<Rightarrow> 'a::len word" where
  "try_from_or_max n = (if n < 2 ^ LENGTH('a) then word_of_nat n else - 1)"

lemma checked_add_Some_iff:
  "checked_add a b = Some c \<longleftrightarrow> unat a + unat b < 2 ^ LENGTH('a) \<and> c = a + b"
  for a b c :: "'a::len word"
  by (auto simp: checked_add_def)

lemma checked_add_None_iff:
  "checked_add a b = None \<longleftrightarrow> 2 ^ LENGTH('a) \<le> unat a + unat b"
  for a b :: "'a::len word"
  by (auto simp: checked_add_def)

lemma unat_add_no_wrap:
  "unat a + unat b < 2 ^ LENGTH('a) \<Longrightarrow> unat (a + b) = unat a + unat b"
  for a b :: "'a::len word"
  by (simp add: unat_word_ariths)

lemma unat_mul_no_wrap:
  "unat a * unat b < 2 ^ LENGTH('a) \<Longrightarrow> unat (a * b) = unat a * unat b"
  for a b :: "'a::len word"
  by (simp add: unat_word_ariths)

lemma unat_sub_no_wrap:
  "unat b \<le> unat a \<Longrightarrow> unat (a - b) = unat a - unat b"
  for a b :: "'a::len word"
  by (simp add: unat_sub word_le_nat_alt)

lemma unat_saturating_sub: "unat (saturating_sub a b) = unat a - unat b"
  by (simp add: saturating_sub_def word_less_nat_alt unat_sub_no_wrap)

lemma unat_bound [simp]: "unat a < 2 ^ LENGTH('a)" for a :: "'a::len word"
  by (rule unsigned_less)

lemma unat_u32_bound: "unat (a :: u32) < 4294967296"
  using unat_bound [of a] by simp

lemma unat_u64_bound: "unat (a :: u64) < 18446744073709551616"
  using unat_bound [of a] by simp

lemma unat_try_from_or_max:
  "unat (try_from_or_max n :: 'a::len word) = min n (2 ^ LENGTH('a) - 1)"
proof (cases "n < 2 ^ LENGTH('a)")
  case True
  then show ?thesis
    by (simp add: try_from_or_max_def unat_of_nat min_def)
next
  case False
  have "(0::nat) < 2 ^ LENGTH('a)" by simp
  with False have "min n (2 ^ LENGTH('a) - 1) = 2 ^ LENGTH('a) - 1"
    by linarith
  with False show ?thesis
    by (simp add: try_from_or_max_def unsigned_minus_1_eq_mask mask_eq_exp_minus_1)
qed

section \<open>Results\<close>

type_synonym ('e, 'a) result = "'e + 'a"

text \<open>Rust's \<^verbatim>\<open>?\<close>: an error ends the computation, a value continues it.\<close>

definition and_then :: "('e, 'a) result \<Rightarrow> ('a \<Rightarrow> ('e, 'b) result) \<Rightarrow> ('e, 'b) result" where
  "and_then r f = (case r of Inl e \<Rightarrow> Inl e | Inr a \<Rightarrow> f a)"

definition ok_or :: "'e \<Rightarrow> 'a option \<Rightarrow> ('e, 'a) result" where
  "ok_or e r = (case r of None \<Rightarrow> Inl e | Some a \<Rightarrow> Inr a)"

lemma and_then_Inl [simp]: "and_then (Inl e) f = Inl e"
  by (simp add: and_then_def)

lemma and_then_Inr [simp]: "and_then (Inr a) f = f a"
  by (simp add: and_then_def)

lemma and_then_eq_Inr [simp]:
  "and_then r f = Inr b \<longleftrightarrow> (\<exists>a. r = Inr a \<and> f a = Inr b)"
  by (cases r) auto

lemma and_then_eq_Inl:
  "and_then r f = Inl e \<longleftrightarrow> r = Inl e \<or> (\<exists>a. r = Inr a \<and> f a = Inl e)"
  by (cases r) auto

lemma ok_or_simps [simp]: "ok_or e None = Inl e" "ok_or e (Some a) = Inr a"
  by (simp_all add: ok_or_def)

lemma ok_or_eq_Inr [simp]: "ok_or e r = Inr a \<longleftrightarrow> r = Some a"
  by (cases r) auto

section \<open>Little-endian integers\<close>

fun le_of_nat :: "nat \<Rightarrow> nat \<Rightarrow> bytes" where
  "le_of_nat 0 n = []"
| "le_of_nat (Suc k) n = word_of_nat n # le_of_nat k (n div 256)"

fun nat_of_le :: "bytes \<Rightarrow> nat" where
  "nat_of_le [] = 0"
| "nat_of_le (b # bs) = unat b + 256 * nat_of_le bs"

definition to_le_bytes :: "'a::len word \<Rightarrow> bytes" where
  "to_le_bytes w = le_of_nat (LENGTH('a) div 8) (unat w)"

definition from_le_bytes :: "bytes \<Rightarrow> 'a::len word" where
  "from_le_bytes bs = word_of_nat (nat_of_le bs)"

lemma length_le_of_nat [simp]: "length (le_of_nat k n) = k"
  by (induction k arbitrary: n) auto

lemma length_to_le_bytes [simp]: "length (to_le_bytes (w :: 'a::len word)) = LENGTH('a) div 8"
  by (simp add: to_le_bytes_def)

lemma nat_of_le_of_nat: "nat_of_le (le_of_nat k n) = n mod 256 ^ k"
proof (induction k arbitrary: n)
  case 0
  then show ?case by simp
next
  case (Suc k)
  have "unat (word_of_nat n :: u8) = n mod 256"
    by (simp add: unat_of_nat)
  then show ?case
    by (simp add: Suc.IH mod_mult2_eq)
qed

lemma nat_of_le_bound: "nat_of_le bs < 256 ^ length bs"
proof (induction bs)
  case Nil
  then show ?case by simp
next
  case (Cons b bs)
  have "unat b < 256" using unat_bound [of b] by simp
  with Cons.IH show ?case by simp
qed

lemma word_256_u8: "(256 :: u8) = 0"
  by simp

lemma le_of_nat_of_le: "le_of_nat (length bs) (nat_of_le bs) = bs"
proof (induction bs)
  case Nil
  then show ?case by simp
next
  case (Cons b bs)
  have b: "unat b < 256" using unat_bound [of b] by simp
  have "256 * (word_of_nat n :: u8) = 0" for n
    by (metis (mono_tags) mult_zero_left word_256_u8)
  then have "word_of_nat (unat b + 256 * nat_of_le bs) = b"
    by simp
  moreover from b have "(unat b + 256 * nat_of_le bs) div 256 = nat_of_le bs"
    by simp
  ultimately show ?case using Cons.IH by simp
qed

lemma from_le_to_le [simp]:
  "from_le_bytes (to_le_bytes w) = w" if "8 dvd LENGTH('a)" for w :: "'a::len word"
proof -
  have "(256::nat) ^ (LENGTH('a) div 8) = 2 ^ LENGTH('a)"
  proof -
    have "(256::nat) = 2 ^ 8" by simp
    then have "(256::nat) ^ (LENGTH('a) div 8) = 2 ^ (8 * (LENGTH('a) div 8))"
      by (metis power_mult)
    with that show ?thesis by simp
  qed
  then show ?thesis
    by (simp add: from_le_bytes_def to_le_bytes_def nat_of_le_of_nat)
qed

lemma to_le_from_le:
  "to_le_bytes (from_le_bytes bs :: 'a::len word) = bs"
  if "8 * length bs = LENGTH('a)"
proof -
  have p: "(256::nat) ^ length bs = 2 ^ LENGTH('a)"
  proof -
    have "(256::nat) = 2 ^ 8" by simp
    then have "(256::nat) ^ length bs = 2 ^ (8 * length bs)"
      by (metis power_mult)
    with that show ?thesis by simp
  qed
  have "unat (from_le_bytes bs :: 'a word) = nat_of_le bs"
    using nat_of_le_bound [of bs] p by (simp add: from_le_bytes_def unat_of_nat)
  moreover have "LENGTH('a) div 8 = length bs" using that by simp
  ultimately show ?thesis
    by (simp add: to_le_bytes_def le_of_nat_of_le)
qed

lemma from_le_bytes_inj:
  "from_le_bytes bs = (from_le_bytes cs :: 'a::len word) \<longleftrightarrow> bs = cs"
  if "8 * length bs = LENGTH('a)" "8 * length cs = LENGTH('a)"
  using that by (metis to_le_from_le)

section \<open>Slices\<close>

definition slice_at :: "'a list \<Rightarrow> nat \<Rightarrow> nat \<Rightarrow> 'a list" where
  "slice_at bs i j = take (j - i) (drop i bs)"

text \<open>\<^verbatim>\<open>bytes.get(i..j)\<close>: no slice past the end of the bytes.\<close>

definition get_range :: "'a list \<Rightarrow> nat \<Rightarrow> nat \<Rightarrow> 'a list option" where
  "get_range bs i j = (if i \<le> j \<and> j \<le> length bs then Some (slice_at bs i j) else None)"

lemma length_slice_at [simp]:
  "length (slice_at bs i j) = min (j - i) (length bs - i)"
  by (simp add: slice_at_def min.commute)

lemma slice_at_append_left:
  "j \<le> length xs \<Longrightarrow> slice_at (xs @ ys) i j = slice_at xs i j"
  by (cases "i \<le> length xs") (simp_all add: slice_at_def)

lemma slice_at_append_right:
  "length xs \<le> i \<Longrightarrow> slice_at (xs @ ys) i j = slice_at ys (i - length xs) (j - length xs)"
  by (simp add: slice_at_def)

lemma slice_at_whole: "length xs = j \<Longrightarrow> slice_at xs 0 j = xs"
  by (simp add: slice_at_def)

lemma slice_at_append_exact:
  "length xs = i \<Longrightarrow> length ys = n \<Longrightarrow> j = i + n \<Longrightarrow> slice_at (xs @ ys @ zs) i j = ys"
  by (simp add: slice_at_def)

lemma slice_at_Suc: "i < length xs \<Longrightarrow> slice_at xs i (Suc i) = [xs ! i]"
  by (simp add: slice_at_def Cons_nth_drop_Suc [symmetric])

lemma slice_at_join: "i \<le> j \<Longrightarrow> j \<le> k \<Longrightarrow> slice_at xs i j @ slice_at xs j k = slice_at xs i k"
proof -
  assume le: "i \<le> j" "j \<le> k"
  then have "take (k - i) (drop i xs) = take (j - i + (k - j)) (drop i xs)" by simp
  also have "\<dots> = take (j - i) (drop i xs) @ take (k - j) (drop (j - i) (drop i xs))"
    by (rule take_add)
  finally show ?thesis using le by (simp add: slice_at_def)
qed

section \<open>Two-element arrays\<close>

text \<open>
  The array \<^verbatim>\<open>[T; 2]\<close>, which the sources index by 0 and 1 only: every index of the sources is a
  stream's position, a pool's position, or a turn between two streams.
\<close>

datatype 'a arr2 = Arr2 (elem0: 'a) (elem1: 'a)

definition at2 :: "'a arr2 \<Rightarrow> nat \<Rightarrow> 'a" where
  "at2 a i = (if i = 0 then elem0 a else elem1 a)"

definition put2 :: "'a arr2 \<Rightarrow> nat \<Rightarrow> 'a \<Rightarrow> 'a arr2" where
  "put2 a i x = (if i = 0 then Arr2 x (elem1 a) else Arr2 (elem0 a) x)"

definition map2 :: "('a \<Rightarrow> 'a) \<Rightarrow> 'a arr2 \<Rightarrow> 'a arr2" where
  "map2 f a = Arr2 (f (elem0 a)) (f (elem1 a))"

definition all2 :: "('a \<Rightarrow> bool) \<Rightarrow> 'a arr2 \<Rightarrow> bool" where
  "all2 p a \<longleftrightarrow> p (elem0 a) \<and> p (elem1 a)"

definition sum2 :: "('a \<Rightarrow> nat) \<Rightarrow> 'a arr2 \<Rightarrow> nat" where
  "sum2 f a = f (elem0 a) + f (elem1 a)"

lemma at2_put2: "i < 2 \<Longrightarrow> j < 2 \<Longrightarrow> at2 (put2 a i x) j = (if i = j then x else at2 a j)"
  by (auto simp: at2_def put2_def)

lemma at2_put2_same [simp]: "at2 (put2 a i x) i = x"
  by (simp add: at2_def put2_def)

lemma elem_put2 [simp]:
  "elem0 (put2 a i x) = (if i = 0 then x else elem0 a)"
  "elem1 (put2 a i x) = (if i = 0 then elem1 a else x)"
  by (simp_all add: put2_def)

lemma elem_map2 [simp]: "elem0 (map2 f a) = f (elem0 a)" "elem1 (map2 f a) = f (elem1 a)"
  by (simp_all add: map2_def)

lemma at2_map2 [simp]: "at2 (map2 f a) i = f (at2 a i)"
  by (simp add: at2_def)

lemma put2_at2 [simp]: "put2 a i (at2 a i) = a"
  by (cases a) (simp add: at2_def put2_def)

lemma put2_put2 [simp]: "put2 (put2 a i x) i y = put2 a i y"
  by (simp add: put2_def)

lemma all2_at2: "all2 p a \<Longrightarrow> p (at2 a i)"
  by (simp add: all2_def at2_def)

lemma all2_put2: "all2 p a \<Longrightarrow> p x \<Longrightarrow> all2 p (put2 a i x)"
  by (simp add: all2_def)

lemma all2_map2 [simp]: "all2 p (map2 f a) \<longleftrightarrow> all2 (\<lambda>x. p (f x)) a"
  by (simp add: all2_def)

section \<open>Instants\<close>

text \<open>
  An \<^verbatim>\<open>Instant\<close> is a count of nanoseconds of the monotonic clock and a \<^verbatim>\<open>Duration\<close> a count of
  nanoseconds. \<^verbatim>\<open>Instant::checked_add\<close> fails past the last instant that the platform's signed
  64-bit seconds hold.
\<close>

type_synonym instant = nat
type_synonym duration = nat

definition instant_limit :: nat where
  "instant_limit = 2 ^ 63 * 1000000000"

definition checked_add_instant :: "instant \<Rightarrow> duration \<Rightarrow> instant option" where
  "checked_add_instant now d = (if now + d < instant_limit then Some (now + d) else None)"

text \<open>\<^verbatim>\<open>Option::is_some_and(|at| now >= at)\<close>: a timer that has passed.\<close>

definition passed :: "instant \<Rightarrow> instant option \<Rightarrow> bool" where
  "passed now at = (case at of None \<Rightarrow> False | Some t \<Rightarrow> t \<le> now)"

lemma passed_simps [simp]: "passed now None = False" "passed now (Some t) \<longleftrightarrow> t \<le> now"
  by (simp_all add: passed_def)

section \<open>Transition systems\<close>

text \<open>
  The interface of every state machine of the library: its initial states, its steps, and an
  invariant that the machine's operations promise to keep. The client's facts are the ones about
  reachable states.
\<close>

locale transition_system =
  fixes initial :: "'s \<Rightarrow> bool"
    and steps :: "'s \<Rightarrow> 's \<Rightarrow> bool"
    and invar :: "'s \<Rightarrow> bool"
  assumes invar_initial: "initial s \<Longrightarrow> invar s"
    and invar_steps: "invar s \<Longrightarrow> steps s t \<Longrightarrow> invar t"
begin

lemma invar_run: "steps\<^sup>*\<^sup>* s t \<Longrightarrow> invar s \<Longrightarrow> invar t"
  by (induction rule: rtranclp_induct) (auto intro: invar_steps)

lemma invar_reachable: "initial s \<Longrightarrow> steps\<^sup>*\<^sup>* s t \<Longrightarrow> invar t"
  using invar_run invar_initial by blast

lemma safe_reachable:
  assumes "\<And>s. invar s \<Longrightarrow> P s" and "initial s" and "steps\<^sup>*\<^sup>* s t"
  shows "P t"
  using assms invar_reachable by blast

end

text \<open>
  A machine that keeps a mark of the most that it ever held: each call raises the mark to what the
  machine holds afterwards. The mark is then the maximum over the states that the calls led through.
\<close>

locale gauge =
  fixes apply_call :: "'c \<Rightarrow> 's \<Rightarrow> 's"
    and invar :: "'s \<Rightarrow> bool"
    and held_now :: "'s \<Rightarrow> nat"
    and mark :: "'s \<Rightarrow> nat"
  assumes invar_call: "invar s \<Longrightarrow> invar (apply_call c s)"
    and mark_call: "invar s \<Longrightarrow> mark (apply_call c s) = max (mark s) (held_now (apply_call c s))"
begin

lemma invar_calls: "invar s \<Longrightarrow> invar (fold apply_call cs s)"
  by (induction cs arbitrary: s) (simp_all add: invar_call)

lemma mark_run:
  assumes "invar s" and "mark s = held_now s"
  shows "mark (fold apply_call cs s) = Max ((\<lambda>k. held_now (fold apply_call (take k cs) s)) ` {..length cs})"
proof (induction cs rule: rev_induct)
  case Nil
  then show ?case using assms(2) by simp
next
  case (snoc c cs)
  let ?h = "\<lambda>k. held_now (fold apply_call (take k (cs @ [c])) s)"
  have "?h ` {..length (cs @ [c])} =
      insert (held_now (fold apply_call (cs @ [c]) s)) ((\<lambda>k. held_now (fold apply_call (take k cs) s)) ` {..length cs})"
    by (auto simp: atMost_Suc intro!: image_eqI)
  moreover have "mark (fold apply_call (cs @ [c]) s) =
      max (mark (fold apply_call cs s)) (held_now (fold apply_call (cs @ [c]) s))"
    using mark_call [OF invar_calls [OF assms(1)], of c cs] by simp
  ultimately show ?case using snoc by (simp add: max.commute)
qed

end

end
