(* ===== verification/Exec_Types.thy ===== *)
theory Exec_Types
  imports Nvx_Prelude
begin

text \<open>
  The vocabulary of the execution engine, after \<^verbatim>\<open>src/nvx-rs/src/exec/mod.rs\<close>: the key of an
  execution, its streams and credit pools, the windows and limits on which both sides agree, the
  timers, the outcome of an execution, and the receipts and violations of its messages.
\<close>

section \<open>Keys\<close>

record exec_key =
  key_id :: u64
  key_generation :: u64

datatype violation =
    VKey
  | VPool
  | VCredit
  | VChunk
  | VWindow
  | VEnded
  | VOrder

datatype receipt = Applied | Stale | Late

definition key_new :: "u64 \<Rightarrow> u64 \<Rightarrow> exec_key" where
  "key_new i g = \<lparr>key_id = i, key_generation = g\<rparr>"

definition key_admits :: "exec_key \<Rightarrow> exec_key \<Rightarrow> (violation, bool) result" where
  "key_admits self message =
     (if key_id message \<noteq> key_id self then Inl VKey
      else if key_generation message < key_generation self then Inr False
      else if key_generation message = key_generation self then Inr True
      else Inl VKey)"

text \<open>
  The first lines of every handler of a message, on both sides: a message of another execution or
  of a later generation is a violation, one of an earlier generation is stale, and neither changes
  the side.
\<close>

definition admitted ::
  "exec_key \<Rightarrow> exec_key \<Rightarrow> 's \<Rightarrow> ('s \<Rightarrow> (violation, receipt) result \<times> 's)
     \<Rightarrow> (violation, receipt) result \<times> 's" where
  "admitted own key s body =
     (case key_admits own key of
        Inl v \<Rightarrow> (Inl v, s)
      | Inr own_generation \<Rightarrow> if own_generation then body s else (Inr Stale, s))"

text \<open>
  Retrieval from a list of sources: the first source that has something to return ends the
  retrieval.
\<close>

definition or_next ::
  "'m option \<times> 'b \<times> 's \<Rightarrow> ('b \<Rightarrow> 's \<Rightarrow> 'm option \<times> 'b \<times> 's) \<Rightarrow> 'm option \<times> 'b \<times> 's" where
  "or_next r k =
     (case r of (Some m, b, s) \<Rightarrow> (Some m, b, s) | (None, b, s) \<Rightarrow> k b s)"

section \<open>Streams, pools and windows\<close>

datatype stream = Stdout | Stderr

definition stream_all :: "stream arr2" where
  "stream_all = Arr2 Stdout Stderr"

fun stream_index :: "stream \<Rightarrow> usize" where
  "stream_index Stdout = 0"
| "stream_index Stderr = 1"

datatype pool = PoolInput | PoolStdout | PoolStderr | PoolOutput

datatype credit_unit = UnitBytes | UnitFrames

record window =
  win_unit :: credit_unit
  win_size :: u32

definition window_bytes :: "u32 \<Rightarrow> window" where
  "window_bytes n = \<lparr>win_unit = UnitBytes, win_size = n\<rparr>"

definition window_frames :: "u32 \<Rightarrow> window" where
  "window_frames n = \<lparr>win_unit = UnitFrames, win_size = n\<rparr>"

definition units :: "usize \<Rightarrow> u32" where
  "units count = try_from_or_max count"

definition window_cost :: "window \<Rightarrow> usize \<Rightarrow> u32" where
  "window_cost w n =
     (case win_unit w of UnitBytes \<Rightarrow> units n | UnitFrames \<Rightarrow> 1)"

definition bytes_with :: "window \<Rightarrow> usize \<Rightarrow> usize" where
  "bytes_with w chunk =
     (case win_unit w of
        UnitBytes \<Rightarrow> unat (win_size w)
      | UnitFrames \<Rightarrow> saturating_mul (unat (win_size w)) chunk)"

section \<open>Limits\<close>

record limits =
  lim_chunk :: u32
  lim_input :: window
  lim_output :: window
  lim_shared :: bool

definition limits_new :: "u32 \<Rightarrow> window \<Rightarrow> window \<Rightarrow> limits option" where
  "limits_new chunk input output =
     (if chunk = 0 \<or> win_size input = 0 \<or> win_size output = 0 then None
      else Some \<lparr>lim_chunk = chunk, lim_input = input, lim_output = output, lim_shared = False\<rparr>)"

definition shared_output :: "limits \<Rightarrow> limits" where
  "shared_output l = l\<lparr>lim_shared := True\<rparr>"

definition chunk_of :: "limits \<Rightarrow> usize" where
  "chunk_of l = unat (lim_chunk l)"

definition output_pools :: "limits \<Rightarrow> pool list" where
  "output_pools l = (if lim_shared l then [PoolOutput] else [PoolStdout, PoolStderr])"

definition pool_of :: "limits \<Rightarrow> stream \<Rightarrow> usize" where
  "pool_of l s = (if lim_shared l then 0 else stream_index s)"

definition output_pool :: "limits \<Rightarrow> pool \<Rightarrow> (violation, usize) result" where
  "output_pool l p =
     (case (p, lim_shared l) of
        (PoolOutput, True) \<Rightarrow> Inr 0
      | (PoolStdout, False) \<Rightarrow> Inr 0
      | (PoolStderr, False) \<Rightarrow> Inr 1
      | _ \<Rightarrow> Inl VPool)"

definition check_chunk :: "limits \<Rightarrow> usize \<Rightarrow> (violation, unit) result" where
  "check_chunk l n = (if n = 0 \<or> n > chunk_of l then Inl VChunk else Inr ())"

definition input_bytes :: "limits \<Rightarrow> usize" where
  "input_bytes l = bytes_with (lim_input l) (chunk_of l)"

definition output_bytes :: "limits \<Rightarrow> usize" where
  "output_bytes l =
     (let pools = (if lim_shared l then 1 else 2)
      in saturating_mul (bytes_with (lim_output l) (chunk_of l)) pools)"

section \<open>Timers\<close>

record timers =
  tm_timeout :: "duration option"
  tm_grace :: duration
  tm_settlement :: duration

definition timers_new :: "duration \<Rightarrow> duration \<Rightarrow> timers" where
  "timers_new grace settlement =
     \<lparr>tm_timeout = None, tm_grace = grace, tm_settlement = settlement\<rparr>"

definition with_timeout :: "timers \<Rightarrow> duration \<Rightarrow> timers" where
  "with_timeout t d = t\<lparr>tm_timeout := Some d\<rparr>"

definition after :: "instant \<Rightarrow> duration \<Rightarrow> instant option" where
  "after now d = checked_add_instant now d"

definition earliest :: "instant option \<Rightarrow> instant option \<Rightarrow> instant option" where
  "earliest first second =
     (case (first, second) of
        (Some a, Some b) \<Rightarrow> Some (min a b)
      | (Some a, None) \<Rightarrow> Some a
      | (None, b) \<Rightarrow> b)"

section \<open>Outcomes\<close>

datatype cause = Cancelled | Dropped | TimedOut | CauseReset | Disconnected

datatype status = Exited i32 | Signaled i32

record launch_failure =
  lf_stage :: u32
  lf_error :: i32

datatype settlement = SettlementSettled | SettlementFailed

record outcome =
  oc_status :: "status option"
  oc_cause :: "cause option"
  oc_launch_failure :: "launch_failure option"
  oc_truncated :: "bool arr2"
  oc_reusable :: bool

definition outcome_new :: "status option \<Rightarrow> outcome" where
  "outcome_new st =
     \<lparr>oc_status = st, oc_cause = None, oc_launch_failure = None,
      oc_truncated = Arr2 False False, oc_reusable = False\<rparr>"

definition with_cause :: "outcome \<Rightarrow> cause \<Rightarrow> outcome" where
  "with_cause oc c = oc\<lparr>oc_cause := Some c\<rparr>"

definition with_launch_failure :: "outcome \<Rightarrow> launch_failure \<Rightarrow> outcome" where
  "with_launch_failure oc f = oc\<lparr>oc_launch_failure := Some f\<rparr>"

definition with_truncated :: "outcome \<Rightarrow> stream \<Rightarrow> outcome" where
  "with_truncated oc s = oc\<lparr>oc_truncated := put2 (oc_truncated oc) (stream_index s) True\<rparr>"

definition with_reusable :: "outcome \<Rightarrow> outcome" where
  "with_reusable oc = oc\<lparr>oc_reusable := True\<rparr>"

definition is_truncated :: "outcome \<Rightarrow> stream \<Rightarrow> bool" where
  "is_truncated oc s = at2 (oc_truncated oc) (stream_index s)"

section \<open>Facts\<close>

lemma key_admits_eq:
  "key_admits self message = Inr True \<longleftrightarrow> message = self"
  by (cases self; cases message) (auto simp: key_admits_def)

lemma key_admits_self [simp]: "key_admits k k = Inr True"
  by (simp add: key_admits_def)

lemma stream_index_less [simp]: "stream_index s < 2"
  by (cases s) auto

lemma stream_index_inj [simp]: "stream_index s = stream_index t \<longleftrightarrow> s = t"
  by (cases s; cases t) auto

lemma stream_index_eq_0 [simp]: "stream_index s = 0 \<longleftrightarrow> s = Stdout"
  by (cases s) auto

lemma pool_of_less: "pool_of l s < length (output_pools l)"
  by (cases s) (auto simp: pool_of_def output_pools_def)

lemma pool_of_less_2 [simp]: "pool_of l s < 2"
  by (cases s) (auto simp: pool_of_def)

lemma output_pool_nth:
  "i < length (output_pools l) \<Longrightarrow> output_pool l (output_pools l ! i) = Inr i"
  by (auto simp: output_pools_def output_pool_def less_Suc_eq split: if_splits)

lemma output_pool_Inr_less: "output_pool l p = Inr i \<Longrightarrow> i < length (output_pools l)"
  by (cases p; cases "lim_shared l") (auto simp: output_pool_def output_pools_def)

lemma unat_units: "unat (units n) = min n (2 ^ 32 - 1)"
  by (simp add: units_def unat_try_from_or_max)

lemma unat_window_cost_frames:
  "win_unit w = UnitFrames \<Longrightarrow> unat (window_cost w n) = 1"
  by (simp add: window_cost_def)

lemma unat_window_cost_bytes:
  "win_unit w = UnitBytes \<Longrightarrow> n < 2 ^ 32 \<Longrightarrow> unat (window_cost w n) = n"
  by (simp add: window_cost_def unat_units)

lemma check_chunk_Inr [simp]: "check_chunk l n = Inr u \<longleftrightarrow> 0 < n \<and> n \<le> chunk_of l"
  by (auto simp: check_chunk_def)

lemma chunk_of_bound: "chunk_of l < 2 ^ 32"
  using unat_u32_bound by (simp add: chunk_of_def)

lemma after_mono: "after now d = Some t \<Longrightarrow> t = now + d"
  by (auto simp: after_def checked_add_instant_def split: if_splits)

lemma earliest_simps [simp]:
  "earliest None b = b" "earliest a None = a" "earliest (Some x) (Some y) = Some (min x y)"
  by (auto simp: earliest_def split: option.splits)

lemma at2_is_truncated [simp]:
  "is_truncated (with_truncated oc s) t \<longleftrightarrow> t = s \<or> is_truncated oc t"
  by (cases s; cases t) (auto simp: is_truncated_def with_truncated_def at2_def)

lemma with_truncated_fields [simp]:
  "oc_status (with_truncated oc s) = oc_status oc"
  "oc_cause (with_truncated oc s) = oc_cause oc"
  "oc_launch_failure (with_truncated oc s) = oc_launch_failure oc"
  "oc_reusable (with_truncated oc s) = oc_reusable oc"
  by (simp_all add: with_truncated_def)

lemma admitted_own [simp]: "admitted k k s body = body s"
  by (simp add: admitted_def)

lemma admitted_cases:
  assumes "admitted own key s body = (res, s')"
  obtains (own) "key = own" "body s = (res, s')"
  | (stale) "s' = s" "res = Inr Stale" "key \<noteq> own"
  | (other) "s' = s" "res = Inl VKey" "key \<noteq> own"
  using assms key_admits_eq [of own key]
  by (cases "key_admits own key") (auto simp: admitted_def key_admits_def split: if_splits)

lemma admitted_inv:
  "P s \<Longrightarrow> P (snd (body s)) \<Longrightarrow> P (snd (admitted own key s body))"
  by (simp add: admitted_def split: sum.split)

lemma or_next_simps [simp]:
  "or_next (Some m, b, s) k = (Some m, b, s)" "or_next (None, b, s) k = k b s"
  by (simp_all add: or_next_def)

lemma or_next_cases:
  assumes "or_next r k = (res, b', s')"
  obtains (some) m where "r = (Some m, b', s')" "res = Some m"
  | (none) b s where "r = (None, b, s)" "k b s = (res, b', s')"
  using assms by (auto simp: or_next_def split: prod.splits option.splits)

end
