(* ===== verification/Exec_Credit.thy ===== *)
theory Exec_Credit
  imports Exec_Types
begin

text \<open>
  The credit arithmetic of an execution's pools and the bounded queues of its streams, after
  \<^verbatim>\<open>src/nvx-rs/src/exec/credit.rs\<close> and the modules below it: the sender's \<^verbatim>\<open>Credit\<close>, the receiver's
  \<^verbatim>\<open>Granted\<close>, and the receiver's \<^verbatim>\<open>Inbox\<close>. The locales state what a sender and a receiver of a pool
  promise each other; the link between them carries grants one way and data messages the other,
  and inside the locale neither side ever refuses the other. The interpretations at the end show
  that the model of the code keeps the promises.
\<close>

section \<open>The sender's side of a pool\<close>

record credit =
  cr_window :: window
  cr_available :: u32

definition credit_new :: "window \<Rightarrow> credit" where
  "credit_new w = \<lparr>cr_window = w, cr_available = 0\<rparr>"

definition credit_grant :: "credit \<Rightarrow> u32 \<Rightarrow> (violation, credit) result" where
  "credit_grant c n =
     (if n = 0 \<or> unat (cr_available c) + unat n > unat (win_size (cr_window c)) then Inl VCredit
      else Inr (c\<lparr>cr_available := cr_available c + n\<rparr>))"

definition credit_sendable :: "credit \<Rightarrow> usize \<Rightarrow> usize" where
  "credit_sendable c n =
     (case win_unit (cr_window c) of
        UnitBytes \<Rightarrow> min n (unat (cr_available c))
      | UnitFrames \<Rightarrow> if cr_available c > 0 then n else 0)"

definition credit_spend :: "credit \<Rightarrow> usize \<Rightarrow> credit" where
  "credit_spend c n = c\<lparr>cr_available := cr_available c - window_cost (cr_window c) n\<rparr>"

section \<open>The receiver's side of a pool\<close>

record granted =
  gr_window :: window
  gr_open :: u32
  gr_returnable :: u32

definition granted_new :: "window \<Rightarrow> granted" where
  "granted_new w = \<lparr>gr_window = w, gr_open = 0, gr_returnable = win_size w\<rparr>"

definition granted_charge :: "granted \<Rightarrow> usize \<Rightarrow> (violation, granted) result" where
  "granted_charge g n =
     (let cost = window_cost (gr_window g) n
      in if cost > gr_open g then Inl VWindow else Inr (g\<lparr>gr_open := gr_open g - cost\<rparr>))"

definition granted_free :: "granted \<Rightarrow> u32 \<Rightarrow> granted" where
  "granted_free g n = g\<lparr>gr_returnable := gr_returnable g + n\<rparr>"

definition granted_take_grant :: "granted \<Rightarrow> u32 option \<times> granted" where
  "granted_take_grant g =
     (let n = gr_returnable g;
          g' = g\<lparr>gr_returnable := 0, gr_open := gr_open g + n\<rparr>
      in (if n > 0 then Some n else None, g'))"

section \<open>The receiver's side of a stream\<close>

record inbox =
  ib_unit :: credit_unit
  ib_bytes :: bytes
  ib_frames :: "usize list"

definition inbox_new :: "credit_unit \<Rightarrow> inbox" where
  "inbox_new u = \<lparr>ib_unit = u, ib_bytes = [], ib_frames = []\<rparr>"

definition inbox_len :: "inbox \<Rightarrow> usize" where
  "inbox_len ib = length (ib_bytes ib)"

definition inbox_is_empty :: "inbox \<Rightarrow> bool" where
  "inbox_is_empty ib \<longleftrightarrow> ib_bytes ib = []"

definition inbox_push :: "inbox \<Rightarrow> bytes \<Rightarrow> inbox" where
  "inbox_push ib bs =
     (let ib' = ib\<lparr>ib_bytes := ib_bytes ib @ bs\<rparr>
      in if ib_unit ib = UnitFrames then ib'\<lparr>ib_frames := ib_frames ib @ [length bs]\<rparr> else ib')"

text \<open>
  The bytes at the front of the ring buffer that are contiguous. How many they are is up to the
  layout of the standard library's \<^verbatim>\<open>VecDeque\<close>, the argument \<open>contiguous\<close>.
\<close>

definition inbox_front :: "(bytes \<Rightarrow> usize) \<Rightarrow> inbox \<Rightarrow> bytes" where
  "inbox_front contiguous ib = take (contiguous (ib_bytes ib)) (ib_bytes ib)"

function pop_frames :: "usize \<Rightarrow> usize list \<Rightarrow> u32 \<Rightarrow> usize list \<times> u32" where
  "pop_frames left frames freed =
     (if left > 0 then
        (case frames of
           [] \<Rightarrow> (frames, freed)
         | frame # rest \<Rightarrow>
             (let taken = min left frame;
                  frame' = frame - taken;
                  left' = left - taken
              in if frame' = 0 then pop_frames left' rest (freed + 1)
                 else pop_frames left' (frame' # rest) freed))
      else (frames, freed))"
  by pat_completeness auto
termination
  by (relation "measure (\<lambda>(left, frames, freed). left + length frames)") auto

declare pop_frames.simps [simp del]

definition inbox_pop :: "inbox \<Rightarrow> usize \<Rightarrow> u32 \<times> inbox" where
  "inbox_pop ib n =
     (let count = min n (length (ib_bytes ib));
          ib' = ib\<lparr>ib_bytes := drop count (ib_bytes ib)\<rparr>
      in case ib_unit ib of
           UnitBytes \<Rightarrow> (units count, ib')
         | UnitFrames \<Rightarrow>
             (let (frames, freed) = pop_frames count (ib_frames ib) 0
              in (freed, ib'\<lparr>ib_frames := frames\<rparr>)))"

definition inbox_clear :: "inbox \<Rightarrow> (usize \<times> u32) \<times> inbox" where
  "inbox_clear ib =
     (let n = length (ib_bytes ib);
          (freed, ib') = inbox_pop ib n
      in ((n, freed), ib'\<lparr>ib_bytes := []\<rparr>))"

section \<open>Moving queued bytes into a buffer\<close>

text \<open>
  The move copies from the two slices of the queue's ring buffer. \<open>queue_take_slices\<close> follows the
  code; \<open>queue_take\<close> is its result in terms of the queue, which the sides use.
\<close>

definition queue_take_slices ::
  "bytes \<Rightarrow> bytes \<Rightarrow> bytes \<Rightarrow> usize \<Rightarrow> usize \<times> bytes \<times> bytes" where
  "queue_take_slices first second buffer n =
     (let len = min (min n (length buffer)) (length (first @ second));
          head = min len (length first);
          buffer = take head first @ drop head buffer;
          buffer = take head buffer @ take (len - head) second @ drop len buffer
      in (len, drop len (first @ second), buffer))"

definition queue_take :: "bytes \<Rightarrow> bytes \<Rightarrow> usize \<Rightarrow> usize \<times> bytes \<times> bytes" where
  "queue_take queue buffer n =
     (let len = min (min n (length buffer)) (length queue)
      in (len, drop len queue, take len queue @ drop len buffer))"

lemma queue_take_slices_eq:
  "queue_take_slices first second buffer n = queue_take (first @ second) buffer n"
proof -
  define len where "len = min (min n (length buffer)) (length (first @ second))"
  define head where "head = min len (length first)"
  have h: "head \<le> len" "head \<le> length first"
    by (simp_all add: head_def)
  have "len \<le> length buffer"
    by (simp add: len_def)
  have a: "take head first @ take (len - head) second = take len (first @ second)"
    by (simp add: head_def take_append min_def)
  have b: "take head (take head first @ drop head buffer) = take head first"
    using h by simp
  have c: "drop len (take head first @ drop head buffer) = drop len buffer"
    using h by (simp add: min_absorb2)
  show ?thesis
    unfolding queue_take_slices_def queue_take_def Let_def
    unfolding len_def [symmetric] head_def [symmetric] b c
    using a by (metis append_assoc)
qed

section \<open>Facts of the inbox\<close>

text \<open>The units that the bytes of an inbox still hold of their pool's window.\<close>

definition inbox_units :: "inbox \<Rightarrow> nat" where
  "inbox_units ib =
     (case ib_unit ib of UnitBytes \<Rightarrow> length (ib_bytes ib) | UnitFrames \<Rightarrow> length (ib_frames ib))"

definition inbox_wf :: "inbox \<Rightarrow> bool" where
  "inbox_wf ib \<longleftrightarrow>
     (case ib_unit ib of
        UnitBytes \<Rightarrow> ib_frames ib = []
      | UnitFrames \<Rightarrow> sum_list (ib_frames ib) = length (ib_bytes ib) \<and> 0 \<notin> set (ib_frames ib))"

lemma pop_frames_spec:
  assumes "0 \<notin> set frames" and "left \<le> sum_list frames"
    and "unat freed + length frames < 2 ^ 32"
    and "pop_frames left frames freed = (frames', freed')"
  shows "0 \<notin> set frames' \<and> sum_list frames' = sum_list frames - left \<and>
         unat freed' + length frames' = unat freed + length frames"
  using assms
proof (induction left frames freed arbitrary: frames' freed' rule: pop_frames.induct)
  case (1 left frames freed)
  show ?case
  proof (cases "left = 0")
    case True
    with "1.prems" show ?thesis by (simp add: pop_frames.simps)
  next
    case False
    with "1.prems"(2) obtain f fs where fs: "frames = f # fs"
      by (cases frames) auto
    show ?thesis
    proof (cases "f \<le> left")
      case True
      have u: "unat (freed + 1) = unat freed + 1"
        using "1.prems"(3) by (intro trans [OF unat_add_no_wrap]) (simp_all add: fs)
      from True False fs "1.prems"(4) have "pop_frames (left - f) fs (freed + 1) = (frames', freed')"
        by (simp add: pop_frames.simps [of left "f # fs"] min_def Let_def split: if_splits)
      moreover have "min left f = f" using True by simp
      ultimately have "0 \<notin> set frames' \<and> sum_list frames' = sum_list fs - (left - f) \<and>
          unat freed' + length frames' = unat (freed + 1) + length fs"
        using "1.IH"(1) [OF _ fs refl refl refl, of frames' freed'] False "1.prems"(1-3) u
        by (simp add: fs)
      with u True show ?thesis by (simp add: fs)
    next
      case f: False
      then have "frames' = (f - left) # fs \<and> freed' = freed"
        using False fs "1.prems"(4)
        by (simp add: pop_frames.simps [of left "f # fs"] pop_frames.simps [of 0] min_def)
      with f fs "1.prems"(1) show ?thesis by simp
    qed
  qed
qed

lemma inbox_push_units:
  "inbox_units (inbox_push ib bs) =
     inbox_units ib + (case ib_unit ib of UnitBytes \<Rightarrow> length bs | UnitFrames \<Rightarrow> 1)"
  by (simp add: inbox_units_def inbox_push_def Let_def split: credit_unit.splits)

lemma inbox_push_wf: "inbox_wf ib \<Longrightarrow> bs \<noteq> [] \<Longrightarrow> inbox_wf (inbox_push ib bs)"
  by (auto simp: inbox_wf_def inbox_push_def Let_def split: credit_unit.splits)

lemma inbox_push_fields [simp]:
  "ib_bytes (inbox_push ib bs) = ib_bytes ib @ bs"
  "ib_unit (inbox_push ib bs) = ib_unit ib"
  by (simp_all add: inbox_push_def Let_def)

lemma inbox_new_facts [simp]:
  "inbox_wf (inbox_new u)" "inbox_units (inbox_new u) = 0"
  "ib_bytes (inbox_new u) = []" "ib_unit (inbox_new u) = u"
  by (simp_all add: inbox_wf_def inbox_new_def inbox_units_def split: credit_unit.splits)

lemma inbox_pop_fields:
  "inbox_pop ib n = (freed, ib') \<Longrightarrow>
     ib_bytes ib' = drop n (ib_bytes ib) \<and> ib_unit ib' = ib_unit ib"
  by (auto simp: inbox_pop_def Let_def min_def split: credit_unit.splits prod.splits)

lemma inbox_pop_spec:
  assumes wf: "inbox_wf ib" and bound: "inbox_units ib < 2 ^ 32"
    and pop: "inbox_pop ib n = (freed, ib')"
  shows "inbox_wf ib' \<and> unat freed + inbox_units ib' = inbox_units ib"
proof (cases "ib_unit ib")
  case UnitBytes
  with wf bound pop show ?thesis
    by (auto simp: inbox_pop_def inbox_wf_def inbox_units_def unat_units Let_def min_def)
next
  case UnitFrames
  let ?c = "min n (length (ib_bytes ib))"
  from UnitFrames wf have w: "0 \<notin> set (ib_frames ib)" "?c \<le> sum_list (ib_frames ib)"
    by (simp_all add: inbox_wf_def)
  obtain frames where p: "pop_frames ?c (ib_frames ib) 0 = (frames, freed)"
    and ib': "ib' = ib\<lparr>ib_bytes := drop ?c (ib_bytes ib), ib_frames := frames\<rparr>"
    using UnitFrames pop by (auto simp: inbox_pop_def Let_def split: prod.splits)
  from pop_frames_spec [OF w _ p] bound UnitFrames
  have "0 \<notin> set frames \<and> sum_list frames = sum_list (ib_frames ib) - ?c \<and>
        unat freed + length frames = length (ib_frames ib)"
    by (simp add: inbox_units_def)
  with UnitFrames wf ib' show ?thesis
    by (simp add: inbox_wf_def inbox_units_def)
qed

lemma inbox_wf_units_le_len: "inbox_wf ib \<Longrightarrow> inbox_units ib \<le> inbox_len ib"
proof (cases "ib_unit ib")
  case UnitFrames
  assume "inbox_wf ib"
  moreover have "0 \<notin> set fs \<Longrightarrow> length fs \<le> sum_list fs" for fs :: "nat list"
    by (induction fs) auto
  ultimately show ?thesis
    using UnitFrames by (simp add: inbox_wf_def inbox_units_def inbox_len_def) metis
qed (simp add: inbox_units_def inbox_len_def)

lemma inbox_wf_empty: "inbox_wf ib \<Longrightarrow> ib_bytes ib = [] \<Longrightarrow> inbox_units ib = 0"
  using inbox_wf_units_le_len [of ib] by (simp add: inbox_len_def)

lemma inbox_clear_spec:
  assumes "inbox_wf ib" and "inbox_units ib < 2 ^ 32"
    and "inbox_clear ib = ((n, freed), ib')"
  shows "inbox_wf ib' \<and> ib_bytes ib' = [] \<and> ib_unit ib' = ib_unit ib \<and>
         n = inbox_len ib \<and> unat freed = inbox_units ib"
proof -
  obtain ib1 where pop: "inbox_pop ib (length (ib_bytes ib)) = (freed, ib1)"
    and ib': "ib' = ib1\<lparr>ib_bytes := []\<rparr>" and n: "n = length (ib_bytes ib)"
    using assms(3) by (auto simp: inbox_clear_def Let_def split: prod.splits)
  from inbox_pop_fields [OF pop] have f: "ib_bytes ib1 = []" "ib_unit ib1 = ib_unit ib"
    by simp_all
  with ib' have "ib' = ib1" by (cases ib1) simp
  with f n inbox_pop_spec [OF assms(1,2) pop] inbox_wf_empty [of ib1] show ?thesis
    by (simp add: inbox_len_def)
qed

section \<open>Inboxes within a window\<close>

text \<open>
  An inbox of a pool with a given window: its unit is the window's, and no frame exceeds a chunk.
  Its bytes then fit the bytes that the window may hold, once its units fit the window.
\<close>

definition inbox_ok :: "window \<Rightarrow> usize \<Rightarrow> inbox \<Rightarrow> bool" where
  "inbox_ok w chunk ib \<longleftrightarrow>
     inbox_wf ib \<and> ib_unit ib = win_unit w \<and> (\<forall>f \<in> set (ib_frames ib). f \<le> chunk)"

lemma pop_frames_le:
  assumes "\<forall>f \<in> set frames. f \<le> c" and "pop_frames left frames freed = (frames', freed')"
  shows "\<forall>f \<in> set frames'. f \<le> c"
  using assms
proof (induction left frames freed arbitrary: frames' freed' rule: pop_frames.induct)
  case (1 left frames freed)
  show ?case
  proof (cases "left = 0 \<or> frames = []")
    case True
    with "1.prems" show ?thesis by (auto simp: pop_frames.simps split: list.splits)
  next
    case False
    then obtain f fs where fs: "frames = f # fs" and left: "0 < left"
      by (cases frames) auto
    show ?thesis
    proof (cases "f - min left f = 0")
      case True
      with fs left "1.prems"(2) have "pop_frames (left - min left f) fs (freed + 1) = (frames', freed')"
        by (simp add: pop_frames.simps [of left "f # fs"] Let_def)
      with "1.IH"(1) [OF left fs refl refl refl True] "1.prems"(1) show ?thesis by (simp add: fs)
    next
      case f: False
      with fs left "1.prems"(2)
      have pop: "pop_frames (left - min left f) ((f - min left f) # fs) freed = (frames', freed')"
        by (simp add: pop_frames.simps [of left "f # fs"] Let_def)
      have "f - min left f \<le> c"
        using "1.prems"(1) fs by (meson diff_le_self le_trans list.set_intros(1))
      then have "\<forall>x \<in> set ((f - min left f) # fs). x \<le> c"
        using "1.prems"(1) fs by (metis list.set_intros(2) set_ConsD)
      from "1.IH"(2) [OF left fs refl refl refl f this pop] show ?thesis .
    qed
  qed
qed

lemma inbox_pop_frames_le:
  "\<forall>f \<in> set (ib_frames ib). f \<le> c \<Longrightarrow> inbox_pop ib n = (freed, ib') \<Longrightarrow>
     \<forall>f \<in> set (ib_frames ib'). f \<le> c"
  using pop_frames_le
  by (auto simp: inbox_pop_def Let_def split: credit_unit.splits prod.splits)

lemma inbox_ok_new [simp]: "inbox_ok w chunk (inbox_new (win_unit w))"
  by (simp add: inbox_ok_def inbox_new_def inbox_wf_def split: credit_unit.splits)

lemma inbox_ok_push:
  "inbox_ok w chunk ib \<Longrightarrow> bs \<noteq> [] \<Longrightarrow> length bs \<le> chunk \<Longrightarrow> inbox_ok w chunk (inbox_push ib bs)"
  by (auto simp: inbox_ok_def inbox_push_wf) (auto simp: inbox_push_def Let_def split: if_splits)

lemma inbox_ok_pop:
  assumes "inbox_ok w chunk ib" and "inbox_units ib < 2 ^ 32" and "inbox_pop ib n = (freed, ib')"
  shows "inbox_ok w chunk ib' \<and> unat freed + inbox_units ib' = inbox_units ib"
  using assms inbox_pop_spec [of ib n freed ib'] inbox_pop_fields [of ib n freed ib']
    inbox_pop_frames_le [of ib chunk n freed ib']
  by (simp add: inbox_ok_def)

lemma inbox_clear_bytes [simp]: "ib_bytes (snd (inbox_clear ib)) = []"
  by (simp add: inbox_clear_def Let_def split: prod.splits)

lemma inbox_clear_fst [simp]: "fst (fst (inbox_clear ib)) = inbox_len ib"
  by (simp add: inbox_clear_def inbox_len_def Let_def split: prod.splits)

lemma inbox_ok_clear:
  assumes "inbox_ok w chunk ib" and "inbox_units ib < 2 ^ 32"
  shows "inbox_ok w chunk (snd (inbox_clear ib)) \<and> inbox_units (snd (inbox_clear ib)) = 0 \<and>
         unat (snd (fst (inbox_clear ib))) = inbox_units ib"
proof -
  obtain freed ib' where pop: "inbox_pop ib (length (ib_bytes ib)) = (freed, ib')"
    by (cases "inbox_pop ib (length (ib_bytes ib))")
  have b: "ib_bytes ib' = []" using inbox_pop_fields [OF pop] by simp
  then have "snd (inbox_clear ib) = ib'" "snd (fst (inbox_clear ib)) = freed"
    by (cases ib', simp_all add: inbox_clear_def Let_def pop)
  with inbox_ok_pop [OF assms pop] b show ?thesis
    using inbox_wf_empty [of ib'] by (simp add: inbox_ok_def)
qed

definition unit_bytes :: "credit_unit \<Rightarrow> usize \<Rightarrow> usize" where
  "unit_bytes u chunk = (case u of UnitBytes \<Rightarrow> 1 | UnitFrames \<Rightarrow> chunk)"

lemma bytes_with_eq:
  assumes "chunk < 2 ^ 32"
  shows "bytes_with w chunk = unat (win_size w) * unit_bytes (win_unit w) chunk"
proof -
  have "unat (win_size w) * chunk < 2 ^ 32 * 2 ^ 32"
    using assms unat_u32_bound [of "win_size w"] by (intro mult_strict_mono) auto
  then show ?thesis
    by (cases "win_unit w")
      (simp_all add: bytes_with_def unit_bytes_def saturating_mul_def usize_max_def)
qed

lemma inbox_ok_len_units:
  assumes ok: "inbox_ok w chunk ib"
  shows "inbox_len ib \<le> inbox_units ib * unit_bytes (win_unit w) chunk"
proof (cases "win_unit w")
  case UnitBytes
  with ok show ?thesis
    by (simp add: inbox_ok_def inbox_units_def inbox_len_def unit_bytes_def)
next
  case UnitFrames
  have "sum_list fs \<le> length fs * chunk" if "\<forall>f \<in> set fs. f \<le> chunk" for fs
    using that by (induction fs) (auto simp: add_mono)
  from this [of "ib_frames ib"] ok UnitFrames show ?thesis
    by (auto simp: inbox_ok_def inbox_wf_def inbox_len_def inbox_units_def unit_bytes_def)
qed

lemma inbox_ok_len:
  assumes "inbox_ok w chunk ib" and "inbox_units ib \<le> unat (win_size w)" and "chunk < 2 ^ 32"
  shows "inbox_len ib \<le> bytes_with w chunk"
  unfolding bytes_with_eq [OF assms(3)]
  using inbox_ok_len_units [OF assms(1)] mult_right_mono [OF assms(2)] by (meson le_trans zero_le)

section \<open>The contract between the sides of a pool\<close>

definition unit_cost :: "credit_unit \<Rightarrow> usize \<Rightarrow> nat" where
  "unit_cost u n = (case u of UnitBytes \<Rightarrow> n | UnitFrames \<Rightarrow> 1)"

lemma unat_window_cost: "n < 2 ^ 32 \<Longrightarrow> unat (window_cost w n) = unit_cost (win_unit w) n"
  by (cases "win_unit w")
    (simp_all add: unit_cost_def unat_window_cost_bytes unat_window_cost_frames)

lemma inbox_push_cost:
  "inbox_units (inbox_push ib bs) = inbox_units ib + unit_cost (ib_unit ib) (length bs)"
  by (simp add: inbox_push_units unit_cost_def split: credit_unit.splits)

locale credit_sender =
  fixes available :: "'c \<Rightarrow> nat"
    and capacity :: "'c \<Rightarrow> nat"
    and sender_unit :: "'c \<Rightarrow> credit_unit"
    and grant :: "'c \<Rightarrow> u32 \<Rightarrow> (violation, 'c) result"
    and sendable :: "'c \<Rightarrow> usize \<Rightarrow> usize"
    and spend :: "'c \<Rightarrow> usize \<Rightarrow> 'c"
  assumes grant_accepts:
      "0 < unat u \<Longrightarrow> available c + unat u \<le> capacity c \<Longrightarrow> \<exists>c'. grant c u = Inr c'"
    and grant_result: "grant c u = Inr c' \<Longrightarrow>
      available c' = available c + unat u \<and> available c' \<le> capacity c' \<and>
      capacity c' = capacity c \<and> sender_unit c' = sender_unit c"
    and sendable_le: "sendable c n \<le> n"
    and spend_result: "k = sendable c n \<Longrightarrow> 0 < k \<Longrightarrow> n < 2 ^ 32 \<Longrightarrow>
      available (spend c k) + unit_cost (sender_unit c) k = available c \<and>
      capacity (spend c k) = capacity c \<and> sender_unit (spend c k) = sender_unit c"

locale credit_receiver =
  fixes opened :: "'g \<Rightarrow> nat"
    and returnable :: "'g \<Rightarrow> nat"
    and window_size :: "'g \<Rightarrow> nat"
    and receiver_unit :: "'g \<Rightarrow> credit_unit"
    and charge :: "'g \<Rightarrow> usize \<Rightarrow> (violation, 'g) result"
    and free :: "'g \<Rightarrow> u32 \<Rightarrow> 'g"
    and take_grant :: "'g \<Rightarrow> u32 option \<times> 'g"
  assumes charge_accepts:
      "n < 2 ^ 32 \<Longrightarrow> unit_cost (receiver_unit g) n \<le> opened g \<Longrightarrow> \<exists>g'. charge g n = Inr g'"
    and charge_result: "n < 2 ^ 32 \<Longrightarrow> charge g n = Inr g' \<Longrightarrow>
      opened g' + unit_cost (receiver_unit g) n = opened g \<and> returnable g' = returnable g \<and>
      window_size g' = window_size g \<and> receiver_unit g' = receiver_unit g"
    and free_result: "returnable g + unat u \<le> window_size g \<Longrightarrow>
      returnable (free g u) = returnable g + unat u \<and> opened (free g u) = opened g \<and>
      window_size (free g u) = window_size g \<and> receiver_unit (free g u) = receiver_unit g"
    and take_result: "opened g + returnable g \<le> window_size g \<Longrightarrow> take_grant g = (r, g') \<Longrightarrow>
      opened g' = opened g + returnable g \<and> returnable g' = 0 \<and>
      r = (if 0 < returnable g then Some (word_of_nat (returnable g)) else None) \<and>
      unat (word_of_nat (returnable g) :: u32) = returnable g \<and>
      window_size g' = window_size g \<and> receiver_unit g' = receiver_unit g"
begin

text \<open>
  What holds of a receiver whatever its sender does: the units that it opened, those that it has
  yet to grant, and those that its consumer holds fit its window.
\<close>

definition bounded :: "'g \<Rightarrow> nat \<Rightarrow> bool" where
  "bounded g held \<longleftrightarrow> opened g + returnable g + held \<le> window_size g"

lemma bounded_charge:
  assumes "bounded g held" and "n < 2 ^ 32" and "charge g n = Inr g'"
  shows "bounded g' (held + unit_cost (receiver_unit g) n)"
  using charge_result [OF assms(2,3)] assms(1) by (simp add: bounded_def)

lemma bounded_free:
  assumes "bounded g held" and "unat u \<le> held"
  shows "bounded (free g u) (held - unat u)"
  using free_result [of g u] assms by (simp add: bounded_def)

lemma bounded_take: "bounded g held \<Longrightarrow> take_grant g = (r, g') \<Longrightarrow> bounded g' held"
  using take_result [of g r g'] by (simp add: bounded_def)

lemma bounded_less: "bounded g held \<Longrightarrow> held' \<le> held \<Longrightarrow> bounded g held'"
  by (simp add: bounded_def)

end

text \<open>
  A link between the two sides of a pool: the grants on their way to the sender, the lengths of
  the data messages on their way to the receiver, and the units that the receiver's consumer still
  holds. What the receiver opened covers the sender's credit, the grants and the data in flight,
  and together with the units that it holds or has yet to grant it never exceeds the window.
\<close>

locale credit_link =
  credit_sender available capacity sender_unit grant sendable spend +
  credit_receiver opened returnable window_size receiver_unit charge free take_grant
  for available :: "'c \<Rightarrow> nat" and capacity sender_unit grant sendable spend
    and opened :: "'g \<Rightarrow> nat" and returnable window_size receiver_unit charge free take_grant
begin

definition link :: "'c \<Rightarrow> u32 list \<Rightarrow> usize list \<Rightarrow> 'g \<Rightarrow> nat \<Rightarrow> bool" where
  "link c grants data g held \<longleftrightarrow>
     capacity c = window_size g \<and> sender_unit c = receiver_unit g \<and>
     available c + sum_list (map unat grants) + sum_list (map (unit_cost (sender_unit c)) data)
       \<le> opened g \<and>
     opened g + returnable g + held \<le> window_size g \<and>
     (\<forall>n \<in> set grants. 0 < n) \<and> (\<forall>k \<in> set data. k < 2 ^ 32)"

lemma link_grant:
  assumes "link c (n # grants) data g held"
  shows "\<exists>c'. grant c n = Inr c' \<and> link c' grants data g held"
proof -
  from assms have "0 < unat n" and "available c + unat n \<le> capacity c"
    by (auto simp: link_def word_less_nat_alt)
  then obtain c' where c': "grant c n = Inr c'"
    using grant_accepts by blast
  with grant_result [OF c'] assms show ?thesis
    by (auto simp: link_def)
qed

lemma link_send:
  assumes "link c grants data g held" and "k = sendable c n" and "0 < k" and "n < 2 ^ 32"
  shows "link (spend c k) grants (data @ [k]) g held"
proof -
  have "k < 2 ^ 32"
    using assms(2,4) sendable_le [of c n] by simp
  with spend_result [OF assms(2-4)] assms(1) show ?thesis
    by (auto simp: link_def)
qed

lemma link_charge:
  assumes "link c grants (k # data) g held"
  shows "\<exists>g'. charge g k = Inr g' \<and>
              link c grants data g' (held + unit_cost (receiver_unit g) k) \<and>
              receiver_unit g' = receiver_unit g"
proof -
  from assms have k: "k < 2 ^ 32" and "unit_cost (receiver_unit g) k \<le> opened g"
    by (auto simp: link_def)
  then obtain g' where g': "charge g k = Inr g'"
    using charge_accepts by blast
  with charge_result [OF k g'] assms show ?thesis
    by (auto simp: link_def)
qed

lemma link_free:
  assumes "link c grants data g held" and "unat n \<le> held"
  shows "link c grants data (free g n) (held - unat n)"
proof -
  from assms have "returnable g + unat n \<le> window_size g"
    by (auto simp: link_def)
  from free_result [OF this] assms show ?thesis
    by (auto simp: link_def)
qed

lemma link_take:
  assumes "link c grants data g held" and "take_grant g = (r, g')"
  shows "link c (case r of None \<Rightarrow> grants | Some n \<Rightarrow> grants @ [n]) data g' held"
proof -
  from assms(1) have "opened g + returnable g \<le> window_size g"
    by (auto simp: link_def)
  from take_result [OF this assms(2)] assms(1) show ?thesis
    by (auto simp: link_def word_less_nat_alt split: option.splits)
qed

lemma link_drop_grant: "link c (n # grants) data g held \<Longrightarrow> link c grants data g held"
  by (auto simp: link_def)

lemma link_drop_data: "link c grants (k # data) g held \<Longrightarrow> link c grants data g held"
  by (auto simp: link_def)

lemma link_drop_held: "link c grants data g held \<Longrightarrow> held' \<le> held \<Longrightarrow> link c grants data g held'"
  by (auto simp: link_def)

lemma link_window:
  "link c grants data g held \<Longrightarrow>
     available c + sum_list (map unat grants) + sum_list (map (unit_cost (sender_unit c)) data)
       + held \<le> window_size g"
  by (auto simp: link_def)

end

section \<open>The code keeps the contract\<close>

lemma credit_grant_Inr:
  "credit_grant c n = Inr c' \<longleftrightarrow>
     0 < unat n \<and> unat (cr_available c) + unat n \<le> unat (win_size (cr_window c)) \<and>
     c' = c\<lparr>cr_available := cr_available c + n\<rparr>"
  by (auto simp: credit_grant_def word_neq_0_conv unat_gt_0)

lemma credit_grant_available:
  "credit_grant c n = Inr c' \<Longrightarrow> unat (cr_available c') = unat (cr_available c) + unat n"
  using unat_u32_bound [of "win_size (cr_window c)"]
  by (auto simp: credit_grant_Inr intro!: unat_add_no_wrap)

lemma credit_sendable_le: "credit_sendable c n \<le> n"
  by (simp add: credit_sendable_def split: credit_unit.splits)

lemma credit_spend_available:
  assumes k: "k = credit_sendable c n" "0 < k" and n: "n < 2 ^ 32"
  shows "unat (cr_available (credit_spend c k)) + unit_cost (win_unit (cr_window c)) k =
         unat (cr_available c)"
proof -
  have cost: "unat (window_cost (cr_window c) k) = unit_cost (win_unit (cr_window c)) k"
    using k n credit_sendable_le [of c n] by (intro unat_window_cost) simp
  have "unit_cost (win_unit (cr_window c)) k \<le> unat (cr_available c)"
    using k by (auto simp: credit_sendable_def unit_cost_def word_less_nat_alt
      split: credit_unit.splits if_splits)
  with cost show ?thesis
    by (simp add: credit_spend_def unat_sub_no_wrap)
qed

lemma credit_spend_window [simp]: "cr_window (credit_spend c k) = cr_window c"
  by (simp add: credit_spend_def)

lemma granted_charge_Inr:
  "granted_charge g n = Inr g' \<longleftrightarrow>
     unat (window_cost (gr_window g) n) \<le> unat (gr_open g) \<and>
     g' = g\<lparr>gr_open := gr_open g - window_cost (gr_window g) n\<rparr>"
  by (auto simp: granted_charge_def Let_def word_less_nat_alt)

lemma granted_free_fields [simp]:
  "gr_open (granted_free g n) = gr_open g" "gr_window (granted_free g n) = gr_window g"
  by (simp_all add: granted_free_def)

lemma granted_free_returnable:
  "unat (gr_returnable g) + unat n \<le> unat (win_size (gr_window g)) \<Longrightarrow>
     unat (gr_returnable (granted_free g n)) = unat (gr_returnable g) + unat n"
  using unat_u32_bound [of "win_size (gr_window g)"]
  by (auto simp: granted_free_def intro!: unat_add_no_wrap)

lemma granted_take_grant_result:
  assumes "unat (gr_open g) + unat (gr_returnable g) \<le> unat (win_size (gr_window g))"
    and "granted_take_grant g = (r, g')"
  shows "unat (gr_open g') = unat (gr_open g) + unat (gr_returnable g) \<and>
         gr_returnable g' = 0 \<and> gr_window g' = gr_window g \<and>
         r = (if 0 < gr_returnable g then Some (gr_returnable g) else None)"
  using assms unat_u32_bound [of "win_size (gr_window g)"]
  by (auto simp: granted_take_grant_def Let_def intro!: unat_add_no_wrap)

interpretation pool: credit_link
  "\<lambda>c. unat (cr_available c)" "\<lambda>c. unat (win_size (cr_window c))" "\<lambda>c. win_unit (cr_window c)"
  credit_grant credit_sendable credit_spend
  "\<lambda>g. unat (gr_open g)" "\<lambda>g. unat (gr_returnable g)" "\<lambda>g. unat (win_size (gr_window g))"
  "\<lambda>g. win_unit (gr_window g)" granted_charge granted_free granted_take_grant
proof (unfold_locales, goal_cases)
  case (1 n c)
  then show ?case by (auto simp: credit_grant_Inr)
next
  case (2 c n c')
  then show ?case using credit_grant_available [OF 2] by (auto simp: credit_grant_Inr)
next
  case (3 c n)
  then show ?case by (rule credit_sendable_le)
next
  case (4 k c n)
  then show ?case using credit_spend_available by simp
next
  case (5 n g)
  then show ?case by (auto simp: granted_charge_Inr unat_window_cost)
next
  case (6 n g g')
  then show ?case by (auto simp: granted_charge_Inr unat_window_cost unat_sub_no_wrap)
next
  case (7 g n)
  then show ?case by (simp add: granted_free_returnable)
next
  case (8 g r g')
  then show ?case using granted_take_grant_result [OF 8] by (auto simp: word_less_nat_alt)
qed

end
