(* ===== verification/Exec_Runner.thy ===== *)
theory Exec_Runner
  imports Exec_Credit
begin

text \<open>
  The side of an execution that runs its workload, after \<^verbatim>\<open>src/nvx-rs/src/exec/runner.rs\<close>. The
  adapter hands the runner the peer's messages and the workload's events, and retrieves its
  requests and messages; each handler is a function from the runner to its result and the next
  runner.
\<close>

section \<open>State\<close>

datatype runner_message =
    RunnerCredit u32
  | RunnerStarted
  | RunnerOutput stream usize
  | RunnerEnd stream
  | RunnerInputClosed
  | RunnerTerminal outcome

datatype request =
    Terminate cause
  | Discard stream
  | CloseInput
  | Settle

record run_output =
  out_queue :: bytes
  out_closed :: bool
  out_hung_up :: bool
  out_ended :: bool
  out_discarding :: bool
  out_discard_requested :: bool
  out_truncated :: bool

definition output_default :: run_output where
  "output_default =
     \<lparr>out_queue = [], out_closed = False, out_hung_up = False, out_ended = False,
      out_discarding = False, out_discard_requested = False, out_truncated = False\<rparr>"

definition is_done :: "run_output \<Rightarrow> bool" where
  "is_done o1 \<longleftrightarrow> out_closed o1 \<and> out_queue o1 = []"

definition drop_queue :: "run_output \<Rightarrow> run_output" where
  "drop_queue o1 =
     (let o2 = (if out_queue o1 \<noteq> [] then o1\<lparr>out_truncated := True\<rparr> else o1)
      in o2\<lparr>out_queue := []\<rparr>)"

record run_input =
  in_inbox :: inbox
  in_window :: granted
  in_peer_ended :: bool
  in_closed :: bool
  in_close_requested :: bool
  in_closed_message :: bool

datatype settling =
    SettlingIdle
  | SettlingRequested "instant option"
  | SettlingSettled
  | SettlingFenced

record runner =
  rn_key :: exec_key
  rn_limits :: limits
  rn_timers :: timers
  rn_launch :: "(launch_failure, unit) result option"
  rn_started_message :: bool
  rn_exit :: "status option option"
  rn_cause :: "cause option"
  rn_terminate_request :: "cause option"
  rn_settle_request :: bool
  rn_timeout_at :: "instant option"
  rn_terminated_at :: "instant option"
  rn_grace_until :: "instant option"
  rn_give_up_at :: "instant option"
  rn_abandon_at :: "instant option"
  rn_gave_up :: bool
  rn_launch_abandoned :: bool
  rn_detached :: bool
  rn_outputs :: "run_output arr2"
  rn_credits :: "credit arr2"
  rn_turn :: usize
  rn_credited :: bool
  rn_input :: run_input
  rn_settling :: settling
  rn_finished :: bool
  rn_high_water :: usize

definition runner_new :: "exec_key \<Rightarrow> limits \<Rightarrow> timers \<Rightarrow> instant \<Rightarrow> runner" where
  "runner_new key l t now =
     \<lparr>rn_key = key,
      rn_limits = l,
      rn_timers = t,
      rn_launch = None,
      rn_started_message = False,
      rn_exit = None,
      rn_cause = None,
      rn_terminate_request = None,
      rn_settle_request = False,
      rn_timeout_at = Option.bind (tm_timeout t) (after now),
      rn_terminated_at = None,
      rn_grace_until = None,
      rn_give_up_at = None,
      rn_abandon_at = None,
      rn_gave_up = False,
      rn_launch_abandoned = False,
      rn_detached = False,
      rn_outputs = Arr2 output_default output_default,
      rn_credits = Arr2 (credit_new (lim_output l)) (credit_new (lim_output l)),
      rn_turn = 0,
      rn_credited = False,
      rn_input =
        \<lparr>in_inbox = inbox_new (win_unit (lim_input l)),
         in_window = granted_new (lim_input l),
         in_peer_ended = False,
         in_closed = False,
         in_close_requested = False,
         in_closed_message = False\<rparr>,
      rn_settling = SettlingIdle,
      rn_finished = False,
      rn_high_water = 0\<rparr>"

section \<open>Queries\<close>

definition out_of :: "runner \<Rightarrow> stream \<Rightarrow> run_output" where
  "out_of r s = at2 (rn_outputs r) (stream_index s)"

definition set_out :: "runner \<Rightarrow> stream \<Rightarrow> run_output \<Rightarrow> runner" where
  "set_out r s o1 = r\<lparr>rn_outputs := put2 (rn_outputs r) (stream_index s) o1\<rparr>"

definition awaits_launch :: "runner \<Rightarrow> bool" where
  "awaits_launch r \<longleftrightarrow> rn_launch r = None \<and> \<not> rn_gave_up r \<and> \<not> rn_launch_abandoned r"

definition awaits_settlement :: "runner \<Rightarrow> bool" where
  "awaits_settlement r = (case rn_settling r of SettlingRequested _ \<Rightarrow> True | _ \<Rightarrow> False)"

definition is_cleaned_up :: "runner \<Rightarrow> bool" where
  "is_cleaned_up r \<longleftrightarrow>
     rn_launch r \<noteq> None \<and> rn_exit r \<noteq> None \<and> all2 out_closed (rn_outputs r) \<and>
     rn_settling r = SettlingSettled"

definition input_accepts :: "runner \<Rightarrow> bool" where
  "input_accepts r \<longleftrightarrow> \<not> in_closed (rn_input r) \<and> \<not> in_peer_ended (rn_input r)"

definition runner_buffered :: "runner \<Rightarrow> usize" where
  "runner_buffered r =
     sum2 (\<lambda>o1. length (out_queue o1)) (rn_outputs r) + inbox_len (in_inbox (rn_input r))"

definition runner_memory_bound :: "runner \<Rightarrow> usize" where
  "runner_memory_bound r =
     saturating_add (saturating_mul (chunk_of (rn_limits r)) 2) (input_bytes (rn_limits r))"

definition runner_outcome :: "runner \<Rightarrow> outcome option" where
  "runner_outcome r =
     (let delivered = all2 (\<lambda>o1. is_done o1 \<and> (out_ended o1 \<or> rn_detached r)) (rn_outputs r);
          settled = (case rn_settling r of
                       SettlingSettled \<Rightarrow> True | SettlingFenced \<Rightarrow> True | _ \<Rightarrow> False)
      in if awaits_launch r \<or> rn_exit r = None \<or> \<not> delivered \<or> \<not> settled then None
         else
           (let oc = outcome_new (Option.bind (rn_exit r) id);
                oc = (case rn_cause r of Some c \<Rightarrow> with_cause oc c | None \<Rightarrow> oc);
                oc = (case rn_launch r of Some (Inl f) \<Rightarrow> with_launch_failure oc f | _ \<Rightarrow> oc);
                oc = (if out_truncated (out_of r Stdout) then with_truncated oc Stdout else oc);
                oc = (if out_truncated (out_of r Stderr) then with_truncated oc Stderr else oc);
                oc = (if rn_settling r = SettlingSettled then with_reusable oc else oc)
            in Some oc))"

section \<open>Internal steps\<close>

definition runner_note_buffered :: "runner \<Rightarrow> runner" where
  "runner_note_buffered r = r\<lparr>rn_high_water := max (rn_high_water r) (runner_buffered r)\<rparr>"

definition close_input_when_taken :: "runner \<Rightarrow> runner" where
  "close_input_when_taken r =
     (let i = rn_input r
      in if in_peer_ended i \<and> \<not> in_closed i \<and> inbox_is_empty (in_inbox i)
         then r\<lparr>rn_input := i\<lparr>in_closed := True, in_close_requested := True\<rparr>\<rparr>
         else r)"

definition runner_close_input :: "runner \<Rightarrow> runner" where
  "runner_close_input r =
     (let i = rn_input r
      in if in_closed i then r
         else r\<lparr>rn_input := i\<lparr>in_closed := True,
                              in_inbox := snd (inbox_clear (in_inbox i)),
                              in_closed_message := \<not> in_peer_ended i \<and> \<not> rn_detached r\<rparr>\<rparr>)"

definition end_grace_output :: "run_output \<Rightarrow> run_output" where
  "end_grace_output o1 =
     (let o2 = drop_queue o1
      in if \<not> out_closed o2 \<and> \<not> out_discarding o2
         then o2\<lparr>out_discarding := True, out_discard_requested := True\<rparr>
         else o2)"

definition runner_end_grace :: "runner \<Rightarrow> runner" where
  "runner_end_grace r =
     r\<lparr>rn_grace_until := None, rn_outputs := map2 end_grace_output (rn_outputs r)\<rparr>"

definition runner_terminate :: "runner \<Rightarrow> instant \<Rightarrow> cause \<Rightarrow> runner" where
  "runner_terminate r now c =
     (if rn_terminated_at r \<noteq> None then r
      else
        (let r = r\<lparr>rn_terminated_at := Some now, rn_timeout_at := None\<rparr>;
             r = (if rn_exit r = None
                  then r\<lparr>rn_cause := Some c, rn_terminate_request := Some c\<rparr> else r);
             r = runner_close_input r;
             r = r\<lparr>rn_grace_until := after now (tm_grace (rn_timers r))\<rparr>;
             r = r\<lparr>rn_give_up_at :=
                     Option.bind (rn_grace_until r)
                       (\<lambda>grace. after grace (tm_settlement (rn_timers r)))\<rparr>
         in if passed now (rn_grace_until r) then runner_end_grace r else r))"

definition give_up_output :: "run_output \<Rightarrow> run_output" where
  "give_up_output o1 =
     (let o2 = drop_queue o1
      in if \<not> out_closed o2 then o2\<lparr>out_closed := True, out_truncated := True\<rparr> else o2)"

definition runner_give_up :: "runner \<Rightarrow> runner" where
  "runner_give_up r =
     (let r = r\<lparr>rn_give_up_at := None, rn_grace_until := None, rn_gave_up := True,
                rn_outputs := map2 give_up_output (rn_outputs r)\<rparr>;
          r = (if rn_exit r = None then r\<lparr>rn_exit := Some None\<rparr> else r)
      in r\<lparr>rn_settling := SettlingFenced, rn_settle_request := False\<rparr>)"

definition abandon_launch :: "runner \<Rightarrow> runner" where
  "abandon_launch r = r\<lparr>rn_launch_abandoned := True, rn_settling := SettlingFenced\<rparr>"

definition abandon_output :: "run_output \<Rightarrow> run_output" where
  "abandon_output o1 =
     (if \<not> out_closed o1 \<and> \<not> out_hung_up o1
      then o1\<lparr>out_closed := True, out_truncated := True\<rparr> else o1)"

definition abandon_open_streams :: "runner \<Rightarrow> runner" where
  "abandon_open_streams r =
     r\<lparr>rn_abandon_at := None, rn_outputs := map2 abandon_output (rn_outputs r)\<rparr>"

text \<open>
  The timers that a tick fires, in the code's order: the workload's timeout, the grace of pending
  output, the settlement, the time to give up, and the time to abandon what a process may hold.
\<close>

definition fire_timeout :: "instant \<Rightarrow> runner \<Rightarrow> runner" where
  "fire_timeout now r =
     (if passed now (rn_timeout_at r)
      then runner_terminate (r\<lparr>rn_timeout_at := None\<rparr>) now TimedOut else r)"

definition fire_grace :: "instant \<Rightarrow> runner \<Rightarrow> runner" where
  "fire_grace now r = (if passed now (rn_grace_until r) then runner_end_grace r else r)"

definition fire_settlement :: "instant \<Rightarrow> runner \<Rightarrow> runner" where
  "fire_settlement now r =
     (case rn_settling r of
        SettlingRequested by_ \<Rightarrow>
          if passed now by_ then r\<lparr>rn_settling := SettlingFenced\<rparr> else r
      | _ \<Rightarrow> r)"

definition fire_give_up :: "instant \<Rightarrow> runner \<Rightarrow> runner" where
  "fire_give_up now r =
     (if passed now (rn_give_up_at r)
      then if is_cleaned_up r then r\<lparr>rn_give_up_at := None\<rparr> else runner_give_up r
      else r)"

definition fire_abandon :: "instant \<Rightarrow> runner \<Rightarrow> runner" where
  "fire_abandon now r =
     (if passed now (rn_abandon_at r)
      then (let r = (if awaits_launch r then abandon_launch r else r)
            in if rn_settling r = SettlingFenced then abandon_open_streams r else r)
      else r)"

definition runner_tick :: "runner \<Rightarrow> instant \<Rightarrow> runner" where
  "runner_tick r now =
     (if rn_finished r then r
      else fire_abandon now (fire_give_up now (fire_settlement now (fire_grace now
             (fire_timeout now r)))))"

definition runner_detach :: "runner \<Rightarrow> instant \<Rightarrow> cause \<Rightarrow> runner" where
  "runner_detach r now c =
     (let r = runner_tick r now
      in if rn_finished r \<or> rn_detached r then r
         else
           (let r = runner_terminate r now c;
                r = r\<lparr>rn_detached := True, rn_started_message := False,
                      rn_input := (rn_input r)\<lparr>in_closed_message := False\<rparr>\<rparr>;
                r = runner_end_grace r;
                give_up = after now (tm_settlement (rn_timers r))
            in r\<lparr>rn_give_up_at := earliest (rn_give_up_at r) give_up\<rparr>))"

section \<open>Messages of the peer\<close>

definition runner_credit ::
  "runner \<Rightarrow> exec_key \<Rightarrow> pool \<Rightarrow> u32 \<Rightarrow> (violation, receipt) result \<times> runner" where
  "runner_credit r key p n =
     admitted (rn_key r) key r (\<lambda>r.
       case output_pool (rn_limits r) p of
         Inl v \<Rightarrow> (Inl v, r)
       | Inr i \<Rightarrow>
           if rn_finished r then (Inr Late, r)
           else (case credit_grant (at2 (rn_credits r) i) n of
                   Inl v \<Rightarrow> (Inl v, r)
                 | Inr c \<Rightarrow> (Inr Applied, r\<lparr>rn_credits := put2 (rn_credits r) i c\<rparr>)))"

definition runner_input ::
  "runner \<Rightarrow> exec_key \<Rightarrow> bytes \<Rightarrow> (violation, receipt) result \<times> runner" where
  "runner_input r key bs =
     admitted (rn_key r) key r (\<lambda>r.
       if rn_finished r then (Inr Late, r)
       else if in_peer_ended (rn_input r) then (Inl VEnded, r)
       else (case check_chunk (rn_limits r) (length bs) of
               Inl v \<Rightarrow> (Inl v, r)
             | Inr _ \<Rightarrow>
                 (case granted_charge (in_window (rn_input r)) (length bs) of
                    Inl v \<Rightarrow> (Inl v, r)
                  | Inr w \<Rightarrow>
                      (let r = r\<lparr>rn_input := (rn_input r)\<lparr>in_window := w\<rparr>\<rparr>
                       in if in_closed (rn_input r) then (Inr Late, r)
                          else (let i = rn_input r;
                                    r = r\<lparr>rn_input :=
                                            i\<lparr>in_inbox := inbox_push (in_inbox i) bs\<rparr>\<rparr>
                                in (Inr Applied, runner_note_buffered r))))))"

definition runner_end_input ::
  "runner \<Rightarrow> exec_key \<Rightarrow> (violation, receipt) result \<times> runner" where
  "runner_end_input r key =
     admitted (rn_key r) key r (\<lambda>r.
       if rn_finished r then (Inr Late, r)
       else if in_peer_ended (rn_input r) then (Inl VEnded, r)
       else (let r = r\<lparr>rn_input := (rn_input r)\<lparr>in_peer_ended := True\<rparr>\<rparr>
             in if in_closed (rn_input r) then (Inr Late, r)
                else (Inr Applied, close_input_when_taken r)))"

definition runner_cancel ::
  "runner \<Rightarrow> instant \<Rightarrow> exec_key \<Rightarrow> cause \<Rightarrow> (violation, receipt) result \<times> runner" where
  "runner_cancel r now key c =
     admitted (rn_key r) key r (\<lambda>r.
       let r = runner_tick r now
       in if rn_finished r \<or> rn_terminated_at r \<noteq> None then (Inr Late, r)
          else (Inr Applied, runner_terminate r now c))"

section \<open>Events of the workload and of the adapter\<close>

definition runner_launched :: "runner \<Rightarrow> (launch_failure, unit) result \<Rightarrow> runner" where
  "runner_launched r res =
     (if \<not> awaits_launch r then r
      else
        (let r = r\<lparr>rn_launch := Some res\<rparr>
         in case res of
              Inr _ \<Rightarrow> r\<lparr>rn_started_message := \<not> rn_detached r\<rparr>
            | Inl _ \<Rightarrow> runner_close_input r))"

definition read_allowance :: "runner \<Rightarrow> stream \<Rightarrow> usize" where
  "read_allowance r s =
     (let o1 = out_of r s
      in if out_closed o1 \<or> out_discarding o1 \<or> rn_gave_up r then 0
         else chunk_of (rn_limits r) - length (out_queue o1))"

definition runner_output :: "runner \<Rightarrow> stream \<Rightarrow> bytes \<Rightarrow> usize \<times> runner" where
  "runner_output r s bs =
     (let chunk = chunk_of (rn_limits r);
          o1 = out_of r s
      in if out_closed o1 \<or> rn_gave_up r then (0, r)
         else if out_discarding o1
         then (length bs, set_out r s (o1\<lparr>out_truncated := out_truncated o1 \<or> bs \<noteq> []\<rparr>))
         else (let n = min (length bs) (chunk - length (out_queue o1));
                   r = set_out r s (o1\<lparr>out_queue := out_queue o1 @ take n bs\<rparr>)
               in (n, runner_note_buffered r)))"

definition discarded :: "runner \<Rightarrow> stream \<Rightarrow> usize \<Rightarrow> runner" where
  "discarded r s n =
     (let o1 = out_of r s in set_out r s (o1\<lparr>out_truncated := out_truncated o1 \<or> n > 0\<rparr>))"

definition output_closed :: "runner \<Rightarrow> stream \<Rightarrow> runner" where
  "output_closed r s = set_out r s ((out_of r s)\<lparr>out_closed := True\<rparr>)"

definition output_failed :: "runner \<Rightarrow> stream \<Rightarrow> runner" where
  "output_failed r s = set_out r s ((out_of r s)\<lparr>out_closed := True, out_truncated := True\<rparr>)"

definition output_hung_up :: "runner \<Rightarrow> stream \<Rightarrow> runner" where
  "output_hung_up r s = set_out r s ((out_of r s)\<lparr>out_hung_up := True\<rparr>)"

definition pending_input :: "(bytes \<Rightarrow> usize) \<Rightarrow> runner \<Rightarrow> bytes" where
  "pending_input contiguous r =
     (if in_closed (rn_input r) then [] else inbox_front contiguous (in_inbox (rn_input r)))"

definition input_written :: "runner \<Rightarrow> usize \<Rightarrow> runner" where
  "input_written r n =
     (let i = rn_input r
      in if in_closed i then r
         else (let (freed, ib) = inbox_pop (in_inbox i) n
               in close_input_when_taken
                    (r\<lparr>rn_input := i\<lparr>in_inbox := ib,
                                      in_window := granted_free (in_window i) freed\<rparr>\<rparr>)))"

definition runner_input_closed :: "runner \<Rightarrow> runner" where
  "runner_input_closed r = runner_close_input r"

definition exited :: "runner \<Rightarrow> instant \<Rightarrow> status option \<Rightarrow> runner" where
  "exited r now st =
     (let r = runner_tick (r\<lparr>rn_timeout_at := None\<rparr>) now
      in if rn_exit r \<noteq> None \<or> rn_gave_up r then r
         else
           (let r = runner_close_input (r\<lparr>rn_exit := Some st\<rparr>);
                settlement = after now (tm_settlement (rn_timers r))
            in r\<lparr>rn_settle_request := True, rn_settling := SettlingRequested settlement,
                 rn_abandon_at :=
                   Option.bind settlement (\<lambda>at. after at (tm_grace (rn_timers r)))\<rparr>))"

definition settled :: "runner \<Rightarrow> settlement \<Rightarrow> runner" where
  "settled r res =
     (case rn_settling r of
        SettlingRequested _ \<Rightarrow>
          r\<lparr>rn_settling := (case res of SettlementSettled \<Rightarrow> SettlingSettled
                                       | SettlementFailed \<Rightarrow> SettlingFenced)\<rparr>
      | _ \<Rightarrow> r)"

definition runner_dropped :: "runner \<Rightarrow> instant \<Rightarrow> runner" where
  "runner_dropped r now = runner_detach r now Dropped"

definition runner_reset :: "runner \<Rightarrow> instant \<Rightarrow> runner" where
  "runner_reset r now = runner_detach r now CauseReset"

definition runner_disconnect :: "runner \<Rightarrow> instant \<Rightarrow> runner" where
  "runner_disconnect r now = runner_detach r now Disconnected"

definition runner_deadline :: "runner \<Rightarrow> instant option" where
  "runner_deadline r =
     (if rn_finished r then None
      else
        (let settlement = (case rn_settling r of SettlingRequested by_ \<Rightarrow> by_ | _ \<Rightarrow> None);
             give_up = (if is_cleaned_up r then None else rn_give_up_at r);
             abandon =
               (if awaits_launch r \<or>
                   rn_settling r = SettlingFenced \<and>
                   \<not> all2 (\<lambda>o1. out_closed o1 \<or> out_hung_up o1) (rn_outputs r)
                then rn_abandon_at r else None)
         in foldl earliest None
              [rn_timeout_at r, rn_grace_until r, settlement, give_up, abandon]))"

section \<open>Requests and messages of the runner\<close>

definition next_request :: "runner \<Rightarrow> request option \<times> runner" where
  "next_request r =
     (case rn_terminate_request r of
        Some c \<Rightarrow> (Some (Terminate c), r\<lparr>rn_terminate_request := None\<rparr>)
      | None \<Rightarrow>
          if out_discard_requested (out_of r Stdout)
          then (Some (Discard Stdout),
                set_out r Stdout ((out_of r Stdout)\<lparr>out_discard_requested := False\<rparr>))
          else if out_discard_requested (out_of r Stderr)
          then (Some (Discard Stderr),
                set_out r Stderr ((out_of r Stderr)\<lparr>out_discard_requested := False\<rparr>))
          else if in_close_requested (rn_input r)
          then (Some CloseInput, r\<lparr>rn_input := (rn_input r)\<lparr>in_close_requested := False\<rparr>\<rparr>)
          else if rn_settle_request r
          then (Some Settle, r\<lparr>rn_settle_request := False\<rparr>)
          else (None, r))"

definition runner_next_credit :: "bytes \<Rightarrow> runner \<Rightarrow> runner_message option \<times> bytes \<times> runner" where
  "runner_next_credit buffer r =
     (if \<not> input_accepts r then (None, buffer, r)
      else
        (let (grant, w) = granted_take_grant (in_window (rn_input r));
             r = r\<lparr>rn_input := (rn_input r)\<lparr>in_window := w\<rparr>\<rparr>
         in (map_option RunnerCredit grant, buffer, r)))"

text \<open>One round of the loop over the streams: the stream whose turn it is, if it can send.\<close>

definition next_output_turn :: "bytes \<Rightarrow> runner \<Rightarrow> runner_message option \<times> bytes \<times> runner" where
  "next_output_turn buffer r =
     (let s = at2 stream_all (rn_turn r);
          r = r\<lparr>rn_turn := 1 - rn_turn r\<rparr>;
          i = pool_of (rn_limits r) s;
          c = at2 (rn_credits r) i;
          o1 = out_of r s;
          wanted = min (min (length (out_queue o1)) (chunk_of (rn_limits r))) (length buffer);
          n = credit_sendable c wanted
      in if n > 0 then
           (let (_, queue, buffer) = queue_take (out_queue o1) buffer n;
                r = set_out r s (o1\<lparr>out_queue := queue\<rparr>);
                r = r\<lparr>rn_credits := put2 (rn_credits r) i (credit_spend c n)\<rparr>
            in (Some (RunnerOutput s n), buffer, r))
         else (None, buffer, r))"

definition next_output :: "bytes \<Rightarrow> runner \<Rightarrow> runner_message option \<times> bytes \<times> runner" where
  "next_output buffer r = or_next (next_output_turn buffer r) next_output_turn"

definition next_other :: "bytes \<Rightarrow> runner \<Rightarrow> runner_message option \<times> bytes \<times> runner" where
  "next_other buffer r =
     (if rn_started_message r then (Some RunnerStarted, buffer, r\<lparr>rn_started_message := False\<rparr>)
      else if in_closed_message (rn_input r)
      then (Some RunnerInputClosed, buffer,
            r\<lparr>rn_input := (rn_input r)\<lparr>in_closed_message := False\<rparr>\<rparr>)
      else if \<not> awaits_launch r then
        (if is_done (out_of r Stdout) \<and> \<not> out_ended (out_of r Stdout)
         then (Some (RunnerEnd Stdout), buffer,
               set_out r Stdout ((out_of r Stdout)\<lparr>out_ended := True\<rparr>))
         else if is_done (out_of r Stderr) \<and> \<not> out_ended (out_of r Stderr)
         then (Some (RunnerEnd Stderr), buffer,
               set_out r Stderr ((out_of r Stderr)\<lparr>out_ended := True\<rparr>))
         else next_output buffer r)
      else (None, buffer, r))"

text \<open>A message of a source, after which the runner notes whether it was credit of the input.\<close>

definition noting_credited ::
  "bool \<Rightarrow> runner_message option \<times> bytes \<times> runner \<Rightarrow> runner_message option \<times> bytes \<times> runner" where
  "noting_credited credited res =
     (case res of
        (Some m, buffer, r) \<Rightarrow> (Some m, buffer, r\<lparr>rn_credited := credited\<rparr>)
      | (None, buffer, r) \<Rightarrow> (None, buffer, r))"

definition next_sent :: "bytes \<Rightarrow> runner \<Rightarrow> runner_message option \<times> bytes \<times> runner" where
  "next_sent buffer r =
     (if rn_detached r then (None, buffer, r)
      else
        or_next
          (or_next
             (if rn_credited r then (None, buffer, r)
              else noting_credited True (runner_next_credit buffer r))
             (\<lambda>buffer r. noting_credited False (next_other buffer r)))
          (\<lambda>buffer r. noting_credited True (runner_next_credit buffer r)))"

definition runner_next_message ::
  "bytes \<Rightarrow> runner \<Rightarrow> runner_message option \<times> bytes \<times> runner" where
  "runner_next_message buffer r =
     (if rn_finished r then (None, buffer, r)
      else
        or_next (next_sent buffer r) (\<lambda>buffer r.
          case runner_outcome r of
            None \<Rightarrow> (None, buffer, r)
          | Some oc \<Rightarrow> (Some (RunnerTerminal oc), buffer, r\<lparr>rn_finished := True\<rparr>)))"

section \<open>What the internal steps leave alone\<close>

text \<open>
  The steps that the runner's timers and terminations take change neither its setup nor what it
  sends with: its credit, its turn, and whether it finished.
\<close>

lemma note_buffered_fields [simp]:
  "rn_key (runner_note_buffered r) = rn_key r" "rn_limits (runner_note_buffered r) = rn_limits r"
  "rn_timers (runner_note_buffered r) = rn_timers r"
  "rn_credits (runner_note_buffered r) = rn_credits r"
  "rn_turn (runner_note_buffered r) = rn_turn r"
  "rn_credited (runner_note_buffered r) = rn_credited r"
  "rn_finished (runner_note_buffered r) = rn_finished r"
  "rn_launch (runner_note_buffered r) = rn_launch r" "rn_exit (runner_note_buffered r) = rn_exit r"
  "rn_cause (runner_note_buffered r) = rn_cause r"
  "rn_settling (runner_note_buffered r) = rn_settling r"
  "rn_detached (runner_note_buffered r) = rn_detached r"
  "rn_gave_up (runner_note_buffered r) = rn_gave_up r"
  "rn_launch_abandoned (runner_note_buffered r) = rn_launch_abandoned r"
  "rn_terminated_at (runner_note_buffered r) = rn_terminated_at r"
  "rn_timeout_at (runner_note_buffered r) = rn_timeout_at r"
  "rn_grace_until (runner_note_buffered r) = rn_grace_until r"
  "rn_give_up_at (runner_note_buffered r) = rn_give_up_at r"
  "rn_abandon_at (runner_note_buffered r) = rn_abandon_at r"
  "rn_started_message (runner_note_buffered r) = rn_started_message r"
  "rn_terminate_request (runner_note_buffered r) = rn_terminate_request r"
  "rn_settle_request (runner_note_buffered r) = rn_settle_request r"
  "rn_outputs (runner_note_buffered r) = rn_outputs r"
  "rn_input (runner_note_buffered r) = rn_input r"
  by (simp_all add: runner_note_buffered_def)

lemma close_input_when_taken_fields [simp]:
  "rn_key (close_input_when_taken r) = rn_key r"
  "rn_limits (close_input_when_taken r) = rn_limits r"
  "rn_timers (close_input_when_taken r) = rn_timers r"
  "rn_credits (close_input_when_taken r) = rn_credits r"
  "rn_turn (close_input_when_taken r) = rn_turn r"
  "rn_credited (close_input_when_taken r) = rn_credited r"
  "rn_finished (close_input_when_taken r) = rn_finished r"
  "rn_high_water (close_input_when_taken r) = rn_high_water r"
  "rn_launch (close_input_when_taken r) = rn_launch r"
  "rn_exit (close_input_when_taken r) = rn_exit r"
  "rn_cause (close_input_when_taken r) = rn_cause r"
  "rn_settling (close_input_when_taken r) = rn_settling r"
  "rn_detached (close_input_when_taken r) = rn_detached r"
  "rn_gave_up (close_input_when_taken r) = rn_gave_up r"
  "rn_launch_abandoned (close_input_when_taken r) = rn_launch_abandoned r"
  "rn_terminated_at (close_input_when_taken r) = rn_terminated_at r"
  "rn_timeout_at (close_input_when_taken r) = rn_timeout_at r"
  "rn_grace_until (close_input_when_taken r) = rn_grace_until r"
  "rn_give_up_at (close_input_when_taken r) = rn_give_up_at r"
  "rn_abandon_at (close_input_when_taken r) = rn_abandon_at r"
  "rn_started_message (close_input_when_taken r) = rn_started_message r"
  "rn_terminate_request (close_input_when_taken r) = rn_terminate_request r"
  "rn_settle_request (close_input_when_taken r) = rn_settle_request r"
  "rn_outputs (close_input_when_taken r) = rn_outputs r"
  by (simp_all add: close_input_when_taken_def Let_def)

lemma close_input_fields [simp]:
  "rn_key (runner_close_input r) = rn_key r" "rn_limits (runner_close_input r) = rn_limits r"
  "rn_timers (runner_close_input r) = rn_timers r"
  "rn_credits (runner_close_input r) = rn_credits r"
  "rn_turn (runner_close_input r) = rn_turn r" "rn_credited (runner_close_input r) = rn_credited r"
  "rn_finished (runner_close_input r) = rn_finished r"
  "rn_high_water (runner_close_input r) = rn_high_water r"
  "rn_launch (runner_close_input r) = rn_launch r" "rn_exit (runner_close_input r) = rn_exit r"
  "rn_cause (runner_close_input r) = rn_cause r"
  "rn_settling (runner_close_input r) = rn_settling r"
  "rn_detached (runner_close_input r) = rn_detached r"
  "rn_gave_up (runner_close_input r) = rn_gave_up r"
  "rn_launch_abandoned (runner_close_input r) = rn_launch_abandoned r"
  "rn_terminated_at (runner_close_input r) = rn_terminated_at r"
  "rn_timeout_at (runner_close_input r) = rn_timeout_at r"
  "rn_grace_until (runner_close_input r) = rn_grace_until r"
  "rn_give_up_at (runner_close_input r) = rn_give_up_at r"
  "rn_abandon_at (runner_close_input r) = rn_abandon_at r"
  "rn_started_message (runner_close_input r) = rn_started_message r"
  "rn_terminate_request (runner_close_input r) = rn_terminate_request r"
  "rn_settle_request (runner_close_input r) = rn_settle_request r"
  "rn_outputs (runner_close_input r) = rn_outputs r"
  by (simp_all add: runner_close_input_def Let_def)

lemma end_grace_fields [simp]:
  "rn_key (runner_end_grace r) = rn_key r" "rn_limits (runner_end_grace r) = rn_limits r"
  "rn_timers (runner_end_grace r) = rn_timers r" "rn_credits (runner_end_grace r) = rn_credits r"
  "rn_turn (runner_end_grace r) = rn_turn r" "rn_credited (runner_end_grace r) = rn_credited r"
  "rn_finished (runner_end_grace r) = rn_finished r"
  "rn_high_water (runner_end_grace r) = rn_high_water r"
  "rn_launch (runner_end_grace r) = rn_launch r" "rn_exit (runner_end_grace r) = rn_exit r"
  "rn_cause (runner_end_grace r) = rn_cause r" "rn_settling (runner_end_grace r) = rn_settling r"
  "rn_detached (runner_end_grace r) = rn_detached r"
  "rn_gave_up (runner_end_grace r) = rn_gave_up r"
  "rn_launch_abandoned (runner_end_grace r) = rn_launch_abandoned r"
  "rn_terminated_at (runner_end_grace r) = rn_terminated_at r"
  "rn_timeout_at (runner_end_grace r) = rn_timeout_at r"
  "rn_give_up_at (runner_end_grace r) = rn_give_up_at r"
  "rn_abandon_at (runner_end_grace r) = rn_abandon_at r"
  "rn_started_message (runner_end_grace r) = rn_started_message r"
  "rn_terminate_request (runner_end_grace r) = rn_terminate_request r"
  "rn_settle_request (runner_end_grace r) = rn_settle_request r"
  "rn_input (runner_end_grace r) = rn_input r"
  by (simp_all add: runner_end_grace_def)

lemma give_up_fields [simp]:
  "rn_key (runner_give_up r) = rn_key r" "rn_limits (runner_give_up r) = rn_limits r"
  "rn_timers (runner_give_up r) = rn_timers r" "rn_credits (runner_give_up r) = rn_credits r"
  "rn_turn (runner_give_up r) = rn_turn r" "rn_credited (runner_give_up r) = rn_credited r"
  "rn_finished (runner_give_up r) = rn_finished r"
  "rn_high_water (runner_give_up r) = rn_high_water r"
  "rn_launch (runner_give_up r) = rn_launch r" "rn_cause (runner_give_up r) = rn_cause r"
  "rn_detached (runner_give_up r) = rn_detached r"
  "rn_launch_abandoned (runner_give_up r) = rn_launch_abandoned r"
  "rn_input (runner_give_up r) = rn_input r"
  by (simp_all add: runner_give_up_def Let_def)

lemma abandon_launch_fields [simp]:
  "rn_key (abandon_launch r) = rn_key r" "rn_limits (abandon_launch r) = rn_limits r"
  "rn_timers (abandon_launch r) = rn_timers r" "rn_credits (abandon_launch r) = rn_credits r"
  "rn_turn (abandon_launch r) = rn_turn r" "rn_credited (abandon_launch r) = rn_credited r"
  "rn_finished (abandon_launch r) = rn_finished r"
  "rn_high_water (abandon_launch r) = rn_high_water r"
  "rn_launch (abandon_launch r) = rn_launch r" "rn_exit (abandon_launch r) = rn_exit r"
  "rn_cause (abandon_launch r) = rn_cause r" "rn_detached (abandon_launch r) = rn_detached r"
  "rn_input (abandon_launch r) = rn_input r" "rn_outputs (abandon_launch r) = rn_outputs r"
  "rn_gave_up (abandon_launch r) = rn_gave_up r"
  by (simp_all add: abandon_launch_def)

lemma abandon_open_streams_fields [simp]:
  "rn_key (abandon_open_streams r) = rn_key r" "rn_limits (abandon_open_streams r) = rn_limits r"
  "rn_timers (abandon_open_streams r) = rn_timers r"
  "rn_credits (abandon_open_streams r) = rn_credits r"
  "rn_turn (abandon_open_streams r) = rn_turn r"
  "rn_credited (abandon_open_streams r) = rn_credited r"
  "rn_finished (abandon_open_streams r) = rn_finished r"
  "rn_high_water (abandon_open_streams r) = rn_high_water r"
  "rn_launch (abandon_open_streams r) = rn_launch r" "rn_exit (abandon_open_streams r) = rn_exit r"
  "rn_cause (abandon_open_streams r) = rn_cause r"
  "rn_detached (abandon_open_streams r) = rn_detached r"
  "rn_input (abandon_open_streams r) = rn_input r"
  "rn_settling (abandon_open_streams r) = rn_settling r"
  "rn_gave_up (abandon_open_streams r) = rn_gave_up r"
  by (simp_all add: abandon_open_streams_def)

lemma terminate_fields [simp]:
  "rn_key (runner_terminate r now c) = rn_key r"
  "rn_limits (runner_terminate r now c) = rn_limits r"
  "rn_timers (runner_terminate r now c) = rn_timers r"
  "rn_credits (runner_terminate r now c) = rn_credits r"
  "rn_turn (runner_terminate r now c) = rn_turn r"
  "rn_credited (runner_terminate r now c) = rn_credited r"
  "rn_finished (runner_terminate r now c) = rn_finished r"
  "rn_high_water (runner_terminate r now c) = rn_high_water r"
  "rn_launch (runner_terminate r now c) = rn_launch r"
  "rn_exit (runner_terminate r now c) = rn_exit r"
  "rn_detached (runner_terminate r now c) = rn_detached r"
  "rn_settling (runner_terminate r now c) = rn_settling r"
  "rn_gave_up (runner_terminate r now c) = rn_gave_up r"
  "rn_launch_abandoned (runner_terminate r now c) = rn_launch_abandoned r"
  "rn_started_message (runner_terminate r now c) = rn_started_message r"
  by (simp_all add: runner_terminate_def Let_def)

lemma fire_timeout_fields [simp]:
  "rn_key (fire_timeout now r) = rn_key r" "rn_limits (fire_timeout now r) = rn_limits r"
  "rn_timers (fire_timeout now r) = rn_timers r" "rn_credits (fire_timeout now r) = rn_credits r"
  "rn_turn (fire_timeout now r) = rn_turn r" "rn_credited (fire_timeout now r) = rn_credited r"
  "rn_finished (fire_timeout now r) = rn_finished r"
  "rn_high_water (fire_timeout now r) = rn_high_water r"
  "rn_launch (fire_timeout now r) = rn_launch r" "rn_exit (fire_timeout now r) = rn_exit r"
  "rn_detached (fire_timeout now r) = rn_detached r"
  "rn_settling (fire_timeout now r) = rn_settling r"
  "rn_gave_up (fire_timeout now r) = rn_gave_up r"
  by (simp_all add: fire_timeout_def)

lemma fire_grace_fields [simp]:
  "rn_key (fire_grace now r) = rn_key r" "rn_limits (fire_grace now r) = rn_limits r"
  "rn_timers (fire_grace now r) = rn_timers r" "rn_credits (fire_grace now r) = rn_credits r"
  "rn_turn (fire_grace now r) = rn_turn r" "rn_credited (fire_grace now r) = rn_credited r"
  "rn_finished (fire_grace now r) = rn_finished r"
  "rn_high_water (fire_grace now r) = rn_high_water r"
  "rn_launch (fire_grace now r) = rn_launch r" "rn_exit (fire_grace now r) = rn_exit r"
  "rn_detached (fire_grace now r) = rn_detached r" "rn_settling (fire_grace now r) = rn_settling r"
  "rn_gave_up (fire_grace now r) = rn_gave_up r" "rn_input (fire_grace now r) = rn_input r"
  by (simp_all add: fire_grace_def)

lemma fire_settlement_fields [simp]:
  "rn_key (fire_settlement now r) = rn_key r" "rn_limits (fire_settlement now r) = rn_limits r"
  "rn_timers (fire_settlement now r) = rn_timers r"
  "rn_credits (fire_settlement now r) = rn_credits r"
  "rn_turn (fire_settlement now r) = rn_turn r"
  "rn_credited (fire_settlement now r) = rn_credited r"
  "rn_finished (fire_settlement now r) = rn_finished r"
  "rn_high_water (fire_settlement now r) = rn_high_water r"
  "rn_launch (fire_settlement now r) = rn_launch r" "rn_exit (fire_settlement now r) = rn_exit r"
  "rn_detached (fire_settlement now r) = rn_detached r"
  "rn_gave_up (fire_settlement now r) = rn_gave_up r"
  "rn_input (fire_settlement now r) = rn_input r"
  "rn_outputs (fire_settlement now r) = rn_outputs r"
  by (simp_all add: fire_settlement_def split: settling.split)

lemma fire_give_up_fields [simp]:
  "rn_key (fire_give_up now r) = rn_key r" "rn_limits (fire_give_up now r) = rn_limits r"
  "rn_timers (fire_give_up now r) = rn_timers r" "rn_credits (fire_give_up now r) = rn_credits r"
  "rn_turn (fire_give_up now r) = rn_turn r" "rn_credited (fire_give_up now r) = rn_credited r"
  "rn_finished (fire_give_up now r) = rn_finished r"
  "rn_high_water (fire_give_up now r) = rn_high_water r"
  "rn_launch (fire_give_up now r) = rn_launch r" "rn_detached (fire_give_up now r) = rn_detached r"
  "rn_input (fire_give_up now r) = rn_input r"
  by (simp_all add: fire_give_up_def)

lemma fire_abandon_fields [simp]:
  "rn_key (fire_abandon now r) = rn_key r" "rn_limits (fire_abandon now r) = rn_limits r"
  "rn_timers (fire_abandon now r) = rn_timers r" "rn_credits (fire_abandon now r) = rn_credits r"
  "rn_turn (fire_abandon now r) = rn_turn r" "rn_credited (fire_abandon now r) = rn_credited r"
  "rn_finished (fire_abandon now r) = rn_finished r"
  "rn_high_water (fire_abandon now r) = rn_high_water r"
  "rn_launch (fire_abandon now r) = rn_launch r" "rn_exit (fire_abandon now r) = rn_exit r"
  "rn_detached (fire_abandon now r) = rn_detached r"
  "rn_gave_up (fire_abandon now r) = rn_gave_up r"
  "rn_input (fire_abandon now r) = rn_input r"
  by (simp_all add: fire_abandon_def Let_def)

lemma runner_tick_fields [simp]:
  "rn_key (runner_tick r now) = rn_key r" "rn_limits (runner_tick r now) = rn_limits r"
  "rn_timers (runner_tick r now) = rn_timers r" "rn_credits (runner_tick r now) = rn_credits r"
  "rn_turn (runner_tick r now) = rn_turn r" "rn_credited (runner_tick r now) = rn_credited r"
  "rn_finished (runner_tick r now) = rn_finished r"
  "rn_high_water (runner_tick r now) = rn_high_water r"
  "rn_launch (runner_tick r now) = rn_launch r" "rn_detached (runner_tick r now) = rn_detached r"
  by (simp_all add: runner_tick_def)

lemma runner_detach_fields [simp]:
  "rn_key (runner_detach r now c) = rn_key r" "rn_limits (runner_detach r now c) = rn_limits r"
  "rn_timers (runner_detach r now c) = rn_timers r"
  "rn_credits (runner_detach r now c) = rn_credits r"
  "rn_turn (runner_detach r now c) = rn_turn r"
  "rn_credited (runner_detach r now c) = rn_credited r"
  "rn_finished (runner_detach r now c) = rn_finished r"
  "rn_high_water (runner_detach r now c) = rn_high_water r"
  "rn_launch (runner_detach r now c) = rn_launch r"
  by (simp_all add: runner_detach_def Let_def)

end
