(* ===== verification/Exec_Runner_Inv.thy ===== *)
theory Exec_Runner_Inv
  imports Exec_Runner
begin

text \<open>
  The invariant of the runner, which every call keeps whatever the peer sends and whatever the
  adapter reports: its queues hold at most a chunk, its input at most its window, a stream that
  ended holds nothing more, and the high-water mark stays within the memory bound.
\<close>

section \<open>Calls\<close>

datatype runner_call =
    RCallCredit exec_key pool u32
  | RCallInput exec_key bytes
  | RCallEndInput exec_key
  | RCallCancel instant exec_key cause
  | RCallLaunched "(launch_failure, unit) result"
  | RCallOutput stream bytes
  | RCallDiscarded stream usize
  | RCallOutputClosed stream
  | RCallOutputFailed stream
  | RCallOutputHungUp stream
  | RCallInputWritten usize
  | RCallInputClosed
  | RCallExited instant "status option"
  | RCallSettled settlement
  | RCallDropped instant
  | RCallReset instant
  | RCallDisconnect instant
  | RCallTick instant
  | RCallNextRequest
  | RCallNextMessage bytes

fun runner_apply :: "runner_call \<Rightarrow> runner \<Rightarrow> runner" where
  "runner_apply (RCallCredit key p n) r = snd (runner_credit r key p n)"
| "runner_apply (RCallInput key bs) r = snd (runner_input r key bs)"
| "runner_apply (RCallEndInput key) r = snd (runner_end_input r key)"
| "runner_apply (RCallCancel now key c) r = snd (runner_cancel r now key c)"
| "runner_apply (RCallLaunched res) r = runner_launched r res"
| "runner_apply (RCallOutput s bs) r = snd (runner_output r s bs)"
| "runner_apply (RCallDiscarded s n) r = discarded r s n"
| "runner_apply (RCallOutputClosed s) r = output_closed r s"
| "runner_apply (RCallOutputFailed s) r = output_failed r s"
| "runner_apply (RCallOutputHungUp s) r = output_hung_up r s"
| "runner_apply (RCallInputWritten n) r = input_written r n"
| "runner_apply RCallInputClosed r = runner_input_closed r"
| "runner_apply (RCallExited now st) r = exited r now st"
| "runner_apply (RCallSettled res) r = settled r res"
| "runner_apply (RCallDropped now) r = runner_dropped r now"
| "runner_apply (RCallReset now) r = runner_reset r now"
| "runner_apply (RCallDisconnect now) r = runner_disconnect r now"
| "runner_apply (RCallTick now) r = runner_tick r now"
| "runner_apply RCallNextRequest r = snd (next_request r)"
| "runner_apply (RCallNextMessage buffer) r = snd (snd (runner_next_message buffer r))"

definition runner_run :: "runner_call list \<Rightarrow> runner \<Rightarrow> runner" where
  "runner_run calls r = fold runner_apply calls r"

section \<open>The invariant\<close>

definition output_ok :: "limits \<Rightarrow> run_output \<Rightarrow> bool" where
  "output_ok l o1 \<longleftrightarrow> length (out_queue o1) \<le> chunk_of l \<and> (out_ended o1 \<longrightarrow> is_done o1)"

definition input_ok :: "limits \<Rightarrow> run_input \<Rightarrow> bool" where
  "input_ok l i \<longleftrightarrow>
     inbox_ok (lim_input l) (chunk_of l) (in_inbox i) \<and> gr_window (in_window i) = lim_input l \<and>
     pool.bounded (in_window i) (inbox_units (in_inbox i))"

definition credit_ok :: "limits \<Rightarrow> credit \<Rightarrow> bool" where
  "credit_ok l c \<longleftrightarrow> cr_window c = lim_output l \<and> unat (cr_available c) \<le> unat (win_size (lim_output l))"

definition runner_inv :: "runner \<Rightarrow> bool" where
  "runner_inv r \<longleftrightarrow>
     all2 (output_ok (rn_limits r)) (rn_outputs r) \<and> input_ok (rn_limits r) (rn_input r) \<and>
     all2 (credit_ok (rn_limits r)) (rn_credits r) \<and> rn_turn r < 2 \<and>
     (rn_started_message r \<longrightarrow> rn_launch r \<noteq> None) \<and>
     runner_buffered r \<le> rn_high_water r \<and> rn_high_water r \<le> runner_memory_bound r"

lemma runner_inv_upd [simp]:
  "runner_inv (r\<lparr>rn_key := x1\<rparr>) = runner_inv r"
  "runner_inv (r\<lparr>rn_timers := x2\<rparr>) = runner_inv r"
  "runner_inv (r\<lparr>rn_exit := x5\<rparr>) = runner_inv r"
  "runner_inv (r\<lparr>rn_cause := x6\<rparr>) = runner_inv r"
  "runner_inv (r\<lparr>rn_terminate_request := x7\<rparr>) = runner_inv r"
  "runner_inv (r\<lparr>rn_settle_request := x8\<rparr>) = runner_inv r"
  "runner_inv (r\<lparr>rn_timeout_at := x9\<rparr>) = runner_inv r"
  "runner_inv (r\<lparr>rn_terminated_at := y1\<rparr>) = runner_inv r"
  "runner_inv (r\<lparr>rn_grace_until := y2\<rparr>) = runner_inv r"
  "runner_inv (r\<lparr>rn_give_up_at := y3\<rparr>) = runner_inv r"
  "runner_inv (r\<lparr>rn_abandon_at := y4\<rparr>) = runner_inv r"
  "runner_inv (r\<lparr>rn_gave_up := y5\<rparr>) = runner_inv r"
  "runner_inv (r\<lparr>rn_launch_abandoned := y6\<rparr>) = runner_inv r"
  "runner_inv (r\<lparr>rn_detached := y7\<rparr>) = runner_inv r"
  "runner_inv (r\<lparr>rn_credited := y8\<rparr>) = runner_inv r"
  "runner_inv (r\<lparr>rn_settling := y9\<rparr>) = runner_inv r"
  "runner_inv (r\<lparr>rn_finished := z1\<rparr>) = runner_inv r"
  by (simp_all add: runner_inv_def runner_buffered_def runner_memory_bound_def)

lemma runner_inv_launch:
  "runner_inv r \<Longrightarrow> runner_inv (r\<lparr>rn_launch := Some res\<rparr>)"
  "runner_inv r \<Longrightarrow> runner_inv (r\<lparr>rn_started_message := False\<rparr>)"
  "runner_inv r \<Longrightarrow> rn_launch r \<noteq> None \<Longrightarrow> runner_inv (r\<lparr>rn_started_message := b\<rparr>)"
  by (simp_all add: runner_inv_def runner_buffered_def runner_memory_bound_def)

text \<open>The bytes that the runner holds fit its bound, which no addition saturates.\<close>

lemma runner_memory_bound_eq:
  "runner_memory_bound r = 2 * chunk_of (rn_limits r) + input_bytes (rn_limits r)"
proof -
  let ?c = "chunk_of (rn_limits r)" and ?w = "lim_input (rn_limits r)"
  have c: "?c \<le> 2 ^ 32 - 1" and w: "unat (win_size ?w) \<le> 2 ^ 32 - 1"
    using chunk_of_bound [of "rn_limits r"] unat_u32_bound [of "win_size ?w"] by simp_all
  have "unat (win_size ?w) * ?c \<le> (2 ^ 32 - 1) * (2 ^ 32 - 1)"
    using c w by (rule mult_le_mono [rotated])
  with c w show ?thesis
    by (cases "win_unit ?w")
      (simp_all add: runner_memory_bound_def input_bytes_def bytes_with_def saturating_add_def
        saturating_mul_def usize_max_def)
qed

lemma runner_buffered_bound:
  assumes "all2 (output_ok (rn_limits r)) (rn_outputs r)" and "input_ok (rn_limits r) (rn_input r)"
  shows "runner_buffered r \<le> runner_memory_bound r"
proof -
  from assms(2) have "inbox_units (in_inbox (rn_input r)) \<le> unat (win_size (lim_input (rn_limits r)))"
    by (auto simp: input_ok_def pool.bounded_def)
  with assms(2) have "inbox_len (in_inbox (rn_input r)) \<le> input_bytes (rn_limits r)"
    unfolding input_bytes_def by (intro inbox_ok_len [OF _ _ chunk_of_bound]) (simp_all add: input_ok_def)
  with assms(1) show ?thesis
    by (simp add: runner_buffered_def runner_memory_bound_eq all2_def output_ok_def sum2_def)
qed

lemma runner_inv_note:
  assumes "all2 (output_ok (rn_limits r)) (rn_outputs r)" "input_ok (rn_limits r) (rn_input r)"
    "all2 (credit_ok (rn_limits r)) (rn_credits r)" "rn_turn r < 2"
    "rn_started_message r \<longrightarrow> rn_launch r \<noteq> None" "rn_high_water r \<le> runner_memory_bound r"
  shows "runner_inv (runner_note_buffered r)"
  using assms runner_buffered_bound [OF assms(1,2)]
  by (simp add: runner_inv_def runner_note_buffered_def runner_buffered_def runner_memory_bound_def)

text \<open>A call that changes one output, and queues nothing in it.\<close>

lemma runner_inv_set_out:
  assumes "runner_inv r" and "output_ok (rn_limits r) o1"
    and "length (out_queue o1) \<le> length (out_queue (out_of r s))"
  shows "runner_inv (set_out r s o1)"
  using assms
  by (cases s) (auto simp: runner_inv_def set_out_def out_of_def runner_buffered_def at2_def
    runner_memory_bound_def sum2_def all2_put2)

lemma runner_inv_outputs:
  assumes "runner_inv r"
    and "\<And>o1. output_ok (rn_limits r) o1 \<Longrightarrow>
           output_ok (rn_limits r) (f o1) \<and> length (out_queue (f o1)) \<le> length (out_queue o1)"
  shows "runner_inv (r\<lparr>rn_outputs := map2 f (rn_outputs r)\<rparr>)"
proof -
  have "output_ok (rn_limits r) (elem0 (rn_outputs r))" "output_ok (rn_limits r) (elem1 (rn_outputs r))"
    using assms(1) by (simp_all add: runner_inv_def all2_def)
  from assms(2) [OF this(1)] assms(2) [OF this(2)] assms(1) show ?thesis
    by (simp add: runner_inv_def runner_buffered_def runner_memory_bound_def sum2_def all2_def)
qed

lemma runner_inv_input:
  assumes "runner_inv r" and "input_ok (rn_limits r) i"
    and "inbox_len (in_inbox i) \<le> inbox_len (in_inbox (rn_input r))"
  shows "runner_inv (r\<lparr>rn_input := i\<rparr>)"
  using assms by (simp add: runner_inv_def runner_buffered_def runner_memory_bound_def)

lemma runner_inv_outD: "runner_inv r \<Longrightarrow> output_ok (rn_limits r) (out_of r s)"
  by (simp add: runner_inv_def out_of_def all2_at2)

lemma runner_inv_inD: "runner_inv r \<Longrightarrow> input_ok (rn_limits r) (rn_input r)"
  by (simp add: runner_inv_def)

lemma input_ok_upd [simp]:
  "input_ok l (i\<lparr>in_peer_ended := a\<rparr>) = input_ok l i"
  "input_ok l (i\<lparr>in_closed := b\<rparr>) = input_ok l i"
  "input_ok l (i\<lparr>in_close_requested := c\<rparr>) = input_ok l i"
  "input_ok l (i\<lparr>in_closed_message := d\<rparr>) = input_ok l i"
  by (simp_all add: input_ok_def)

lemma input_ok_units: "input_ok l i \<Longrightarrow> inbox_units (in_inbox i) < 2 ^ 32"
  using unat_u32_bound [of "win_size (lim_input l)"] by (auto simp: input_ok_def pool.bounded_def)

lemma input_ok_clear:
  assumes "input_ok l i" "in_inbox j = snd (inbox_clear (in_inbox i))" "in_window j = in_window i"
  shows "input_ok l j"
  using inbox_ok_clear [OF _ input_ok_units [OF assms(1)]] assms pool.bounded_less
  by (auto simp: input_ok_def)

lemma drop_queue_ok [simp]:
  "output_ok l o1 \<Longrightarrow> output_ok l (drop_queue o1)" "out_queue (drop_queue o1) = []"
  "out_closed (drop_queue o1) = out_closed o1" "out_ended (drop_queue o1) = out_ended o1"
  "out_discarding (drop_queue o1) = out_discarding o1"
  by (simp_all add: output_ok_def drop_queue_def is_done_def Let_def)

section \<open>Every call keeps the invariant\<close>

lemma inv_close_input_when_taken: "runner_inv r \<Longrightarrow> runner_inv (close_input_when_taken r)"
  by (auto simp: close_input_when_taken_def Let_def runner_inv_inD intro!: runner_inv_input)

lemma inv_close_input: "runner_inv r \<Longrightarrow> runner_inv (runner_close_input r)"
  by (auto simp: runner_close_input_def Let_def inbox_len_def
      intro!: runner_inv_input input_ok_clear [OF runner_inv_inD])

lemma inv_end_grace: "runner_inv r \<Longrightarrow> runner_inv (runner_end_grace r)"
  unfolding runner_end_grace_def
  by (intro runner_inv_outputs [of "r\<lparr>rn_grace_until := None\<rparr>", simplified])
    (auto simp: end_grace_output_def output_ok_def is_done_def Let_def)

lemma inv_terminate: "runner_inv r \<Longrightarrow> runner_inv (runner_terminate r now c)"
  by (simp add: runner_terminate_def Let_def inv_close_input inv_end_grace)

lemma inv_give_up: "runner_inv r \<Longrightarrow> runner_inv (runner_give_up r)"
  unfolding runner_give_up_def Let_def
  using runner_inv_outputs [of "r\<lparr>rn_give_up_at := None, rn_grace_until := None, rn_gave_up := True\<rparr>"
      give_up_output]
  by (auto simp: give_up_output_def output_ok_def is_done_def Let_def)

lemma inv_abandon_launch: "runner_inv r \<Longrightarrow> runner_inv (abandon_launch r)"
  by (simp add: abandon_launch_def)

lemma inv_abandon_open_streams: "runner_inv r \<Longrightarrow> runner_inv (abandon_open_streams r)"
  using runner_inv_outputs [of "r\<lparr>rn_abandon_at := None\<rparr>" abandon_output]
  by (auto simp: abandon_open_streams_def abandon_output_def output_ok_def is_done_def Let_def)

lemma inv_fire:
  assumes "runner_inv r"
  shows "runner_inv (fire_timeout now r)" "runner_inv (fire_grace now r)"
    "runner_inv (fire_settlement now r)" "runner_inv (fire_give_up now r)"
    "runner_inv (fire_abandon now r)"
  using assms
  by (simp_all add: fire_timeout_def fire_grace_def fire_settlement_def fire_give_up_def
      fire_abandon_def Let_def inv_terminate inv_end_grace inv_give_up inv_abandon_launch
      inv_abandon_open_streams split: settling.split)

lemma inv_tick: "runner_inv r \<Longrightarrow> runner_inv (runner_tick r now)"
  by (simp add: runner_tick_def inv_fire)

lemma inv_detach: "runner_inv r \<Longrightarrow> runner_inv (runner_detach r now c)"
  using inv_terminate [OF inv_tick, of r now now c]
    runner_inv_inD [OF inv_terminate [OF inv_tick], of r now now c]
  by (auto simp: runner_detach_def Let_def inv_tick runner_inv_inD intro!: inv_end_grace runner_inv_input runner_inv_launch)

lemma inv_credit:
  assumes inv: "runner_inv r"
  shows "runner_inv (snd (runner_credit r key p n))"
proof -
  have "credit_ok (rn_limits r) c" if "credit_grant (at2 (rn_credits r) i) n = Inr c" for c i
    using that credit_grant_available [OF that] inv
    by (auto simp: credit_grant_Inr credit_ok_def runner_inv_def dest!: all2_at2 [of _ _ i])
  with inv show ?thesis
    unfolding runner_credit_def
    by (intro admitted_inv [where P = runner_inv])
      (auto simp: runner_inv_def runner_buffered_def runner_memory_bound_def all2_put2
        split: sum.splits)
qed

lemma input_ok_charge:
  assumes "input_ok l i" and "0 < length bs" "length bs \<le> chunk_of l"
    and w: "granted_charge (in_window i) (length bs) = Inr w"
  shows "input_ok l (i\<lparr>in_window := w\<rparr>) \<and>
         input_ok l (i\<lparr>in_window := w, in_inbox := inbox_push (in_inbox i) bs\<rparr>)"
proof -
  have n: "length bs < 2 ^ 32"
    using assms(3) chunk_of_bound [of l] by simp
  from assms(1) have ok: "inbox_ok (lim_input l) (chunk_of l) (in_inbox i)"
    "gr_window (in_window i) = lim_input l" "pool.bounded (in_window i) (inbox_units (in_inbox i))"
    by (simp_all add: input_ok_def)
  have b: "pool.bounded w (inbox_units (inbox_push (in_inbox i) bs))"
    using pool.bounded_charge [OF ok(3) n w] ok(1,2) by (simp add: inbox_push_cost inbox_ok_def)
  moreover have "pool.bounded w (inbox_units (in_inbox i))"
    using b by (rule pool.bounded_less) (simp add: inbox_push_cost)
  moreover have "gr_window w = lim_input l"
    using w ok(2) by (auto simp: granted_charge_Inr)
  moreover have "inbox_ok (lim_input l) (chunk_of l) (inbox_push (in_inbox i) bs)"
    using assms(2,3) by (intro inbox_ok_push ok) auto
  ultimately show ?thesis
    using ok(1) by (simp add: input_ok_def)
qed

lemma inv_input:
  assumes inv: "runner_inv r"
  shows "runner_inv (snd (runner_input r key bs))"
proof -
  {
    fix w
    assume "0 < length bs" "length bs \<le> chunk_of (rn_limits r)"
      and "granted_charge (in_window (rn_input r)) (length bs) = Inr w"
    note ok = input_ok_charge [OF runner_inv_inD [OF inv] this]
    have "runner_inv (r\<lparr>rn_input := (rn_input r)\<lparr>in_window := w\<rparr>\<rparr>)"
      using ok inv by (intro runner_inv_input) auto
    moreover have "runner_inv (runner_note_buffered (r\<lparr>rn_input := (rn_input r)
        \<lparr>in_window := w, in_inbox := inbox_push (in_inbox (rn_input r)) bs\<rparr>\<rparr>))"
      using ok inv by (intro runner_inv_note) (auto simp: runner_inv_def runner_memory_bound_def)
    ultimately have "runner_inv (r\<lparr>rn_input := (rn_input r)\<lparr>in_window := w\<rparr>\<rparr>)"
      "runner_inv (runner_note_buffered (r\<lparr>rn_input := (rn_input r)
        \<lparr>in_window := w, in_inbox := inbox_push (in_inbox (rn_input r)) bs\<rparr>\<rparr>))"
      by blast+
  }
  with inv show ?thesis
    unfolding runner_input_def by (intro admitted_inv [where P = runner_inv]) (auto simp: Let_def split: sum.splits)
qed

lemma inv_end_input: "runner_inv r \<Longrightarrow> runner_inv (snd (runner_end_input r key))"
  unfolding runner_end_input_def
  by (intro admitted_inv [where P = runner_inv])
    (auto simp: Let_def runner_inv_inD intro!: runner_inv_input inv_close_input_when_taken)

lemma inv_cancel: "runner_inv r \<Longrightarrow> runner_inv (snd (runner_cancel r now key c))"
  by (auto simp: runner_cancel_def admitted_def Let_def inv_tick inv_terminate split: sum.split)

lemma inv_launched: "runner_inv r \<Longrightarrow> runner_inv (runner_launched r res)"
  by (simp add: runner_launched_def Let_def inv_close_input runner_inv_launch split: sum.split)

lemma inv_output: 
  assumes inv: "runner_inv r"
  shows "runner_inv (snd (runner_output r s bs))"
proof -
  let ?o = "out_of r s" and ?n = "min (length bs) (chunk_of (rn_limits r) - length (out_queue (out_of r s)))"
  note ok = runner_inv_outD [OF inv, of s]
  have "output_ok (rn_limits r) (?o\<lparr>out_queue := out_queue ?o @ take ?n bs\<rparr>)" if "\<not> out_closed ?o"
    using ok that by (auto simp: output_ok_def is_done_def)
  with inv have "runner_inv (runner_note_buffered (set_out r s (?o\<lparr>out_queue := out_queue ?o @ take ?n bs\<rparr>)))"
    if "\<not> out_closed ?o"
    using that
    by (intro runner_inv_note) (auto simp: runner_inv_def set_out_def runner_memory_bound_def all2_put2)
  moreover have "runner_inv (set_out r s (?o\<lparr>out_truncated := t\<rparr>))" for t
    using inv ok by (intro runner_inv_set_out) (auto simp: output_ok_def is_done_def)
  ultimately show ?thesis
    using inv by (auto simp: runner_output_def Let_def)
qed

lemma inv_out_flags:
  assumes "runner_inv r"
  shows "runner_inv (discarded r s n)" "runner_inv (output_closed r s)"
    "runner_inv (output_failed r s)" "runner_inv (output_hung_up r s)"
  using assms runner_inv_outD [OF assms, of s]
  by (auto simp: discarded_def output_closed_def output_failed_def output_hung_up_def Let_def
      output_ok_def is_done_def intro!: runner_inv_set_out)

lemma input_ok_written:
  assumes ok: "input_ok l i" and pop: "inbox_pop (in_inbox i) n = (freed, ib)"
  shows "input_ok l (i\<lparr>in_inbox := ib, in_window := granted_free (in_window i) freed\<rparr>)"
proof -
  have o: "inbox_ok (lim_input l) (chunk_of l) ib" "unat freed + inbox_units ib = inbox_units (in_inbox i)"
    using inbox_ok_pop [OF _ input_ok_units [OF ok] pop] ok by (auto simp: input_ok_def)
  have "pool.bounded (granted_free (in_window i) freed) (inbox_units (in_inbox i) - unat freed)"
    using ok o(2) by (intro pool.bounded_free) (auto simp: input_ok_def)
  moreover have "inbox_units (in_inbox i) - unat freed = inbox_units ib"
    using o(2) by simp
  ultimately show ?thesis
    using ok o(1) by (simp add: input_ok_def)
qed

lemma inv_input_written: "runner_inv r \<Longrightarrow> runner_inv (input_written r n)"
  using input_ok_written [OF runner_inv_inD] inbox_pop_fields [of "in_inbox (rn_input r)" n]
  by (auto simp: input_written_def Let_def inbox_len_def split: prod.split
      intro!: inv_close_input_when_taken runner_inv_input)

lemma inv_exited: "runner_inv r \<Longrightarrow> runner_inv (exited r now st)"
  by (simp add: exited_def Let_def inv_tick inv_close_input)

lemma inv_settled: "runner_inv r \<Longrightarrow> runner_inv (settled r res)"
  by (simp add: settled_def split: settling.split)

lemma inv_next_request: "runner_inv r \<Longrightarrow> runner_inv (snd (next_request r))"
  using runner_inv_outD [of r]
  by (auto simp: next_request_def output_ok_def is_done_def runner_inv_inD split: option.split
      intro!: runner_inv_set_out runner_inv_input)

lemma inv_next_credit: "runner_inv r \<Longrightarrow> runner_inv (snd (snd (runner_next_credit buffer r)))"
proof -
  assume inv: "runner_inv r"
  have "input_ok (rn_limits r) ((rn_input r)\<lparr>in_window := w\<rparr>)"
    if "granted_take_grant (in_window (rn_input r)) = (g, w)" for g w
    using runner_inv_inD [OF inv] pool.bounded_take [OF _ that] that
    by (auto simp: input_ok_def granted_take_grant_def Let_def)
  with inv show ?thesis
    by (auto simp: runner_next_credit_def split: prod.split intro!: runner_inv_input)
qed

lemma output_ok_send:
  "output_ok l o1 \<Longrightarrow> output_ok l (o1\<lparr>out_queue := drop n (out_queue o1)\<rparr>)"
  by (auto simp: output_ok_def is_done_def)

text \<open>What a round of the output loop does: the bytes that it can send, and the runner after it.\<close>

definition turn_stream :: "runner \<Rightarrow> stream" where
  "turn_stream r = at2 stream_all (rn_turn r)"

definition turn_length :: "bytes \<Rightarrow> runner \<Rightarrow> usize" where
  "turn_length buffer r =
     (let s = turn_stream r
      in credit_sendable (at2 (rn_credits r) (pool_of (rn_limits r) s))
           (min (min (length (out_queue (out_of r s))) (chunk_of (rn_limits r))) (length buffer)))"

definition turn_sent :: "usize \<Rightarrow> runner \<Rightarrow> runner" where
  "turn_sent n r =
     (let s = turn_stream r; i = pool_of (rn_limits r) s
      in (set_out r s ((out_of r s)\<lparr>out_queue := drop n (out_queue (out_of r s))\<rparr>))
           \<lparr>rn_turn := 1 - rn_turn r,
            rn_credits := put2 (rn_credits r) i (credit_spend (at2 (rn_credits r) i) n)\<rparr>)"

lemma turn_length_le:
  "turn_length buffer r \<le> length (out_queue (out_of r (turn_stream r)))"
  "turn_length buffer r \<le> chunk_of (rn_limits r)"
  "turn_length buffer r \<le> length buffer"
proof -
  have "turn_length buffer r \<le>
    min (min (length (out_queue (out_of r (turn_stream r)))) (chunk_of (rn_limits r))) (length buffer)"
    by (simp only: turn_length_def Let_def credit_sendable_le)
  then show "turn_length buffer r \<le> length (out_queue (out_of r (turn_stream r)))"
    "turn_length buffer r \<le> chunk_of (rn_limits r)" "turn_length buffer r \<le> length buffer"
    by simp_all
qed

lemma next_output_turn_eq:
  "next_output_turn buffer r =
     (let n = turn_length buffer r; s = turn_stream r
      in if n > 0 then (Some (RunnerOutput s n), take n (out_queue (out_of r s)) @ drop n buffer,
                        turn_sent n r)
         else (None, buffer, r\<lparr>rn_turn := 1 - rn_turn r\<rparr>))"
proof -
  define n where "n = turn_length buffer r"
  define s where "s = turn_stream r"
  have le: "min (min n (length buffer)) (length (out_queue (out_of r s))) = n"
    using turn_length_le [of buffer r] by (simp add: n_def s_def)
  have n: "credit_sendable (at2 (rn_credits r) (pool_of (rn_limits r) s))
      (min (min (length (out_queue (out_of r s))) (chunk_of (rn_limits r))) (length buffer)) = n"
    by (simp only: n_def s_def turn_length_def Let_def)
  have o: "out_of (r\<lparr>rn_turn := t\<rparr>) s = out_of r s"
      "rn_limits (r\<lparr>rn_turn := t\<rparr>) = rn_limits r" "rn_credits (r\<lparr>rn_turn := t\<rparr>) = rn_credits r" for t
    by (simp_all add: out_of_def)
  have sent: "turn_sent n r = (let i = pool_of (rn_limits r) s;
      r' = set_out (r\<lparr>rn_turn := 1 - rn_turn r\<rparr>) s
             ((out_of r s)\<lparr>out_queue := drop n (out_queue (out_of r s))\<rparr>)
    in r'\<lparr>rn_credits := put2 (rn_credits r') i (credit_spend (at2 (rn_credits r) i) n)\<rparr>)"
    by (simp add: turn_sent_def s_def set_out_def Let_def)
  show ?thesis
    unfolding next_output_turn_def Let_def turn_stream_def [symmetric] s_def [symmetric] o n
      queue_take_def le n_def [symmetric] sent
    by simp
qed

lemma flip_turn [simp]: "t < 2 \<Longrightarrow> Suc 0 - (Suc 0 - t) = (t::nat)"
  by simp

lemma runner_turn_same [simp]: "r\<lparr>rn_turn := rn_turn r\<rparr> = (r::runner)"
  by simp

lemma next_output_None:
  assumes "next_output buffer r = (None, buffer', r')" and "rn_turn r < 2"
  shows "buffer' = buffer \<and> r' = r"
  using assms
  by (auto simp: next_output_def next_output_turn_eq Let_def split: if_splits)

text \<open>
  The runner whose turn may have passed to the other stream, and the message that it then sends.
\<close>

lemma next_output_Some:
  assumes "next_output buffer r = (Some m, buffer', r')"
  obtains t s n where "t = rn_turn r \<or> t = 1 - rn_turn r \<and> turn_length buffer r = 0"
    "s = turn_stream (r\<lparr>rn_turn := t\<rparr>)" "n = turn_length buffer (r\<lparr>rn_turn := t\<rparr>)" "0 < n"
    "m = RunnerOutput s n" "buffer' = take n (out_queue (out_of r s)) @ drop n buffer"
    "r' = turn_sent n (r\<lparr>rn_turn := t\<rparr>)"
  using assms unfolding next_output_def
proof (cases rule: or_next_cases)
  case (some m)
  then show ?thesis
    using that [of "rn_turn r"] assms
    by (auto simp: next_output_turn_eq Let_def next_output_def split: if_splits)
next
  case (none b r1)
  then have "b = buffer" "r1 = r\<lparr>rn_turn := 1 - rn_turn r\<rparr>" "turn_length buffer r = 0"
    by (auto simp: next_output_turn_eq Let_def split: if_splits)
  with none(2) show ?thesis
    using that [of "1 - rn_turn r"]
    by (auto simp: next_output_turn_eq Let_def out_of_def split: if_splits)
qed

lemma runner_next_credit_None:
  "runner_next_credit buffer r = (None, buffer', r') \<Longrightarrow> buffer' = buffer \<and> r' = r"
  by (cases r, cases "rn_input r", cases "in_window (rn_input r)")
    (auto simp: runner_next_credit_def granted_take_grant_def Let_def word_gt_0 split: if_splits)

lemma runner_next_credit_Some:
  assumes "runner_next_credit buffer r = (Some m, buffer', r')"
  obtains u w where "m = RunnerCredit u" "buffer' = buffer" "input_accepts r"
    "granted_take_grant (in_window (rn_input r)) = (Some u, w)"
    "r' = r\<lparr>rn_input := (rn_input r)\<lparr>in_window := w\<rparr>\<rparr>"
  using assms by (auto simp: runner_next_credit_def split: if_splits prod.splits)

lemma next_other_None:
  "next_other buffer r = (None, buffer', r') \<Longrightarrow> rn_turn r < 2 \<Longrightarrow> buffer' = buffer \<and> r' = r"
  by (auto simp: next_other_def next_output_None split: if_splits)

lemma next_sent_None:
  assumes "next_sent buffer r = (None, buffer', r')" and turn: "rn_turn r < 2"
  shows "buffer' = buffer \<and> r' = r"
proof (cases "rn_detached r")
  case False
  then have "or_next
      (or_next (if rn_credited r then (None, buffer, r)
                else noting_credited True (runner_next_credit buffer r))
         (\<lambda>buffer r. noting_credited False (next_other buffer r)))
      (\<lambda>buffer r. noting_credited True (runner_next_credit buffer r)) = (None, buffer', r')"
    using assms(1) by (simp add: next_sent_def)
  then show ?thesis
    using turn
    by (auto elim!: or_next_cases simp: noting_credited_def
        dest!: runner_next_credit_None next_other_None split: if_splits prod.splits option.splits)
qed (use assms in \<open>simp add: next_sent_def\<close>)

text \<open>The messages of the runner, with the runner before and after each.\<close>

lemma next_other_Some:
  assumes "next_other buffer r = (Some m, buffer', r')"
  obtains (started) "m = RunnerStarted" "buffer' = buffer" "rn_started_message r"
      "r' = r\<lparr>rn_started_message := False\<rparr>"
  | (closed) "m = RunnerInputClosed" "buffer' = buffer" "in_closed_message (rn_input r)"
      "\<not> rn_started_message r" "r' = r\<lparr>rn_input := (rn_input r)\<lparr>in_closed_message := False\<rparr>\<rparr>"
  | (ended) s where "m = RunnerEnd s" "buffer' = buffer" "\<not> rn_started_message r"
      "\<not> awaits_launch r" "is_done (out_of r s)" "\<not> out_ended (out_of r s)"
      "r' = set_out r s ((out_of r s)\<lparr>out_ended := True\<rparr>)"
  | (sent) t s n where "\<not> rn_started_message r" "\<not> awaits_launch r"
      "t = rn_turn r \<or> t = 1 - rn_turn r \<and> turn_length buffer r = 0"
      "s = turn_stream (r\<lparr>rn_turn := t\<rparr>)" "n = turn_length buffer (r\<lparr>rn_turn := t\<rparr>)" "0 < n"
      "m = RunnerOutput s n" "buffer' = take n (out_queue (out_of r s)) @ drop n buffer"
      "r' = turn_sent n (r\<lparr>rn_turn := t\<rparr>)"
proof (cases "rn_started_message r \<or> in_closed_message (rn_input r) \<or> awaits_launch r \<or>
    (is_done (out_of r Stdout) \<and> \<not> out_ended (out_of r Stdout)) \<or>
    (is_done (out_of r Stderr) \<and> \<not> out_ended (out_of r Stderr))")
  case True
  with assms show ?thesis
    using started closed ended [of Stdout] ended [of Stderr]
    by (auto simp: next_other_def split: if_splits)
next
  case False
  with assms have "next_output buffer r = (Some m, buffer', r')"
    by (auto simp: next_other_def split: if_splits)
  then show ?thesis
    using False by (elim next_output_Some) (rule sent, auto)
qed

lemma next_sent_Some:
  assumes "next_sent buffer r = (Some m, buffer', r')" and turn: "rn_turn r < 2"
  obtains (credit) r1 where "\<not> rn_detached r" "runner_next_credit buffer r = (Some m, buffer', r1)"
      "r' = r1\<lparr>rn_credited := True\<rparr>"
      "rn_credited r \<Longrightarrow> next_other buffer r = (None, buffer, r)"
  | (other) r1 where "\<not> rn_detached r" "next_other buffer r = (Some m, buffer', r1)"
      "r' = r1\<lparr>rn_credited := False\<rparr>"
proof -
  have nd: "\<not> rn_detached r"
    using assms(1) by (auto simp: next_sent_def)
  obtain c b1 r1 where c: "runner_next_credit buffer r = (c, b1, r1)"
    by (cases "runner_next_credit buffer r")
  obtain d b2 r2 where d: "next_other buffer r = (d, b2, r2)"
    by (cases "next_other buffer r")
  have "c = None \<Longrightarrow> b1 = buffer \<and> r1 = r" "d = None \<Longrightarrow> b2 = buffer \<and> r2 = r"
    using runner_next_credit_None c next_other_None d turn by blast+
  then show ?thesis
    using assms(1) nd c d credit [of r1] other [of r2]
    by (cases "rn_credited r"; cases c; cases d) (auto simp: next_sent_def noting_credited_def)
qed

lemma runner_next_message_Some:
  assumes "runner_next_message buffer r = (Some m, buffer', r')" and turn: "rn_turn r < 2"
  obtains (sent) "\<not> rn_finished r" "next_sent buffer r = (Some m, buffer', r')"
  | (terminal) oc where "\<not> rn_finished r" "next_sent buffer r = (None, buffer, r)"
      "m = RunnerTerminal oc" "buffer' = buffer" "runner_outcome r = Some oc"
      "r' = r\<lparr>rn_finished := True\<rparr>"
proof -
  obtain c b1 r1 where c: "next_sent buffer r = (c, b1, r1)"
    by (cases "next_sent buffer r")
  show ?thesis
    using assms c sent terminal
    by (cases c) (auto simp: runner_next_message_def dest!: next_sent_None
      split: if_splits option.splits)
qed

lemma runner_next_message_None:
  "runner_next_message buffer r = (None, buffer', r') \<Longrightarrow> rn_turn r < 2 \<Longrightarrow>
     buffer' = buffer \<and> r' = r"
  by (cases "next_sent buffer r")
    (auto simp: runner_next_message_def or_next_def dest!: next_sent_None
      split: if_splits option.splits)

section \<open>Reachable runners\<close>

lemma turn_sent_fields [simp]:
  "rn_key (turn_sent n r) = rn_key r" "rn_limits (turn_sent n r) = rn_limits r"
  "rn_timers (turn_sent n r) = rn_timers r" "rn_input (turn_sent n r) = rn_input r"
  "rn_turn (turn_sent n r) = 1 - rn_turn r" "rn_finished (turn_sent n r) = rn_finished r"
  "rn_launch (turn_sent n r) = rn_launch r" "rn_detached (turn_sent n r) = rn_detached r"
  "rn_started_message (turn_sent n r) = rn_started_message r"
  by (simp_all add: turn_sent_def set_out_def Let_def)

lemma inv_turn_sent:
  assumes inv: "runner_inv r" and n: "n = turn_length buffer r" "0 < n"
  shows "runner_inv (turn_sent n r)"
proof -
  let ?s = "turn_stream r"
  let ?c = "at2 (rn_credits r) (pool_of (rn_limits r) ?s)"
  let ?w = "min (min (length (out_queue (out_of r ?s))) (chunk_of (rn_limits r))) (length buffer)"
  let ?o = "(out_of r ?s)\<lparr>out_queue := drop n (out_queue (out_of r ?s))\<rparr>"
  have "?w < 2 ^ 32"
    using chunk_of_bound [of "rn_limits r"] by (simp add: min_less_iff_disj)
  moreover have "n = credit_sendable ?c ?w"
    using n(1) by (simp only: turn_length_def Let_def)
  ultimately have "unat (cr_available (credit_spend ?c n)) \<le> unat (cr_available ?c)"
    using credit_spend_available [of n ?c ?w] n(2) by linarith
  moreover have "credit_ok (rn_limits r) ?c"
    using inv by (simp add: runner_inv_def all2_at2)
  ultimately have "credit_ok (rn_limits r) (credit_spend ?c n)"
    by (auto simp: credit_ok_def)
  moreover have "runner_inv (set_out r ?s ?o)"
    using inv runner_inv_outD [OF inv] by (intro runner_inv_set_out output_ok_send) simp_all
  ultimately show ?thesis
    using inv by (auto simp: turn_sent_def Let_def runner_inv_def set_out_def runner_buffered_def
      runner_memory_bound_def all2_put2)
qed

lemma inv_next_message: 
  assumes inv: "runner_inv r"
  shows "runner_inv (snd (snd (runner_next_message buffer r)))"
proof -
  have turn: "rn_turn r < 2"
    using inv by (simp add: runner_inv_def)
  have flip: "runner_inv (r\<lparr>rn_turn := t\<rparr>)" if "t = rn_turn r \<or> t = 1 - rn_turn r \<and> X" for t X
    using inv turn that
    by (auto simp: runner_inv_def runner_buffered_def runner_memory_bound_def)
  obtain m b r' where m: "runner_next_message buffer r = (m, b, r')"
    by (cases "runner_next_message buffer r")
  show ?thesis
  proof (cases m)
    case None
    then show ?thesis using runner_next_message_None [of buffer r b r'] m turn inv by simp
  next
    case (Some m1)
    from m [unfolded Some] turn have "runner_inv r'"
    proof (cases rule: runner_next_message_Some)
      case sent
      from sent(2) turn show ?thesis
      proof (cases rule: next_sent_Some)
        case (credit r1)
        then show ?thesis using inv_next_credit [OF inv, of buffer] by simp
      next
        case (other r1)
        from other(2) have "runner_inv r1"
          by (cases rule: next_other_Some)
            (use inv runner_inv_inD [OF inv] runner_inv_outD [OF inv] in
              \<open>auto intro!: runner_inv_input runner_inv_set_out runner_inv_launch inv_turn_sent [OF flip, of _ _ _ buffer]
                 simp: output_ok_def is_done_def\<close>)
        with other(3) show ?thesis by simp
      qed
    qed (simp add: inv)
    with m show ?thesis by simp
  qed
qed

lemma inv_new: "runner_inv (runner_new key l t now)"
  by (simp add: runner_inv_def runner_new_def all2_def output_ok_def output_default_def input_ok_def
      credit_ok_def credit_new_def granted_new_def pool.bounded_def runner_buffered_def sum2_def
      inbox_len_def)

lemma inv_apply: "runner_inv r \<Longrightarrow> runner_inv (runner_apply c r)"
  by (cases c)
    (simp_all add: inv_credit inv_input inv_end_input inv_cancel inv_launched inv_output
      inv_out_flags inv_input_written runner_input_closed_def inv_close_input inv_exited inv_settled
      runner_dropped_def runner_reset_def runner_disconnect_def inv_detach inv_tick inv_next_request
      inv_next_message)

definition runner_initial :: "runner \<Rightarrow> bool" where
  "runner_initial r \<longleftrightarrow> (\<exists>key l t now. r = runner_new key l t now)"

definition runner_step :: "runner \<Rightarrow> runner \<Rightarrow> bool" where
  "runner_step r r' \<longleftrightarrow> (\<exists>c. r' = runner_apply c r)"

interpretation runner_sys: transition_system runner_initial runner_step runner_inv
  by unfold_locales (auto simp: runner_initial_def runner_step_def inv_new inv_apply)

lemma runner_run_steps: "runner_step\<^sup>*\<^sup>* r (runner_run calls r)"
proof (induction calls arbitrary: r)
  case (Cons c calls)
  have "runner_step r (runner_apply c r)"
    by (auto simp: runner_step_def)
  with Cons.IH [of "runner_apply c r"] show ?case
    by (simp add: runner_run_def converse_rtranclp_into_rtranclp)
qed (simp add: runner_run_def)

lemma runner_run_inv: "runner_inv (runner_run calls (runner_new key l t now))"
  by (rule runner_sys.invar_reachable [OF _ runner_run_steps]) (auto simp: runner_initial_def)

text \<open>No call changes the runner's key, its limits, or its timers.\<close>

definition runner_setup :: "runner \<Rightarrow> exec_key \<times> limits \<times> timers" where
  "runner_setup r = (rn_key r, rn_limits r, rn_timers r)"

lemma setup_next_message:
  assumes "rn_turn r < 2"
  shows "runner_setup (snd (snd (runner_next_message buffer r))) = runner_setup r"
proof (cases "runner_next_message buffer r")
  case (fields m b r')
  show ?thesis
  proof (cases m)
    case None
    then show ?thesis using runner_next_message_None [of buffer r b r'] fields assms by simp
  next
    case (Some m1)
    from fields [unfolded Some] assms have "runner_setup r' = runner_setup r"
      by (cases rule: runner_next_message_Some)
        (auto elim!: next_sent_Some [OF _ assms] runner_next_credit_Some next_other_Some
          simp: runner_setup_def set_out_def)
    with fields show ?thesis by simp
  qed
qed

lemma setup_apply:
  assumes "runner_inv r"
  shows "runner_setup (runner_apply c r) = runner_setup r"
  using assms setup_next_message [of r]
  by (cases c)
    (auto simp: runner_setup_def runner_inv_def runner_credit_def runner_input_def
      runner_end_input_def runner_cancel_def admitted_def Let_def runner_launched_def
      runner_output_def discarded_def output_closed_def output_failed_def output_hung_up_def
      set_out_def input_written_def runner_input_closed_def exited_def settled_def
      runner_dropped_def runner_reset_def runner_disconnect_def next_request_def
      split: sum.split option.split settling.split prod.split)

lemma runner_run_setup: "runner_setup (runner_run calls (runner_new key l t now)) = (key, l, t)"
proof (induction calls rule: rev_induct)
  case Nil
  then show ?case by (simp add: runner_run_def runner_setup_def runner_new_def)
next
  case (snoc c calls)
  then show ?case
    using setup_apply [OF runner_run_inv, of c calls key l t now] by (simp add: runner_run_def)
qed

text \<open>
  A call that notes what the runner holds does so last; any other call leaves the mark as it is, and by
  the invariant it still covers what the runner holds.
\<close>

lemma high_water_next_message:
  assumes "rn_turn r < 2"
  shows "rn_high_water (snd (snd (runner_next_message buffer r))) = rn_high_water r"
proof (cases "runner_next_message buffer r")
  case (fields m b r')
  show ?thesis
  proof (cases m)
    case None
    then show ?thesis using runner_next_message_None [of buffer r b r'] fields assms by simp
  next
    case (Some m1)
    from fields [unfolded Some] assms have "rn_high_water r' = rn_high_water r"
      by (cases rule: runner_next_message_Some)
        (auto elim!: next_sent_Some [OF _ assms] runner_next_credit_Some next_other_Some
          simp: set_out_def turn_sent_def Let_def)
    with fields show ?thesis by simp
  qed
qed

lemma high_water_noted:
  "rn_high_water (runner_note_buffered r) = max (rn_high_water r) (runner_buffered (runner_note_buffered r))"
  by (simp add: runner_note_buffered_def runner_buffered_def)

lemma high_water_apply_cases:
  assumes "runner_inv r"
  shows "rn_high_water (runner_apply c r) = rn_high_water r \<or>
    rn_high_water (runner_apply c r) = max (rn_high_water r) (runner_buffered (runner_apply c r))"
proof -
  have "rn_turn r < 2" using assms by (simp add: runner_inv_def)
  then show ?thesis
    using high_water_next_message [of r]
    by (cases c)
      (auto simp: runner_credit_def runner_input_def high_water_noted
        runner_end_input_def runner_cancel_def admitted_def Let_def runner_launched_def
        runner_output_def discarded_def output_closed_def output_failed_def output_hung_up_def
        set_out_def input_written_def runner_input_closed_def exited_def settled_def
        runner_dropped_def runner_reset_def runner_disconnect_def next_request_def
        split: sum.split option.split settling.split prod.split)
qed

lemma high_water_apply:
  assumes "runner_inv r"
  shows "rn_high_water (runner_apply c r) = max (rn_high_water r) (runner_buffered (runner_apply c r))"
  using high_water_apply_cases [OF assms, of c] inv_apply [OF assms, of c] by (auto simp: runner_inv_def max_def)

interpretation runner_gauge: gauge runner_apply runner_inv runner_buffered rn_high_water
  by unfold_locales (simp_all add: inv_apply high_water_apply)

text \<open>
  C6. Whatever the peer sends, and whatever the workload and the adapter do, the runner never holds
  more bytes than its memory bound promises: a chunk of each output stream and the input's window.
  Its high-water mark is the most that it held after any of the calls so far.
\<close>

theorem runner_memory_bounded:
  "let r0 = runner_new key l t now; r = runner_run calls r0
   in rn_high_water r = Max ((\<lambda>k. runner_buffered (runner_run (take k calls) r0)) ` {..length calls}) \<and>
      runner_buffered r \<le> rn_high_water r \<and> rn_high_water r \<le> runner_memory_bound r \<and>
      runner_memory_bound r = 2 * chunk_of l + input_bytes l"
proof -
  have "rn_high_water (runner_new key l t now) = runner_buffered (runner_new key l t now)"
    using inv_new [of key l t now] by (simp add: runner_new_def runner_inv_def)
  from runner_gauge.mark_run [OF inv_new this, of calls] show ?thesis
    using runner_run_inv [of calls key l t now] runner_run_setup [of calls key l t now]
    by (simp add: Let_def runner_inv_def runner_memory_bound_eq runner_setup_def runner_run_def)
qed

end
