(* ===== verification/Exec_Peer.thy ===== *)
theory Exec_Peer
  imports Exec_Credit
begin

text \<open>
  The side of an execution that requested it, after \<^verbatim>\<open>src/nvx-rs/src/exec/peer.rs\<close>. The adapter
  hands the peer the runner's messages and its caller's input, and retrieves its messages and
  events; each handler is a function from the peer to its result and the next peer.
\<close>

section \<open>State\<close>

datatype peer_message =
    PeerCancel cause
  | PeerCredit pool u32
  | PeerInput usize
  | PeerInputEnd

datatype event =
    EventStarted
  | EventEnd stream
  | EventInputClosed
  | EventFinished outcome

record incoming =
  inc_inbox :: inbox
  inc_ended :: bool
  inc_end_event :: bool
  inc_discarding :: bool
  inc_truncated :: bool

definition drop_inbox :: "incoming \<Rightarrow> u32 \<times> incoming" where
  "drop_inbox inc =
     (let ((n, freed), ib) = inbox_clear (inc_inbox inc)
      in (freed, inc\<lparr>inc_inbox := ib, inc_truncated := inc_truncated inc \<or> n > 0\<rparr>))"

record outgoing =
  og_queue :: bytes
  og_credit :: credit
  og_ended :: bool
  og_end_sent :: bool
  og_closed :: bool
  og_closed_event :: bool

record peer =
  pr_key :: exec_key
  pr_limits :: limits
  pr_timers :: timers
  pr_started :: bool
  pr_started_event :: bool
  pr_input :: outgoing
  pr_outputs :: "incoming arr2"
  pr_windows :: "granted arr2"
  pr_turn :: usize
  pr_terminal :: "outcome option"
  pr_cause :: "cause option"
  pr_cancel_message :: bool
  pr_timeout_at :: "instant option"
  pr_terminated_at :: "instant option"
  pr_grace_until :: "instant option"
  pr_give_up_at :: "instant option"
  pr_gave_up :: bool
  pr_detached :: bool
  pr_finished :: bool
  pr_high_water :: usize

definition incoming_new :: "limits \<Rightarrow> incoming" where
  "incoming_new l =
     \<lparr>inc_inbox = inbox_new (win_unit (lim_output l)), inc_ended = False, inc_end_event = False,
      inc_discarding = False, inc_truncated = False\<rparr>"

definition peer_new :: "exec_key \<Rightarrow> limits \<Rightarrow> timers \<Rightarrow> instant \<Rightarrow> peer" where
  "peer_new key l t now =
     \<lparr>pr_key = key,
      pr_limits = l,
      pr_timers = t,
      pr_started = False,
      pr_started_event = False,
      pr_input =
        \<lparr>og_queue = [], og_credit = credit_new (lim_input l), og_ended = False,
         og_end_sent = False, og_closed = False, og_closed_event = False\<rparr>,
      pr_outputs = Arr2 (incoming_new l) (incoming_new l),
      pr_windows = Arr2 (granted_new (lim_output l)) (granted_new (lim_output l)),
      pr_turn = 0,
      pr_terminal = None,
      pr_cause = None,
      pr_cancel_message = False,
      pr_timeout_at = Option.bind (tm_timeout t) (after now),
      pr_terminated_at = None,
      pr_grace_until = None,
      pr_give_up_at = None,
      pr_gave_up = False,
      pr_detached = False,
      pr_finished = False,
      pr_high_water = 0\<rparr>"

section \<open>Queries\<close>

definition inc_of :: "peer \<Rightarrow> stream \<Rightarrow> incoming" where
  "inc_of p s = at2 (pr_outputs p) (stream_index s)"

definition set_inc :: "peer \<Rightarrow> stream \<Rightarrow> incoming \<Rightarrow> peer" where
  "set_inc p s inc = p\<lparr>pr_outputs := put2 (pr_outputs p) (stream_index s) inc\<rparr>"

definition ignores_runner :: "peer \<Rightarrow> bool" where
  "ignores_runner p \<longleftrightarrow> pr_finished p \<or> pr_detached p \<or> pr_gave_up p"

definition write_allowance :: "peer \<Rightarrow> usize" where
  "write_allowance p =
     (let i = pr_input p
      in if og_closed i \<or> og_ended i \<or> pr_terminated_at p \<noteq> None \<or> pr_finished p then 0
         else chunk_of (pr_limits p) - length (og_queue i))"

definition peer_buffered :: "peer \<Rightarrow> usize" where
  "peer_buffered p =
     length (og_queue (pr_input p)) + sum2 (\<lambda>inc. inbox_len (inc_inbox inc)) (pr_outputs p)"

definition peer_memory_bound :: "peer \<Rightarrow> usize" where
  "peer_memory_bound p = saturating_add (chunk_of (pr_limits p)) (output_bytes (pr_limits p))"

definition pending_output :: "(bytes \<Rightarrow> usize) \<Rightarrow> peer \<Rightarrow> stream \<Rightarrow> bytes" where
  "pending_output contiguous p s = inbox_front contiguous (inc_inbox (inc_of p s))"

definition peer_deadline :: "peer \<Rightarrow> instant option" where
  "peer_deadline p =
     (if pr_finished p then None
      else foldl earliest None [pr_timeout_at p, pr_grace_until p, pr_give_up_at p])"

definition peer_outcome :: "peer \<Rightarrow> outcome option" where
  "peer_outcome p =
     (if \<not> all2 (\<lambda>inc. inbox_is_empty (inc_inbox inc)) (pr_outputs p) then None
      else
        (case (case pr_terminal p of
                 Some terminal \<Rightarrow> Some terminal
               | None \<Rightarrow>
                   if pr_detached p \<or> pr_gave_up p
                   then Some (with_truncated (with_truncated (outcome_new None) Stdout) Stderr)
                   else None) of
           None \<Rightarrow> None
         | Some oc \<Rightarrow>
             (let oc = (if oc_cause oc = None
                        then (case pr_cause p of Some c \<Rightarrow> with_cause oc c | None \<Rightarrow> oc)
                        else oc);
                  oc = (if inc_truncated (inc_of p Stdout) then with_truncated oc Stdout else oc);
                  oc = (if inc_truncated (inc_of p Stderr) then with_truncated oc Stderr else oc)
              in Some oc)))"

section \<open>Internal steps\<close>

definition peer_note_buffered :: "peer \<Rightarrow> peer" where
  "peer_note_buffered p = p\<lparr>pr_high_water := max (pr_high_water p) (peer_buffered p)\<rparr>"

definition window_free :: "peer \<Rightarrow> stream \<Rightarrow> u32 \<Rightarrow> peer" where
  "window_free p s freed =
     (let i = pool_of (pr_limits p) s
      in p\<lparr>pr_windows := put2 (pr_windows p) i (granted_free (at2 (pr_windows p) i) freed)\<rparr>)"

definition peer_close_input :: "peer \<Rightarrow> peer" where
  "peer_close_input p =
     (let i = pr_input p
      in if og_closed i then p
         else p\<lparr>pr_input := i\<lparr>og_closed := True, og_queue := [],
                              og_closed_event := \<not> og_end_sent i\<rparr>\<rparr>)"

definition discard_stream :: "peer \<Rightarrow> stream \<Rightarrow> peer" where
  "discard_stream p s =
     (let (freed, inc) = drop_inbox ((inc_of p s)\<lparr>inc_discarding := True\<rparr>)
      in window_free (set_inc p s inc) s freed)"

definition peer_end_grace :: "peer \<Rightarrow> peer" where
  "peer_end_grace p =
     discard_stream (discard_stream (p\<lparr>pr_grace_until := None\<rparr>) Stdout) Stderr"

definition peer_terminate :: "peer \<Rightarrow> instant \<Rightarrow> cause \<Rightarrow> peer" where
  "peer_terminate p now c =
     (if pr_finished p \<or> pr_terminated_at p \<noteq> None then p
      else
        (let p = p\<lparr>pr_terminated_at := Some now, pr_timeout_at := None, pr_cause := Some c\<rparr>;
             p = peer_close_input p;
             p = p\<lparr>pr_grace_until := after now (tm_grace (pr_timers p))\<rparr>;
             p = (if pr_terminal p = None
                  then p\<lparr>pr_cancel_message := \<not> pr_detached p,
                         pr_give_up_at :=
                           Option.bind (pr_grace_until p)
                             (\<lambda>grace. after grace (tm_settlement (pr_timers p)))\<rparr>
                  else p)
         in if passed now (pr_grace_until p) then peer_end_grace p else p))"

text \<open>
  The timers that a tick fires, in the code's order: the execution's timeout, the grace of pending
  output, and the time to give up waiting for the terminal outcome.
\<close>

definition peer_fire_timeout :: "instant \<Rightarrow> peer \<Rightarrow> peer" where
  "peer_fire_timeout now p =
     (if passed now (pr_timeout_at p)
      then peer_terminate (p\<lparr>pr_timeout_at := None\<rparr>) now TimedOut else p)"

definition peer_fire_grace :: "instant \<Rightarrow> peer \<Rightarrow> peer" where
  "peer_fire_grace now p = (if passed now (pr_grace_until p) then peer_end_grace p else p)"

definition peer_fire_give_up :: "instant \<Rightarrow> peer \<Rightarrow> peer" where
  "peer_fire_give_up now p =
     (if passed now (pr_give_up_at p)
      then peer_end_grace (p\<lparr>pr_give_up_at := None, pr_gave_up := True\<rparr>) else p)"

definition peer_tick :: "peer \<Rightarrow> instant \<Rightarrow> peer" where
  "peer_tick p now =
     (if pr_finished p then p
      else peer_fire_give_up now (peer_fire_grace now (peer_fire_timeout now p)))"

definition peer_detach :: "peer \<Rightarrow> instant \<Rightarrow> cause \<Rightarrow> peer" where
  "peer_detach p now c =
     (let p = peer_tick p now
      in if pr_finished p \<or> pr_detached p then p
         else (peer_terminate p now c)
                \<lparr>pr_detached := True, pr_cancel_message := False, pr_give_up_at := None\<rparr>)"

section \<open>Messages of the runner\<close>

definition peer_credit :: "peer \<Rightarrow> exec_key \<Rightarrow> u32 \<Rightarrow> (violation, receipt) result \<times> peer" where
  "peer_credit p key n =
     admitted (pr_key p) key p (\<lambda>p.
       if ignores_runner p then (Inr Late, p)
       else (case credit_grant (og_credit (pr_input p)) n of
               Inl v \<Rightarrow> (Inl v, p)
             | Inr c \<Rightarrow>
                 (let p = p\<lparr>pr_input := (pr_input p)\<lparr>og_credit := c\<rparr>\<rparr>
                  in if og_closed (pr_input p) \<or> og_end_sent (pr_input p) then (Inr Late, p)
                     else (Inr Applied, p))))"

definition peer_started :: "peer \<Rightarrow> exec_key \<Rightarrow> (violation, receipt) result \<times> peer" where
  "peer_started p key =
     admitted (pr_key p) key p (\<lambda>p.
       if ignores_runner p then (Inr Late, p)
       else if pr_started p \<or> pr_terminal p \<noteq> None then (Inl VOrder, p)
       else (Inr Applied, p\<lparr>pr_started := True, pr_started_event := True\<rparr>))"

definition peer_output ::
  "peer \<Rightarrow> exec_key \<Rightarrow> stream \<Rightarrow> bytes \<Rightarrow> (violation, receipt) result \<times> peer" where
  "peer_output p key s bs =
     admitted (pr_key p) key p (\<lambda>p.
       if ignores_runner p then (Inr Late, p)
       else if inc_ended (inc_of p s) then (Inl VEnded, p)
       else (case check_chunk (pr_limits p) (length bs) of
               Inl v \<Rightarrow> (Inl v, p)
             | Inr _ \<Rightarrow>
                 (let i = pool_of (pr_limits p) s
                  in case granted_charge (at2 (pr_windows p) i) (length bs) of
                       Inl v \<Rightarrow> (Inl v, p)
                     | Inr w \<Rightarrow>
                         (let p = p\<lparr>pr_windows := put2 (pr_windows p) i w\<rparr>;
                              inc = inc_of p s
                          in if inc_discarding inc
                             then (Inr Late,
                                   window_free (set_inc p s (inc\<lparr>inc_truncated := True\<rparr>)) s
                                     (window_cost (lim_output (pr_limits p)) (length bs)))
                             else (Inr Applied,
                                   peer_note_buffered
                                     (set_inc p s
                                       (inc\<lparr>inc_inbox := inbox_push (inc_inbox inc) bs\<rparr>)))))))"

definition peer_end_output ::
  "peer \<Rightarrow> exec_key \<Rightarrow> stream \<Rightarrow> (violation, receipt) result \<times> peer" where
  "peer_end_output p key s =
     admitted (pr_key p) key p (\<lambda>p.
       if ignores_runner p then (Inr Late, p)
       else if inc_ended (inc_of p s) then (Inl VEnded, p)
       else (Inr Applied, set_inc p s ((inc_of p s)\<lparr>inc_ended := True\<rparr>)))"

definition peer_input_closed :: "peer \<Rightarrow> exec_key \<Rightarrow> (violation, receipt) result \<times> peer" where
  "peer_input_closed p key =
     admitted (pr_key p) key p (\<lambda>p.
       if ignores_runner p \<or> og_closed (pr_input p) \<or> og_end_sent (pr_input p)
       then (Inr Late, p)
       else (Inr Applied, peer_close_input p))"

definition peer_terminal ::
  "peer \<Rightarrow> instant \<Rightarrow> exec_key \<Rightarrow> outcome \<Rightarrow> (violation, receipt) result \<times> peer" where
  "peer_terminal p now key oc =
     admitted (pr_key p) key p (\<lambda>p.
       let p = peer_tick p now
       in if ignores_runner p then (Inr Late, p)
          else if pr_terminal p \<noteq> None then (Inl VEnded, p)
          else if \<not> all2 inc_ended (pr_outputs p) then (Inl VOrder, p)
          else
            (let p = p\<lparr>pr_terminal := Some oc, pr_give_up_at := None, pr_timeout_at := None,
                       pr_cancel_message := False\<rparr>;
                 p = peer_close_input p
             in if oc_cause oc \<noteq> None \<and> pr_terminated_at p = None
                then
                  (let p = p\<lparr>pr_terminated_at := Some now,
                             pr_grace_until := after now (tm_grace (pr_timers p))\<rparr>
                   in (Inr Applied, if passed now (pr_grace_until p) then peer_end_grace p else p))
                else (Inr Applied, p)))"

section \<open>Calls of the caller, the sink and the adapter\<close>

definition peer_input :: "peer \<Rightarrow> bytes \<Rightarrow> usize \<times> peer" where
  "peer_input p bs =
     (let n = min (length bs) (write_allowance p);
          i = pr_input p
      in (n, peer_note_buffered (p\<lparr>pr_input := i\<lparr>og_queue := og_queue i @ take n bs\<rparr>\<rparr>)))"

definition peer_end_input :: "peer \<Rightarrow> peer" where
  "peer_end_input p =
     (if \<not> og_closed (pr_input p) then p\<lparr>pr_input := (pr_input p)\<lparr>og_ended := True\<rparr>\<rparr> else p)"

definition consumed :: "peer \<Rightarrow> stream \<Rightarrow> usize \<Rightarrow> peer" where
  "consumed p s n =
     (let inc = inc_of p s;
          (freed, ib) = inbox_pop (inc_inbox inc) n
      in window_free (set_inc p s (inc\<lparr>inc_inbox := ib\<rparr>)) s freed)"

definition peer_cancel :: "peer \<Rightarrow> instant \<Rightarrow> peer" where
  "peer_cancel p now = peer_terminate (peer_tick p now) now Cancelled"

definition peer_dropped :: "peer \<Rightarrow> instant \<Rightarrow> peer" where
  "peer_dropped p now =
     (let p = peer_terminate (peer_tick p now) now Dropped
      in if \<not> pr_finished p then peer_end_grace p else p)"

definition peer_reset :: "peer \<Rightarrow> instant \<Rightarrow> peer" where
  "peer_reset p now = peer_detach p now CauseReset"

definition peer_disconnect :: "peer \<Rightarrow> instant \<Rightarrow> peer" where
  "peer_disconnect p now = peer_detach p now Disconnected"

section \<open>Messages and events of the peer\<close>

definition pool_open :: "peer \<Rightarrow> usize \<Rightarrow> bool" where
  "pool_open p i \<longleftrightarrow>
     pool_of (pr_limits p) Stdout = i \<and> \<not> inc_ended (inc_of p Stdout) \<or>
     pool_of (pr_limits p) Stderr = i \<and> \<not> inc_ended (inc_of p Stderr)"

definition peer_next_credit :: "usize \<Rightarrow> bytes \<Rightarrow> peer \<Rightarrow> peer_message option \<times> bytes \<times> peer" where
  "peer_next_credit i buffer p =
     (if pr_terminal p \<noteq> None then (None, buffer, p)
      else if \<not> pool_open p i then (None, buffer, p)
      else
        (let (grant, w) = granted_take_grant (at2 (pr_windows p) i);
             p = p\<lparr>pr_windows := put2 (pr_windows p) i w\<rparr>
         in (map_option (PeerCredit (output_pools (pr_limits p) ! i)) grant, buffer, p)))"

definition next_input :: "bytes \<Rightarrow> peer \<Rightarrow> peer_message option \<times> bytes \<times> peer" where
  "next_input buffer p =
     (let i = pr_input p
      in if og_closed i then (None, buffer, p)
         else
           (let wanted = min (min (length (og_queue i)) (chunk_of (pr_limits p))) (length buffer);
                n = credit_sendable (og_credit i) wanted
            in if n > 0 then
                 (let (_, queue, buffer) = queue_take (og_queue i) buffer n
                  in (Some (PeerInput n), buffer,
                      p\<lparr>pr_input := i\<lparr>og_queue := queue,
                                        og_credit := credit_spend (og_credit i) n\<rparr>\<rparr>))
               else if og_ended i \<and> og_queue i = [] \<and> \<not> og_end_sent i
               then (Some PeerInputEnd, buffer, p\<lparr>pr_input := i\<lparr>og_end_sent := True\<rparr>\<rparr>)
               else (None, buffer, p)))"

text \<open>The message of one source: the credit of a pool, or the input.\<close>

definition peer_from_source :: "usize \<Rightarrow> bytes \<Rightarrow> peer \<Rightarrow> peer_message option \<times> bytes \<times> peer" where
  "peer_from_source source buffer p =
     (if source < length (output_pools (pr_limits p)) then peer_next_credit source buffer p
      else next_input buffer p)"

text \<open>The loop over the sources of messages, from the one whose turn it is.\<close>

fun peer_next_source :: "usize list \<Rightarrow> bytes \<Rightarrow> peer \<Rightarrow> peer_message option \<times> bytes \<times> peer" where
  "peer_next_source [] buffer p = (None, buffer, p)"
| "peer_next_source (offset # offsets) buffer p =
     (let sources = length (output_pools (pr_limits p)) + 1;
          source = (pr_turn p + offset) mod sources
      in case peer_from_source source buffer p of
           (Some m, buffer, p) \<Rightarrow> (Some m, buffer, p\<lparr>pr_turn := (source + 1) mod sources\<rparr>)
         | (None, buffer, p) \<Rightarrow> peer_next_source offsets buffer p)"

definition peer_next_message :: "bytes \<Rightarrow> peer \<Rightarrow> peer_message option \<times> bytes \<times> peer" where
  "peer_next_message buffer p =
     (if pr_finished p \<or> pr_detached p then (None, buffer, p)
      else if pr_cancel_message p
      then (Some (PeerCancel (case pr_cause p of Some c \<Rightarrow> c | None \<Rightarrow> Cancelled)), buffer,
            p\<lparr>pr_cancel_message := False\<rparr>)
      else peer_next_source [0..<length (output_pools (pr_limits p)) + 1] buffer p)"

definition end_event_due :: "incoming \<Rightarrow> bool" where
  "end_event_due inc \<longleftrightarrow>
     inc_ended inc \<and> inbox_is_empty (inc_inbox inc) \<and> \<not> inc_end_event inc"

definition next_event :: "peer \<Rightarrow> event option \<times> peer" where
  "next_event p =
     (if pr_finished p then (None, p)
      else if pr_started_event p then (Some EventStarted, p\<lparr>pr_started_event := False\<rparr>)
      else if og_closed_event (pr_input p)
      then (Some EventInputClosed, p\<lparr>pr_input := (pr_input p)\<lparr>og_closed_event := False\<rparr>\<rparr>)
      else if end_event_due (inc_of p Stdout)
      then (Some (EventEnd Stdout),
            set_inc p Stdout ((inc_of p Stdout)\<lparr>inc_end_event := True\<rparr>))
      else if end_event_due (inc_of p Stderr)
      then (Some (EventEnd Stderr),
            set_inc p Stderr ((inc_of p Stderr)\<lparr>inc_end_event := True\<rparr>))
      else (case peer_outcome p of
              None \<Rightarrow> (None, p)
            | Some oc \<Rightarrow> (Some (EventFinished oc), p\<lparr>pr_finished := True\<rparr>)))"

section \<open>What the internal steps leave alone\<close>

lemma peer_note_fields [simp]:
  "pr_key (peer_note_buffered p) = pr_key p" "pr_limits (peer_note_buffered p) = pr_limits p"
  "pr_timers (peer_note_buffered p) = pr_timers p" "pr_turn (peer_note_buffered p) = pr_turn p"
  "pr_finished (peer_note_buffered p) = pr_finished p"
  "pr_started (peer_note_buffered p) = pr_started p"
  "pr_terminal (peer_note_buffered p) = pr_terminal p"
  "pr_cause (peer_note_buffered p) = pr_cause p"
  "pr_cancel_message (peer_note_buffered p) = pr_cancel_message p"
  "pr_timeout_at (peer_note_buffered p) = pr_timeout_at p"
  "pr_terminated_at (peer_note_buffered p) = pr_terminated_at p"
  "pr_grace_until (peer_note_buffered p) = pr_grace_until p"
  "pr_give_up_at (peer_note_buffered p) = pr_give_up_at p"
  "pr_gave_up (peer_note_buffered p) = pr_gave_up p"
  "pr_detached (peer_note_buffered p) = pr_detached p"
  "pr_started_event (peer_note_buffered p) = pr_started_event p"
  "pr_input (peer_note_buffered p) = pr_input p" "pr_outputs (peer_note_buffered p) = pr_outputs p"
  "pr_windows (peer_note_buffered p) = pr_windows p"
  by (simp_all add: peer_note_buffered_def)

lemma set_inc_fields [simp]:
  "pr_key (set_inc p s inc) = pr_key p" "pr_limits (set_inc p s inc) = pr_limits p"
  "pr_timers (set_inc p s inc) = pr_timers p" "pr_turn (set_inc p s inc) = pr_turn p"
  "pr_finished (set_inc p s inc) = pr_finished p"
  "pr_high_water (set_inc p s inc) = pr_high_water p"
  "pr_started (set_inc p s inc) = pr_started p" "pr_terminal (set_inc p s inc) = pr_terminal p"
  "pr_cause (set_inc p s inc) = pr_cause p"
  "pr_cancel_message (set_inc p s inc) = pr_cancel_message p"
  "pr_timeout_at (set_inc p s inc) = pr_timeout_at p"
  "pr_terminated_at (set_inc p s inc) = pr_terminated_at p"
  "pr_grace_until (set_inc p s inc) = pr_grace_until p"
  "pr_give_up_at (set_inc p s inc) = pr_give_up_at p"
  "pr_gave_up (set_inc p s inc) = pr_gave_up p" "pr_detached (set_inc p s inc) = pr_detached p"
  "pr_started_event (set_inc p s inc) = pr_started_event p"
  "pr_input (set_inc p s inc) = pr_input p"
  "pr_windows (set_inc p s inc) = pr_windows p"
  by (simp_all add: set_inc_def)

lemma window_free_fields [simp]:
  "pr_key (window_free p s n) = pr_key p" "pr_limits (window_free p s n) = pr_limits p"
  "pr_timers (window_free p s n) = pr_timers p" "pr_turn (window_free p s n) = pr_turn p"
  "pr_finished (window_free p s n) = pr_finished p"
  "pr_high_water (window_free p s n) = pr_high_water p"
  "pr_started (window_free p s n) = pr_started p" "pr_terminal (window_free p s n) = pr_terminal p"
  "pr_cause (window_free p s n) = pr_cause p"
  "pr_cancel_message (window_free p s n) = pr_cancel_message p"
  "pr_timeout_at (window_free p s n) = pr_timeout_at p"
  "pr_terminated_at (window_free p s n) = pr_terminated_at p"
  "pr_grace_until (window_free p s n) = pr_grace_until p"
  "pr_give_up_at (window_free p s n) = pr_give_up_at p"
  "pr_gave_up (window_free p s n) = pr_gave_up p" "pr_detached (window_free p s n) = pr_detached p"
  "pr_started_event (window_free p s n) = pr_started_event p"
  "pr_input (window_free p s n) = pr_input p"
  "pr_outputs (window_free p s n) = pr_outputs p"
  by (simp_all add: window_free_def Let_def)

lemma peer_close_input_fields [simp]:
  "pr_key (peer_close_input p) = pr_key p" "pr_limits (peer_close_input p) = pr_limits p"
  "pr_timers (peer_close_input p) = pr_timers p" "pr_turn (peer_close_input p) = pr_turn p"
  "pr_finished (peer_close_input p) = pr_finished p"
  "pr_high_water (peer_close_input p) = pr_high_water p"
  "pr_started (peer_close_input p) = pr_started p"
  "pr_terminal (peer_close_input p) = pr_terminal p"
  "pr_cause (peer_close_input p) = pr_cause p"
  "pr_cancel_message (peer_close_input p) = pr_cancel_message p"
  "pr_timeout_at (peer_close_input p) = pr_timeout_at p"
  "pr_terminated_at (peer_close_input p) = pr_terminated_at p"
  "pr_grace_until (peer_close_input p) = pr_grace_until p"
  "pr_give_up_at (peer_close_input p) = pr_give_up_at p"
  "pr_gave_up (peer_close_input p) = pr_gave_up p"
  "pr_detached (peer_close_input p) = pr_detached p"
  "pr_started_event (peer_close_input p) = pr_started_event p"
  "pr_outputs (peer_close_input p) = pr_outputs p"
  "pr_windows (peer_close_input p) = pr_windows p"
  by (simp_all add: peer_close_input_def Let_def)

lemma discard_stream_fields [simp]:
  "pr_key (discard_stream p s) = pr_key p" "pr_limits (discard_stream p s) = pr_limits p"
  "pr_timers (discard_stream p s) = pr_timers p" "pr_turn (discard_stream p s) = pr_turn p"
  "pr_finished (discard_stream p s) = pr_finished p"
  "pr_high_water (discard_stream p s) = pr_high_water p"
  "pr_started (discard_stream p s) = pr_started p"
  "pr_terminal (discard_stream p s) = pr_terminal p"
  "pr_cause (discard_stream p s) = pr_cause p"
  "pr_cancel_message (discard_stream p s) = pr_cancel_message p"
  "pr_timeout_at (discard_stream p s) = pr_timeout_at p"
  "pr_terminated_at (discard_stream p s) = pr_terminated_at p"
  "pr_grace_until (discard_stream p s) = pr_grace_until p"
  "pr_give_up_at (discard_stream p s) = pr_give_up_at p"
  "pr_gave_up (discard_stream p s) = pr_gave_up p"
  "pr_detached (discard_stream p s) = pr_detached p"
  "pr_started_event (discard_stream p s) = pr_started_event p"
  "pr_input (discard_stream p s) = pr_input p"
  by (simp_all add: discard_stream_def split: prod.split)

lemma peer_end_grace_fields [simp]:
  "pr_key (peer_end_grace p) = pr_key p" "pr_limits (peer_end_grace p) = pr_limits p"
  "pr_timers (peer_end_grace p) = pr_timers p" "pr_turn (peer_end_grace p) = pr_turn p"
  "pr_finished (peer_end_grace p) = pr_finished p"
  "pr_high_water (peer_end_grace p) = pr_high_water p"
  "pr_started (peer_end_grace p) = pr_started p" "pr_terminal (peer_end_grace p) = pr_terminal p"
  "pr_cause (peer_end_grace p) = pr_cause p"
  "pr_cancel_message (peer_end_grace p) = pr_cancel_message p"
  "pr_timeout_at (peer_end_grace p) = pr_timeout_at p"
  "pr_terminated_at (peer_end_grace p) = pr_terminated_at p"
  "pr_give_up_at (peer_end_grace p) = pr_give_up_at p"
  "pr_gave_up (peer_end_grace p) = pr_gave_up p"
  "pr_detached (peer_end_grace p) = pr_detached p"
  "pr_started_event (peer_end_grace p) = pr_started_event p"
  "pr_input (peer_end_grace p) = pr_input p"
  by (simp_all add: peer_end_grace_def)

lemma peer_terminate_fields [simp]:
  "pr_key (peer_terminate p now c) = pr_key p" "pr_limits (peer_terminate p now c) = pr_limits p"
  "pr_timers (peer_terminate p now c) = pr_timers p" "pr_turn (peer_terminate p now c) = pr_turn p"
  "pr_finished (peer_terminate p now c) = pr_finished p"
  "pr_high_water (peer_terminate p now c) = pr_high_water p"
  "pr_started (peer_terminate p now c) = pr_started p"
  "pr_terminal (peer_terminate p now c) = pr_terminal p"
  "pr_gave_up (peer_terminate p now c) = pr_gave_up p"
  "pr_detached (peer_terminate p now c) = pr_detached p"
  "pr_started_event (peer_terminate p now c) = pr_started_event p"
  by (simp_all add: peer_terminate_def Let_def)

lemma peer_fire_timeout_fields [simp]:
  "pr_key (peer_fire_timeout now p) = pr_key p" "pr_limits (peer_fire_timeout now p) = pr_limits p"
  "pr_timers (peer_fire_timeout now p) = pr_timers p"
  "pr_turn (peer_fire_timeout now p) = pr_turn p"
  "pr_finished (peer_fire_timeout now p) = pr_finished p"
  "pr_high_water (peer_fire_timeout now p) = pr_high_water p"
  "pr_started (peer_fire_timeout now p) = pr_started p"
  "pr_terminal (peer_fire_timeout now p) = pr_terminal p"
  "pr_gave_up (peer_fire_timeout now p) = pr_gave_up p"
  "pr_detached (peer_fire_timeout now p) = pr_detached p"
  "pr_started_event (peer_fire_timeout now p) = pr_started_event p"
  by (simp_all add: peer_fire_timeout_def)

lemma peer_fire_grace_fields [simp]:
  "pr_key (peer_fire_grace now p) = pr_key p" "pr_limits (peer_fire_grace now p) = pr_limits p"
  "pr_timers (peer_fire_grace now p) = pr_timers p" "pr_turn (peer_fire_grace now p) = pr_turn p"
  "pr_finished (peer_fire_grace now p) = pr_finished p"
  "pr_high_water (peer_fire_grace now p) = pr_high_water p"
  "pr_started (peer_fire_grace now p) = pr_started p"
  "pr_terminal (peer_fire_grace now p) = pr_terminal p"
  "pr_gave_up (peer_fire_grace now p) = pr_gave_up p"
  "pr_detached (peer_fire_grace now p) = pr_detached p"
  "pr_started_event (peer_fire_grace now p) = pr_started_event p"
  "pr_input (peer_fire_grace now p) = pr_input p"
  by (simp_all add: peer_fire_grace_def)

lemma peer_fire_give_up_fields [simp]:
  "pr_key (peer_fire_give_up now p) = pr_key p" "pr_limits (peer_fire_give_up now p) = pr_limits p"
  "pr_timers (peer_fire_give_up now p) = pr_timers p"
  "pr_turn (peer_fire_give_up now p) = pr_turn p"
  "pr_finished (peer_fire_give_up now p) = pr_finished p"
  "pr_high_water (peer_fire_give_up now p) = pr_high_water p"
  "pr_started (peer_fire_give_up now p) = pr_started p"
  "pr_terminal (peer_fire_give_up now p) = pr_terminal p"
  "pr_detached (peer_fire_give_up now p) = pr_detached p"
  "pr_started_event (peer_fire_give_up now p) = pr_started_event p"
  "pr_input (peer_fire_give_up now p) = pr_input p"
  by (simp_all add: peer_fire_give_up_def)

lemma peer_tick_fields [simp]:
  "pr_key (peer_tick p now) = pr_key p" "pr_limits (peer_tick p now) = pr_limits p"
  "pr_timers (peer_tick p now) = pr_timers p" "pr_turn (peer_tick p now) = pr_turn p"
  "pr_finished (peer_tick p now) = pr_finished p"
  "pr_high_water (peer_tick p now) = pr_high_water p"
  "pr_started (peer_tick p now) = pr_started p" "pr_terminal (peer_tick p now) = pr_terminal p"
  "pr_detached (peer_tick p now) = pr_detached p"
  "pr_started_event (peer_tick p now) = pr_started_event p"
  by (simp_all add: peer_tick_def)

lemma peer_detach_fields [simp]:
  "pr_key (peer_detach p now c) = pr_key p" "pr_limits (peer_detach p now c) = pr_limits p"
  "pr_timers (peer_detach p now c) = pr_timers p" "pr_turn (peer_detach p now c) = pr_turn p"
  "pr_finished (peer_detach p now c) = pr_finished p"
  "pr_high_water (peer_detach p now c) = pr_high_water p"
  "pr_started (peer_detach p now c) = pr_started p"
  "pr_terminal (peer_detach p now c) = pr_terminal p"
  "pr_started_event (peer_detach p now c) = pr_started_event p"
  by (simp_all add: peer_detach_def Let_def)

lemma inc_of_set_inc: "inc_of (set_inc p s inc) s' = (if s' = s then inc else inc_of p s')"
  by (simp add: inc_of_def set_inc_def at2_put2)

lemma inc_of_window_free [simp]: "inc_of (window_free p s n) s' = inc_of p s'"
  by (simp add: inc_of_def)

end
