(* ===== verification/Exec_Peer_Inv.thy ===== *)
theory Exec_Peer_Inv
  imports Exec_Peer
begin

text \<open>
  The invariant of the peer, which every call keeps whatever the runner sends and whatever the
  caller and the sink do: its input queue holds at most a chunk, its inboxes fit the windows of
  their pools, the end of the input follows its last byte, and the high-water mark stays within
  the memory bound.
\<close>

section \<open>Calls\<close>

datatype peer_call =
    PCallCredit exec_key u32
  | PCallStarted exec_key
  | PCallOutput exec_key stream bytes
  | PCallEndOutput exec_key stream
  | PCallInputClosed exec_key
  | PCallTerminal instant exec_key outcome
  | PCallInput bytes
  | PCallEndInput
  | PCallConsumed stream usize
  | PCallCancel instant
  | PCallDropped instant
  | PCallReset instant
  | PCallDisconnect instant
  | PCallTick instant
  | PCallNextMessage bytes
  | PCallNextEvent

fun peer_apply :: "peer_call \<Rightarrow> peer \<Rightarrow> peer" where
  "peer_apply (PCallCredit key n) p = snd (peer_credit p key n)"
| "peer_apply (PCallStarted key) p = snd (peer_started p key)"
| "peer_apply (PCallOutput key s bs) p = snd (peer_output p key s bs)"
| "peer_apply (PCallEndOutput key s) p = snd (peer_end_output p key s)"
| "peer_apply (PCallInputClosed key) p = snd (peer_input_closed p key)"
| "peer_apply (PCallTerminal now key oc) p = snd (peer_terminal p now key oc)"
| "peer_apply (PCallInput bs) p = snd (peer_input p bs)"
| "peer_apply PCallEndInput p = peer_end_input p"
| "peer_apply (PCallConsumed s n) p = consumed p s n"
| "peer_apply (PCallCancel now) p = peer_cancel p now"
| "peer_apply (PCallDropped now) p = peer_dropped p now"
| "peer_apply (PCallReset now) p = peer_reset p now"
| "peer_apply (PCallDisconnect now) p = peer_disconnect p now"
| "peer_apply (PCallTick now) p = peer_tick p now"
| "peer_apply (PCallNextMessage buffer) p = snd (snd (peer_next_message buffer p))"
| "peer_apply PCallNextEvent p = snd (next_event p)"

definition peer_run :: "peer_call list \<Rightarrow> peer \<Rightarrow> peer" where
  "peer_run calls p = fold peer_apply calls p"

section \<open>The invariant\<close>

text \<open>The units of a pool that the inboxes of its streams hold.\<close>

definition held_by :: "peer \<Rightarrow> usize \<Rightarrow> stream \<Rightarrow> nat" where
  "held_by p i s =
     (if pool_of (pr_limits p) s = i then inbox_units (inc_inbox (inc_of p s)) else 0)"

definition held :: "peer \<Rightarrow> usize \<Rightarrow> nat" where
  "held p i = held_by p i Stdout + held_by p i Stderr"

definition pool_ok :: "peer \<Rightarrow> usize \<Rightarrow> bool" where
  "pool_ok p i \<longleftrightarrow>
     gr_window (at2 (pr_windows p) i) = lim_output (pr_limits p) \<and>
     pool.bounded (at2 (pr_windows p) i) (held p i)"

definition incoming_ok :: "limits \<Rightarrow> incoming \<Rightarrow> bool" where
  "incoming_ok l inc \<longleftrightarrow> inbox_ok (lim_output l) (chunk_of l) (inc_inbox inc)"

definition outgoing_ok :: "limits \<Rightarrow> outgoing \<Rightarrow> bool" where
  "outgoing_ok l i \<longleftrightarrow>
     length (og_queue i) \<le> chunk_of l \<and> (og_end_sent i \<longrightarrow> og_ended i \<and> og_queue i = []) \<and>
     cr_window (og_credit i) = lim_input l \<and>
     unat (cr_available (og_credit i)) \<le> unat (win_size (lim_input l))"

definition peer_byte_bound :: "limits \<Rightarrow> nat" where
  "peer_byte_bound l =
     chunk_of l + bytes_with (lim_output l) (chunk_of l) * length (output_pools l)"

definition peer_inv :: "peer \<Rightarrow> bool" where
  "peer_inv p \<longleftrightarrow>
     all2 (incoming_ok (pr_limits p)) (pr_outputs p) \<and> outgoing_ok (pr_limits p) (pr_input p) \<and>
     pool_ok p 0 \<and> pool_ok p 1 \<and> pr_turn p \<le> length (output_pools (pr_limits p)) \<and>
     peer_buffered p \<le> pr_high_water p \<and> pr_high_water p \<le> peer_byte_bound (pr_limits p)"

lemma pool_ok_upd [simp]:
  "pool_ok (p\<lparr>pr_key := x1\<rparr>) i = pool_ok p i"
  "pool_ok (p\<lparr>pr_timers := x2\<rparr>) i = pool_ok p i"
  "pool_ok (p\<lparr>pr_started := x3\<rparr>) i = pool_ok p i"
  "pool_ok (p\<lparr>pr_started_event := x4\<rparr>) i = pool_ok p i"
  "pool_ok (p\<lparr>pr_input := x5\<rparr>) i = pool_ok p i"
  "pool_ok (p\<lparr>pr_turn := x6\<rparr>) i = pool_ok p i"
  "pool_ok (p\<lparr>pr_terminal := x7\<rparr>) i = pool_ok p i"
  "pool_ok (p\<lparr>pr_cause := x8\<rparr>) i = pool_ok p i"
  "pool_ok (p\<lparr>pr_cancel_message := x9\<rparr>) i = pool_ok p i"
  "pool_ok (p\<lparr>pr_timeout_at := y1\<rparr>) i = pool_ok p i"
  "pool_ok (p\<lparr>pr_terminated_at := y2\<rparr>) i = pool_ok p i"
  "pool_ok (p\<lparr>pr_grace_until := y3\<rparr>) i = pool_ok p i"
  "pool_ok (p\<lparr>pr_give_up_at := y4\<rparr>) i = pool_ok p i"
  "pool_ok (p\<lparr>pr_gave_up := y5\<rparr>) i = pool_ok p i"
  "pool_ok (p\<lparr>pr_detached := y6\<rparr>) i = pool_ok p i"
  "pool_ok (p\<lparr>pr_finished := y7\<rparr>) i = pool_ok p i"
  "pool_ok (p\<lparr>pr_high_water := y8\<rparr>) i = pool_ok p i"
  by (simp_all add: pool_ok_def held_def held_by_def inc_of_def)

lemma peer_inv_upd [simp]:
  "peer_inv (p\<lparr>pr_key := x1\<rparr>) = peer_inv p"
  "peer_inv (p\<lparr>pr_timers := x2\<rparr>) = peer_inv p"
  "peer_inv (p\<lparr>pr_started := x3\<rparr>) = peer_inv p"
  "peer_inv (p\<lparr>pr_started_event := x4\<rparr>) = peer_inv p"
  "peer_inv (p\<lparr>pr_terminal := x7\<rparr>) = peer_inv p"
  "peer_inv (p\<lparr>pr_cause := x8\<rparr>) = peer_inv p"
  "peer_inv (p\<lparr>pr_cancel_message := x9\<rparr>) = peer_inv p"
  "peer_inv (p\<lparr>pr_timeout_at := y1\<rparr>) = peer_inv p"
  "peer_inv (p\<lparr>pr_terminated_at := y2\<rparr>) = peer_inv p"
  "peer_inv (p\<lparr>pr_grace_until := y3\<rparr>) = peer_inv p"
  "peer_inv (p\<lparr>pr_give_up_at := y4\<rparr>) = peer_inv p"
  "peer_inv (p\<lparr>pr_gave_up := y5\<rparr>) = peer_inv p"
  "peer_inv (p\<lparr>pr_detached := y6\<rparr>) = peer_inv p"
  "peer_inv (p\<lparr>pr_finished := y7\<rparr>) = peer_inv p"
  by (simp_all add: peer_inv_def peer_buffered_def)

lemma peer_memory_bound_eq:
  "peer_memory_bound p = min (peer_byte_bound (pr_limits p)) usize_max"
  by (auto simp: peer_memory_bound_def peer_byte_bound_def output_bytes_def saturating_add_def
      saturating_mul_def output_pools_def Let_def)

lemma peer_inv_incD: "peer_inv p \<Longrightarrow> incoming_ok (pr_limits p) (inc_of p s)"
  by (simp add: peer_inv_def inc_of_def all2_at2)

lemma peer_inv_poolD: "peer_inv p \<Longrightarrow> i < 2 \<Longrightarrow> pool_ok p i"
  by (auto simp: peer_inv_def less_2_cases_iff)

lemma held_by_le: "s = Stdout \<or> s = Stderr \<Longrightarrow> held_by p i s \<le> held p i"
  by (auto simp: held_def)

lemma peer_inv_units: 
  assumes "peer_inv p"
  shows "inbox_units (inc_inbox (inc_of p s)) < 2 ^ 32"
proof -
  let ?i = "pool_of (pr_limits p) s"
  have "pool_ok p ?i" by (rule peer_inv_poolD [OF assms]) simp
  then have "held p ?i \<le> unat (win_size (lim_output (pr_limits p)))"
    by (auto simp: pool_ok_def pool.bounded_def)
  moreover have "inbox_units (inc_inbox (inc_of p s)) \<le> held p ?i"
    using held_by_le [of s p ?i] by (cases s) (simp_all add: held_by_def)
  ultimately show ?thesis
    using unat_u32_bound [of "win_size (lim_output (pr_limits p))"] by simp
qed

text \<open>The bytes that the peer holds fit its bound.\<close>

lemma peer_buffered_bound:
  assumes ok: "all2 (incoming_ok (pr_limits p)) (pr_outputs p)"
    and q: "length (og_queue (pr_input p)) \<le> chunk_of (pr_limits p)"
    and pools: "pool_ok p 0" "pool_ok p 1"
  shows "peer_buffered p \<le> peer_byte_bound (pr_limits p)"
proof -
  let ?l = "pr_limits p"
  let ?w = "lim_output ?l"
  let ?b = "unit_bytes (win_unit ?w) (chunk_of ?l)"
  define n where "n = (\<lambda>s. inbox_units (inc_inbox (inc_of p s)))"
  have len: "inbox_len (inc_inbox (inc_of p s)) \<le> n s * ?b" for s
    unfolding n_def using ok
    by (intro inbox_ok_len_units) (auto simp: inc_of_def incoming_ok_def dest: all2_at2)
  have h: "held p i \<le> unat (win_size ?w)" if "i = 0 \<or> i = 1" for i
    using pools that by (auto simp: pool_ok_def pool.bounded_def)
  have "n Stdout + n Stderr \<le> unat (win_size ?w) * length (output_pools ?l)"
    using h [of 0] h [of 1]
    by (cases "lim_shared ?l")
      (auto simp: held_def held_by_def n_def pool_of_def output_pools_def)
  then have "(n Stdout + n Stderr) * ?b \<le> unat (win_size ?w) * length (output_pools ?l) * ?b"
    by (rule mult_right_mono) simp
  moreover have "bytes_with ?w (chunk_of ?l) = unat (win_size ?w) * ?b"
    by (rule bytes_with_eq [OF chunk_of_bound])
  moreover have "peer_buffered p = length (og_queue (pr_input p)) +
      (inbox_len (inc_inbox (inc_of p Stdout)) + inbox_len (inc_inbox (inc_of p Stderr)))"
    by (simp add: peer_buffered_def sum2_def inc_of_def at2_def)
  ultimately show ?thesis
    using len [of Stdout] len [of Stderr] q
    by (simp add: peer_byte_bound_def algebra_simps)
qed

section \<open>Changes of one stream and its pool\<close>

definition put_stream :: "peer \<Rightarrow> stream \<Rightarrow> incoming \<Rightarrow> granted \<Rightarrow> peer" where
  "put_stream p s inc w =
     (set_inc p s inc)\<lparr>pr_windows := put2 (pr_windows p) (pool_of (pr_limits p) s) w\<rparr>"

lemma put_stream_fields [simp]:
  "pr_limits (put_stream p s inc w) = pr_limits p" "pr_input (put_stream p s inc w) = pr_input p"
  "pr_turn (put_stream p s inc w) = pr_turn p"
  "pr_high_water (put_stream p s inc w) = pr_high_water p"
  "pr_outputs (put_stream p s inc w) = put2 (pr_outputs p) (stream_index s) inc"
  "pr_windows (put_stream p s inc w) = put2 (pr_windows p) (pool_of (pr_limits p) s) w"
  "pr_key (put_stream p s inc w) = pr_key p" "pr_timers (put_stream p s inc w) = pr_timers p"
  "pr_terminated_at (put_stream p s inc w) = pr_terminated_at p"
  "pr_terminal (put_stream p s inc w) = pr_terminal p"
  "pr_started (put_stream p s inc w) = pr_started p"
  "pr_detached (put_stream p s inc w) = pr_detached p"
  "pr_gave_up (put_stream p s inc w) = pr_gave_up p"
  "pr_finished (put_stream p s inc w) = pr_finished p"
  by (simp_all add: put_stream_def set_inc_def)

lemma inc_of_put_stream: "inc_of (put_stream p s inc w) s' = (if s' = s then inc else inc_of p s')"
  by (simp add: inc_of_def at2_put2)

lemma inc_of_note [simp]: "inc_of (peer_note_buffered p) s = inc_of p s"
  by (simp add: inc_of_def)

lemma window_free_set_inc:
  "window_free (set_inc p s inc) s n =
     put_stream p s inc (granted_free (at2 (pr_windows p) (pool_of (pr_limits p) s)) n)"
  by (simp add: window_free_def put_stream_def set_inc_def Let_def)

lemma held_put_stream:
  "held (put_stream p s inc w) i +
     (if pool_of (pr_limits p) s = i then inbox_units (inc_inbox (inc_of p s)) else 0) =
   held p i + (if pool_of (pr_limits p) s = i then inbox_units (inc_inbox inc) else 0)"
  by (cases s) (auto simp: held_def held_by_def inc_of_def at2_def)

lemma pool_ok_put_stream:
  assumes "pool_ok p i" and "i < 2" and w: "gr_window w = lim_output (pr_limits p)"
    and b: "\<And>h. pool_of (pr_limits p) s = i \<Longrightarrow>
      h + inbox_units (inc_inbox (inc_of p s)) = held p i + inbox_units (inc_inbox inc) \<Longrightarrow>
      pool.bounded w h"
  shows "pool_ok (put_stream p s inc w) i"
proof (cases "pool_of (pr_limits p) s = i")
  case True
  with b held_put_stream [of p s inc w i] w show ?thesis
    by (simp add: pool_ok_def)
next
  case False
  with held_put_stream [of p s inc w i] assms(1,2) show ?thesis
    by (simp add: pool_ok_def at2_put2)
qed

lemma peer_buffered_put_stream:
  "peer_buffered (put_stream p s inc w) + inbox_len (inc_inbox (inc_of p s)) =
   peer_buffered p + inbox_len (inc_inbox inc)"
  by (cases s) (auto simp: peer_buffered_def sum2_def inc_of_def at2_def)

text \<open>A stream that hands over or drops bytes, and the window that takes their units back.\<close>

lemma inv_put_stream:
  assumes inv: "peer_inv p" and inc: "incoming_ok (pr_limits p) inc"
    and len: "inbox_len (inc_inbox inc) \<le> inbox_len (inc_inbox (inc_of p s))"
    and units: "unat freed + inbox_units (inc_inbox inc) = inbox_units (inc_inbox (inc_of p s))"
  shows "peer_inv (window_free (set_inc p s inc) s freed)"
proof -
  let ?i = "pool_of (pr_limits p) s"
  let ?w = "granted_free (at2 (pr_windows p) ?i) freed"
  have pool: "pool_ok p ?i" by (rule peer_inv_poolD [OF inv]) simp
  have le: "inbox_units (inc_inbox (inc_of p s)) \<le> held p ?i"
    by (cases s) (simp_all add: held_def held_by_def)
  have "pool.bounded ?w (held p ?i - unat freed)"
    using pool units le by (intro pool.bounded_free) (auto simp: pool_ok_def)
  then have "pool_ok (put_stream p s inc ?w) i" if "i < 2" for i
    using pool units le that
    by (intro pool_ok_put_stream peer_inv_poolD [OF inv])
      (auto simp: pool_ok_def intro: back_subst [of "pool.bounded ?w"])
  with inv inc len show ?thesis
    using peer_buffered_put_stream [of p s inc ?w]
    by (simp add: window_free_set_inc peer_inv_def all2_put2)
qed

lemma inv_discard_stream:
  assumes inv: "peer_inv p"
  shows "peer_inv (discard_stream p s)"
proof -
  let ?ib = "inc_inbox (inc_of p s)"
  note c = inbox_ok_clear [OF _ peer_inv_units [OF inv], of "lim_output (pr_limits p)" _ s]
  obtain n freed ib where cl: "inbox_clear ?ib = ((n, freed), ib)"
    by (metis prod.exhaust)
  have "inbox_ok (lim_output (pr_limits p)) (chunk_of (pr_limits p)) ?ib"
    using peer_inv_incD [OF inv, of s] by (simp add: incoming_ok_def)
  from c [OF this] cl have f: "inbox_ok (lim_output (pr_limits p)) (chunk_of (pr_limits p)) ib"
    "inbox_units ib = 0" "unat freed = inbox_units ?ib"
    by simp_all
  have "ib_bytes ib = []"
    using inbox_clear_bytes [of ?ib] cl by simp
  with f show ?thesis
    by (auto simp: discard_stream_def drop_inbox_def cl incoming_ok_def inbox_len_def
        intro!: inv_put_stream [OF inv])
qed

lemma inv_peer_end_grace: "peer_inv p \<Longrightarrow> peer_inv (peer_end_grace p)"
  by (simp add: peer_end_grace_def inv_discard_stream)

lemma inv_consumed:
  assumes inv: "peer_inv p"
  shows "peer_inv (consumed p s n)"
proof -
  let ?ib = "inc_inbox (inc_of p s)"
  obtain freed ib where pop: "inbox_pop ?ib n = (freed, ib)"
    by (metis prod.exhaust)
  have "inbox_ok (lim_output (pr_limits p)) (chunk_of (pr_limits p)) ?ib"
    using peer_inv_incD [OF inv, of s] by (simp add: incoming_ok_def)
  from inbox_ok_pop [OF this peer_inv_units [OF inv] pop] inbox_pop_fields [OF pop]
  show ?thesis
    by (auto simp: consumed_def pop incoming_ok_def inbox_len_def intro!: inv_put_stream [OF inv])
qed

section \<open>Every call keeps the invariant\<close>

lemma inv_outgoing:
  assumes "peer_inv p" and "outgoing_ok (pr_limits p) i"
    and "length (og_queue i) \<le> length (og_queue (pr_input p))"
  shows "peer_inv (p\<lparr>pr_input := i\<rparr>)"
  using assms by (simp add: peer_inv_def peer_buffered_def)

lemma peer_inv_outD: "peer_inv p \<Longrightarrow> outgoing_ok (pr_limits p) (pr_input p)"
  by (simp add: peer_inv_def)

lemma inv_peer_close_input: "peer_inv p \<Longrightarrow> peer_inv (peer_close_input p)"
  using peer_inv_outD [of p]
  by (auto simp: peer_close_input_def Let_def outgoing_ok_def intro!: inv_outgoing)

lemma inv_peer_terminate: "peer_inv p \<Longrightarrow> peer_inv (peer_terminate p now c)"
  by (simp add: peer_terminate_def Let_def inv_peer_close_input inv_peer_end_grace)

lemma inv_peer_tick: "peer_inv p \<Longrightarrow> peer_inv (peer_tick p now)"
  by (simp add: peer_tick_def peer_fire_timeout_def peer_fire_grace_def peer_fire_give_up_def
      inv_peer_terminate inv_peer_end_grace)

lemma inv_peer_detach: "peer_inv p \<Longrightarrow> peer_inv (peer_detach p now c)"
  by (simp add: peer_detach_def Let_def inv_peer_tick inv_peer_terminate)

lemma inv_peer_note:
  assumes "all2 (incoming_ok (pr_limits p)) (pr_outputs p)" "outgoing_ok (pr_limits p) (pr_input p)"
    "pool_ok p 0" "pool_ok p 1" "pr_turn p \<le> length (output_pools (pr_limits p))"
    "pr_high_water p \<le> peer_byte_bound (pr_limits p)"
  shows "peer_inv (peer_note_buffered p)"
  using assms peer_buffered_bound [OF assms(1) _ assms(3,4)]
  by (simp add: peer_inv_def peer_note_buffered_def peer_buffered_def outgoing_ok_def)

lemma inv_peer_credit: 
  assumes inv: "peer_inv p"
  shows "peer_inv (snd (peer_credit p key n))"
proof -
  have "peer_inv (p\<lparr>pr_input := (pr_input p)\<lparr>og_credit := c\<rparr>\<rparr>)"
    if "credit_grant (og_credit (pr_input p)) n = Inr c" for c
    using peer_inv_outD [OF inv] credit_grant_available [OF that] that
    by (intro inv_outgoing [OF inv]) (auto simp: credit_grant_Inr outgoing_ok_def)
  with inv show ?thesis
    unfolding peer_credit_def
    by (intro admitted_inv [where P = peer_inv]) (auto simp: Let_def split: sum.splits)
qed

lemma inv_peer_started: "peer_inv p \<Longrightarrow> peer_inv (snd (peer_started p key))"
  unfolding peer_started_def by (intro admitted_inv [where P = peer_inv]) auto

text \<open>The window after a data message of a stream, and the stream that queues or drops it.\<close>

lemma output_charge:
  assumes inv: "peer_inv p" and n: "0 < length bs" "length bs \<le> chunk_of (pr_limits p)"
    and w: "granted_charge (at2 (pr_windows p) (pool_of (pr_limits p) s)) (length bs) = Inr w"
  shows "gr_window w = lim_output (pr_limits p) \<and>
         pool.bounded w (held p (pool_of (pr_limits p) s) +
           unit_cost (win_unit (lim_output (pr_limits p))) (length bs)) \<and>
         unat (window_cost (lim_output (pr_limits p)) (length bs)) =
           unit_cost (win_unit (lim_output (pr_limits p))) (length bs)"
proof -
  have "pool_ok p (pool_of (pr_limits p) s)" by (rule peer_inv_poolD [OF inv]) simp
  moreover have "length bs < 2 ^ 32"
    using n chunk_of_bound [of "pr_limits p"] by simp
  ultimately show ?thesis
    using pool.bounded_charge [OF _ _ w] w unat_window_cost
    by (auto simp: pool_ok_def granted_charge_Inr)
qed

lemma inv_output_queued:
  assumes inv: "peer_inv p" and n: "0 < length bs" "length bs \<le> chunk_of (pr_limits p)"
    and w: "granted_charge (at2 (pr_windows p) (pool_of (pr_limits p) s)) (length bs) = Inr w"
  shows "peer_inv (peer_note_buffered (put_stream p s
           ((inc_of p s)\<lparr>inc_inbox := inbox_push (inc_inbox (inc_of p s)) bs\<rparr>) w))"
    (is "peer_inv (peer_note_buffered ?q)")
proof -
  note ow = output_charge [OF inv n w]
  note inc = peer_inv_incD [OF inv, of s, unfolded incoming_ok_def]
  have "inbox_ok (lim_output (pr_limits p)) (chunk_of (pr_limits p))
      (inbox_push (inc_inbox (inc_of p s)) bs)"
    using n by (intro inbox_ok_push [OF inc]) auto
  moreover have "pool_ok ?q i" if "i < 2" for i
    using ow inc that
    by (intro pool_ok_put_stream peer_inv_poolD [OF inv])
      (auto simp: inbox_push_cost inbox_ok_def intro: back_subst [of "pool.bounded w"])
  ultimately show ?thesis
    using inv by (intro inv_peer_note)
      (auto simp: peer_inv_def incoming_ok_def intro!: all2_put2)
qed

lemma inv_output_dropped:
  assumes inv: "peer_inv p" and n: "0 < length bs" "length bs \<le> chunk_of (pr_limits p)"
    and w: "granted_charge (at2 (pr_windows p) (pool_of (pr_limits p) s)) (length bs) = Inr w"
  shows "peer_inv (put_stream p s ((inc_of p s)\<lparr>inc_truncated := True\<rparr>)
           (granted_free w (window_cost (lim_output (pr_limits p)) (length bs))))"
    (is "peer_inv (put_stream p s ?inc ?w)")
proof -
  note ow = output_charge [OF inv n w]
  have "pool.bounded ?w (held p (pool_of (pr_limits p) s) +
      unit_cost (win_unit (lim_output (pr_limits p))) (length bs) -
      unat (window_cost (lim_output (pr_limits p)) (length bs)))"
    using ow by (intro pool.bounded_free) auto
  then have "pool_ok (put_stream p s ?inc ?w) i" if "i < 2" for i
    using ow that
    by (intro pool_ok_put_stream peer_inv_poolD [OF inv])
      (auto intro: back_subst [of "pool.bounded ?w"])
  then show ?thesis
    using inv peer_inv_incD [OF inv, of s] peer_buffered_put_stream [of p s ?inc ?w]
    by (auto simp: peer_inv_def incoming_ok_def intro!: all2_put2)
qed

lemma peer_output_put_stream:
  "set_inc (p\<lparr>pr_windows := put2 (pr_windows p) (pool_of (pr_limits p) s) w\<rparr>) s inc =
     put_stream p s inc w"
  "window_free (put_stream p s inc w) s n = put_stream p s inc (granted_free w n)"
  by (simp_all add: set_inc_def put_stream_def window_free_def Let_def)

lemma inv_peer_output:
  assumes inv: "peer_inv p"
  shows "peer_inv (snd (peer_output p key s bs))"
proof -
  have o: "inc_of (p\<lparr>pr_windows := ws\<rparr>) s = inc_of p s" for ws
    by (simp add: inc_of_def)
  show ?thesis
    unfolding peer_output_def
    using inv inv_output_queued [OF inv, of bs s] inv_output_dropped [OF inv, of bs s]
    by (intro admitted_inv [where P = peer_inv])
      (auto simp: Let_def o peer_output_put_stream split: sum.splits)
qed

lemma inv_set_inc_flags:
  assumes "peer_inv p" and "inc_inbox inc = inc_inbox (inc_of p s)"
  shows "peer_inv (set_inc p s inc)"
proof -
  have "set_inc p s inc = put_stream p s inc (at2 (pr_windows p) (pool_of (pr_limits p) s))"
    by (simp add: put_stream_def set_inc_def)
  moreover have "pool_ok (put_stream p s inc (at2 (pr_windows p) (pool_of (pr_limits p) s))) i"
    if "i < 2" for i
    using that peer_inv_poolD [OF assms(1), of "pool_of (pr_limits p) s"] assms(2)
    by (intro pool_ok_put_stream peer_inv_poolD [OF assms(1)]) (auto simp: pool_ok_def)
  ultimately show ?thesis
    using assms peer_inv_incD [OF assms(1), of s]
      peer_buffered_put_stream [of p s inc "at2 (pr_windows p) (pool_of (pr_limits p) s)"]
    by (auto simp: peer_inv_def incoming_ok_def intro!: all2_put2)
qed

lemma inv_peer_end_output: "peer_inv p \<Longrightarrow> peer_inv (snd (peer_end_output p key s))"
  unfolding peer_end_output_def
  by (intro admitted_inv [where P = peer_inv]) (auto intro!: inv_set_inc_flags)

lemma inv_peer_input_closed: "peer_inv p \<Longrightarrow> peer_inv (snd (peer_input_closed p key))"
  unfolding peer_input_closed_def
  by (intro admitted_inv [where P = peer_inv]) (auto intro!: inv_peer_close_input)

lemma inv_peer_terminal: "peer_inv p \<Longrightarrow> peer_inv (snd (peer_terminal p now key oc))"
  unfolding peer_terminal_def
  by (intro admitted_inv [where P = peer_inv])
    (auto simp: Let_def inv_peer_tick intro!: inv_peer_close_input inv_peer_end_grace)

lemma inv_peer_input:
  assumes inv: "peer_inv p"
  shows "peer_inv (snd (peer_input p bs))"
proof -
  let ?i = "pr_input p"
  let ?n = "min (length bs) (write_allowance p)"
  have "?n \<le> chunk_of (pr_limits p) - length (og_queue ?i)" "og_ended ?i \<Longrightarrow> ?n = 0"
    by (auto simp: write_allowance_def Let_def)
  with peer_inv_outD [OF inv]
  have "outgoing_ok (pr_limits p) (?i\<lparr>og_queue := og_queue ?i @ take ?n bs\<rparr>)"
    by (auto simp: outgoing_ok_def)
  with inv show ?thesis
    unfolding peer_input_def Let_def snd_conv
    by (intro inv_peer_note) (auto simp: peer_inv_def)
qed

lemma inv_peer_end_input: "peer_inv p \<Longrightarrow> peer_inv (peer_end_input p)"
  using peer_inv_outD [of p] by (auto simp: peer_end_input_def outgoing_ok_def intro!: inv_outgoing)

section \<open>Messages and events\<close>

lemma take_grant_None: "granted_take_grant g = (None, w) \<Longrightarrow> w = g"
  by (cases g) (auto simp: granted_take_grant_def Let_def word_gt_0 split: if_splits)

lemma peer_next_credit_None:
  "peer_next_credit i buffer p = (None, buffer', p') \<Longrightarrow> buffer' = buffer \<and> p' = p"
  by (auto simp: peer_next_credit_def dest!: take_grant_None split: if_splits prod.splits)

lemma peer_next_credit_Some:
  assumes "peer_next_credit i buffer p = (Some m, buffer', p')"
  obtains u w where "m = PeerCredit (output_pools (pr_limits p) ! i) u" "buffer' = buffer"
    "pr_terminal p = None" "pool_open p i"
    "granted_take_grant (at2 (pr_windows p) i) = (Some u, w)"
    "p' = p\<lparr>pr_windows := put2 (pr_windows p) i w\<rparr>"
  using assms by (auto simp: peer_next_credit_def split: if_splits prod.splits)

text \<open>The bytes of input that the peer can send now.\<close>

definition input_length :: "bytes \<Rightarrow> peer \<Rightarrow> usize" where
  "input_length buffer p =
     credit_sendable (og_credit (pr_input p))
       (min (min (length (og_queue (pr_input p))) (chunk_of (pr_limits p))) (length buffer))"

definition input_sent :: "usize \<Rightarrow> peer \<Rightarrow> peer" where
  "input_sent n p =
     p\<lparr>pr_input := (pr_input p)\<lparr>og_queue := drop n (og_queue (pr_input p)),
                                og_credit := credit_spend (og_credit (pr_input p)) n\<rparr>\<rparr>"

lemma input_length_le:
  "input_length buffer p \<le> length (og_queue (pr_input p))"
  "input_length buffer p \<le> chunk_of (pr_limits p)"
  "input_length buffer p \<le> length buffer"
proof -
  have "input_length buffer p \<le>
      min (min (length (og_queue (pr_input p))) (chunk_of (pr_limits p))) (length buffer)"
    by (simp only: input_length_def credit_sendable_le)
  then show "input_length buffer p \<le> length (og_queue (pr_input p))"
    "input_length buffer p \<le> chunk_of (pr_limits p)" "input_length buffer p \<le> length buffer"
    by simp_all
qed

lemma next_input_eq:
  "next_input buffer p =
     (let i = pr_input p; n = input_length buffer p
      in if og_closed i then (None, buffer, p)
         else if n > 0 then (Some (PeerInput n), take n (og_queue i) @ drop n buffer, input_sent n p)
         else if og_ended i \<and> og_queue i = [] \<and> \<not> og_end_sent i
         then (Some PeerInputEnd, buffer, p\<lparr>pr_input := i\<lparr>og_end_sent := True\<rparr>\<rparr>)
         else (None, buffer, p))"
proof -
  define n where "n = input_length buffer p"
  have le: "min (min n (length buffer)) (length (og_queue (pr_input p))) = n"
    using input_length_le [of buffer p] by (simp add: n_def)
  show ?thesis
    unfolding next_input_def Let_def input_length_def [symmetric] n_def [symmetric] queue_take_def le
    by (simp add: input_sent_def)
qed

text \<open>The messages of the peer, with the peer before and after each.\<close>

lemma peer_from_source_None:
  "peer_from_source i buffer p = (None, buffer', p') \<Longrightarrow> buffer' = buffer \<and> p' = p"
  by (auto simp: peer_from_source_def next_input_eq Let_def dest: peer_next_credit_None
      split: if_splits)

lemma peer_next_source_Some:
  assumes "peer_next_source offsets buffer p = (Some m, buffer', p')"
  obtains offset i p1 where "offset \<in> set offsets"
    "i = (pr_turn p + offset) mod (length (output_pools (pr_limits p)) + 1)"
    "peer_from_source i buffer p = (Some m, buffer', p1)"
    "p' = p1\<lparr>pr_turn := (i + 1) mod (length (output_pools (pr_limits p)) + 1)\<rparr>"
  using assms
proof (induction offsets arbitrary: thesis)
  case (Cons offset offsets)
  define i where "i = (pr_turn p + offset) mod (length (output_pools (pr_limits p)) + 1)"
  obtain c b p1 where c: "peer_from_source i buffer p = (c, b, p1)"
    by (cases "peer_from_source i buffer p")
  show ?case
  proof (cases c)
    case None
    with c have "b = buffer \<and> p1 = p" by (auto dest: peer_from_source_None)
    with Cons.prems(2) c None have "peer_next_source offsets buffer p = (Some m, buffer', p')"
      by (simp add: i_def Let_def)
    with Cons.IH [of thesis] Cons.prems(1) show ?thesis
      by (metis list.set_intros(2))
  next
    case (Some m1)
    with Cons.prems(2) c Cons.prems(1) [OF _ i_def, of p1] show ?thesis
      by (simp add: i_def Let_def)
  qed
qed simp

lemma peer_next_source_None:
  "peer_next_source offsets buffer p = (None, buffer', p') \<Longrightarrow> buffer' = buffer \<and> p' = p"
  by (induction offsets) (auto simp: Let_def dest!: peer_from_source_None split: prod.splits option.splits)

text \<open>Every message of the peer is a cancellation, the credit of a pool, or of the input.\<close>

lemma peer_next_message_Some:
  assumes "peer_next_message buffer p = (Some m, buffer', p')"
  obtains (cancel) "\<not> pr_finished p" "\<not> pr_detached p" "pr_cancel_message p" "buffer' = buffer"
      "m = PeerCancel (case pr_cause p of Some c \<Rightarrow> c | None \<Rightarrow> Cancelled)"
      "p' = p\<lparr>pr_cancel_message := False\<rparr>"
  | (credit) i u w where "\<not> pr_finished p" "\<not> pr_detached p" "\<not> pr_cancel_message p"
      "i < length (output_pools (pr_limits p))" "buffer' = buffer"
      "m = PeerCredit (output_pools (pr_limits p) ! i) u" "pr_terminal p = None" "pool_open p i"
      "granted_take_grant (at2 (pr_windows p) i) = (Some u, w)"
      "p' = p\<lparr>pr_windows := put2 (pr_windows p) i w,
              pr_turn := (i + 1) mod (length (output_pools (pr_limits p)) + 1)\<rparr>"
  | (input) p1 where "\<not> pr_finished p" "\<not> pr_detached p" "\<not> pr_cancel_message p"
      "next_input buffer p = (Some m, buffer', p1)" "p' = p1\<lparr>pr_turn := 0\<rparr>"
proof (cases "pr_finished p \<or> pr_detached p \<or> pr_cancel_message p")
  case True
  with assms cancel show ?thesis by (auto simp: peer_next_message_def split: if_splits)
next
  case False
  let ?k = "length (output_pools (pr_limits p))"
  from False assms have "peer_next_source [0..<?k + 1] buffer p = (Some m, buffer', p')"
    by (simp add: peer_next_message_def)
  then obtain offset i p1 where i: "i = (pr_turn p + offset) mod (?k + 1)"
    "peer_from_source i buffer p = (Some m, buffer', p1)"
    "p' = p1\<lparr>pr_turn := (i + 1) mod (?k + 1)\<rparr>"
    by (rule peer_next_source_Some)
  then have "i \<le> ?k" by (simp add: less_Suc_eq_le [symmetric])
  show ?thesis
  proof (cases "i < ?k")
    case True
    with i(2) have "peer_next_credit i buffer p = (Some m, buffer', p1)"
      by (simp add: peer_from_source_def)
    then show ?thesis
      using True False i(3) by (elim peer_next_credit_Some) (rule credit, auto)
  next
    case not_credit: False
    with \<open>i \<le> ?k\<close> i(2,3) False input [of p1] show ?thesis
      by (auto simp: peer_from_source_def)
  qed
qed

lemma peer_next_message_None:
  "peer_next_message buffer p = (None, buffer', p') \<Longrightarrow> buffer' = buffer \<and> p' = p"
  by (auto simp: peer_next_message_def dest: peer_next_source_None split: if_splits)

lemma inv_windows_take:
  assumes inv: "peer_inv p" and "granted_take_grant (at2 (pr_windows p) i) = (g, w)" and "i < 2"
  shows "peer_inv (p\<lparr>pr_windows := put2 (pr_windows p) i w\<rparr>)"
proof -
  have "pool.bounded w (held p i)" "gr_window w = lim_output (pr_limits p)"
    using peer_inv_poolD [OF inv assms(3)] pool.bounded_take [OF _ assms(2)] assms(2)
    by (auto simp: pool_ok_def granted_take_grant_def Let_def)
  moreover have "held (p\<lparr>pr_windows := ws\<rparr>) j = held p j" for ws j
    by (simp add: held_def held_by_def inc_of_def)
  ultimately have "pool_ok (p\<lparr>pr_windows := put2 (pr_windows p) i w\<rparr>) j" if "j < 2" for j
    using that assms(3) peer_inv_poolD [OF inv that]
    by (cases "i = j") (auto simp: pool_ok_def at2_put2)
  with inv show ?thesis
    by (simp add: peer_inv_def peer_buffered_def)
qed

lemma inv_input_sent:
  assumes inv: "peer_inv p" and n: "n = input_length buffer p" "0 < n"
  shows "peer_inv (input_sent n p)"
proof -
  let ?c = "og_credit (pr_input p)"
  let ?w = "min (min (length (og_queue (pr_input p))) (chunk_of (pr_limits p))) (length buffer)"
  have "?w < 2 ^ 32"
    using chunk_of_bound [of "pr_limits p"] by (simp add: min_less_iff_disj)
  moreover have "n = credit_sendable ?c ?w"
    using n(1) by (simp only: input_length_def)
  ultimately have "unat (cr_available (credit_spend ?c n)) \<le> unat (cr_available ?c)"
    using credit_spend_available [of n ?c ?w] n(2) by linarith
  with peer_inv_outD [OF inv] show ?thesis
    unfolding input_sent_def by (intro inv_outgoing [OF inv]) (auto simp: outgoing_ok_def)
qed

lemma output_pools_length: "length (output_pools l) \<le> 2"
  by (simp add: output_pools_def)

lemma inv_peer_turn: "peer_inv p \<Longrightarrow> t \<le> length (output_pools (pr_limits p)) \<Longrightarrow> peer_inv (p\<lparr>pr_turn := t\<rparr>)"
  by (simp add: peer_inv_def peer_buffered_def)

lemma inv_next_input:
  assumes inv: "peer_inv p" and "next_input buffer p = (m, buffer', p')"
  shows "peer_inv p'" "pr_limits p' = pr_limits p"
  using assms peer_inv_outD [OF inv]
  by (auto simp: next_input_eq Let_def input_sent_def [symmetric] outgoing_ok_def
      split: if_splits intro!: inv_input_sent [of _ _ buffer] inv_outgoing)
    (simp_all add: input_sent_def)

lemma inv_peer_next_message:
  assumes inv: "peer_inv p"
  shows "peer_inv (snd (snd (peer_next_message buffer p)))"
proof -
  obtain m b p' where m: "peer_next_message buffer p = (m, b, p')"
    by (cases "peer_next_message buffer p")
  have "peer_inv p'"
  proof (cases m)
    case None
    with m inv show ?thesis using peer_next_message_None by blast
  next
    case (Some m1)
    from m [unfolded Some] show ?thesis
    proof (cases rule: peer_next_message_Some)
      case (credit i u w)
      have "i < 2" using credit(4) output_pools_length [of "pr_limits p"] by simp
      from inv_windows_take [OF inv credit(9) this] credit(10) show ?thesis
        by (auto intro!: inv_peer_turn simp: less_Suc_eq_le [symmetric])
    next
      case (input p1)
      with inv_next_input [OF inv input(4)] show ?thesis
        by (simp add: inv_peer_turn)
    qed (simp add: inv)
  qed
  with m show ?thesis by simp
qed

lemma inv_next_event: "peer_inv p \<Longrightarrow> peer_inv (snd (next_event p))"
  using peer_inv_outD [of p]
  by (auto simp: next_event_def outgoing_ok_def split: option.split
      intro!: inv_set_inc_flags inv_outgoing)

section \<open>Reachable peers\<close>

lemma inv_peer_new: "peer_inv (peer_new key l t now)"
proof -
  have "held (peer_new key l t now) i = 0" for i
    by (simp add: held_def held_by_def inc_of_def peer_new_def incoming_new_def at2_def)
  then show ?thesis
    by (simp add: peer_inv_def pool_ok_def)
      (simp add: peer_new_def all2_def incoming_ok_def incoming_new_def outgoing_ok_def at2_def
        credit_new_def granted_new_def pool.bounded_def peer_buffered_def sum2_def inbox_len_def)
qed

lemma inv_peer_apply: "peer_inv p \<Longrightarrow> peer_inv (peer_apply c p)"
  by (cases c)
    (simp_all add: inv_peer_credit inv_peer_started inv_peer_output inv_peer_end_output
      inv_peer_input_closed inv_peer_terminal inv_peer_input inv_peer_end_input inv_consumed
      peer_cancel_def peer_dropped_def peer_reset_def peer_disconnect_def Let_def
      inv_peer_terminate inv_peer_end_grace inv_peer_detach inv_peer_tick inv_peer_next_message
      inv_next_event)

definition peer_initial :: "peer \<Rightarrow> bool" where
  "peer_initial p \<longleftrightarrow> (\<exists>key l t now. p = peer_new key l t now)"

definition peer_step :: "peer \<Rightarrow> peer \<Rightarrow> bool" where
  "peer_step p p' \<longleftrightarrow> (\<exists>c. p' = peer_apply c p)"

interpretation peer_sys: transition_system peer_initial peer_step peer_inv
  by unfold_locales (auto simp: peer_initial_def peer_step_def inv_peer_new inv_peer_apply)

lemma peer_run_steps: "peer_step\<^sup>*\<^sup>* p (peer_run calls p)"
proof (induction calls arbitrary: p)
  case (Cons c calls)
  have "peer_step p (peer_apply c p)"
    by (auto simp: peer_step_def)
  with Cons.IH [of "peer_apply c p"] show ?case
    by (simp add: peer_run_def converse_rtranclp_into_rtranclp)
qed (simp add: peer_run_def)

lemma peer_run_inv: "peer_inv (peer_run calls (peer_new key l t now))"
  by (rule peer_sys.invar_reachable [OF _ peer_run_steps]) (auto simp: peer_initial_def)

text \<open>No call changes the peer's key, its limits, or its timers.\<close>

definition peer_setup :: "peer \<Rightarrow> exec_key \<times> limits \<times> timers" where
  "peer_setup p = (pr_key p, pr_limits p, pr_timers p)"

lemma setup_peer_next_message:
  "peer_setup (snd (snd (peer_next_message buffer p))) = peer_setup p"
proof -
  obtain m b p' where m: "peer_next_message buffer p = (m, b, p')"
    by (cases "peer_next_message buffer p")
  have "peer_setup p' = peer_setup p"
  proof (cases m)
    case None
    with m show ?thesis using peer_next_message_None by blast
  next
    case (Some m1)
    from m [unfolded Some] show ?thesis
      by (cases rule: peer_next_message_Some)
        (auto simp: peer_setup_def next_input_eq input_sent_def Let_def split: if_splits)
  qed
  with m show ?thesis by simp
qed

lemma setup_peer_apply: "peer_setup (peer_apply c p) = peer_setup p"
  using setup_peer_next_message [of _ p]
  by (cases c)
    (auto simp: peer_setup_def peer_credit_def peer_started_def peer_output_def peer_end_output_def
      peer_input_closed_def peer_terminal_def admitted_def Let_def peer_input_def peer_end_input_def
      consumed_def peer_cancel_def peer_dropped_def peer_reset_def peer_disconnect_def
      next_event_def split: sum.split option.split prod.split)

lemma peer_run_setup: "peer_setup (peer_run calls (peer_new key l t now)) = (key, l, t)"
proof (induction calls rule: rev_induct)
  case Nil
  then show ?case by (simp add: peer_run_def peer_setup_def peer_new_def)
next
  case (snoc c calls)
  then show ?case
    using setup_peer_apply [of c "peer_run calls (peer_new key l t now)"] by (simp add: peer_run_def)
qed

text \<open>
  A call that notes what the peer holds does so last; any other call leaves the mark as it is, and by
  the invariant it still covers what the peer holds.
\<close>

lemma high_water_peer_next_message: "pr_high_water (snd (snd (peer_next_message buffer p))) = pr_high_water p"
proof -
  obtain m b p' where m: "peer_next_message buffer p = (m, b, p')"
    by (cases "peer_next_message buffer p")
  have "pr_high_water p' = pr_high_water p"
  proof (cases m)
    case None
    with m show ?thesis using peer_next_message_None by blast
  next
    case (Some m1)
    from m [unfolded Some] show ?thesis
      by (cases rule: peer_next_message_Some)
        (auto simp: next_input_eq input_sent_def Let_def split: if_splits)
  qed
  with m show ?thesis by simp
qed

lemma high_water_peer_noted:
  "pr_high_water (peer_note_buffered p) = max (pr_high_water p) (peer_buffered (peer_note_buffered p))"
  by (simp add: peer_note_buffered_def peer_buffered_def)

lemma high_water_peer_cases:
  "pr_high_water (peer_apply c p) = pr_high_water p \<or>
   pr_high_water (peer_apply c p) = max (pr_high_water p) (peer_buffered (peer_apply c p))"
  using high_water_peer_next_message [of _ p]
  by (cases c)
    (auto simp: peer_credit_def peer_started_def peer_output_def peer_end_output_def high_water_peer_noted
      peer_input_closed_def peer_terminal_def admitted_def Let_def peer_input_def peer_end_input_def
      consumed_def peer_cancel_def peer_dropped_def peer_reset_def peer_disconnect_def
      next_event_def split: sum.split option.split prod.split)

lemma high_water_peer_apply:
  "peer_inv p \<Longrightarrow> pr_high_water (peer_apply c p) = max (pr_high_water p) (peer_buffered (peer_apply c p))"
  using high_water_peer_cases [of c p] inv_peer_apply [of p c] by (auto simp: peer_inv_def max_def)

interpretation peer_gauge: gauge peer_apply peer_inv peer_buffered pr_high_water
  by unfold_locales (simp_all add: inv_peer_apply high_water_peer_apply)

text \<open>
  C8. Whatever the runner sends, and whatever the caller and the sink do, the peer never holds more
  bytes than a chunk of input and the windows of the output pools. The memory bound that it reports is
  that number, or the largest machine word if that is less; so the peer holds at most what it reports
  whenever the number fits a machine word. Its high-water mark is the most that it held after any of the
  calls so far.
\<close>

theorem peer_memory_bounded:
  "let p0 = peer_new key l t now; p = peer_run calls p0
   in pr_high_water p = Max ((\<lambda>k. peer_buffered (peer_run (take k calls) p0)) ` {..length calls}) \<and>
      peer_buffered p \<le> pr_high_water p \<and> pr_high_water p \<le> peer_byte_bound l \<and>
      peer_memory_bound p = min (peer_byte_bound l) usize_max \<and>
      (peer_byte_bound l \<le> usize_max \<longrightarrow> pr_high_water p \<le> peer_memory_bound p)"
proof -
  have "pr_high_water (peer_new key l t now) = peer_buffered (peer_new key l t now)"
    using inv_peer_new [of key l t now] by (simp add: peer_new_def peer_inv_def)
  note m = peer_gauge.mark_run [OF inv_peer_new this, of calls, folded peer_run_def]
  have "pr_limits (peer_run calls (peer_new key l t now)) = l"
    using peer_run_setup [of calls key l t now] by (simp add: peer_setup_def)
  then have "peer_buffered (peer_run calls (peer_new key l t now)) \<le> pr_high_water (peer_run calls (peer_new key l t now))"
    "pr_high_water (peer_run calls (peer_new key l t now)) \<le> peer_byte_bound l"
    "peer_memory_bound (peer_run calls (peer_new key l t now)) = min (peer_byte_bound l) usize_max"
    using peer_run_inv [of calls key l t now] by (simp_all add: peer_inv_def peer_memory_bound_eq)
  with m show ?thesis unfolding Let_def by (intro conjI impI) (assumption | simp only: min_absorb1)+
qed

definition gauge_limits :: limits where
  "gauge_limits = \<lparr>lim_chunk = 4, lim_input = \<lparr>win_unit = UnitBytes, win_size = 8\<rparr>,
     lim_output = \<lparr>win_unit = UnitBytes, win_size = 8\<rparr>, lim_shared = False\<rparr>"

definition gauge_peer :: peer where
  "gauge_peer = peer_new \<lparr>key_id = 1, key_generation = 2\<rparr> gauge_limits (timers_new 10 10) 0"

definition gauge_calls :: "peer_call list" where
  "gauge_calls = [PCallNextMessage (replicate 4 0), PCallNextMessage (replicate 4 0), 
     PCallOutput \<lparr>key_id = 1, key_generation = 2\<rparr> Stdout [1, 2, 3], PCallConsumed Stdout 3]"

theorem peer_memory_bounded_witness:
  "peer_byte_bound gauge_limits \<le> usize_max \<and> peer_buffered (peer_run gauge_calls gauge_peer) = 0 \<and>
   pr_high_water (peer_run gauge_calls gauge_peer) = 3 \<and>
   pr_high_water (peer_run gauge_calls gauge_peer) \<le> peer_memory_bound (peer_run gauge_calls gauge_peer)"
proof -
  have b: "peer_byte_bound gauge_limits \<le> usize_max"
    "peer_buffered (peer_run gauge_calls gauge_peer) = 0" "pr_high_water (peer_run gauge_calls gauge_peer) = 3"
    by code_simp+
  note bounded = peer_memory_bounded [of "\<lparr>key_id = 1, key_generation = 2\<rparr>" gauge_limits "timers_new 10 10" 0 gauge_calls,
    folded gauge_peer_def, unfolded Let_def]
  from b bounded show ?thesis by blast
qed

end
