(* ===== verification/Exec_System.thy ===== *)
theory Exec_System
  imports Exec_Runner_Inv Exec_Peer_Inv
begin

text \<open>
  A peer and a runner of one execution, connected by their adapters. Each direction of the
  connection is a queue of messages: the adapter of the sending side appends what its side returns,
  with the bytes of the buffer that it lent, and the adapter of the receiving side hands over the
  oldest. Calls of the workload, the caller, the sink and the clocks interleave freely. A side may
  detach at any time; once it has, the last messages that it sent may be lost.

  The record also carries the history that the theorems speak of: the bytes that the runner took
  from each stream of the workload, those that the sink took of each, the input that the peer took
  from its caller, the input that the workload took, and the first violation that a side reported.
\<close>

section \<open>State\<close>

datatype peer_wire =
    WireCancel cause
  | WireCredit pool u32
  | WireInput bytes
  | WireInputEnd

datatype runner_wire =
    WireInputCredit u32
  | WireStarted
  | WireOutput stream bytes
  | WireEnd stream
  | WireInputClosed
  | WireTerminal outcome

record system =
  sy_peer :: peer
  sy_runner :: runner
  sy_to_runner :: "peer_wire list"
  sy_to_peer :: "runner_wire list"
  sy_read :: "bytes arr2"
  sy_sunk :: "bytes arr2"
  sy_given :: bytes
  sy_written :: bytes
  sy_refused :: "violation option"

definition system_new :: "exec_key \<Rightarrow> limits \<Rightarrow> timers \<Rightarrow> instant \<Rightarrow> timers \<Rightarrow> instant \<Rightarrow> system" where
  "system_new key l peer_timers peer_now runner_timers runner_now =
     \<lparr>sy_peer = peer_new key l peer_timers peer_now,
      sy_runner = runner_new key l runner_timers runner_now,
      sy_to_runner = [], sy_to_peer = [],
      sy_read = Arr2 [] [], sy_sunk = Arr2 [] [], sy_given = [], sy_written = [],
      sy_refused = None\<rparr>"

definition add2 :: "bytes arr2 \<Rightarrow> stream \<Rightarrow> bytes \<Rightarrow> bytes arr2" where
  "add2 a s bs = put2 a (stream_index s) (at2 a (stream_index s) @ bs)"

definition bytes_of :: "bytes arr2 \<Rightarrow> stream \<Rightarrow> bytes" where
  "bytes_of a s = at2 a (stream_index s)"

section \<open>Actions\<close>

text \<open>
  The calls of the workload's side that neither carry a message nor move bytes of a stream, and
  those of the caller's side.
\<close>

datatype workload_call =
    Launched "(launch_failure, unit) result"
  | OutputClosed stream
  | OutputFailed stream
  | OutputHungUp stream
  | InputClosedEarly
  | WorkloadExited instant "status option"
  | WorkloadSettled settlement
  | RunnerDropped instant
  | RunnerReset instant
  | RunnerDisconnect instant
  | RunnerTick instant
  | TakeRequest

fun workload_apply :: "workload_call \<Rightarrow> runner \<Rightarrow> runner" where
  "workload_apply (Launched res) r = runner_launched r res"
| "workload_apply (OutputClosed s) r = output_closed r s"
| "workload_apply (OutputFailed s) r = output_failed r s"
| "workload_apply (OutputHungUp s) r = output_hung_up r s"
| "workload_apply InputClosedEarly r = runner_input_closed r"
| "workload_apply (WorkloadExited now st) r = exited r now st"
| "workload_apply (WorkloadSettled res) r = settled r res"
| "workload_apply (RunnerDropped now) r = runner_dropped r now"
| "workload_apply (RunnerReset now) r = runner_reset r now"
| "workload_apply (RunnerDisconnect now) r = runner_disconnect r now"
| "workload_apply (RunnerTick now) r = runner_tick r now"
| "workload_apply TakeRequest r = snd (next_request r)"

datatype caller_call =
    EndInput
  | Cancel instant
  | PeerDropped instant
  | PeerReset instant
  | PeerDisconnect instant
  | PeerTick instant
  | TakeEvent

fun caller_apply :: "caller_call \<Rightarrow> peer \<Rightarrow> peer" where
  "caller_apply EndInput p = peer_end_input p"
| "caller_apply (Cancel now) p = peer_cancel p now"
| "caller_apply (PeerDropped now) p = peer_dropped p now"
| "caller_apply (PeerReset now) p = peer_reset p now"
| "caller_apply (PeerDisconnect now) p = peer_disconnect p now"
| "caller_apply (PeerTick now) p = peer_tick p now"
| "caller_apply TakeEvent p = snd (next_event p)"

datatype action =
    Workload workload_call
  | Caller caller_call
  | Read stream bytes
  | ReadDiscarded stream bytes
  | WriteInput usize
  | RunnerSend bytes
  | ToRunner instant
  | LoseToPeer usize
  | GiveInput bytes
  | Sink stream usize
  | PeerSend bytes
  | ToPeer instant
  | LoseToRunner usize

fun wire_of_runner :: "bytes \<Rightarrow> runner_message \<Rightarrow> runner_wire" where
  "wire_of_runner _ (RunnerCredit n) = WireInputCredit n"
| "wire_of_runner _ RunnerStarted = WireStarted"
| "wire_of_runner buffer (RunnerOutput s n) = WireOutput s (take n buffer)"
| "wire_of_runner _ (RunnerEnd s) = WireEnd s"
| "wire_of_runner _ RunnerInputClosed = WireInputClosed"
| "wire_of_runner _ (RunnerTerminal oc) = WireTerminal oc"

fun wire_of_peer :: "bytes \<Rightarrow> peer_message \<Rightarrow> peer_wire" where
  "wire_of_peer _ (PeerCancel c) = WireCancel c"
| "wire_of_peer _ (PeerCredit p n) = WireCredit p n"
| "wire_of_peer buffer (PeerInput n) = WireInput (take n buffer)"
| "wire_of_peer _ PeerInputEnd = WireInputEnd"

fun runner_receive ::
  "instant \<Rightarrow> exec_key \<Rightarrow> peer_wire \<Rightarrow> runner \<Rightarrow> (violation, receipt) result \<times> runner" where
  "runner_receive now key (WireCancel c) r = runner_cancel r now key c"
| "runner_receive now key (WireCredit p n) r = runner_credit r key p n"
| "runner_receive now key (WireInput bs) r = runner_input r key bs"
| "runner_receive now key WireInputEnd r = runner_end_input r key"

fun peer_receive ::
  "instant \<Rightarrow> exec_key \<Rightarrow> runner_wire \<Rightarrow> peer \<Rightarrow> (violation, receipt) result \<times> peer" where
  "peer_receive now key (WireInputCredit n) p = peer_credit p key n"
| "peer_receive now key WireStarted p = peer_started p key"
| "peer_receive now key (WireOutput s bs) p = peer_output p key s bs"
| "peer_receive now key (WireEnd s) p = peer_end_output p key s"
| "peer_receive now key WireInputClosed p = peer_input_closed p key"
| "peer_receive now key (WireTerminal oc) p = peer_terminal p now key oc"

fun refusal :: "violation option \<Rightarrow> (violation, receipt) result \<Rightarrow> violation option" where
  "refusal None (Inl v) = Some v"
| "refusal old _ = old"

text \<open>
  A terminal outcome that a detached runner returns stays with the runner's adapter. Bytes that
  the adapter reads and drops are those of a stream that the runner asked it to discard.
\<close>

fun act :: "action \<Rightarrow> system \<Rightarrow> system" where
  "act (Workload c) y = y\<lparr>sy_runner := workload_apply c (sy_runner y)\<rparr>"
| "act (Caller c) y = y\<lparr>sy_peer := caller_apply c (sy_peer y)\<rparr>"
| "act (Read s bs) y =
     (let (n, r) = runner_output (sy_runner y) s bs
      in y\<lparr>sy_runner := r, sy_read := add2 (sy_read y) s (take n bs)\<rparr>)"
| "act (ReadDiscarded s bs) y =
     (let o1 = out_of (sy_runner y) s
      in if out_discarding o1 \<and> \<not> out_closed o1
         then y\<lparr>sy_runner := discarded (sy_runner y) s (length bs),
                sy_read := add2 (sy_read y) s bs\<rparr>
         else y)"
| "act (WriteInput n) y =
     (let i = rn_input (sy_runner y);
          taken = (if in_closed i then [] else take n (ib_bytes (in_inbox i)))
      in y\<lparr>sy_runner := input_written (sy_runner y) n, sy_written := sy_written y @ taken\<rparr>)"
| "act (RunnerSend buffer) y =
     (case runner_next_message buffer (sy_runner y) of
        (None, _, r) \<Rightarrow> y\<lparr>sy_runner := r\<rparr>
      | (Some m, buffer, r) \<Rightarrow>
          if rn_detached r then y\<lparr>sy_runner := r\<rparr>
          else y\<lparr>sy_runner := r, sy_to_peer := sy_to_peer y @ [wire_of_runner buffer m]\<rparr>)"
| "act (ToRunner now) y =
     (case sy_to_runner y of
        [] \<Rightarrow> y
      | m # ms \<Rightarrow>
          (let (res, r) = runner_receive now (pr_key (sy_peer y)) m (sy_runner y)
           in y\<lparr>sy_runner := r, sy_to_runner := ms, sy_refused := refusal (sy_refused y) res\<rparr>))"
| "act (LoseToPeer n) y =
     (if rn_detached (sy_runner y) then y\<lparr>sy_to_peer := take n (sy_to_peer y)\<rparr> else y)"
| "act (GiveInput bs) y =
     (let (n, p) = peer_input (sy_peer y) bs
      in y\<lparr>sy_peer := p, sy_given := sy_given y @ take n bs\<rparr>)"
| "act (Sink s n) y =
     y\<lparr>sy_peer := consumed (sy_peer y) s n,
       sy_sunk := add2 (sy_sunk y) s (take n (ib_bytes (inc_inbox (inc_of (sy_peer y) s))))\<rparr>"
| "act (PeerSend buffer) y =
     (case peer_next_message buffer (sy_peer y) of
        (None, _, p) \<Rightarrow> y\<lparr>sy_peer := p\<rparr>
      | (Some m, buffer, p) \<Rightarrow>
          y\<lparr>sy_peer := p, sy_to_runner := sy_to_runner y @ [wire_of_peer buffer m]\<rparr>)"
| "act (ToPeer now) y =
     (case sy_to_peer y of
        [] \<Rightarrow> y
      | m # ms \<Rightarrow>
          (let (res, p) = peer_receive now (rn_key (sy_runner y)) m (sy_peer y)
           in y\<lparr>sy_peer := p, sy_to_peer := ms, sy_refused := refusal (sy_refused y) res\<rparr>))"
| "act (LoseToRunner n) y =
     (if pr_detached (sy_peer y) then y\<lparr>sy_to_runner := take n (sy_to_runner y)\<rparr> else y)"

inductive system_step :: "system \<Rightarrow> system \<Rightarrow> bool" where
  act: "system_step y (act a y)"

inductive_cases system_stepE [elim!]: "system_step y y'"

definition system_initial :: "system \<Rightarrow> bool" where
  "system_initial y \<longleftrightarrow> (\<exists>key l tp np tr nr. y = system_new key l tp np tr nr)"

definition system_run :: "action list \<Rightarrow> system \<Rightarrow> system" where
  "system_run as y = fold act as y"

end
