(* ===== verification/Exec_Quiet.thy ===== *)
theory Exec_Quiet
  imports Exec_System
begin

text \<open>
  What a call that carries no message may change of a side: a runner's timers, terminations and
  workload events keep its credit, its window and what it sent, and at most close its input and
  drop what its queues hold; a peer's keep its credit and what it received, and at most close its
  input and discard what its inboxes hold, whose units they return to the windows. Both relations
  are reflexive and transitive, so that a handler is quiet when each of its steps is.
\<close>

section \<open>Quiet calls of the runner\<close>

definition quiet_output :: "run_output \<Rightarrow> run_output \<Rightarrow> bool" where
  "quiet_output o1 o2 \<longleftrightarrow>
     (out_queue o2 = out_queue o1 \<or>
      out_queue o2 = [] \<and> out_truncated o2 \<and> (out_closed o2 \<or> out_discarding o2)) \<and>
     out_ended o2 = out_ended o1 \<and> (out_truncated o1 \<longrightarrow> out_truncated o2) \<and>
     (out_closed o1 \<longrightarrow> out_closed o2) \<and> (out_discarding o1 \<longrightarrow> out_discarding o2)"

definition quiet_input :: "run_input \<Rightarrow> run_input \<Rightarrow> bool" where
  "quiet_input i j \<longleftrightarrow>
     in_window j = in_window i \<and> in_peer_ended j = in_peer_ended i \<and>
     (in_close_requested j \<longrightarrow> in_close_requested i) \<and> (in_closed i \<longrightarrow> in_closed j) \<and>
     (in_inbox j = in_inbox i \<or>
      \<not> in_closed i \<and> in_closed j \<and> in_inbox j = snd (inbox_clear (in_inbox i)))"

definition quiet_runner :: "runner \<Rightarrow> runner \<Rightarrow> bool" where
  "quiet_runner r q \<longleftrightarrow>
     rn_key q = rn_key r \<and> rn_limits q = rn_limits r \<and> rn_credits q = rn_credits r \<and>
     rn_finished q = rn_finished r \<and> (rn_detached r \<longrightarrow> rn_detached q) \<and>
     (rn_launch q = None \<or> rn_started_message q \<longrightarrow> rn_launch r = None \<or> rn_started_message r) \<and>
     (\<forall>s. quiet_output (out_of r s) (out_of q s)) \<and> quiet_input (rn_input r) (rn_input q)"

lemma quiet_output_refl [simp]: "quiet_output o1 o1"
  by (simp add: quiet_output_def)

lemma quiet_output_trans: "quiet_output a b \<Longrightarrow> quiet_output b c \<Longrightarrow> quiet_output a c"
  by (auto simp: quiet_output_def)

lemma quiet_input_refl [simp]: "quiet_input i i"
  by (simp add: quiet_input_def)

lemma quiet_input_trans: "quiet_input a b \<Longrightarrow> quiet_input b c \<Longrightarrow> quiet_input a c"
  by (auto simp: quiet_input_def)

lemma quiet_refl [simp]: "quiet_runner r r"
  by (simp add: quiet_runner_def)

lemma quiet_trans: "quiet_runner r q \<Longrightarrow> quiet_runner q u \<Longrightarrow> quiet_runner r u"
  unfolding quiet_runner_def by (metis quiet_output_trans quiet_input_trans)

lemma quiet_runnerD:
  assumes "quiet_runner r q"
  shows "quiet_input (rn_input r) (rn_input q)" "quiet_output (out_of r s) (out_of q s)"
    "rn_key q = rn_key r" "rn_limits q = rn_limits r" "rn_credits q = rn_credits r"
    "rn_finished q = rn_finished r" "rn_detached r \<longrightarrow> rn_detached q"
    "rn_launch q = None \<or> rn_started_message q \<longrightarrow> rn_launch r = None \<or> rn_started_message r"
  using assms by (simp_all add: quiet_runner_def)

lemma out_of_upd [simp]:
  "out_of (r\<lparr>rn_outputs := map2 f (rn_outputs r)\<rparr>) s = f (out_of r s)"
  "out_of (r\<lparr>rn_input := i\<rparr>) s = out_of r s"
  by (simp_all add: out_of_def)

lemma out_of_set_out: "out_of (set_out r s o1) s' = (if s' = s then o1 else out_of r s')"
  by (simp add: out_of_def set_out_def at2_put2)

text \<open>The fields that the relation does not read.\<close>

lemma quiet_upd [simp]:
  "quiet_runner r (q\<lparr>rn_exit := x1\<rparr>) = quiet_runner r q"
  "quiet_runner r (q\<lparr>rn_cause := x2\<rparr>) = quiet_runner r q"
  "quiet_runner r (q\<lparr>rn_terminate_request := x3\<rparr>) = quiet_runner r q"
  "quiet_runner r (q\<lparr>rn_settle_request := x4\<rparr>) = quiet_runner r q"
  "quiet_runner r (q\<lparr>rn_timeout_at := x5\<rparr>) = quiet_runner r q"
  "quiet_runner r (q\<lparr>rn_terminated_at := x6\<rparr>) = quiet_runner r q"
  "quiet_runner r (q\<lparr>rn_grace_until := x7\<rparr>) = quiet_runner r q"
  "quiet_runner r (q\<lparr>rn_give_up_at := x8\<rparr>) = quiet_runner r q"
  "quiet_runner r (q\<lparr>rn_abandon_at := x9\<rparr>) = quiet_runner r q"
  "quiet_runner r (q\<lparr>rn_gave_up := y1\<rparr>) = quiet_runner r q"
  "quiet_runner r (q\<lparr>rn_launch_abandoned := y2\<rparr>) = quiet_runner r q"
  "quiet_runner r (q\<lparr>rn_settling := y3\<rparr>) = quiet_runner r q"
  "quiet_runner r (q\<lparr>rn_high_water := y4\<rparr>) = quiet_runner r q"
  by (simp_all add: quiet_runner_def out_of_def)

lemma quiet_inputs:
  "quiet_runner r q \<Longrightarrow> quiet_input (rn_input q) i \<Longrightarrow> quiet_runner r (q\<lparr>rn_input := i\<rparr>)"
  by (auto simp: quiet_runner_def intro: quiet_input_trans)

lemma quiet_outputs:
  "quiet_runner r q \<Longrightarrow> (\<And>o1. quiet_output o1 (f o1)) \<Longrightarrow>
     quiet_runner r (q\<lparr>rn_outputs := map2 f (rn_outputs q)\<rparr>)"
  by (auto simp: quiet_runner_def intro: quiet_output_trans)

lemma set_out_fields [simp]:
  "rn_key (set_out r s o1) = rn_key r" "rn_limits (set_out r s o1) = rn_limits r"
  "rn_credits (set_out r s o1) = rn_credits r" "rn_finished (set_out r s o1) = rn_finished r"
  "rn_detached (set_out r s o1) = rn_detached r" "rn_launch (set_out r s o1) = rn_launch r"
  "rn_started_message (set_out r s o1) = rn_started_message r"
  "rn_input (set_out r s o1) = rn_input r"
  by (simp_all add: set_out_def)

lemma quiet_set_out:
  assumes "quiet_runner r q" and "quiet_output (out_of q s) o1"
  shows "quiet_runner r (set_out q s o1)"
proof -
  have "quiet_output (out_of r s') (out_of (set_out q s o1) s')" for s'
    using assms quiet_output_trans [OF _ assms(2), of "out_of r s"]
    by (simp add: quiet_runner_def out_of_set_out)
  with assms(1) show ?thesis
    by (simp add: quiet_runner_def)
qed

lemma quiet_close_input: "quiet_runner r q \<Longrightarrow> quiet_runner r (runner_close_input q)"
  by (auto simp: runner_close_input_def Let_def quiet_input_def intro!: quiet_inputs)

lemma quiet_drop_queue: "out_closed o1 \<or> out_discarding o1 \<Longrightarrow> quiet_output o1 (drop_queue o1)"
  by (auto simp: quiet_output_def drop_queue_def Let_def)

lemma quiet_end_grace: "quiet_runner r q \<Longrightarrow> quiet_runner r (runner_end_grace q)"
  using quiet_outputs [of r "q\<lparr>rn_grace_until := None\<rparr>" end_grace_output]
  by (auto simp: runner_end_grace_def quiet_output_def end_grace_output_def drop_queue_def Let_def)

lemma quiet_give_up: "quiet_runner r q \<Longrightarrow> quiet_runner r (runner_give_up q)"
  using quiet_outputs [of r "q\<lparr>rn_give_up_at := None, rn_grace_until := None, rn_gave_up := True\<rparr>"
      give_up_output]
  by (auto simp: runner_give_up_def quiet_output_def give_up_output_def drop_queue_def Let_def)

lemma quiet_abandon: 
  "quiet_runner r q \<Longrightarrow> quiet_runner r (abandon_launch q)"
  "quiet_runner r q \<Longrightarrow> quiet_runner r (abandon_open_streams q)"
  using quiet_outputs [of r "q\<lparr>rn_abandon_at := None\<rparr>" abandon_output]
  by (auto simp: abandon_launch_def abandon_open_streams_def quiet_output_def abandon_output_def)

lemma quiet_terminate: "quiet_runner r q \<Longrightarrow> quiet_runner r (runner_terminate q now c)"
  by (simp add: runner_terminate_def Let_def quiet_close_input quiet_end_grace)

lemma quiet_fire:
  assumes "quiet_runner r q"
  shows "quiet_runner r (fire_timeout now q)" "quiet_runner r (fire_grace now q)"
    "quiet_runner r (fire_settlement now q)" "quiet_runner r (fire_give_up now q)"
    "quiet_runner r (fire_abandon now q)"
  using assms
  by (simp_all add: fire_timeout_def fire_grace_def fire_settlement_def fire_give_up_def
      fire_abandon_def Let_def quiet_terminate quiet_end_grace quiet_give_up quiet_abandon
      split: settling.split)

lemma quiet_tick: "quiet_runner r q \<Longrightarrow> quiet_runner r (runner_tick q now)"
  by (simp add: runner_tick_def quiet_fire)

lemma quiet_detach: "quiet_runner r q \<Longrightarrow> quiet_runner r (runner_detach q now c)"
proof -
  assume q: "quiet_runner r q"
  let ?t = "runner_terminate (runner_tick q now) now c"
  have "quiet_runner r ?t" by (intro quiet_terminate quiet_tick q)
  then have "quiet_runner r (?t\<lparr>rn_detached := True, rn_started_message := False,
      rn_input := (rn_input ?t)\<lparr>in_closed_message := False\<rparr>\<rparr>)"
    by (auto simp: quiet_runner_def quiet_input_def out_of_def)
  then show ?thesis
    using quiet_tick [OF q] by (simp add: runner_detach_def Let_def quiet_end_grace)
qed

lemma quiet_cancel: "quiet_runner r (snd (runner_cancel r now key c))"
  unfolding runner_cancel_def
  by (rule admitted_inv [where P = "quiet_runner r"])
    (simp_all add: Let_def quiet_tick quiet_terminate)

lemma quiet_exited: "quiet_runner r (exited r now st)"
  by (simp add: exited_def Let_def quiet_tick quiet_close_input)

lemma quiet_launched: "quiet_runner r (runner_launched r res)"
proof (cases "awaits_launch r")
  case True
  then have "quiet_runner r (r\<lparr>rn_launch := l, rn_started_message := b\<rparr>)"
    "quiet_runner r (r\<lparr>rn_launch := l\<rparr>)" for l b
    by (simp_all add: quiet_runner_def awaits_launch_def out_of_def)
  then show ?thesis
    by (simp add: runner_launched_def Let_def quiet_close_input split: sum.split)
qed (simp add: runner_launched_def)

lemma quiet_workload: "quiet_runner r (workload_apply c r)"
  by (cases c)
    (auto simp: quiet_launched output_closed_def output_failed_def output_hung_up_def
      runner_input_closed_def quiet_close_input quiet_exited settled_def runner_dropped_def
      runner_reset_def runner_disconnect_def quiet_detach quiet_tick next_request_def
      quiet_output_def quiet_input_def split: settling.split option.split
      intro!: quiet_set_out quiet_inputs)

section \<open>Quiet calls of the peer\<close>

definition quiet_incoming :: "incoming \<Rightarrow> incoming \<Rightarrow> bool" where
  "quiet_incoming a b \<longleftrightarrow>
     (inc_inbox b = inc_inbox a \<or>
      inc_discarding b \<and> ib_bytes (inc_inbox b) = [] \<and>
      (ib_bytes (inc_inbox a) \<noteq> [] \<longrightarrow> inc_truncated b)) \<and>
     inc_ended b = inc_ended a \<and> (inc_truncated a \<longrightarrow> inc_truncated b) \<and>
     (inc_discarding a \<longrightarrow> inc_discarding b) \<and>
     (inc_truncated b \<longrightarrow> inc_truncated a \<or> inc_discarding b) \<and>
     (inc_discarding b \<longrightarrow> inc_discarding a \<or> ib_bytes (inc_inbox b) = [])"

definition quiet_outgoing :: "outgoing \<Rightarrow> outgoing \<Rightarrow> bool" where
  "quiet_outgoing i j \<longleftrightarrow>
     og_credit j = og_credit i \<and> og_end_sent j = og_end_sent i \<and> (og_ended i \<longrightarrow> og_ended j) \<and>
     (og_closed i \<longrightarrow> og_closed j) \<and>
     (og_queue j = og_queue i \<or> og_queue j = [] \<and> og_closed j)"

text \<open>The windows of a peer after a call serve every link that they served before.\<close>

definition serves :: "peer \<Rightarrow> peer \<Rightarrow> usize \<Rightarrow> bool" where
  "serves p q i \<longleftrightarrow>
     (\<forall>c grants data. pool.link c grants data (at2 (pr_windows p) i) (held p i) \<longrightarrow>
        pool.link c grants data (at2 (pr_windows q) i) (held q i))"

definition quiet_peer :: "peer \<Rightarrow> peer \<Rightarrow> bool" where
  "quiet_peer p q \<longleftrightarrow>
     peer_inv q \<and> pr_key q = pr_key p \<and> pr_limits q = pr_limits p \<and>
     quiet_outgoing (pr_input p) (pr_input q) \<and>
     (\<forall>s. quiet_incoming (inc_of p s) (inc_of q s)) \<and> serves p q 0 \<and> serves p q 1 \<and>
     pr_terminal q = pr_terminal p \<and> pr_started q = pr_started p \<and>
     (ignores_runner p \<longrightarrow> ignores_runner q) \<and> (pr_detached p \<longrightarrow> pr_detached q) \<and>
     (pr_detached q \<longrightarrow> pr_detached p \<or> og_closed (pr_input q)) \<and>
     (pr_terminated_at p \<noteq> None \<longrightarrow> pr_terminated_at q \<noteq> None) \<and>
     (pr_terminated_at q \<noteq> None \<longrightarrow> pr_terminated_at p \<noteq> None \<or> og_closed (pr_input q))"

lemma quiet_incoming_refl [simp]: "quiet_incoming a a"
  by (simp add: quiet_incoming_def)

lemma quiet_outgoing_refl [simp]: "quiet_outgoing a a"
  by (simp add: quiet_outgoing_def)

lemma quiet_incoming_trans: "quiet_incoming a b \<Longrightarrow> quiet_incoming b c \<Longrightarrow> quiet_incoming a c"
  unfolding quiet_incoming_def by (intro conjI; metis)

lemma quiet_outgoing_trans: "quiet_outgoing a b \<Longrightarrow> quiet_outgoing b c \<Longrightarrow> quiet_outgoing a c"
  by (auto simp: quiet_outgoing_def)

lemma quiet_peer_refl [simp]: "quiet_peer p p \<longleftrightarrow> peer_inv p"
  by (simp add: quiet_peer_def serves_def)

lemma quiet_peerD:
  assumes "quiet_peer p q"
  shows "quiet_outgoing (pr_input p) (pr_input q)" "quiet_incoming (inc_of p s) (inc_of q s)"
    "pr_key q = pr_key p" "pr_limits q = pr_limits p" "pr_terminal q = pr_terminal p"
    "pr_started q = pr_started p" "ignores_runner p \<longrightarrow> ignores_runner q"
    "pr_detached p \<longrightarrow> pr_detached q" "pr_detached q \<longrightarrow> pr_detached p \<or> og_closed (pr_input q)"
  using assms by (simp_all add: quiet_peer_def)

lemma quiet_peer_inv: "quiet_peer p q \<Longrightarrow> peer_inv q"
  by (simp add: quiet_peer_def)

lemma serves_upd [simp]:
  "serves p (q\<lparr>pr_key := x0\<rparr>) i = serves p q i"
  "serves p (q\<lparr>pr_timers := x1\<rparr>) i = serves p q i"
  "serves p (q\<lparr>pr_started := x2\<rparr>) i = serves p q i"
  "serves p (q\<lparr>pr_started_event := x3\<rparr>) i = serves p q i"
  "serves p (q\<lparr>pr_input := x4\<rparr>) i = serves p q i"
  "serves p (q\<lparr>pr_turn := x5\<rparr>) i = serves p q i"
  "serves p (q\<lparr>pr_terminal := x6\<rparr>) i = serves p q i"
  "serves p (q\<lparr>pr_cause := x7\<rparr>) i = serves p q i"
  "serves p (q\<lparr>pr_cancel_message := x8\<rparr>) i = serves p q i"
  "serves p (q\<lparr>pr_timeout_at := x9\<rparr>) i = serves p q i"
  "serves p (q\<lparr>pr_terminated_at := x10\<rparr>) i = serves p q i"
  "serves p (q\<lparr>pr_grace_until := x11\<rparr>) i = serves p q i"
  "serves p (q\<lparr>pr_give_up_at := x12\<rparr>) i = serves p q i"
  "serves p (q\<lparr>pr_gave_up := x13\<rparr>) i = serves p q i"
  "serves p (q\<lparr>pr_detached := x14\<rparr>) i = serves p q i"
  "serves p (q\<lparr>pr_finished := x15\<rparr>) i = serves p q i"
  "serves p (q\<lparr>pr_high_water := x16\<rparr>) i = serves p q i"
  by (simp_all add: serves_def held_def held_by_def inc_of_def)

lemma quiet_peer_upd [simp]:
  "quiet_peer p (q\<lparr>pr_started_event := x1\<rparr>) = quiet_peer p q"
  "quiet_peer p (q\<lparr>pr_cause := x2\<rparr>) = quiet_peer p q"
  "quiet_peer p (q\<lparr>pr_cancel_message := x3\<rparr>) = quiet_peer p q"
  "quiet_peer p (q\<lparr>pr_timeout_at := x4\<rparr>) = quiet_peer p q"
  "quiet_peer p (q\<lparr>pr_grace_until := x6\<rparr>) = quiet_peer p q"
  "quiet_peer p (q\<lparr>pr_give_up_at := x7\<rparr>) = quiet_peer p q"
  by (simp_all add: quiet_peer_def inc_of_def ignores_runner_def)

lemma quiet_peer_ignores:
  assumes "quiet_peer p q"
  shows "quiet_peer p (q\<lparr>pr_gave_up := True\<rparr>)" "quiet_peer p (q\<lparr>pr_finished := True\<rparr>)"
    "og_closed (pr_input q) \<Longrightarrow> quiet_peer p (q\<lparr>pr_detached := True\<rparr>)"
    "og_closed (pr_input q) \<Longrightarrow> quiet_peer p (q\<lparr>pr_terminated_at := Some t\<rparr>)"
  using assms
  by (simp_all add: quiet_peer_def inc_of_def ignores_runner_def)

lemma quiet_peer_outgoing:
  assumes "quiet_peer p q" and "quiet_outgoing (pr_input q) i" and "outgoing_ok (pr_limits q) i"
    and "length (og_queue i) \<le> length (og_queue (pr_input q))"
  shows "quiet_peer p (q\<lparr>pr_input := i\<rparr>)"
proof -
  have "og_closed (pr_input q) \<longrightarrow> og_closed i"
    using assms(2) by (simp add: quiet_outgoing_def)
  moreover have "quiet_outgoing (pr_input p) i"
    using assms(1,2) quiet_outgoing_trans by (simp add: quiet_peer_def) blast
  moreover have "peer_inv (q\<lparr>pr_input := i\<rparr>)"
    using assms by (simp add: inv_outgoing quiet_peer_inv)
  ultimately show ?thesis
    using assms(1) by (simp add: quiet_peer_def inc_of_def ignores_runner_def) blast
qed

lemma quiet_peer_close_input: "quiet_peer p q \<Longrightarrow> quiet_peer p (peer_close_input q)"
  using peer_inv_outD [OF quiet_peer_inv]
  by (auto simp: peer_close_input_def Let_def outgoing_ok_def quiet_outgoing_def
      intro!: quiet_peer_outgoing)

lemma peer_close_input_closed [simp]: "og_closed (pr_input (peer_close_input p))"
  by (simp add: peer_close_input_def Let_def)

lemma serves_trans: "serves p q i \<Longrightarrow> serves q u i \<Longrightarrow> serves p u i"
  by (simp add: serves_def)

lemma serves_free:
  assumes "i < 2"
    and units: "unat freed + inbox_units (inc_inbox inc) = inbox_units (inc_inbox (inc_of q s))"
  shows "serves q (window_free (set_inc q s inc) s freed) i"
proof (cases "pool_of (pr_limits q) s = i")
  case True
  let ?w = "granted_free (at2 (pr_windows q) i) freed"
  have "inbox_units (inc_inbox (inc_of q s)) \<le> held q i"
    using True by (cases s) (simp_all add: held_def held_by_def)
  with units have "unat freed \<le> held q i" "held (put_stream q s inc ?w) i = held q i - unat freed"
    using True held_put_stream [of q s inc ?w i] by simp_all
  with True show ?thesis
    using pool.link_free by (simp add: serves_def window_free_set_inc)
next
  case False
  with assms(1) held_put_stream [of q s inc "granted_free (at2 (pr_windows q) (pool_of (pr_limits q) s)) freed" i]
  show ?thesis
    by (simp add: serves_def window_free_set_inc at2_put2)
qed

text \<open>A stream that hands over or drops bytes, whose units the window takes back.\<close>

lemma quiet_peer_free:
  assumes q: "quiet_peer p q" and "incoming_ok (pr_limits q) inc"
    and "inbox_len (inc_inbox inc) \<le> inbox_len (inc_inbox (inc_of q s))"
    and units: "unat freed + inbox_units (inc_inbox inc) = inbox_units (inc_inbox (inc_of q s))"
    and inc: "quiet_incoming (inc_of q s) inc"
  shows "quiet_peer p (window_free (set_inc q s inc) s freed)"
proof -
  have "peer_inv (window_free (set_inc q s inc) s freed)"
    using inv_put_stream [OF quiet_peer_inv [OF q] assms(2,3) units] .
  moreover have "serves p (window_free (set_inc q s inc) s freed) i" if "i < 2" for i
    using serves_trans [OF _ serves_free [OF that units]] q that
    by (auto simp: quiet_peer_def less_2_cases_iff)
  moreover have "quiet_incoming (inc_of p s') (inc_of (window_free (set_inc q s inc) s freed) s')" for s'
    using q quiet_incoming_trans [OF _ inc, of "inc_of p s"]
    by (simp add: quiet_peer_def inc_of_set_inc)
  ultimately show ?thesis
    using q by (simp add: quiet_peer_def ignores_runner_def)
qed

lemma quiet_discard_stream:
  assumes q: "quiet_peer p q"
  shows "quiet_peer p (discard_stream q s)"
proof -
  let ?ib = "inc_inbox (inc_of q s)"
  note inv = quiet_peer_inv [OF q]
  obtain n freed ib where cl: "inbox_clear ?ib = ((n, freed), ib)"
    by (metis prod.exhaust)
  have ok: "inbox_ok (lim_output (pr_limits q)) (chunk_of (pr_limits q)) ?ib"
    using peer_inv_incD [OF inv, of s] by (simp add: incoming_ok_def)
  from inbox_ok_clear [OF ok peer_inv_units [OF inv]] cl
  have f: "inbox_ok (lim_output (pr_limits q)) (chunk_of (pr_limits q)) ib"
    "inbox_units ib = 0" "unat freed = inbox_units ?ib"
    by simp_all
  have "ib_bytes ib = []" "n = inbox_len ?ib"
    using inbox_clear_bytes [of ?ib] inbox_clear_fst [of ?ib] cl by simp_all
  with f show ?thesis
    by (auto simp: discard_stream_def drop_inbox_def cl incoming_ok_def inbox_len_def
        quiet_incoming_def intro!: quiet_peer_free [OF q])
qed

lemma quiet_peer_end_grace: "quiet_peer p q \<Longrightarrow> quiet_peer p (peer_end_grace q)"
  by (simp add: peer_end_grace_def quiet_discard_stream)

lemma quiet_peer_terminate:
  assumes q: "quiet_peer p q"
  shows "quiet_peer p (peer_terminate q now c)"
proof -
  let ?q = "q\<lparr>pr_timeout_at := None, pr_cause := Some c\<rparr>"
  have "quiet_peer p ((peer_close_input ?q)\<lparr>pr_terminated_at := Some now\<rparr>)"
    using q by (intro quiet_peer_ignores quiet_peer_close_input) simp_all
  moreover have "peer_close_input (q\<lparr>pr_terminated_at := Some now, pr_timeout_at := None, pr_cause := Some c\<rparr>)
      = (peer_close_input ?q)\<lparr>pr_terminated_at := Some now\<rparr>"
    by (simp add: peer_close_input_def Let_def)
  ultimately show ?thesis
    using q by (simp add: peer_terminate_def Let_def quiet_peer_end_grace)
qed

lemma quiet_peer_tick:
  assumes "quiet_peer p q"
  shows "quiet_peer p (peer_tick q now)"
proof -
  have "quiet_peer p (peer_fire_timeout now u)" "quiet_peer p (peer_fire_grace now u)"
    "quiet_peer p (peer_fire_give_up now u)" if "quiet_peer p u" for u
    using that quiet_peer_ignores(1) [of p u]
    by (simp_all add: peer_fire_timeout_def peer_fire_grace_def peer_fire_give_up_def
        quiet_peer_terminate quiet_peer_end_grace quiet_peer_ignores)
  with assms show ?thesis
    by (simp add: peer_tick_def)
qed

text \<open>A peer that ended the execution has closed its input.\<close>

definition ended_closed :: "peer \<Rightarrow> bool" where
  "ended_closed p \<longleftrightarrow> (pr_terminated_at p \<noteq> None \<or> pr_detached p \<longrightarrow> og_closed (pr_input p))"

lemma quiet_ended_closed: "quiet_peer p q \<Longrightarrow> ended_closed p \<Longrightarrow> ended_closed q"
  by (auto simp: quiet_peer_def ended_closed_def quiet_outgoing_def)

lemma peer_terminate_ends:
  "\<not> pr_finished p \<Longrightarrow> pr_terminated_at (peer_terminate p now c) \<noteq> None"
  by (auto simp: peer_terminate_def Let_def)

lemma quiet_peer_detach:
  assumes q: "quiet_peer p q" and "ended_closed q"
  shows "quiet_peer p (peer_detach q now c)"
proof -
  let ?t = "peer_tick q now"
  let ?d = "peer_terminate ?t now c"
  have "peer_inv q" by (rule quiet_peer_inv [OF q])
  then have "quiet_peer q ?d"
    by (intro quiet_peer_terminate quiet_peer_tick) simp
  then have "ended_closed ?d"
    using assms(2) by (rule quiet_ended_closed)
  then have "og_closed (pr_input ?d)" if "\<not> pr_finished ?t"
    using peer_terminate_ends [OF that, of now c] by (simp add: ended_closed_def)
  moreover have "quiet_peer p ?t" "quiet_peer p ?d"
    by (intro quiet_peer_terminate quiet_peer_tick q)+
  ultimately show ?thesis
    by (auto simp: peer_detach_def Let_def intro: quiet_peer_ignores)
qed

lemma quiet_peer_flags:
  assumes q: "quiet_peer p q" and "inc_inbox inc = inc_inbox (inc_of q s)"
    and "quiet_incoming (inc_of q s) inc"
  shows "quiet_peer p (set_inc q s inc)"
proof -
  have "window_free (set_inc q s inc) s 0 = set_inc q s inc"
    by (simp add: window_free_def granted_free_def Let_def)
  moreover have "quiet_peer p (window_free (set_inc q s inc) s 0)"
    using assms peer_inv_incD [OF quiet_peer_inv [OF q], of s]
    by (intro quiet_peer_free) (simp_all add: incoming_ok_def)
  ultimately show ?thesis by simp
qed

lemma quiet_next_event: "peer_inv p \<Longrightarrow> quiet_peer p (snd (next_event p))"
  using peer_inv_outD [of p]
  by (auto simp: next_event_def quiet_outgoing_def quiet_incoming_def outgoing_ok_def
      split: option.split intro!: quiet_peer_flags quiet_peer_outgoing quiet_peer_ignores)

lemma quiet_caller:
  assumes "peer_inv p" and "ended_closed p"
  shows "quiet_peer p (caller_apply c p)"
proof (cases c)
  case EndInput
  with assms peer_inv_outD [of p] show ?thesis
    by (auto simp: peer_end_input_def quiet_outgoing_def outgoing_ok_def intro!: quiet_peer_outgoing)
next
  case (PeerDropped now)
  have "quiet_peer p (peer_terminate (peer_tick p now) now Dropped)"
    using assms by (intro quiet_peer_terminate quiet_peer_tick) simp
  with PeerDropped show ?thesis
    by (simp add: peer_dropped_def Let_def quiet_peer_end_grace)
qed (use assms in \<open>simp_all add: peer_cancel_def peer_reset_def peer_disconnect_def
       quiet_peer_terminate quiet_peer_tick quiet_peer_detach quiet_next_event\<close>)

lemma quiet_peer_input_closed: "peer_inv p \<Longrightarrow> quiet_peer p (snd (peer_input_closed p key))"
  unfolding peer_input_closed_def
  by (rule admitted_inv [where P = "quiet_peer p"]) (simp_all add: quiet_peer_close_input)

text \<open>
  A terminal outcome that the peer takes: the peer ticks, takes the outcome, closes its input, and
  begins the grace of its sink if the runner ended the execution. But for the outcome, the peer
  changes quietly.
\<close>

lemma discard_stream_terminal:
  "discard_stream (p\<lparr>pr_terminal := x\<rparr>) s = (discard_stream p s)\<lparr>pr_terminal := x\<rparr>"
  by (simp add: discard_stream_def window_free_def set_inc_def inc_of_def Let_def split: prod.split)

lemma peer_end_grace_terminal:
  "peer_end_grace (p\<lparr>pr_terminal := x\<rparr>) = (peer_end_grace p)\<lparr>pr_terminal := x\<rparr>"
proof -
  have "p\<lparr>pr_terminal := x, pr_grace_until := None\<rparr> = (p\<lparr>pr_grace_until := None\<rparr>)\<lparr>pr_terminal := x\<rparr>"
    by simp
  then show ?thesis
    by (simp only: peer_end_grace_def discard_stream_terminal)
qed

lemma peer_terminal_taken:
  assumes inv: "peer_inv p" and t: "t = peer_tick p now" and "\<not> ignores_runner t"
    and "pr_terminal t = None" and "all2 inc_ended (pr_outputs t)"
  obtains v where "quiet_peer t v"
    "peer_terminal p now (pr_key p) oc = (Inr Applied, v\<lparr>pr_terminal := Some oc\<rparr>)"
proof -
  have tt: "quiet_peer t t"
    using quiet_peer_inv [OF quiet_peer_tick, of p p now] inv t by simp
  let ?u = "peer_close_input (t\<lparr>pr_give_up_at := None, pr_timeout_at := None, pr_cancel_message := False\<rparr>)"
  let ?g = "?u\<lparr>pr_terminated_at := Some now, pr_grace_until := after now (tm_grace (pr_timers t))\<rparr>"
  have u: "quiet_peer t ?u" using tt by (intro quiet_peer_close_input) simp
  have g: "quiet_peer t ?g" using quiet_peer_ignores(4) [OF u, of now] by simp
  have close: "peer_close_input (t\<lparr>pr_terminal := Some oc, pr_give_up_at := None,
      pr_timeout_at := None, pr_cancel_message := False\<rparr>) = ?u\<lparr>pr_terminal := Some oc\<rparr>"
    by (simp add: peer_close_input_def Let_def)
  have grace: "?u\<lparr>pr_terminal := Some oc, pr_terminated_at := Some now, pr_grace_until := x\<rparr> =
      ?u\<lparr>pr_terminated_at := Some now, pr_grace_until := x, pr_terminal := Some oc\<rparr>" for x
    by simp
  have res: "peer_terminal p now (pr_key p) oc = (Inr Applied,
      (if oc_cause oc \<noteq> None \<and> pr_terminated_at t = None
       then if passed now (after now (tm_grace (pr_timers t))) then peer_end_grace ?g else ?g
       else ?u)\<lparr>pr_terminal := Some oc\<rparr>)"
    using assms(3-5) unfolding peer_terminal_def t [symmetric] Let_def close grace
    by (simp add: t [symmetric] close peer_end_grace_terminal grace)
  show ?thesis
    by (rule that [OF _ res]) (use u g quiet_peer_end_grace [OF g] in simp)
qed

end
