(* ===== verification/Exec_Order.thy ===== *)
theory Exec_Order
  imports Exec_Quiet
begin

text \<open>
  The messages in flight between a peer and a runner: their credit adds up with what each side
  counts, and their order is one that the receiving side accepts. Every action of the system keeps
  both, so that neither side ever reports a violation to the other.
\<close>

section \<open>Credit in flight\<close>

fun grant_of :: "limits \<Rightarrow> usize \<Rightarrow> peer_wire \<Rightarrow> u32 list" where
  "grant_of l i (WireCredit p n) = (if output_pool l p = Inr i then [n] else [])"
| "grant_of l i _ = []"

definition grants_of :: "limits \<Rightarrow> usize \<Rightarrow> peer_wire list \<Rightarrow> u32 list" where
  "grants_of l i ms = concat (map (grant_of l i) ms)"

fun length_of :: "limits \<Rightarrow> usize \<Rightarrow> runner_wire \<Rightarrow> usize list" where
  "length_of l i (WireOutput s bs) = (if pool_of l s = i then [length bs] else [])"
| "length_of l i _ = []"

definition lengths_of :: "limits \<Rightarrow> usize \<Rightarrow> runner_wire list \<Rightarrow> usize list" where
  "lengths_of l i ms = concat (map (length_of l i) ms)"

fun input_grant_of :: "runner_wire \<Rightarrow> u32 list" where
  "input_grant_of (WireInputCredit n) = [n]"
| "input_grant_of _ = []"

definition input_grants_of :: "runner_wire list \<Rightarrow> u32 list" where
  "input_grants_of ms = concat (map input_grant_of ms)"

fun input_length_of :: "peer_wire \<Rightarrow> usize list" where
  "input_length_of (WireInput bs) = [length bs]"
| "input_length_of _ = []"

definition input_lengths_of :: "peer_wire list \<Rightarrow> usize list" where
  "input_lengths_of ms = concat (map input_length_of ms)"

lemmas in_flight_defs = grants_of_def lengths_of_def input_grants_of_def input_lengths_of_def

lemma in_flight_simps [simp]:
  "grants_of l i [] = []" "grants_of l i (w # ws) = grant_of l i w @ grants_of l i ws"
  "grants_of l i (ws @ ws') = grants_of l i ws @ grants_of l i ws'"
  "lengths_of l i [] = []" "lengths_of l i (m # ms) = length_of l i m @ lengths_of l i ms"
  "lengths_of l i (ms @ ms') = lengths_of l i ms @ lengths_of l i ms'"
  "input_grants_of [] = []" "input_grants_of (m # ms) = input_grant_of m @ input_grants_of ms"
  "input_grants_of (ms @ ms') = input_grants_of ms @ input_grants_of ms'"
  "input_lengths_of [] = []" "input_lengths_of (w # ws) = input_length_of w @ input_lengths_of ws"
  "input_lengths_of (ws @ ws') = input_lengths_of ws @ input_lengths_of ws'"
  by (simp_all add: in_flight_defs)

text \<open>The link of an output pool, and the link of the input.\<close>

definition out_link :: "peer \<Rightarrow> runner \<Rightarrow> peer_wire list \<Rightarrow> runner_wire list \<Rightarrow> usize \<Rightarrow> bool" where
  "out_link p r ws ms i \<longleftrightarrow>
     pool.link (at2 (rn_credits r) i) (grants_of (rn_limits r) i ws)
       (lengths_of (rn_limits r) i ms) (at2 (pr_windows p) i) (held p i)"

definition in_link :: "peer \<Rightarrow> runner \<Rightarrow> peer_wire list \<Rightarrow> runner_wire list \<Rightarrow> bool" where
  "in_link p r ws ms \<longleftrightarrow>
     pool.link (og_credit (pr_input p)) (input_grants_of ms) (input_lengths_of ws)
       (in_window (rn_input r)) (inbox_units (in_inbox (rn_input r)))"

section \<open>Order in flight\<close>

text \<open>
  The messages of one stream, between whether the peer has seen its end and whether the runner has
  sent it: data before the end, one end, and the terminal outcome after it.
\<close>

fun stream_ok :: "stream \<Rightarrow> bool \<Rightarrow> bool \<Rightarrow> runner_wire list \<Rightarrow> bool" where
  "stream_ok s seen sent [] \<longleftrightarrow> seen = sent"
| "stream_ok s seen sent (WireOutput s' bs # ms) \<longleftrightarrow>
     (s' = s \<longrightarrow> \<not> seen) \<and> stream_ok s seen sent ms"
| "stream_ok s seen sent (WireEnd s' # ms) \<longleftrightarrow>
     (if s' = s then \<not> seen \<and> stream_ok s True sent ms else stream_ok s seen sent ms)"
| "stream_ok s seen sent (WireTerminal oc # ms) \<longleftrightarrow> seen \<and> stream_ok s seen sent ms"
| "stream_ok s seen sent (_ # ms) \<longleftrightarrow> stream_ok s seen sent ms"

fun input_seq :: "bool \<Rightarrow> bool \<Rightarrow> peer_wire list \<Rightarrow> bool" where
  "input_seq seen sent [] \<longleftrightarrow> seen = sent"
| "input_seq seen sent (WireInput bs # ws) \<longleftrightarrow> \<not> seen \<and> input_seq seen sent ws"
| "input_seq seen sent (WireInputEnd # ws) \<longleftrightarrow> \<not> seen \<and> input_seq True sent ws"
| "input_seq seen sent (_ # ws) \<longleftrightarrow> input_seq seen sent ws"

fun terminal_last :: "runner_wire list \<Rightarrow> bool" where
  "terminal_last [] \<longleftrightarrow> True"
| "terminal_last (WireTerminal oc # ms) \<longleftrightarrow> ms = []"
| "terminal_last (_ # ms) \<longleftrightarrow> terminal_last ms"

definition has_terminal :: "runner_wire list \<Rightarrow> bool" where
  "has_terminal ms \<longleftrightarrow> (\<exists>oc. WireTerminal oc \<in> set ms)"

lemma stream_ok_append:
  "stream_ok s seen sent (ms @ ms') \<longleftrightarrow> (\<exists>e. stream_ok s seen e ms \<and> stream_ok s e sent ms')"
  by (induction s seen sent ms rule: stream_ok.induct) auto

lemma input_seq_append:
  "input_seq seen sent (ws @ ws') \<longleftrightarrow> (\<exists>e. input_seq seen e ws \<and> input_seq e sent ws')"
  by (induction seen sent ws rule: input_seq.induct) auto

lemma terminal_last_append:
  "\<not> has_terminal ms \<Longrightarrow> terminal_last (ms @ [m])"
  by (induction ms rule: terminal_last.induct) (cases m; auto simp: has_terminal_def)+

lemma terminal_last_take: "terminal_last ms \<Longrightarrow> terminal_last (take n ms)"
  by (induction ms arbitrary: n rule: terminal_last.induct) (case_tac n; simp)+

lemma stream_ok_take: "stream_ok s seen sent ms \<Longrightarrow> \<exists>e. stream_ok s seen e (take n ms)"
  using stream_ok_append [of s seen sent "take n ms" "drop n ms"] by auto

lemma input_seq_take: "input_seq seen sent ws \<Longrightarrow> \<exists>e. input_seq seen e (take n ws)"
  using input_seq_append [of seen sent "take n ws" "drop n ws"] by auto

fun runner_wire_ok :: "limits \<Rightarrow> runner_wire \<Rightarrow> bool" where
  "runner_wire_ok l (WireOutput s bs) \<longleftrightarrow> 0 < length bs \<and> length bs \<le> chunk_of l"
| "runner_wire_ok l _ \<longleftrightarrow> True"

fun peer_wire_ok :: "limits \<Rightarrow> peer_wire \<Rightarrow> bool" where
  "peer_wire_ok l (WireInput bs) \<longleftrightarrow> 0 < length bs \<and> length bs \<le> chunk_of l"
| "peer_wire_ok l (WireCredit p n) \<longleftrightarrow> (\<exists>i < 2. output_pool l p = Inr i)"
| "peer_wire_ok l _ \<longleftrightarrow> True"

section \<open>The invariant of the connection\<close>

definition setup_ok :: "peer \<Rightarrow> runner \<Rightarrow> bool" where
  "setup_ok p r \<longleftrightarrow>
     runner_inv r \<and> peer_inv p \<and> ended_closed p \<and> pr_key p = rn_key r \<and>
     pr_limits p = rn_limits r"

text \<open>Whether the runner may have told the peer that the workload started.\<close>

definition start_told :: "runner \<Rightarrow> bool" where
  "start_told r \<longleftrightarrow> rn_launch r \<noteq> None \<and> \<not> rn_started_message r"

definition to_peer_ok :: "peer \<Rightarrow> runner \<Rightarrow> runner_wire list \<Rightarrow> bool" where
  "to_peer_ok p r ms \<longleftrightarrow>
     (\<forall>m \<in> set ms. runner_wire_ok (rn_limits r) m) \<and>
     (\<not> ignores_runner p \<longrightarrow>
        (\<forall>s. \<exists>e. stream_ok s (inc_ended (inc_of p s)) e ms \<and>
                 (\<not> rn_detached r \<longrightarrow> e = out_ended (out_of r s)))) \<and>
     of_bool (pr_started p) + count_list ms WireStarted \<le> (of_bool (start_told r) :: nat) \<and>
     terminal_last ms \<and> (has_terminal ms \<longrightarrow> rn_finished r) \<and>
     (pr_terminal p \<noteq> None \<longrightarrow> rn_finished r \<and> ms = [])"

definition to_runner_ok :: "peer \<Rightarrow> runner \<Rightarrow> peer_wire list \<Rightarrow> bool" where
  "to_runner_ok p r ws \<longleftrightarrow>
     (\<forall>w \<in> set ws. peer_wire_ok (rn_limits r) w) \<and>
     (\<not> rn_finished r \<longrightarrow>
        (\<exists>e. input_seq (in_peer_ended (rn_input r)) e ws \<and>
             (\<not> pr_detached p \<longrightarrow> e = og_end_sent (pr_input p))))"

definition connected :: "peer \<Rightarrow> runner \<Rightarrow> peer_wire list \<Rightarrow> runner_wire list \<Rightarrow> bool" where
  "connected p r ws ms \<longleftrightarrow>
     setup_ok p r \<and> out_link p r ws ms 0 \<and> out_link p r ws ms 1 \<and> in_link p r ws ms \<and>
     to_peer_ok p r ms \<and> to_runner_ok p r ws"

lemma connected_new: "connected (peer_new key l tp np) (runner_new key l tr nr) [] []"
proof -
  have "held (peer_new key l tp np) i = 0" for i
    by (simp add: held_def held_by_def inc_of_def peer_new_def incoming_new_def at2_def)
  then have "out_link (peer_new key l tp np) (runner_new key l tr nr) [] [] i" for i
    by (simp add: out_link_def pool.link_def)
      (simp add: runner_new_def peer_new_def at2_def credit_new_def granted_new_def)
  moreover have "setup_ok (peer_new key l tp np) (runner_new key l tr nr)"
    by (simp add: setup_ok_def inv_new inv_peer_new)
      (simp add: ended_closed_def runner_new_def peer_new_def)
  moreover have "to_peer_ok (peer_new key l tp np) (runner_new key l tr nr) []"
    "to_runner_ok (peer_new key l tp np) (runner_new key l tr nr) []"
    by (auto simp: to_peer_ok_def to_runner_ok_def runner_new_def peer_new_def has_terminal_def
        inc_of_def out_of_def at2_def incoming_new_def output_default_def)
  ultimately show ?thesis
    by (simp add: connected_def)
      (simp add: in_link_def pool.link_def runner_new_def peer_new_def credit_new_def
        granted_new_def)
qed

section \<open>Quiet calls\<close>

lemma to_peer_ok_runner:
  assumes ok: "to_peer_ok p r ms" and "rn_limits q = rn_limits r" "rn_finished r \<longrightarrow> rn_finished q"
    "rn_detached r \<longrightarrow> rn_detached q" "\<And>s. out_ended (out_of q s) = out_ended (out_of r s)"
    and launch: "start_told r \<longrightarrow> start_told q"
  shows "to_peer_ok p q ms"
proof -
  have "(of_bool (start_told r) :: nat) \<le> of_bool (start_told q)"
    using launch by simp
  with ok have "of_bool (pr_started p) + count_list ms WireStarted \<le> (of_bool (start_told q) :: nat)"
    unfolding to_peer_ok_def by linarith
  moreover have "\<exists>e. stream_ok s (inc_ended (inc_of p s)) e ms \<and>
      (\<not> rn_detached q \<longrightarrow> e = out_ended (out_of q s))" if "\<not> ignores_runner p" for s
    using ok that assms(4,5) unfolding to_peer_ok_def by metis
  ultimately show ?thesis
    using ok assms(2,3) by (simp add: to_peer_ok_def)
qed

lemma connected_quiet_runner:
  assumes c: "connected p r ws ms" and q: "quiet_runner r q" and "runner_inv q"
  shows "connected p q ws ms"
proof -
  have held: "inbox_units (in_inbox (rn_input q)) \<le> inbox_units (in_inbox (rn_input r))"
  proof -
    have ok: "input_ok (rn_limits r) (rn_input r)"
      using c by (simp add: connected_def setup_ok_def runner_inv_inD)
    then have "inbox_ok (lim_input (rn_limits r)) (chunk_of (rn_limits r)) (in_inbox (rn_input r))"
      by (simp add: input_ok_def)
    from inbox_ok_clear [OF this input_ok_units [OF ok]]
    have "inbox_units (snd (inbox_clear (in_inbox (rn_input r)))) = 0"
      by simp
    with quiet_runnerD(1) [OF q] show ?thesis by (auto simp: quiet_input_def)
  qed
  have "in_link p q ws ms"
    using c quiet_runnerD(1) [OF q] pool.link_drop_held [OF _ held]
    by (simp add: connected_def in_link_def quiet_input_def)
  moreover have tp: "to_peer_ok p r ms"
    using c by (simp add: connected_def)
  have "to_peer_ok p q ms"
    by (rule to_peer_ok_runner [OF tp])
      (use quiet_runnerD [OF q] in \<open>auto simp: quiet_output_def start_told_def\<close>)
  ultimately show ?thesis
    using c \<open>to_peer_ok p q ms\<close> quiet_runnerD(1) [OF q] quiet_runnerD(3-) [OF q] assms(3)
    by (simp add: connected_def setup_ok_def out_link_def to_runner_ok_def quiet_input_def)
qed

lemma connected_quiet_peer:
  assumes c: "connected p r ws ms" and q: "quiet_peer p q"
  shows "connected q r ws ms"
proof -
  have "out_link q r ws ms 0" "out_link q r ws ms 1"
    using c q by (simp_all add: connected_def out_link_def quiet_peer_def serves_def)
  moreover have "setup_ok q r"
    using c q quiet_ended_closed [OF q] by (simp add: connected_def setup_ok_def quiet_peer_def)
  moreover have "to_peer_ok q r ms"
  proof -
    have "inc_ended (inc_of q s) = inc_ended (inc_of p s)" for s
      using quiet_peerD(2) [OF q] by (simp add: quiet_incoming_def)
    with c quiet_peerD(3-) [OF q] show ?thesis
      by (auto simp: connected_def to_peer_ok_def)
  qed
  moreover have "to_runner_ok q r ws"
    using c quiet_peerD(1,8) [OF q]
    unfolding connected_def to_runner_ok_def quiet_outgoing_def by metis
  ultimately show ?thesis
    using c q by (simp add: connected_def in_link_def quiet_peer_def quiet_outgoing_def)
qed

section \<open>Messages that the runner sends\<close>

lemma connectedD:
  assumes "connected p r ws ms"
  shows "runner_inv r" "peer_inv p" "ended_closed p" "pr_key p = rn_key r" "pr_limits p = rn_limits r"
    "i < 2 \<Longrightarrow> out_link p r ws ms i" "in_link p r ws ms" "to_peer_ok p r ms" "to_runner_ok p r ws"
  using assms by (auto simp: connected_def setup_ok_def less_2_cases_iff)

lemma connectedI:
  assumes "runner_inv r" "peer_inv p" "ended_closed p" "pr_key p = rn_key r" "pr_limits p = rn_limits r"
    "\<And>i. i < 2 \<Longrightarrow> out_link p r ws ms i" "in_link p r ws ms" "to_peer_ok p r ms" "to_runner_ok p r ws"
  shows "connected p r ws ms"
  using assms by (simp add: connected_def setup_ok_def)

lemma has_terminal_append [simp]:
  "has_terminal (ms @ ms') \<longleftrightarrow> has_terminal ms \<or> has_terminal ms'"
  by (auto simp: has_terminal_def)

lemma to_peer_ok_send:
  assumes ok: "to_peer_ok p r ms" and nf: "\<not> rn_finished r" and nd: "\<not> rn_detached r"
    and lim: "rn_limits q = rn_limits r" and wire: "runner_wire_ok (rn_limits r) m"
    and stream: "\<And>s. stream_ok s (out_ended (out_of r s)) (out_ended (out_of q s)) [m]"
    and start: "of_bool (start_told r) + of_bool (m = WireStarted) \<le> (of_bool (start_told q) :: nat)"
    and fin: "has_terminal [m] \<longrightarrow> rn_finished q"
  shows "to_peer_ok p q (ms @ [m])"
proof -
  have no: "\<not> has_terminal ms" "pr_terminal p = None"
    using ok nf by (auto simp: to_peer_ok_def)
  have "\<exists>e. stream_ok s (inc_ended (inc_of p s)) e (ms @ [m]) \<and>
      (\<not> rn_detached q \<longrightarrow> e = out_ended (out_of q s))" if "\<not> ignores_runner p" for s
    using ok that nd stream [of s] unfolding to_peer_ok_def stream_ok_append by blast
  moreover have "count_list (ms @ [m]) WireStarted = count_list ms WireStarted + of_bool (m = WireStarted)"
    by simp
  then have "of_bool (pr_started p) + count_list (ms @ [m]) WireStarted \<le> (of_bool (start_told q) :: nat)"
    using ok start unfolding to_peer_ok_def by linarith
  ultimately show ?thesis
    using ok no lim wire fin terminal_last_append [OF no(1)]
    by (auto simp: to_peer_ok_def)
qed

lemma connected_send_credit:
  assumes c: "connected p r ws ms" and nf: "\<not> rn_finished r" and nd: "\<not> rn_detached r"
    and g: "granted_take_grant (in_window (rn_input r)) = (Some u, w)"
    and inv: "runner_inv (r\<lparr>rn_input := (rn_input r)\<lparr>in_window := w\<rparr>\<rparr>)"
  shows "connected p (r\<lparr>rn_input := (rn_input r)\<lparr>in_window := w\<rparr>\<rparr>) ws (ms @ [WireInputCredit u])"
proof (rule connectedI)
  show "in_link p (r\<lparr>rn_input := (rn_input r)\<lparr>in_window := w\<rparr>\<rparr>) ws (ms @ [WireInputCredit u])"
    using connectedD(7) [OF c] pool.link_take [OF _ g] by (simp add: in_link_def)
  show "to_peer_ok p (r\<lparr>rn_input := (rn_input r)\<lparr>in_window := w\<rparr>\<rparr>) (ms @ [WireInputCredit u])"
    by (rule to_peer_ok_send [OF connectedD(8) [OF c] nf nd])
      (simp_all add: has_terminal_def start_told_def)
qed (use connectedD [OF c] inv in \<open>auto simp: out_link_def to_runner_ok_def\<close>)

lemma connected_send_output:
  assumes c: "connected p r ws ms" and nf: "\<not> rn_finished r" and nd: "\<not> rn_detached r"
    and s: "s = turn_stream r" and n: "n = turn_length buffer r" "0 < n"
    and bs: "bs = take n (out_queue (out_of r s))"
    and ended: "\<not> out_ended (out_of r s)" and inv: "runner_inv (turn_sent n r)"
  shows "connected p (turn_sent n r) ws (ms @ [WireOutput s bs])"
proof (rule connectedI)
  have le: "n \<le> length (out_queue (out_of r s))" "n \<le> chunk_of (rn_limits r)"
    using turn_length_le [of buffer r] by (simp_all add: n(1) s)
  then have len: "length bs = n" by (simp add: bs)
  let ?c = "at2 (rn_credits r) (pool_of (rn_limits r) s)"
  let ?w = "min (min (length (out_queue (out_of r s))) (chunk_of (rn_limits r))) (length buffer)"
  have "?w < 2 ^ 32"
    using chunk_of_bound [of "rn_limits r"] by (simp add: min_less_iff_disj)
  moreover have "n = credit_sendable ?c ?w"
    using n(1) s by (simp only: turn_length_def Let_def)
  ultimately have send: "pool.link (credit_spend ?c n) grants (data @ [n]) g h"
    if "pool.link ?c grants data g h" for grants data g h
    using pool.link_send [OF that _ n(2)] by blast
  have credits: "rn_credits (turn_sent n r) = put2 (rn_credits r) (pool_of (rn_limits r) s) (credit_spend ?c n)"
    by (simp add: turn_sent_def s Let_def)
  show "out_link p (turn_sent n r) ws (ms @ [WireOutput s bs]) i" if "i < 2" for i
    using connectedD(6) [OF c that] send that
    by (cases "pool_of (rn_limits r) s = i") (auto simp: out_link_def credits len at2_put2)
  have outs: "out_ended (out_of (turn_sent n r) s') = out_ended (out_of r s')" for s'
    by (simp add: turn_sent_def Let_def out_of_def set_out_def at2_put2)
  have told: "start_told (turn_sent n r) = start_told r"
    by (simp add: start_told_def)
  show "to_peer_ok p (turn_sent n r) (ms @ [WireOutput s bs])"
    by (rule to_peer_ok_send [OF connectedD(8) [OF c] nf nd])
      (use len n(2) le ended in \<open>auto simp: outs told has_terminal_def\<close>)
qed (use connectedD [OF c] inv in \<open>auto simp: in_link_def to_runner_ok_def\<close>)

text \<open>A message that moves no credit: the runner's flags change, and the message joins the queue.\<close>

lemma connected_send_flag:
  assumes c: "connected p r ws ms" and nf: "\<not> rn_finished r" and nd: "\<not> rn_detached r"
    and inv: "runner_inv q"
    and same: "rn_key q = rn_key r" "rn_limits q = rn_limits r" "rn_credits q = rn_credits r"
      "rn_finished r \<longrightarrow> rn_finished q" "in_window (rn_input q) = in_window (rn_input r)"
      "in_inbox (rn_input q) = in_inbox (rn_input r)"
      "in_peer_ended (rn_input q) = in_peer_ended (rn_input r)"
    and m: "\<And>l i. length_of l i m = []" "input_grant_of m = []" "runner_wire_ok (rn_limits r) m"
    and stream: "\<And>s. stream_ok s (out_ended (out_of r s)) (out_ended (out_of q s)) [m]"
    and start: "of_bool (start_told r) + of_bool (m = WireStarted) \<le> (of_bool (start_told q) :: nat)"
    and fin: "has_terminal [m] \<longrightarrow> rn_finished q"
  shows "connected p q ws (ms @ [m])"
proof (rule connectedI)
  show "to_peer_ok p q (ms @ [m])"
    by (rule to_peer_ok_send [OF connectedD(8) [OF c] nf nd same(2) m(3) stream start fin])
  show "to_runner_ok p q ws"
    using connectedD(9) [OF c] same nf by (simp add: to_runner_ok_def)
qed (use connectedD(1-7) [OF c] inv same m in \<open>auto simp: in_link_def out_link_def\<close>)

lemma connected_upd_credited [simp]:
  "connected p (r\<lparr>rn_credited := b\<rparr>) ws ms = connected p r ws ms"
  by (simp add: connected_def setup_ok_def out_link_def in_link_def to_peer_ok_def to_runner_ok_def
      out_of_def start_told_def)

lemma connected_upd_turn:
  "connected p r ws ms \<Longrightarrow> t < 2 \<Longrightarrow> connected p (r\<lparr>rn_turn := t\<rparr>) ws ms"
  by (simp add: connected_def setup_ok_def out_link_def in_link_def to_peer_ok_def to_runner_ok_def
      out_of_def start_told_def runner_inv_def runner_buffered_def runner_memory_bound_def)

lemma runner_outcome_ended:
  "runner_outcome r = Some oc \<Longrightarrow> is_done (out_of r s) \<and> (out_ended (out_of r s) \<or> rn_detached r)"
  by (cases s) (auto simp: runner_outcome_def Let_def all2_def out_of_def at2_def split: if_splits)

lemma connected_next_other:
  assumes c: "connected p r ws ms" and nf: "\<not> rn_finished r" and nd: "\<not> rn_detached r"
    and m: "next_other buffer r = (Some m, buffer', q)" and inv: "runner_inv q"
  shows "connected p q ws (ms @ [wire_of_runner buffer' m])"
  using m
proof (cases rule: next_other_Some)
  case started
  have "rn_launch r \<noteq> None"
    using connectedD(1) [OF c] started(3) by (simp add: runner_inv_def)
  with started inv show ?thesis
    by (intro connected_send_flag [OF c nf nd])
      (auto simp: has_terminal_def out_of_def start_told_def)
next
  case closed
  with inv show ?thesis
    by (intro connected_send_flag [OF c nf nd])
      (auto simp: has_terminal_def start_told_def)
next
  case (ended s)
  with inv show ?thesis
    by (intro connected_send_flag [OF c nf nd])
      (auto simp: has_terminal_def start_told_def out_of_set_out)
next
  case (sent t s n)
  have "t < 2" using sent(3) connectedD(1) [OF c] by (auto simp: runner_inv_def)
  then have c': "connected p (r\<lparr>rn_turn := t\<rparr>) ws ms"
    using c by (rule connected_upd_turn [rotated])
  have o: "out_of (r\<lparr>rn_turn := t\<rparr>) s = out_of r s" by (simp add: out_of_def)
  have le: "n \<le> length (out_queue (out_of r s))"
    using turn_length_le(1) [of buffer "r\<lparr>rn_turn := t\<rparr>"] sent(4,5) o by simp
  have "\<not> out_ended (out_of r s)"
    using runner_inv_outD [OF connectedD(1) [OF c], of s] le sent(6)
    by (auto simp: output_ok_def is_done_def)
  moreover have "runner_inv (turn_sent n (r\<lparr>rn_turn := t\<rparr>))"
    using inv sent(9) by simp
  ultimately have "connected p (turn_sent n (r\<lparr>rn_turn := t\<rparr>)) ws
      (ms @ [WireOutput s (take n (out_queue (out_of r s)))])"
    using nf nd o sent(4-6) by (intro connected_send_output [OF c']) simp_all
  moreover have "take n buffer' = take n (out_queue (out_of r s))"
    using sent(8) le by simp
  ultimately show ?thesis using sent(7,9) by simp
qed

lemma connected_runner_send:
  assumes c: "connected p r ws ms" and m: "runner_next_message buffer r = (Some m, buffer', q)"
  shows "connected p q ws (if rn_detached q then ms else ms @ [wire_of_runner buffer' m])"
proof -
  have turn: "rn_turn r < 2" using connectedD(1) [OF c] by (simp add: runner_inv_def)
  have inv: "runner_inv q" using inv_next_message [OF connectedD(1) [OF c], of buffer] m by simp
  from m turn show ?thesis
  proof (cases rule: runner_next_message_Some)
    case sent
    from sent(2) turn show ?thesis
    proof (cases rule: next_sent_Some)
      case (credit r1)
      from credit(2) obtain u w where u: "m = RunnerCredit u"
        "granted_take_grant (in_window (rn_input r)) = (Some u, w)"
        "r1 = r\<lparr>rn_input := (rn_input r)\<lparr>in_window := w\<rparr>\<rparr>"
        by (rule runner_next_credit_Some)
      with credit(1,3) inv sent(1) show ?thesis
        using connected_send_credit [OF c _ _ u(2)] by simp
    next
      case (other r1)
      have "rn_detached r1 = rn_detached r"
        using other(2) by (cases rule: next_other_Some) (auto simp: set_out_def)
      moreover have "connected p r1 ws (ms @ [wire_of_runner buffer' m])"
        using connected_next_other [OF c sent(1) other(1,2)] inv other(3) by simp
      ultimately show ?thesis using other(1,3) by simp
    qed
  next
    case (terminal oc)
    show ?thesis
    proof (cases "rn_detached r")
      case True
      have "to_peer_ok p q ms"
        by (rule to_peer_ok_runner [OF connectedD(8) [OF c]])
          (use terminal in \<open>simp_all add: out_of_def start_told_def\<close>)
      with True terminal connectedD(1-7,9) [OF c] show ?thesis
        by (auto simp: connected_def setup_ok_def out_link_def in_link_def to_runner_ok_def)
    next
      case False
      with terminal inv runner_outcome_ended [OF terminal(5)] show ?thesis
        by (simp, intro connected_send_flag [OF c])
          (auto simp: has_terminal_def start_told_def out_of_def)
    qed
  qed
qed

section \<open>Messages that the peer sends\<close>

lemma connected_upd_peer_turn:
  assumes "connected p r ws ms" and "t \<le> length (output_pools (pr_limits p))"
  shows "connected (p\<lparr>pr_turn := t\<rparr>) r ws ms"
proof -
  have "held (p\<lparr>pr_turn := t\<rparr>) i = held p i" for i
    by (simp add: held_def held_by_def inc_of_def)
  with assms show ?thesis
    by (simp add: connected_def setup_ok_def out_link_def in_link_def to_peer_ok_def to_runner_ok_def
        inc_of_def ignores_runner_def ended_closed_def inv_peer_turn)
qed

lemma connected_peer_credit:
  assumes c: "connected p r ws ms" and i: "i < length (output_pools (pr_limits p))"
    and nd: "\<not> pr_detached p"
    and g: "granted_take_grant (at2 (pr_windows p) i) = (Some u, w)"
  shows "connected (p\<lparr>pr_windows := put2 (pr_windows p) i w\<rparr>) r
           (ws @ [WireCredit (output_pools (pr_limits p) ! i) u]) ms"
    (is "connected ?p r (ws @ [?m]) ms")
proof (rule connectedI)
  have i2: "i < 2" using i output_pools_length [of "pr_limits p"] by simp
  show "peer_inv ?p" by (rule inv_windows_take [OF connectedD(2) [OF c] g i2])
  have pool: "output_pool (rn_limits r) (output_pools (pr_limits p) ! i) = Inr i"
    using output_pool_nth [OF i] connectedD(5) [OF c] by simp
  have held: "held (p\<lparr>pr_windows := g\<rparr>) j = held p j" for g j
    by (simp add: held_def held_by_def inc_of_def)
  show "out_link ?p r (ws @ [?m]) ms j" if "j < 2" for j
    using connectedD(6) [OF c that] pool.link_take [OF _ g] pool i2 that
    by (cases "i = j") (auto simp: out_link_def held at2_put2)
  show "to_runner_ok ?p r (ws @ [?m])"
    using connectedD(9) [OF c] pool i2 nd by (auto simp: to_runner_ok_def input_seq_append)
  show "to_peer_ok ?p r ms"
    using connectedD(8) [OF c] by (simp add: to_peer_ok_def ignores_runner_def inc_of_def)
qed (use connectedD(1,3-5,7) [OF c] in \<open>auto simp: in_link_def ended_closed_def\<close>)

text \<open>A message of the input: the peer's input changes, and the message joins the queue.\<close>

lemma connected_peer_input:
  assumes c: "connected p r ws ms" and nd: "\<not> pr_detached p" and closed: "\<not> og_closed (pr_input p)"
    and inv: "peer_inv (p\<lparr>pr_input := i\<rparr>)" and "peer_wire_ok (rn_limits r) m" "\<And>l j. grant_of l j m = []"
    and link: "\<And>grants data g h. pool.link (og_credit (pr_input p)) grants data g h \<Longrightarrow>
      pool.link (og_credit i) grants (data @ input_length_of m) g h"
    and seq: "input_seq (og_end_sent (pr_input p)) (og_end_sent i) [m]"
  shows "connected (p\<lparr>pr_input := i\<rparr>) r (ws @ [m]) ms"
proof (rule connectedI)
  have held: "held (p\<lparr>pr_input := i\<rparr>) j = held p j" for j
    by (simp add: held_def held_by_def inc_of_def)
  show "out_link (p\<lparr>pr_input := i\<rparr>) r (ws @ [m]) ms j" if "j < 2" for j
    using connectedD(6) [OF c that] assms(6) by (simp add: out_link_def held)
  show "in_link (p\<lparr>pr_input := i\<rparr>) r (ws @ [m]) ms"
    using connectedD(7) [OF c] link by (simp add: in_link_def)
  show "to_peer_ok (p\<lparr>pr_input := i\<rparr>) r ms"
    using connectedD(8) [OF c] by (simp add: to_peer_ok_def ignores_runner_def inc_of_def)
  show "to_runner_ok (p\<lparr>pr_input := i\<rparr>) r (ws @ [m])"
    using connectedD(9) [OF c] assms(5) nd seq by (auto simp: to_runner_ok_def input_seq_append)
  show "ended_closed (p\<lparr>pr_input := i\<rparr>)"
    using connectedD(3) [OF c] closed by (simp add: ended_closed_def)
qed (use connectedD(1,4,5) [OF c] inv in simp_all)

lemma connected_next_input:
  assumes c: "connected p r ws ms" and nd: "\<not> pr_detached p"
    and m: "next_input buffer p = (Some m, buffer', q)"
  shows "connected q r (ws @ [wire_of_peer buffer' m]) ms"
proof (cases "0 < input_length buffer p")
  case True
  let ?i = "pr_input p" and ?n = "input_length buffer p"
  let ?w = "min (min (length (og_queue ?i)) (chunk_of (pr_limits p))) (length buffer)"
  have le: "?n \<le> length (og_queue ?i)" "?n \<le> chunk_of (pr_limits p)"
    using input_length_le [of buffer p] by simp_all
  have q: "\<not> og_closed ?i" "m = PeerInput ?n" "buffer' = take ?n (og_queue ?i) @ drop ?n buffer"
    "q = input_sent ?n p"
    using m True by (auto simp: next_input_eq Let_def split: if_splits)
  have wire: "wire_of_peer buffer' m = WireInput (take ?n (og_queue ?i))"
    using q(2,3) le(1) by simp
  have "?w < 2 ^ 32"
    using chunk_of_bound [of "pr_limits p"] by (simp add: min_less_iff_disj)
  moreover have "?n = credit_sendable (og_credit ?i) ?w"
    by (simp only: input_length_def)
  ultimately have link: "pool.link (credit_spend (og_credit ?i) ?n) grants (data @ [?n]) g h"
    if "pool.link (og_credit ?i) grants data g h" for grants data g h
    using pool.link_send [OF that _ True] by blast
  have "\<not> og_end_sent ?i"
    using peer_inv_outD [OF connectedD(2) [OF c]] True le(1) by (auto simp: outgoing_ok_def)
  moreover have "peer_inv (input_sent ?n p)"
    using inv_input_sent [OF connectedD(2) [OF c] refl True] .
  ultimately have "connected (p\<lparr>pr_input := ?i\<lparr>og_queue := drop ?n (og_queue ?i),
      og_credit := credit_spend (og_credit ?i) ?n\<rparr>\<rparr>) r (ws @ [WireInput (take ?n (og_queue ?i))]) ms"
    using q(1) le True connectedD(5) [OF c] link
    by (intro connected_peer_input [OF c nd]) (auto simp: input_sent_def)
  with q(4) wire show ?thesis by (simp add: input_sent_def)
next
  case False
  with m have q: "m = PeerInputEnd" "og_ended (pr_input p)" "og_queue (pr_input p) = []"
    "\<not> og_end_sent (pr_input p)" "\<not> og_closed (pr_input p)"
    "q = p\<lparr>pr_input := (pr_input p)\<lparr>og_end_sent := True\<rparr>\<rparr>"
    by (auto simp: next_input_eq Let_def split: if_splits)
  have "peer_inv q"
    using inv_next_input(1) [OF connectedD(2) [OF c] m] .
  with q show ?thesis
    by (simp, intro connected_peer_input [OF c nd]) simp_all
qed

lemma connected_peer_send:
  assumes c: "connected p r ws ms" and m: "peer_next_message buffer p = (Some m, buffer', q)"
  shows "connected q r (ws @ [wire_of_peer buffer' m]) ms"
  using m
proof (cases rule: peer_next_message_Some)
  case cancel
  have "connected (p\<lparr>pr_cancel_message := False\<rparr>) r ws ms"
    by (rule connected_quiet_peer [OF c]) (simp add: connectedD(2) [OF c])
  then have "connected (p\<lparr>pr_cancel_message := False\<rparr>) r
      (ws @ [WireCancel (case pr_cause p of Some c \<Rightarrow> c | None \<Rightarrow> Cancelled)]) ms"
    by (auto simp: connected_def out_link_def in_link_def to_runner_ok_def input_seq_append)
  with cancel show ?thesis by simp
next
  case (credit i u w)
  with connected_upd_peer_turn [OF connected_peer_credit [OF c credit(4,2,9)]] show ?thesis
    by (simp add: less_Suc_eq_le [symmetric])
next
  case (input p1)
  with connected_upd_peer_turn [OF connected_next_input [OF c input(2,4)], of 0] show ?thesis
    by simp
qed

section \<open>Messages that reach the peer\<close>

lemma connected_drop_to_peer:
  assumes c: "connected p r ws (m # ms)" and ign: "ignores_runner p"
  shows "connected p r ws ms"
proof (rule connectedI)
  show "out_link p r ws ms i" if "i < 2" for i
    using connectedD(6) [OF c that] pool.link_drop_data
    by (cases m) (auto simp: out_link_def split: if_splits)
  show "in_link p r ws ms"
    using connectedD(7) [OF c] pool.link_drop_grant by (cases m) (auto simp: in_link_def)
  show "to_peer_ok p r ms"
    using connectedD(8) [OF c] ign
    by (cases m) (auto simp: to_peer_ok_def has_terminal_def of_bool_def split: if_splits)
qed (use connectedD(1-5,9) [OF c] in simp_all)

text \<open>
  What is left of the peer's obligations once it has taken a message: the streams' ends that it
  has seen, and whether it has seen the start.
\<close>

lemma to_peer_ok_taken:
  assumes ok: "to_peer_ok p r (m # ms)" and ni: "\<not> ignores_runner p"
    and "\<And>s seen sent. seen = inc_ended (inc_of p s) \<Longrightarrow> stream_ok s seen sent (m # ms) \<Longrightarrow>
      stream_ok s (inc_ended (inc_of q s)) sent ms"
    and start: "of_bool (pr_started q) \<le> of_bool (pr_started p) + (of_bool (m = WireStarted) :: nat)"
    and "pr_terminal q = None" "\<not> has_terminal [m]"
  shows "to_peer_ok q r ms"
proof -
  have "\<exists>e. stream_ok s (inc_ended (inc_of q s)) e ms \<and>
      (\<not> rn_detached r \<longrightarrow> e = out_ended (out_of r s))" for s
    using ok ni assms(3) unfolding to_peer_ok_def by blast
  moreover have "count_list (m # ms) WireStarted = of_bool (m = WireStarted) + count_list ms WireStarted"
    by simp
  then have "of_bool (pr_started q) + count_list ms WireStarted \<le> (of_bool (start_told r) :: nat)"
    using ok start unfolding to_peer_ok_def by linarith
  moreover have "terminal_last ms" "has_terminal ms \<longrightarrow> rn_finished r"
    using ok assms(6) by (cases m; auto simp: to_peer_ok_def has_terminal_def)+
  ultimately show ?thesis
    using ok assms(5) by (simp add: to_peer_ok_def)
qed

lemma to_peer_ok_no_terminal: "to_peer_ok p r (m # ms) \<Longrightarrow> pr_terminal p = None"
  by (auto simp: to_peer_ok_def)

lemma deliver_credit:
  assumes c: "connected p r ws (WireInputCredit u # ms)" and ni: "\<not> ignores_runner p"
  shows "\<exists>rc q. peer_credit p (rn_key r) u = (Inr rc, q) \<and> connected q r ws ms"
proof -
  let ?i = "pr_input p"
  have "pool.link (og_credit ?i) (u # input_grants_of ms) (input_lengths_of ws)
      (in_window (rn_input r)) (inbox_units (in_inbox (rn_input r)))"
    using connectedD(7) [OF c] by (simp add: in_link_def)
  from pool.link_grant [OF this] obtain cr where cr: "credit_grant (og_credit ?i) u = Inr cr"
    "pool.link cr (input_grants_of ms) (input_lengths_of ws)
      (in_window (rn_input r)) (inbox_units (in_inbox (rn_input r)))"
    by blast
  let ?q = "p\<lparr>pr_input := ?i\<lparr>og_credit := cr\<rparr>\<rparr>"
  have "connected ?q r ws ms"
  proof (rule connectedI)
    show "peer_inv ?q"
      using inv_peer_credit [OF connectedD(2) [OF c], of "pr_key p" u] ni cr(1)
      by (simp add: peer_credit_def Let_def split: if_splits)
    have "held ?q j = held p j" for j
      by (simp add: held_def held_by_def inc_of_def)
    then show "out_link ?q r ws ms j" if "j < 2" for j
      using connectedD(6) [OF c that] by (simp add: out_link_def)
    show "to_peer_ok ?q r ms"
      by (rule to_peer_ok_taken [OF connectedD(8) [OF c] ni])
        (use to_peer_ok_no_terminal [OF connectedD(8) [OF c]] in
          \<open>simp_all add: inc_of_def has_terminal_def\<close>)
    show "to_runner_ok ?q r ws"
      using connectedD(9) [OF c] by (simp add: to_runner_ok_def)
  qed (use connectedD(1,3-5) [OF c] cr(2) in \<open>simp_all add: in_link_def ended_closed_def\<close>)
  then show ?thesis
    using ni cr(1) connectedD(4) [OF c]
    by (cases "og_closed ?i \<or> og_end_sent ?i") (auto simp: peer_credit_def Let_def)
qed

lemma deliver_started:
  assumes c: "connected p r ws (WireStarted # ms)" and ni: "\<not> ignores_runner p"
  shows "\<exists>rc q. peer_started p (rn_key r) = (Inr rc, q) \<and> connected q r ws ms"
proof -
  have ns: "\<not> pr_started p"
    using connectedD(8) [OF c] by (cases "start_told r") (auto simp: to_peer_ok_def)
  note nt = to_peer_ok_no_terminal [OF connectedD(8) [OF c]]
  let ?q = "p\<lparr>pr_started := True, pr_started_event := True\<rparr>"
  have "connected ?q r ws ms"
  proof (rule connectedI)
    have "held ?q j = held p j" for j
      by (simp add: held_def held_by_def inc_of_def)
    then show "out_link ?q r ws ms j" if "j < 2" for j
      using connectedD(6) [OF c that] by (simp add: out_link_def)
    show "to_peer_ok ?q r ms"
      by (rule to_peer_ok_taken [OF connectedD(8) [OF c] ni])
        (use nt in \<open>simp_all add: inc_of_def has_terminal_def\<close>)
    show "to_runner_ok ?q r ws"
      using connectedD(9) [OF c] by (simp add: to_runner_ok_def)
    show "in_link ?q r ws ms" using connectedD(7) [OF c] by (simp add: in_link_def)
  qed (use connectedD(1-5) [OF c] in \<open>simp_all add: ended_closed_def\<close>)
  then show ?thesis
    using ni ns nt connectedD(4) [OF c] by (auto simp: peer_started_def)
qed

lemma deliver_end:
  assumes c: "connected p r ws (WireEnd s # ms)" and ni: "\<not> ignores_runner p"
  shows "\<exists>rc q. peer_end_output p (rn_key r) s = (Inr rc, q) \<and> connected q r ws ms"
proof -
  obtain e where "stream_ok s (inc_ended (inc_of p s)) e (WireEnd s # ms)"
    using connectedD(8) [OF c] ni unfolding to_peer_ok_def by blast
  then have ne: "\<not> inc_ended (inc_of p s)" by simp
  let ?q = "set_inc p s ((inc_of p s)\<lparr>inc_ended := True\<rparr>)"
  have "connected ?q r ws ms"
  proof (rule connectedI)
    have "inc_inbox (inc_of ?q s') = inc_inbox (inc_of p s')" for s'
      by (simp add: inc_of_set_inc)
    then have "held ?q j = held p j" for j
      by (simp add: held_def held_by_def)
    then show "out_link ?q r ws ms j" if "j < 2" for j
      using connectedD(6) [OF c that] by (simp add: out_link_def)
    show "to_peer_ok ?q r ms"
      by (rule to_peer_ok_taken [OF connectedD(8) [OF c] ni])
        (use to_peer_ok_no_terminal [OF connectedD(8) [OF c]] in
          \<open>auto simp: inc_of_set_inc has_terminal_def split: if_splits\<close>)
    show "to_runner_ok ?q r ws"
      using connectedD(9) [OF c] by (simp add: to_runner_ok_def)
    show "in_link ?q r ws ms" using connectedD(7) [OF c] by (simp add: in_link_def)
    show "peer_inv ?q" by (rule inv_set_inc_flags [OF connectedD(2) [OF c]]) simp
  qed (use connectedD(1,3-5) [OF c] in \<open>simp_all add: ended_closed_def\<close>)
  then show ?thesis
    using ni ne connectedD(4) [OF c] by (auto simp: peer_end_output_def)
qed

lemma deliver_output_result:
  assumes "\<not> ignores_runner p" "\<not> inc_ended (inc_of p s)"
    and "0 < length bs" "length bs \<le> chunk_of (pr_limits p)"
    and "granted_charge (at2 (pr_windows p) (pool_of (pr_limits p) s)) (length bs) = Inr w"
  shows "peer_output p (pr_key p) s bs =
    (if inc_discarding (inc_of p s)
     then (Inr Late, put_stream p s ((inc_of p s)\<lparr>inc_truncated := True\<rparr>)
             (granted_free w (window_cost (lim_output (pr_limits p)) (length bs))))
     else (Inr Applied, peer_note_buffered (put_stream p s
             ((inc_of p s)\<lparr>inc_inbox := inbox_push (inc_inbox (inc_of p s)) bs\<rparr>) w)))"
proof -
  have o: "inc_of (p\<lparr>pr_windows := ws\<rparr>) s = inc_of p s" for ws
    by (simp add: inc_of_def)
  have "check_chunk (pr_limits p) (length bs) = Inr ()"
    using assms by simp
  with assms show ?thesis
    by (simp add: peer_output_def Let_def o peer_output_put_stream del: check_chunk_Inr)
qed

lemma connected_stream:
  assumes c: "connected p r ws (WireOutput s bs # ms)" and ni: "\<not> ignores_runner p"
    and inv: "peer_inv q"
    and same: "pr_key q = pr_key p" "pr_limits q = pr_limits p" "pr_input q = pr_input p"
      "pr_terminated_at q = pr_terminated_at p" "pr_terminal q = pr_terminal p"
      "pr_started q = pr_started p" "pr_detached q = pr_detached p"
      "\<And>s'. inc_ended (inc_of q s') = inc_ended (inc_of p s')"
    and own: "\<And>c grants data i. i = pool_of (pr_limits p) s \<Longrightarrow>
      pool.link c grants (length bs # data) (at2 (pr_windows p) i) (held p i) \<Longrightarrow>
      pool.link c grants data (at2 (pr_windows q) i) (held q i)"
    and other: "\<And>i. i < 2 \<Longrightarrow> i \<noteq> pool_of (pr_limits p) s \<Longrightarrow>
      at2 (pr_windows q) i = at2 (pr_windows p) i \<and> held q i = held p i"
  shows "connected q r ws ms"
proof (rule connectedI)
  show "out_link q r ws ms i" if "i < 2" for i
    using connectedD(6) [OF c that] own [of i] other [OF that] connectedD(5) [OF c]
    by (cases "i = pool_of (pr_limits p) s") (auto simp: out_link_def)
  show "to_peer_ok q r ms"
    by (rule to_peer_ok_taken [OF connectedD(8) [OF c] ni])
      (use same to_peer_ok_no_terminal [OF connectedD(8) [OF c]] in \<open>simp_all add: has_terminal_def\<close>)
  show "to_runner_ok q r ws"
    using connectedD(9) [OF c] same by (simp add: to_runner_ok_def)
  show "in_link q r ws ms" using connectedD(7) [OF c] same by (simp add: in_link_def)
qed (use connectedD(1,3-5) [OF c] inv same in \<open>simp_all add: ended_closed_def\<close>)

lemma deliver_output_facts:
  assumes c: "connected p r ws (WireOutput s bs # ms)" and ni: "\<not> ignores_runner p"
  obtains w where "0 < length bs" "length bs \<le> chunk_of (pr_limits p)" "\<not> inc_ended (inc_of p s)"
    "granted_charge (at2 (pr_windows p) (pool_of (pr_limits p) s)) (length bs) = Inr w"
    "\<And>cr grants data h. pool.link cr grants (length bs # data)
        (at2 (pr_windows p) (pool_of (pr_limits p) s)) h \<Longrightarrow>
      pool.link cr grants data w (h + unit_cost (win_unit (lim_output (pr_limits p))) (length bs))"
proof -
  let ?l = "pr_limits p" and ?i = "pool_of (pr_limits p) s"
  obtain e where "stream_ok s (inc_ended (inc_of p s)) e (WireOutput s bs # ms)"
    using connectedD(8) [OF c] ni unfolding to_peer_ok_def by blast
  then have ne: "\<not> inc_ended (inc_of p s)" by simp
  have n: "0 < length bs" "length bs \<le> chunk_of ?l" "length bs < 2 ^ 32"
    using connectedD(8) [OF c] connectedD(5) [OF c] chunk_of_bound [of ?l]
    by (auto simp: to_peer_ok_def)
  note inv = connectedD(2) [OF c]
  have win: "gr_window (at2 (pr_windows p) ?i) = lim_output ?l"
    using peer_inv_poolD [OF inv, of ?i] by (simp add: pool_ok_def)
  have "out_link p r ws (WireOutput s bs # ms) ?i"
    by (rule connectedD(6) [OF c]) simp
  then have "pool.link (at2 (rn_credits r) ?i) (grants_of (rn_limits r) ?i ws)
      (length bs # lengths_of (rn_limits r) ?i ms) (at2 (pr_windows p) ?i) (held p ?i)"
    using connectedD(5) [OF c] by (simp add: out_link_def)
  from pool.link_charge [OF this] obtain w where
    w: "granted_charge (at2 (pr_windows p) ?i) (length bs) = Inr w" by blast
  have charged: "pool.link cr grants data w (h + unit_cost (win_unit (lim_output ?l)) (length bs))"
    if "pool.link cr grants (length bs # data) (at2 (pr_windows p) ?i) h" for cr grants data h
    using pool.link_charge [OF that] w win by auto
  show ?thesis by (rule that [OF n(1,2) ne w charged])
qed

lemma deliver_output_charge:
  assumes c: "connected p r ws (WireOutput s bs # ms)" and ni: "\<not> ignores_runner p"
  shows "\<exists>w. peer_output p (rn_key r) s bs =
    (if inc_discarding (inc_of p s)
     then (Inr Late, put_stream p s ((inc_of p s)\<lparr>inc_truncated := True\<rparr>)
             (granted_free w (window_cost (lim_output (pr_limits p)) (length bs))))
     else (Inr Applied, peer_note_buffered (put_stream p s
             ((inc_of p s)\<lparr>inc_inbox := inbox_push (inc_inbox (inc_of p s)) bs\<rparr>) w)))"
  using deliver_output_facts [OF c ni] deliver_output_result [OF ni] connectedD(4) [OF c]
  by metis

lemma deliver_output:
  assumes c: "connected p r ws (WireOutput s bs # ms)" and ni: "\<not> ignores_runner p"
  shows "\<exists>rc q. peer_output p (rn_key r) s bs = (Inr rc, q) \<and> connected q r ws ms"
proof -
  let ?l = "pr_limits p" and ?i = "pool_of (pr_limits p) s"
  note inv = connectedD(2) [OF c]
  from deliver_output_facts [OF c ni] obtain w where n: "0 < length bs" "length bs \<le> chunk_of ?l"
    and ne: "\<not> inc_ended (inc_of p s)"
    and w: "granted_charge (at2 (pr_windows p) ?i) (length bs) = Inr w"
    and charged: "\<And>cr grants data h. pool.link cr grants (length bs # data) (at2 (pr_windows p) ?i) h \<Longrightarrow>
      pool.link cr grants data w (h + unit_cost (win_unit (lim_output ?l)) (length bs))" by blast
  note result = deliver_output_result [OF ni ne n(1,2) w]
  have inc: "ib_unit (inc_inbox (inc_of p s)) = win_unit (lim_output ?l)"
    using peer_inv_incD [OF inv, of s] by (simp add: incoming_ok_def inbox_ok_def)
  show ?thesis
  proof (cases "inc_discarding (inc_of p s)")
    case False
    let ?inc = "(inc_of p s)\<lparr>inc_inbox := inbox_push (inc_inbox (inc_of p s)) bs\<rparr>"
    let ?q = "peer_note_buffered (put_stream p s ?inc w)"
    have held: "held ?q i = held (put_stream p s ?inc w) i" for i
      by (simp add: held_def held_by_def inc_of_def)
    have "held ?q ?i = held p ?i + unit_cost (win_unit (lim_output ?l)) (length bs)"
      using held_put_stream [of p s ?inc w ?i] inc by (simp add: held inbox_push_cost)
    moreover have "held ?q i = held p i" if "i \<noteq> ?i" for i
      using held_put_stream [of p s ?inc w i] that by (simp add: held)
    moreover have "peer_inv ?q" by (rule inv_output_queued [OF inv n(1,2) w])
    ultimately have "connected ?q r ws ms"
      using charged
      by (intro connected_stream [OF c ni])
        (auto simp: inc_of_put_stream at2_put2)
    with result False connectedD(4) [OF c] show ?thesis by simp
  next
    case True
    let ?inc = "(inc_of p s)\<lparr>inc_truncated := True\<rparr>"
    let ?cost = "window_cost (lim_output ?l) (length bs)"
    let ?q = "put_stream p s ?inc (granted_free w ?cost)"
    have cost: "unat ?cost = unit_cost (win_unit (lim_output ?l)) (length bs)"
      using output_charge [OF inv n(1,2) w] by simp
    have "held ?q i = held p i" for i
      using held_put_stream [of p s ?inc "granted_free w ?cost" i] by (simp split: if_splits)
    moreover have "pool.link cr grants data (granted_free w ?cost) h"
      if "pool.link cr grants (length bs # data) (at2 (pr_windows p) ?i) h" for cr grants data h
      using pool.link_free [OF charged [OF that], of ?cost] cost by simp
    moreover have "peer_inv ?q" by (rule inv_output_dropped [OF inv n(1,2) w])
    ultimately have "connected ?q r ws ms"
      by (intro connected_stream [OF c ni])
        (auto simp: inc_of_put_stream at2_put2)
    with result True connectedD(4) [OF c] show ?thesis by simp
  qed
qed

lemma terminal_all_ended:
  assumes c: "connected p r ws (WireTerminal oc # ms)" and ni: "\<not> ignores_runner p"
  shows "all2 inc_ended (pr_outputs p)"
proof -
  have "inc_ended (inc_of p s)" for s
  proof -
    obtain e where "stream_ok s (inc_ended (inc_of p s)) e (WireTerminal oc # ms)"
      using connectedD(8) [OF c] ni unfolding to_peer_ok_def by blast
    then show ?thesis by simp
  qed
  from this [of Stdout] this [of Stderr] show ?thesis
    by (simp add: all2_def inc_of_def at2_def)
qed

lemma deliver_terminal:
  assumes c: "connected p r ws (WireTerminal oc # ms)" and ni: "\<not> ignores_runner p"
  shows "\<exists>rc q. peer_terminal p now (rn_key r) oc = (Inr rc, q) \<and> connected q r ws ms"
proof -
  let ?t = "peer_tick p now"
  have t: "quiet_peer p ?t" by (rule quiet_peer_tick) (simp add: connectedD(2) [OF c])
  have ct: "connected ?t r ws (WireTerminal oc # ms)" by (rule connected_quiet_peer [OF c t])
  show ?thesis
  proof (cases "ignores_runner ?t")
    case True
    with connected_drop_to_peer [OF ct True] connectedD(4) [OF c] show ?thesis
      by (auto simp: peer_terminal_def Let_def)
  next
    case False
    note ended = terminal_all_ended [OF ct False]
    have fin: "rn_finished r" "ms = []"
      using connectedD(8) [OF ct] by (auto simp: to_peer_ok_def has_terminal_def)
    note nt = to_peer_ok_no_terminal [OF connectedD(8) [OF ct]]
    have fin_ok: "connected (v\<lparr>pr_terminal := Some oc\<rparr>) r ws []" if v: "quiet_peer ?t v" for v
    proof -
      have cv: "connected v r ws (WireTerminal oc # ms)" by (rule connected_quiet_peer [OF ct v])
      have "held (v\<lparr>pr_terminal := Some oc\<rparr>) j = held v j" for j
        by (simp add: held_def held_by_def inc_of_def)
      moreover have "\<exists>e. stream_ok s (inc_ended (inc_of v s)) e [] \<and>
          (\<not> rn_detached r \<longrightarrow> e = out_ended (out_of r s))" if "\<not> ignores_runner v" for s
        using connectedD(8) [OF cv] that fin(2) unfolding to_peer_ok_def by auto
      ultimately show ?thesis
        using cv fin
        by (auto simp: connected_def setup_ok_def out_link_def in_link_def to_peer_ok_def
          to_runner_ok_def ended_closed_def ignores_runner_def inc_of_def of_bool_def
          has_terminal_def split: if_splits)
    qed
    from peer_terminal_taken [OF connectedD(2) [OF c] refl False nt ended]
    obtain v where "quiet_peer ?t v"
      "peer_terminal p now (pr_key p) oc = (Inr Applied, v\<lparr>pr_terminal := Some oc\<rparr>)" .
    with fin_ok [of v] fin(2) connectedD(4) [OF c] show ?thesis by simp
  qed
qed

lemma ignored_message:
  assumes "ignores_runner p"
  shows "peer_receive now (pr_key p) m p =
    (Inr Late, case m of WireTerminal oc \<Rightarrow> peer_tick p now | _ \<Rightarrow> p)"
proof -
  have "ignores_runner (peer_tick p now)"
    using assms by (auto simp: ignores_runner_def peer_tick_def peer_fire_give_up_def)
  with assms show ?thesis
    by (cases m) (simp_all add: peer_credit_def peer_started_def peer_output_def peer_end_output_def
        peer_input_closed_def peer_terminal_def Let_def)
qed

lemma connected_to_peer:
  assumes c: "connected p r ws (m # ms)"
  shows "\<exists>rc q. peer_receive now (rn_key r) m p = (Inr rc, q) \<and> connected q r ws ms"
proof (cases "ignores_runner p")
  case True
  have d: "connected p r ws ms" by (rule connected_drop_to_peer [OF c True])
  have "connected (peer_tick p now) r ws ms"
    by (rule connected_quiet_peer [OF d quiet_peer_tick]) (simp add: connectedD(2) [OF c])
  with d show ?thesis
    using ignored_message [OF True, of now m] connectedD(4) [OF c] by (cases m) auto
next
  case False
  show ?thesis
  proof (cases m)
    case WireInputClosed
    let ?res = "peer_input_closed p (rn_key r)"
    have "connected (snd ?res) r ws (m # ms)"
      by (rule connected_quiet_peer [OF c quiet_peer_input_closed [OF connectedD(2) [OF c]]])
    moreover have "connected q r ws ms" if "connected q r ws (WireInputClosed # ms)" for q
      using that by (auto simp: connected_def out_link_def in_link_def to_peer_ok_def has_terminal_def)
    moreover have "\<exists>rc. fst ?res = Inr rc"
      using connectedD(4) [OF c] by (simp add: peer_input_closed_def)
    ultimately show ?thesis
      using WireInputClosed by (metis peer_receive.simps(5) prod.collapse)
  qed (use c False deliver_credit deliver_started deliver_output deliver_end deliver_terminal in simp_all)
qed

section \<open>Messages that reach the runner\<close>

lemma connected_drop_to_runner:
  assumes c: "connected p r (w # ws) ms" and fin: "rn_finished r"
  shows "connected p r ws ms"
proof (rule connectedI)
  show "out_link p r ws ms i" if "i < 2" for i
    using connectedD(6) [OF c that] pool.link_drop_grant
    by (cases w) (auto simp: out_link_def split: if_splits)
  show "in_link p r ws ms"
    using connectedD(7) [OF c] pool.link_drop_data by (cases w) (auto simp: in_link_def)
  show "to_runner_ok p r ws"
    using connectedD(9) [OF c] fin by (simp add: to_runner_ok_def)
qed (use connectedD(1-5,8) [OF c] in simp_all)

lemma receive_credit:
  assumes c: "connected p r (WireCredit po u # ws) ms"
  shows "\<exists>rc q. runner_credit r (rn_key r) po u = (Inr rc, q) \<and> connected p q ws ms"
proof (cases "rn_finished r")
  case fin: True
  obtain i where "output_pool (rn_limits r) po = Inr i"
    using connectedD(9) [OF c] by (auto simp: to_runner_ok_def)
  with fin connected_drop_to_runner [OF c fin] show ?thesis
    by (auto simp: runner_credit_def)
next
  case False
  obtain i where i: "i < 2" "output_pool (rn_limits r) po = Inr i"
    using connectedD(9) [OF c] by (auto simp: to_runner_ok_def)
  have "pool.link (at2 (rn_credits r) i) (u # grants_of (rn_limits r) i ws)
      (lengths_of (rn_limits r) i ms) (at2 (pr_windows p) i) (held p i)"
    using connectedD(6) [OF c i(1)] i(2) by (simp add: out_link_def)
  from pool.link_grant [OF this] obtain cr where
    cr: "credit_grant (at2 (rn_credits r) i) u = Inr cr"
      "pool.link cr (grants_of (rn_limits r) i ws) (lengths_of (rn_limits r) i ms)
        (at2 (pr_windows p) i) (held p i)"
    by blast
  let ?q = "r\<lparr>rn_credits := put2 (rn_credits r) i cr\<rparr>"
  have q: "runner_credit r (rn_key r) po u = (Inr Applied, ?q)"
    using False i(2) cr(1) by (simp add: runner_credit_def)
  have "connected p ?q ws ms"
  proof (rule connectedI)
    show "runner_inv ?q" using inv_credit [OF connectedD(1) [OF c], of "rn_key r" po u] q by simp
    show "out_link p ?q ws ms j" if "j < 2" for j
      using connectedD(6) [OF c that] i cr(2) that
      by (cases "i = j") (auto simp: out_link_def at2_put2 split: if_splits)
    show "to_peer_ok p ?q ms"
      by (rule to_peer_ok_runner [OF connectedD(8) [OF c]]) (simp_all add: out_of_def start_told_def)
    show "to_runner_ok p ?q ws" using connectedD(9) [OF c] by (simp add: to_runner_ok_def)
    show "in_link p ?q ws ms" using connectedD(7) [OF c] by (simp add: in_link_def)
  qed (use connectedD(2-5) [OF c] in simp_all)
  with q show ?thesis by simp
qed

text \<open>A message of the input: the runner's input changes, and the rest of the queue stays valid.\<close>

lemma connected_run_input:
  assumes c: "connected p r (w # ws) ms" and nf: "\<not> rn_finished r" and inv: "runner_inv q"
    and same: "rn_key q = rn_key r" "rn_limits q = rn_limits r" "rn_credits q = rn_credits r"
      "rn_finished q = rn_finished r" "rn_detached q = rn_detached r" "rn_launch q = rn_launch r"
      "rn_started_message q = rn_started_message r" "rn_outputs q = rn_outputs r"
    and w: "\<And>l i. grant_of l i w = []"
    and link: "in_link p q ws ms"
    and seq: "\<And>sent. input_seq (in_peer_ended (rn_input r)) sent (w # ws) \<Longrightarrow>
      input_seq (in_peer_ended (rn_input q)) sent ws"
  shows "connected p q ws ms"
proof (rule connectedI)
  show "out_link p q ws ms i" if "i < 2" for i
    using connectedD(6) [OF c that] same w by (simp add: out_link_def)
  show "to_peer_ok p q ms"
    by (rule to_peer_ok_runner [OF connectedD(8) [OF c]])
      (use same in \<open>simp_all add: out_of_def start_told_def\<close>)
  show "to_runner_ok p q ws"
    using connectedD(9) [OF c] nf seq same unfolding to_runner_ok_def by auto
qed (use connectedD(2-5) [OF c] inv link same in simp_all)

lemma input_not_ended:
  assumes "connected p r (WireInput bs # ws) ms \<or> connected p r (WireInputEnd # ws) ms"
    and "\<not> rn_finished r"
  shows "\<not> in_peer_ended (rn_input r)"
  using assms connectedD(9) by (fastforce simp: to_runner_ok_def)

lemma receive_input:
  assumes c: "connected p r (WireInput bs # ws) ms"
  shows "\<exists>rc q. runner_input r (rn_key r) bs = (Inr rc, q) \<and> connected p q ws ms"
proof (cases "rn_finished r")
  case fin: True
  with connected_drop_to_runner [OF c fin] show ?thesis by (simp add: runner_input_def)
next
  case False
  let ?i = "rn_input r"
  note ne = input_not_ended [OF disjI1 [OF c] False]
  have chunk: "check_chunk (rn_limits r) (length bs) = Inr ()"
    using connectedD(9) [OF c] by (simp add: to_runner_ok_def)
  have "pool.link (og_credit (pr_input p)) (input_grants_of ms) (length bs # input_lengths_of ws)
      (in_window ?i) (inbox_units (in_inbox ?i))"
    using connectedD(7) [OF c] by (simp add: in_link_def)
  from pool.link_charge [OF this] obtain w where
    w: "granted_charge (in_window ?i) (length bs) = Inr w"
      "pool.link (og_credit (pr_input p)) (input_grants_of ms) (input_lengths_of ws) w
        (inbox_units (in_inbox ?i) + unit_cost (win_unit (gr_window (in_window ?i))) (length bs))"
    by blast
  have unit: "win_unit (gr_window (in_window ?i)) = ib_unit (in_inbox ?i)"
    using runner_inv_inD [OF connectedD(1) [OF c]] by (simp add: input_ok_def inbox_ok_def)
  let ?w = "r\<lparr>rn_input := ?i\<lparr>in_window := w\<rparr>\<rparr>"
  let ?q = "runner_note_buffered (r\<lparr>rn_input := ?i\<lparr>in_window := w, in_inbox := inbox_push (in_inbox ?i) bs\<rparr>\<rparr>)"
  have res: "runner_input r (rn_key r) bs =
      (if in_closed ?i then (Inr Late, ?w) else (Inr Applied, ?q))"
    using False ne chunk w(1) by (simp add: runner_input_def Let_def del: check_chunk_Inr)
  have inv: "runner_inv (if in_closed ?i then ?w else ?q)"
    using inv_input [OF connectedD(1) [OF c], of "rn_key r" bs] by (simp add: res split: if_splits)
  have "in_link p ?w ws ms"
    using pool.link_drop_held [OF w(2)] by (simp add: in_link_def)
  moreover have "in_link p ?q ws ms"
    using w(2) unit by (simp add: in_link_def inbox_push_cost)
  ultimately have "connected p (if in_closed ?i then ?w else ?q) ws ms"
    using inv ne by (intro connected_run_input [OF c False]) (auto split: if_splits)
  with res show ?thesis by (cases "in_closed ?i") simp_all
qed

lemma receive_input_end:
  assumes c: "connected p r (WireInputEnd # ws) ms"
  shows "\<exists>rc q. runner_end_input r (rn_key r) = (Inr rc, q) \<and> connected p q ws ms"
proof (cases "rn_finished r")
  case fin: True
  with connected_drop_to_runner [OF c fin] show ?thesis by (simp add: runner_end_input_def)
next
  case False
  let ?i = "rn_input r"
  note ne = input_not_ended [OF disjI2 [OF c] False]
  let ?e = "r\<lparr>rn_input := ?i\<lparr>in_peer_ended := True\<rparr>\<rparr>"
  let ?q = "if in_closed ?i then ?e else close_input_when_taken ?e"
  have res: "runner_end_input r (rn_key r) = (Inr (if in_closed ?i then Late else Applied), ?q)"
    using False ne by (simp add: runner_end_input_def Let_def)
  have inv: "runner_inv ?q"
    using inv_end_input [OF connectedD(1) [OF c], of "rn_key r"] by (simp add: res)
  have "in_window (rn_input ?q) = in_window ?i" "in_inbox (rn_input ?q) = in_inbox ?i"
    "in_peer_ended (rn_input ?q)"
    by (simp_all add: close_input_when_taken_def Let_def)
  then have "connected p ?q ws ms"
    using inv ne connectedD(7) [OF c]
    by (intro connected_run_input [OF c False]) (auto simp: in_link_def)
  with res show ?thesis by simp
qed

lemma connected_to_runner:
  assumes c: "connected p r (w # ws) ms"
  shows "\<exists>rc q. runner_receive now (pr_key p) w r = (Inr rc, q) \<and> connected p q ws ms"
proof (cases w)
  case (WireCancel ca)
  let ?res = "runner_cancel r now (rn_key r) ca"
  have "connected p (snd ?res) (w # ws) ms"
    by (rule connected_quiet_runner [OF c quiet_cancel inv_cancel [OF connectedD(1) [OF c]]])
  moreover have "connected p q ws ms" if "connected p q (WireCancel ca # ws) ms" for q
    using that by (auto simp: connected_def out_link_def in_link_def to_runner_ok_def)
  moreover have "\<exists>rc. fst ?res = Inr rc"
    by (simp add: runner_cancel_def Let_def)
  ultimately show ?thesis
    using WireCancel connectedD(4) [OF c] by (metis runner_receive.simps(1) prod.collapse)
qed (use c connectedD(4) [OF c] receive_credit receive_input receive_input_end in simp_all)

section \<open>Bytes in and out\<close>

lemma connected_runner_bytes:
  assumes c: "connected p r ws ms" and inv: "runner_inv q"
    and same: "rn_key q = rn_key r" "rn_limits q = rn_limits r" "rn_credits q = rn_credits r"
      "rn_finished q = rn_finished r" "rn_detached q = rn_detached r" "rn_launch q = rn_launch r"
      "rn_started_message q = rn_started_message r"
      "\<And>s. out_ended (out_of q s) = out_ended (out_of r s)"
      "in_peer_ended (rn_input q) = in_peer_ended (rn_input r)"
    and link: "in_link p q ws ms"
  shows "connected p q ws ms"
proof (rule connectedI)
  show "to_peer_ok p q ms"
    by (rule to_peer_ok_runner [OF connectedD(8) [OF c]]) (use same in \<open>simp_all add: start_told_def\<close>)
qed (use connectedD(2-6,9) [OF c] inv same link in \<open>simp_all add: out_link_def to_runner_ok_def\<close>)

lemma runner_output_fields [simp]:
  "rn_key (snd (runner_output r s bs)) = rn_key r"
  "rn_limits (snd (runner_output r s bs)) = rn_limits r"
  "rn_credits (snd (runner_output r s bs)) = rn_credits r"
  "rn_finished (snd (runner_output r s bs)) = rn_finished r"
  "rn_detached (snd (runner_output r s bs)) = rn_detached r"
  "rn_launch (snd (runner_output r s bs)) = rn_launch r"
  "rn_started_message (snd (runner_output r s bs)) = rn_started_message r"
  "rn_input (snd (runner_output r s bs)) = rn_input r"
  "out_ended (out_of (snd (runner_output r s bs)) s') = out_ended (out_of r s')"
proof -
  have "out_of (runner_note_buffered q) s' = out_of q s'" for q
    by (simp add: out_of_def)
  then show "out_ended (out_of (snd (runner_output r s bs)) s') = out_ended (out_of r s')"
    by (simp add: runner_output_def Let_def out_of_set_out)
qed (simp_all add: runner_output_def Let_def)

lemma connected_read:
  assumes c: "connected p r ws ms"
  shows "connected p (snd (runner_output r s bs)) ws ms"
  using connectedD(7) [OF c] inv_output [OF connectedD(1) [OF c], of s bs]
  by (intro connected_runner_bytes [OF c]) (simp_all add: in_link_def)

lemma connected_discarded:
  assumes c: "connected p r ws ms"
  shows "connected p (discarded r s n) ws ms"
  using connectedD(7) [OF c] inv_out_flags(1) [OF connectedD(1) [OF c], of s n]
  by (intro connected_runner_bytes [OF c])
    (simp_all add: in_link_def discarded_def Let_def out_of_set_out)

lemma connected_write:
  assumes c: "connected p r ws ms"
  shows "connected p (input_written r n) ws ms"
proof (cases "in_closed (rn_input r)")
  case True
  with c show ?thesis by (simp add: input_written_def)
next
  case False
  let ?i = "rn_input r"
  obtain freed ib where pop: "inbox_pop (in_inbox ?i) n = (freed, ib)"
    by (cases "inbox_pop (in_inbox ?i) n")
  note ok = runner_inv_inD [OF connectedD(1) [OF c]]
  have "inbox_ok (lim_input (rn_limits r)) (chunk_of (rn_limits r)) (in_inbox ?i)"
    using ok by (simp add: input_ok_def)
  from inbox_ok_pop [OF this input_ok_units [OF ok] pop]
  have units: "unat freed + inbox_units ib = inbox_units (in_inbox ?i)" by blast
  let ?q = "r\<lparr>rn_input := ?i\<lparr>in_inbox := ib, in_window := granted_free (in_window ?i) freed\<rparr>\<rparr>"
  have q: "input_written r n = close_input_when_taken ?q"
    using False by (simp add: input_written_def pop Let_def)
  have same: "in_window (rn_input (close_input_when_taken u)) = in_window (rn_input u)"
    "in_inbox (rn_input (close_input_when_taken u)) = in_inbox (rn_input u)"
    "in_peer_ended (rn_input (close_input_when_taken u)) = in_peer_ended (rn_input u)"
    "out_of (close_input_when_taken u) s = out_of u s" for u s
    by (simp_all add: close_input_when_taken_def Let_def)
  have "in_link p (input_written r n) ws ms"
  proof -
    have le: "unat freed \<le> inbox_units (in_inbox ?i)"
      and eq: "inbox_units (in_inbox ?i) - unat freed = inbox_units ib"
      using units by simp_all
    show ?thesis
      using pool.link_free [OF connectedD(7) [OF c, unfolded in_link_def] le]
      unfolding in_link_def q same eq by simp
  qed
  with inv_input_written [OF connectedD(1) [OF c], of n] show ?thesis
    by (intro connected_runner_bytes [OF c]) (simp_all add: q same)
qed

lemma connected_give:
  assumes c: "connected p r ws ms"
  shows "connected (snd (peer_input p bs)) r ws ms"
proof -
  let ?q = "snd (peer_input p bs)"
  have same: "pr_key ?q = pr_key p" "pr_limits ?q = pr_limits p" "pr_windows ?q = pr_windows p"
    "pr_outputs ?q = pr_outputs p" "pr_terminal ?q = pr_terminal p" "pr_started ?q = pr_started p"
    "ignores_runner ?q = ignores_runner p" "pr_detached ?q = pr_detached p"
    "pr_terminated_at ?q = pr_terminated_at p"
    "og_credit (pr_input ?q) = og_credit (pr_input p)" "og_closed (pr_input ?q) = og_closed (pr_input p)"
    "og_end_sent (pr_input ?q) = og_end_sent (pr_input p)"
    by (simp_all add: peer_input_def Let_def ignores_runner_def)
  have "held ?q i = held p i" for i
    by (simp add: held_def held_by_def inc_of_def same)
  then show ?thesis
    using c inv_peer_input [OF connectedD(2) [OF c], of bs]
    by (simp add: connected_def setup_ok_def out_link_def in_link_def to_peer_ok_def to_runner_ok_def
        ended_closed_def inc_of_def same)
qed

lemma connected_sink:
  assumes c: "connected p r ws ms"
  shows "connected (consumed p s n) r ws ms"
proof -
  obtain freed ib where pop: "inbox_pop (inc_inbox (inc_of p s)) n = (freed, ib)"
    by (cases "inbox_pop (inc_inbox (inc_of p s)) n")
  note inv = connectedD(2) [OF c]
  have ok: "inbox_ok (lim_output (pr_limits p)) (chunk_of (pr_limits p)) (inc_inbox (inc_of p s))"
    using peer_inv_incD [OF inv, of s] by (simp add: incoming_ok_def)
  from inbox_ok_pop [OF ok peer_inv_units [OF inv] pop]
  have units: "unat freed + inbox_units ib = inbox_units (inc_inbox (inc_of p s))" by blast
  let ?inc = "(inc_of p s)\<lparr>inc_inbox := ib\<rparr>"
  have q: "consumed p s n = window_free (set_inc p s ?inc) s freed"
    by (simp add: consumed_def pop)
  have "serves p (consumed p s n) i" if "i < 2" for i
    unfolding q using units by (intro serves_free [OF that]) simp
  then have "out_link (consumed p s n) r ws ms i" if "i < 2" for i
    using connectedD(6) [OF c that] that by (simp add: out_link_def serves_def)
  moreover have "inc_ended (inc_of (consumed p s n) s') = inc_ended (inc_of p s')" for s'
    by (simp add: q inc_of_set_inc)
  moreover have same: "pr_key (consumed p s n) = pr_key p" "pr_limits (consumed p s n) = pr_limits p"
    "pr_input (consumed p s n) = pr_input p" "pr_terminal (consumed p s n) = pr_terminal p"
    "pr_started (consumed p s n) = pr_started p" "pr_detached (consumed p s n) = pr_detached p"
    "ignores_runner (consumed p s n) = ignores_runner p"
    "pr_terminated_at (consumed p s n) = pr_terminated_at p"
    by (simp_all add: q ignores_runner_def)
  ultimately show ?thesis
    using c inv_consumed [OF inv, of s n]
    by (simp add: connected_def setup_ok_def in_link_def to_peer_ok_def to_runner_ok_def
        ended_closed_def same)
qed

lemma connected_lose_to_peer:
  assumes c: "connected p r ws ms" and "rn_detached r"
  shows "connected p r ws (take n ms)"
proof (rule connectedI)
  have ms: "ms = take n ms @ drop n ms" by simp
  have drops: "pool.link c gs (data @ more) g h \<Longrightarrow> pool.link c gs data g h"
    "pool.link c (gs @ more') data g h \<Longrightarrow> pool.link c gs data g h" for c gs data more more' g h
    by (auto simp: pool.link_def)
  show "out_link p r ws (take n ms) i" if "i < 2" for i
    using connectedD(6) [OF c that] in_flight_simps(6) [of "rn_limits r" i "take n ms" "drop n ms"]
    unfolding out_link_def append_take_drop_id by (metis drops(1))
  show "in_link p r ws (take n ms)"
    using connectedD(7) [OF c] in_flight_simps(9) [of "take n ms" "drop n ms"]
    unfolding in_link_def append_take_drop_id by (metis drops(2))
  have "count_list (take n ms) WireStarted \<le> count_list ms WireStarted"
    by (metis count_list_append le_add1 ms)
  moreover have "set (take n ms) \<subseteq> set ms" by (rule set_take_subset)
  moreover have "\<exists>e. stream_ok s (inc_ended (inc_of p s)) e (take n ms)" if "\<not> ignores_runner p" for s
    using connectedD(8) [OF c] that stream_ok_take unfolding to_peer_ok_def by blast
  moreover note connectedD(8) [OF c, unfolded to_peer_ok_def]
  ultimately show "to_peer_ok p r (take n ms)"
    unfolding to_peer_ok_def has_terminal_def
    using assms(2) terminal_last_take [of ms n] by (intro conjI; (simp; fail | blast | linarith | simp))
qed (use connectedD [OF c] in simp_all)

lemma connected_lose_to_runner:
  assumes c: "connected p r ws ms" and "pr_detached p"
  shows "connected p r (take n ws) ms"
proof (rule connectedI)
  have drops: "pool.link c gs (data @ more) g h \<Longrightarrow> pool.link c gs data g h"
    "pool.link c (gs @ more') data g h \<Longrightarrow> pool.link c gs data g h" for c gs data more more' g h
    by (auto simp: pool.link_def)
  show "out_link p r (take n ws) ms i" if "i < 2" for i
    using connectedD(6) [OF c that] in_flight_simps(3) [of "rn_limits r" i "take n ws" "drop n ws"]
    unfolding out_link_def append_take_drop_id by (metis drops(2))
  show "in_link p r (take n ws) ms"
    using connectedD(7) [OF c] in_flight_simps(12) [of "take n ws" "drop n ws"]
    unfolding in_link_def append_take_drop_id by (metis drops(1))
  have "set (take n ws) \<subseteq> set ws" by (rule set_take_subset)
  then show "to_runner_ok p r (take n ws)"
    using connectedD(9) [OF c] assms(2) input_seq_take [of _ _ ws n]
    unfolding to_runner_ok_def by blast
qed (use connectedD [OF c] in simp_all)

section \<open>The system keeps the connection\<close>

definition system_ok :: "system \<Rightarrow> bool" where
  "system_ok y \<longleftrightarrow>
     connected (sy_peer y) (sy_runner y) (sy_to_runner y) (sy_to_peer y) \<and> sy_refused y = None"

lemma inv_workload: "runner_inv r \<Longrightarrow> runner_inv (workload_apply c r)"
  by (cases c)
    (simp_all add: inv_launched inv_out_flags runner_input_closed_def inv_close_input inv_exited
      inv_settled runner_dropped_def runner_reset_def runner_disconnect_def inv_detach inv_tick
      inv_next_request)

lemma system_ok_act:
  assumes ok: "system_ok y"
  shows "system_ok (act a y)"
proof (cases a)
  case (Workload c)
  with ok show ?thesis
    using connected_quiet_runner [OF _ quiet_workload inv_workload] connectedD(1)
    by (simp add: system_ok_def)
next
  case (Caller c)
  with ok show ?thesis
    using connected_quiet_peer [OF _ quiet_caller] connectedD(2,3) by (simp add: system_ok_def)
next
  case (RunnerSend buffer)
  obtain m b q where m: "runner_next_message buffer (sy_runner y) = (m, b, q)"
    by (cases "runner_next_message buffer (sy_runner y)")
  have "rn_turn (sy_runner y) < 2"
    using ok connectedD(1) by (auto simp: system_ok_def runner_inv_def)
  with m ok RunnerSend show ?thesis
    using connected_runner_send [of _ "sy_runner y" _ _ buffer _ b q]
      runner_next_message_None [of buffer "sy_runner y" b q]
    by (cases m) (auto simp: system_ok_def split: if_splits)
next
  case (PeerSend buffer)
  obtain m b q where m: "peer_next_message buffer (sy_peer y) = (m, b, q)"
    by (cases "peer_next_message buffer (sy_peer y)")
  with ok PeerSend show ?thesis
    using connected_peer_send [of "sy_peer y" _ _ _ buffer _ b q]
      peer_next_message_None [of buffer "sy_peer y" b q]
    by (cases m) (auto simp: system_ok_def)
next
  case (ToRunner now)
  show ?thesis
  proof (cases "sy_to_runner y")
    case (Cons w ws)
    with ok connected_to_runner [of "sy_peer y" "sy_runner y" w ws "sy_to_peer y" now] ToRunner
    show ?thesis by (auto simp: system_ok_def)
  qed (use ok ToRunner in simp)
next
  case (ToPeer now)
  show ?thesis
  proof (cases "sy_to_peer y")
    case (Cons m ms)
    with ok connected_to_peer [of "sy_peer y" "sy_runner y" "sy_to_runner y" m ms now] ToPeer
    show ?thesis by (auto simp: system_ok_def)
  qed (use ok ToPeer in simp)
next
  case (Read s bs)
  with ok connected_read [of "sy_peer y" "sy_runner y" _ _ s bs] show ?thesis
    by (cases "runner_output (sy_runner y) s bs") (simp add: system_ok_def)
next
  case (GiveInput bs)
  with ok connected_give [of "sy_peer y" _ _ _ bs] show ?thesis
    by (cases "peer_input (sy_peer y) bs") (simp add: system_ok_def)
qed (use ok in \<open>simp_all add: system_ok_def connected_discarded connected_write connected_sink
       connected_lose_to_peer connected_lose_to_runner Let_def\<close>)

lemma system_ok_new: "system_ok (system_new key l tp np tr nr)"
  by (simp add: system_ok_def system_new_def connected_new)

interpretation exec_sys: transition_system system_initial system_step system_ok
  by unfold_locales (auto simp: system_initial_def system_ok_new system_ok_act)

lemma system_run_steps: "system_step\<^sup>*\<^sup>* y (system_run as y)"
proof (induction as arbitrary: y)
  case (Cons a as)
  from system_step.act [of y a] Cons.IH [of "act a y"] show ?case
    unfolding system_run_def by (simp add: converse_rtranclp_into_rtranclp)
qed (simp add: system_run_def)

end
