(* ===== verification/Exec_Flow.thy ===== *)
theory Exec_Flow
  imports Exec_Order
begin

text \<open>
  Where the bytes of a stream are: what the sink took, what the peer holds, what is in flight, and
  what the runner holds make up what the runner took from the workload, in order, and what a side
  drops is at the end and marks the stream as truncated. Likewise for the workload's input.
\<close>

section \<open>Output\<close>

fun output_bytes_of :: "stream \<Rightarrow> runner_wire \<Rightarrow> bytes" where
  "output_bytes_of s (WireOutput s' bs) = (if s' = s then bs else [])"
| "output_bytes_of s _ = []"

definition out_flight :: "stream \<Rightarrow> runner_wire list \<Rightarrow> bytes" where
  "out_flight s ms = concat (map (output_bytes_of s) ms)"

lemma out_flight_simps [simp]:
  "out_flight s [] = []" "out_flight s (m # ms) = output_bytes_of s m @ out_flight s ms"
  "out_flight s (ms @ ms') = out_flight s ms @ out_flight s ms'"
  by (simp_all add: out_flight_def)

text \<open>
  What the runner has yet to deliver, as far as the peer still takes it: the bytes in flight, then
  the runner's queue, then what the runner dropped, after which it queues no more.
\<close>

definition undelivered :: "runner \<Rightarrow> runner_wire list \<Rightarrow> stream \<Rightarrow> bytes \<Rightarrow> bool" where
  "undelivered r ms s rest \<longleftrightarrow>
     (if rn_detached r then \<exists>lost. rest = out_flight s ms @ lost
      else \<exists>lost. rest = out_flight s ms @ out_queue (out_of r s) @ lost \<and>
             (lost \<noteq> [] \<longrightarrow> out_truncated (out_of r s) \<and>
                (out_closed (out_of r s) \<or> out_discarding (out_of r s))))"

definition inc_bytes :: "peer \<Rightarrow> stream \<Rightarrow> bytes" where
  "inc_bytes p s = ib_bytes (inc_inbox (inc_of p s))"

definition flow :: "peer \<Rightarrow> runner \<Rightarrow> runner_wire list \<Rightarrow> stream \<Rightarrow> bytes \<Rightarrow> bytes \<Rightarrow> bool" where
  "flow p r ms s red sunk \<longleftrightarrow>
     (\<exists>rest. red = sunk @ inc_bytes p s @ rest \<and>
        (\<not> inc_truncated (inc_of p s) \<and> \<not> ignores_runner p \<longrightarrow> undelivered r ms s rest))"

text \<open>Once the runner's outcome says that a stream is whole, every byte of it is accounted for.\<close>

definition outcome_flow :: "peer \<Rightarrow> runner_wire list \<Rightarrow> stream \<Rightarrow> bytes \<Rightarrow> bytes \<Rightarrow> bool" where
  "outcome_flow p ms s red sunk \<longleftrightarrow>
     (\<forall>oc. WireTerminal oc \<in> set ms \<and> \<not> ignores_runner p \<and> \<not> is_truncated oc s \<and>
           \<not> inc_truncated (inc_of p s) \<longrightarrow> red = sunk @ inc_bytes p s @ out_flight s ms) \<and>
     (\<forall>oc. pr_terminal p = Some oc \<and> \<not> is_truncated oc s \<and> \<not> inc_truncated (inc_of p s) \<longrightarrow>
           red = sunk @ inc_bytes p s)"

definition discards :: "peer \<Rightarrow> stream \<Rightarrow> bool" where
  "discards p s \<longleftrightarrow>
     (inc_truncated (inc_of p s) \<longrightarrow> inc_discarding (inc_of p s)) \<and>
     (inc_discarding (inc_of p s) \<longrightarrow> inc_bytes p s = [])"

definition finishes :: "runner \<Rightarrow> stream \<Rightarrow> bool" where
  "finishes r s \<longleftrightarrow> (rn_finished r \<longrightarrow> is_done (out_of r s))"

definition out_flow :: "peer \<Rightarrow> runner \<Rightarrow> runner_wire list \<Rightarrow> stream \<Rightarrow> bytes \<Rightarrow> bytes \<Rightarrow> bool" where
  "out_flow p r ms s red sunk \<longleftrightarrow>
     flow p r ms s red sunk \<and> outcome_flow p ms s red sunk \<and> discards p s \<and> finishes r s"

text \<open>The parts of a side that the flow reads.\<close>

lemma out_flow_runner_cong:
  assumes "rn_detached q = rn_detached r" "out_of q s = out_of r s" "rn_finished q = rn_finished r"
  shows "out_flow p q ms s red sunk = out_flow p r ms s red sunk"
  using assms by (simp add: out_flow_def flow_def undelivered_def finishes_def)

lemma out_flow_peer_cong:
  assumes "ignores_runner q = ignores_runner p" "pr_terminal q = pr_terminal p"
    "inc_inbox (inc_of q s) = inc_inbox (inc_of p s)"
    "inc_truncated (inc_of q s) = inc_truncated (inc_of p s)"
    "inc_discarding (inc_of q s) = inc_discarding (inc_of p s)"
  shows "out_flow q r ms s red sunk = out_flow p r ms s red sunk"
  using assms by (simp add: out_flow_def flow_def outcome_flow_def discards_def inc_bytes_def)

lemma undelivered_quiet:
  assumes "undelivered r ms s rest" and q: "quiet_runner r q"
  shows "undelivered q ms s rest"
proof (cases "rn_detached q")
  case True
  with assms(1) show ?thesis by (auto simp: undelivered_def split: if_splits)
next
  case False
  with q have nd: "\<not> rn_detached r" using quiet_runnerD(7) by blast
  with assms(1) obtain lost where lost: "rest = out_flight s ms @ out_queue (out_of r s) @ lost"
    "lost \<noteq> [] \<longrightarrow> out_truncated (out_of r s) \<and> (out_closed (out_of r s) \<or> out_discarding (out_of r s))"
    by (auto simp: undelivered_def)
  note o = quiet_runnerD(2) [OF q, of s, unfolded quiet_output_def]
  show ?thesis
  proof (cases "out_queue (out_of q s) = out_queue (out_of r s)")
    case True
    with lost o False show ?thesis by (auto simp: undelivered_def)
  next
    case dropped: False
    with lost(1) have "rest = out_flight s ms @ out_queue (out_of q s) @ (out_queue (out_of r s) @ lost)"
      using o by simp
    with o False dropped show ?thesis unfolding undelivered_def by metis
  qed
qed

lemma out_flow_quiet_runner:
  assumes f: "out_flow p r ms s red sunk" and q: "quiet_runner r q"
  shows "out_flow p q ms s red sunk"
proof -
  have "finishes q s"
    using f quiet_runnerD(6) [OF q] quiet_runnerD(2) [OF q, of s]
    by (auto simp: out_flow_def finishes_def is_done_def quiet_output_def)
  with f undelivered_quiet [OF _ q] show ?thesis
    unfolding out_flow_def flow_def by blast
qed

lemma out_flow_quiet_peer:
  assumes f: "out_flow p r ms s red sunk" and q: "quiet_peer p q"
  shows "out_flow q r ms s red sunk"
proof -
  note i = quiet_peerD(2) [OF q, of s, unfolded quiet_incoming_def]
  have bytes: "inc_bytes q s = inc_bytes p s \<or> inc_bytes q s = [] \<and> inc_truncated (inc_of q s)"
    using i by (auto simp: inc_bytes_def)
  have mono: "inc_truncated (inc_of p s) \<longrightarrow> inc_truncated (inc_of q s)"
    "ignores_runner p \<longrightarrow> ignores_runner q" "pr_terminal q = pr_terminal p"
    using i quiet_peerD [OF q] by blast+
  from f obtain rest where rest: "red = sunk @ inc_bytes p s @ rest"
    "\<not> inc_truncated (inc_of p s) \<and> \<not> ignores_runner p \<longrightarrow> undelivered r ms s rest"
    by (auto simp: out_flow_def flow_def)
  have "flow q r ms s red sunk"
  proof (cases "inc_bytes q s = inc_bytes p s")
    case True
    with rest mono show ?thesis unfolding flow_def by metis
  next
    case False
    with bytes rest(1) have "red = sunk @ inc_bytes q s @ (inc_bytes p s @ rest)" by simp
    with False bytes show ?thesis unfolding flow_def by blast
  qed
  moreover have "outcome_flow q ms s red sunk"
    using f mono bytes unfolding out_flow_def outcome_flow_def by metis
  moreover have "discards q s"
    using f i by (auto simp: out_flow_def discards_def inc_bytes_def)
  ultimately show ?thesis using f by (simp add: out_flow_def)
qed

text \<open>Bytes of the workload that the runner takes, or that its adapter drops as it asked.\<close>

lemma out_flow_grow:
  assumes f: "out_flow p r ms s red sunk" and tp: "to_peer_ok p r ms"
    and same: "rn_detached q = rn_detached r" "rn_finished q = rn_finished r"
    and o: "out_closed (out_of q s) = out_closed (out_of r s)"
      "out_discarding (out_of q s) = out_discarding (out_of r s)"
    and grow: "new = [] \<and> out_of q s = out_of r s \<or>
      \<not> out_closed (out_of r s) \<and>
      (if out_discarding (out_of r s)
       then out_queue (out_of q s) = out_queue (out_of r s) \<and>
            out_truncated (out_of q s) = (out_truncated (out_of r s) \<or> new \<noteq> [])
       else out_queue (out_of q s) = out_queue (out_of r s) @ new \<and>
            out_truncated (out_of q s) = out_truncated (out_of r s))"
  shows "out_flow p q ms s (red @ new) sunk"
proof (cases "new = [] \<and> out_of q s = out_of r s")
  case True
  with f same show ?thesis by (simp add: out_flow_runner_cong [of q r])
next
  case False
  with grow have nc: "\<not> out_closed (out_of r s)" by auto
  with f have nf: "\<not> rn_finished r" by (auto simp: out_flow_def finishes_def is_done_def)
  have "undelivered q ms s (rest @ new)" if "undelivered r ms s rest" for rest
    using that grow False nc same o
    by (cases "out_discarding (out_of r s)") (auto simp: undelivered_def split: if_splits)
  then have "flow p q ms s (red @ new) sunk"
    using f unfolding out_flow_def flow_def by fastforce
  moreover have "\<not> has_terminal ms" "pr_terminal p = None"
    using tp nf by (auto simp: to_peer_ok_def)
  ultimately show ?thesis
    using f nf same by (auto simp: out_flow_def outcome_flow_def finishes_def has_terminal_def)
qed

lemma runner_output_stream:
  assumes "runner_output r s bs = (n, q)"
  shows "s' \<noteq> s \<Longrightarrow> out_of q s' = out_of r s'"
    and "out_closed (out_of q s) = out_closed (out_of r s)"
      "out_discarding (out_of q s) = out_discarding (out_of r s)"
    and "take n bs = [] \<and> out_of q s = out_of r s \<or>
      \<not> out_closed (out_of r s) \<and>
      (if out_discarding (out_of r s)
       then out_queue (out_of q s) = out_queue (out_of r s) \<and>
            out_truncated (out_of q s) = (out_truncated (out_of r s) \<or> take n bs \<noteq> [])
       else out_queue (out_of q s) = out_queue (out_of r s) @ take n bs \<and>
            out_truncated (out_of q s) = out_truncated (out_of r s))"
proof -
  have [simp]: "out_of (runner_note_buffered u) t = out_of u t" for u t
    by (simp add: out_of_def)
  show "s' \<noteq> s \<Longrightarrow> out_of q s' = out_of r s'" "out_closed (out_of q s) = out_closed (out_of r s)"
    "out_discarding (out_of q s) = out_discarding (out_of r s)"
    using assms by (auto simp: runner_output_def Let_def out_of_set_out split: if_splits)
  show "take n bs = [] \<and> out_of q s = out_of r s \<or>
      \<not> out_closed (out_of r s) \<and>
      (if out_discarding (out_of r s)
       then out_queue (out_of q s) = out_queue (out_of r s) \<and>
            out_truncated (out_of q s) = (out_truncated (out_of r s) \<or> take n bs \<noteq> [])
       else out_queue (out_of q s) = out_queue (out_of r s) @ take n bs \<and>
            out_truncated (out_of q s) = out_truncated (out_of r s))"
    using assms by (auto simp: runner_output_def Let_def out_of_set_out split: if_splits)
qed

text \<open>Bytes that the sink takes.\<close>

lemma consumed_stream:
  "inc_bytes (consumed p s n) s' = (if s' = s then drop n (inc_bytes p s) else inc_bytes p s')"
  "inc_truncated (inc_of (consumed p s n) s') = inc_truncated (inc_of p s')"
  "inc_discarding (inc_of (consumed p s n) s') = inc_discarding (inc_of p s')"
  "ignores_runner (consumed p s n) = ignores_runner p" "pr_terminal (consumed p s n) = pr_terminal p"
proof -
  obtain freed ib where pop: "inbox_pop (inc_inbox (inc_of p s)) n = (freed, ib)"
    by (cases "inbox_pop (inc_inbox (inc_of p s)) n")
  with inbox_pop_fields [OF pop] show
    "inc_bytes (consumed p s n) s' = (if s' = s then drop n (inc_bytes p s) else inc_bytes p s')"
    "inc_truncated (inc_of (consumed p s n) s') = inc_truncated (inc_of p s')"
    "inc_discarding (inc_of (consumed p s n) s') = inc_discarding (inc_of p s')"
    "ignores_runner (consumed p s n) = ignores_runner p" "pr_terminal (consumed p s n) = pr_terminal p"
    by (simp_all add: consumed_def inc_of_set_inc inc_bytes_def ignores_runner_def)
qed

lemma out_flow_sink:
  assumes f: "out_flow p r ms s' red sunk"
  shows "out_flow (consumed p s n) r ms s' red
           (if s' = s then sunk @ take n (inc_bytes p s) else sunk)"
proof -
  have split: "take n (inc_bytes p s) @ drop n (inc_bytes p s) @ rest = inc_bytes p s @ rest" for rest
    by (metis append.assoc append_take_drop_id)
  show ?thesis
    using f by (cases "s' = s")
      (simp_all add: out_flow_def flow_def outcome_flow_def discards_def consumed_stream split)
qed

text \<open>Messages that are lost once the runner detached.\<close>

lemma terminal_last_take_all:
  "terminal_last ms \<Longrightarrow> WireTerminal oc \<in> set (take n ms) \<Longrightarrow> take n ms = ms"
  by (induction ms arbitrary: n rule: terminal_last.induct) (case_tac n; auto)+

lemma out_flow_lose:
  assumes f: "out_flow p r ms s red sunk" and "rn_detached r" and "terminal_last ms"
  shows "out_flow p r (take n ms) s red sunk"
proof -
  have "out_flight s ms = out_flight s (take n ms) @ out_flight s (drop n ms)"
    using out_flight_simps(3) [of s "take n ms" "drop n ms"] by simp
  with f assms(2) have "flow p r (take n ms) s red sunk"
    unfolding out_flow_def flow_def undelivered_def by (metis append.assoc)
  moreover have "outcome_flow p (take n ms) s red sunk"
    using f terminal_last_take_all [OF assms(3)]
    unfolding out_flow_def outcome_flow_def by (metis in_set_takeD)
  ultimately show ?thesis using f by (simp add: out_flow_def)
qed

text \<open>Messages that the runner sends.\<close>

lemma out_of_flags [simp]:
  "out_of (r\<lparr>rn_finished := a\<rparr>) s = out_of r s" "out_of (r\<lparr>rn_credited := b\<rparr>) s = out_of r s"
  "out_of (r\<lparr>rn_turn := c\<rparr>) s = out_of r s" "out_of (r\<lparr>rn_started_message := d\<rparr>) s = out_of r s"
  by (simp_all add: out_of_def)

lemma out_flow_sent:
  assumes f: "out_flow p r ms s red sunk" and tp: "to_peer_ok p r ms"
    and nf: "\<not> rn_finished r" "\<not> rn_finished q" and same: "rn_detached q = rn_detached r"
    and nd: "\<not> rn_detached r" and nt: "\<not> has_terminal [m]"
    and o: "out_closed (out_of q s) = out_closed (out_of r s)"
      "out_discarding (out_of q s) = out_discarding (out_of r s)"
      "out_truncated (out_of q s) = out_truncated (out_of r s)"
      "out_queue (out_of r s) = output_bytes_of s m @ out_queue (out_of q s)"
  shows "out_flow p q (ms @ [m]) s red sunk"
proof -
  have "undelivered q (ms @ [m]) s rest" if "undelivered r ms s rest" for rest
    using that same nd o by (auto simp: undelivered_def)
  then have "flow p q (ms @ [m]) s red sunk"
    using f unfolding out_flow_def flow_def by blast
  moreover have "\<not> has_terminal (ms @ [m])" "pr_terminal p = None"
    using tp nf(1) nt by (auto simp: to_peer_ok_def)
  ultimately show ?thesis
    using f nf by (auto simp: out_flow_def outcome_flow_def finishes_def has_terminal_def)
qed

lemma is_truncated_with [simp]:
  "\<not> is_truncated (outcome_new st) s"
  "is_truncated (with_cause oc c) s = is_truncated oc s"
  "is_truncated (with_launch_failure oc lf) s = is_truncated oc s"
  "is_truncated (with_reusable oc) s = is_truncated oc s"
  by (cases s; simp add: is_truncated_def outcome_new_def with_cause_def with_launch_failure_def
      with_reusable_def at2_def)+

lemma runner_outcome_truncated:
  assumes "runner_outcome r = Some oc"
  shows "is_truncated oc s = out_truncated (out_of r s)"
  using assms
  by (cases s) (auto simp: runner_outcome_def Let_def split: if_splits option.splits sum.splits)

lemma out_flow_terminal_sent:
  assumes f: "out_flow p r ms s red sunk" and tp: "to_peer_ok p r ms" and nf: "\<not> rn_finished r"
    and oc: "runner_outcome r = Some oc" and nd: "\<not> rn_detached r"
  shows "out_flow p (r\<lparr>rn_finished := True\<rparr>) (ms @ [WireTerminal oc]) s red sunk"
proof -
  have dn: "is_done (out_of r s)"
    using runner_outcome_ended [OF oc] by blast
  have "undelivered (r\<lparr>rn_finished := True\<rparr>) (ms @ [WireTerminal oc]) s rest"
    if "undelivered r ms s rest" for rest
    using that by (simp add: undelivered_def)
  then have "flow p (r\<lparr>rn_finished := True\<rparr>) (ms @ [WireTerminal oc]) s red sunk"
    using f unfolding out_flow_def flow_def by blast
  moreover have no: "\<not> has_terminal ms" "pr_terminal p = None"
    using tp nf by (auto simp: to_peer_ok_def)
  have "red = sunk @ inc_bytes p s @ out_flight s ms"
    if "\<not> is_truncated oc s" "\<not> inc_truncated (inc_of p s)" "\<not> ignores_runner p"
    using f that nd dn runner_outcome_truncated [OF oc, of s]
    by (auto simp: out_flow_def flow_def undelivered_def is_done_def)
  then have "outcome_flow p (ms @ [WireTerminal oc]) s red sunk"
    using no by (auto simp: outcome_flow_def has_terminal_def)
  ultimately show ?thesis
    using f dn by (simp add: out_flow_def finishes_def)
qed

lemma turn_sent_stream:
  assumes "t = turn_stream r"
  shows "out_of (turn_sent n r) s = (if s = t then (out_of r s)\<lparr>out_queue := drop n (out_queue (out_of r s))\<rparr>
                                     else out_of r s)"
  using assms by (simp add: turn_sent_def Let_def out_of_def set_out_def at2_put2)

lemma out_flow_runner_send:
  assumes c: "connected p r ws ms" and m: "runner_next_message buffer r = (Some m, buffer', q)"
    and f: "out_flow p r ms s red sunk"
  shows "out_flow p q (if rn_detached q then ms else ms @ [wire_of_runner buffer' m]) s red sunk"
proof -
  have turn: "rn_turn r < 2" using connectedD(1) [OF c] by (simp add: runner_inv_def)
  note tp = connectedD(8) [OF c]
  from m turn show ?thesis
  proof (cases rule: runner_next_message_Some)
    case sent
    note nf = sent(1)
    from sent(2) turn show ?thesis
    proof (cases rule: next_sent_Some)
      case (credit r1)
      then show ?thesis
        by (elim runner_next_credit_Some)
          (use nf in \<open>auto simp: has_terminal_def intro!: out_flow_sent [OF f tp]\<close>)
    next
      case (other r1)
      from other(2) show ?thesis
      proof (cases rule: next_other_Some)
        case (sent t s' n)
        let ?r = "r\<lparr>rn_turn := t\<rparr>"
        have le: "n \<le> length (out_queue (out_of r s'))"
          using turn_length_le(1) [of buffer ?r] sent(4,5) by (simp add: out_of_def)
        have o: "out_of q s = (if s = s' then (out_of r s)\<lparr>out_queue := drop n (out_queue (out_of r s))\<rparr>
            else out_of r s)"
          using turn_sent_stream [OF sent(4), of n s] sent(9) other(3) by (simp add: out_of_def)
        have wire: "wire_of_runner buffer' m = WireOutput s' (take n (out_queue (out_of r s')))"
          using sent(7,8) le by simp
        have q: "rn_detached q = rn_detached r" "rn_finished q = rn_finished r"
          using other(3) sent(9) by simp_all
        have "out_flow p q (ms @ [wire_of_runner buffer' m]) s red sunk"
          by (rule out_flow_sent [OF f tp nf])
            (use q other(1) nf in \<open>auto simp: o wire has_terminal_def\<close>)
        with q(1) other(1) show ?thesis by simp
      qed (use nf other in \<open>auto simp: has_terminal_def out_of_set_out split: if_splits
             intro!: out_flow_sent [OF f tp]\<close>)
    qed
  next
    case (terminal oc)
    then show ?thesis
      using out_flow_terminal_sent [OF f tp terminal(1,5)] f runner_outcome_ended [OF terminal(5), of s]
      by (auto simp: out_flow_def flow_def undelivered_def finishes_def)
  qed
qed

text \<open>Messages that reach the peer.\<close>

lemma out_flow_drop:
  assumes f: "out_flow p r (m # ms) s red sunk" and "ignores_runner p"
  shows "out_flow p r ms s red sunk"
  using assms by (auto simp: out_flow_def flow_def outcome_flow_def)

lemma out_flow_taken:
  assumes f: "out_flow p r (m # ms) s red sunk" and ni: "\<not> ignores_runner p" "\<not> ignores_runner q"
    and nt: "\<not> has_terminal [m]" "pr_terminal p = None" "pr_terminal q = None"
    and i: "inc_truncated (inc_of q s) = inc_truncated (inc_of p s)"
      "inc_discarding (inc_of q s) = inc_discarding (inc_of p s)"
      "inc_bytes q s = inc_bytes p s @ output_bytes_of s m"
      "output_bytes_of s m \<noteq> [] \<Longrightarrow> \<not> inc_discarding (inc_of p s)"
  shows "out_flow q r ms s red sunk"
proof -
  from f obtain rest where rest: "red = sunk @ inc_bytes p s @ rest"
    "\<not> inc_truncated (inc_of p s) \<Longrightarrow> undelivered r (m # ms) s rest"
    using ni by (auto simp: out_flow_def flow_def)
  have "flow q r ms s red sunk"
  proof (cases "inc_truncated (inc_of p s)")
    case True
    with f i have "output_bytes_of s m = []" by (auto simp: out_flow_def discards_def)
    with True rest(1) i show ?thesis by (auto simp: flow_def)
  next
    case False
    from rest(2) [OF False] obtain rest' where "rest = output_bytes_of s m @ rest'"
      "undelivered r ms s rest'"
      by (auto simp: undelivered_def split: if_splits)
    with rest(1) i show ?thesis by (auto simp: flow_def)
  qed
  moreover have "WireTerminal oc \<in> set (m # ms) \<longleftrightarrow> WireTerminal oc \<in> set ms" for oc
    using nt(1) by (auto simp: has_terminal_def)
  then have "outcome_flow q ms s red sunk"
    using f i ni nt by (auto simp: out_flow_def outcome_flow_def)
  moreover have "discards q s"
    using f i by (auto simp: out_flow_def discards_def)
  ultimately show ?thesis using f by (simp add: out_flow_def)
qed

lemma out_flow_discarded:
  assumes f: "out_flow p r (m # ms) s red sunk" and nt: "pr_terminal q = None"
    and i: "inc_truncated (inc_of q s)" "inc_discarding (inc_of q s)"
      "inc_discarding (inc_of p s)" "inc_bytes q s = inc_bytes p s"
  shows "out_flow q r ms s red sunk"
  using assms by (auto simp: out_flow_def flow_def outcome_flow_def discards_def)

lemma out_flow_terminal:
  assumes f: "out_flow p r [WireTerminal oc] s red sunk" and ni: "\<not> ignores_runner p"
    and v: "quiet_peer p v"
  shows "out_flow (v\<lparr>pr_terminal := Some oc\<rparr>) r [] s red sunk"
proof -
  have fv: "out_flow v r [WireTerminal oc] s red sunk" by (rule out_flow_quiet_peer [OF f v])
  have [simp]: "inc_of (v\<lparr>pr_terminal := Some oc\<rparr>) s = inc_of v s"
    "inc_bytes (v\<lparr>pr_terminal := Some oc\<rparr>) s = inc_bytes v s"
    "ignores_runner (v\<lparr>pr_terminal := Some oc\<rparr>) = ignores_runner v"
    by (simp_all add: inc_of_def inc_bytes_def ignores_runner_def)
  have "undelivered r [] s rest" if "undelivered r [WireTerminal oc] s rest" for rest
    using that by (auto simp: undelivered_def split: if_splits)
  then have "flow (v\<lparr>pr_terminal := Some oc\<rparr>) r [] s red sunk"
    using fv unfolding out_flow_def flow_def by auto
  moreover have "red = sunk @ inc_bytes v s"
    if "\<not> is_truncated oc s" "\<not> inc_truncated (inc_of v s)"
  proof -
    note i = quiet_peerD(2) [OF v, of s, unfolded quiet_incoming_def]
    from i that(2) have "\<not> inc_truncated (inc_of p s)" "inc_bytes v s = inc_bytes p s"
      by (auto simp: inc_bytes_def)
    with f ni that(1) show ?thesis by (simp add: out_flow_def outcome_flow_def)
  qed
  then have "outcome_flow (v\<lparr>pr_terminal := Some oc\<rparr>) [] s red sunk"
    by (simp add: outcome_flow_def)
  ultimately show ?thesis
    using fv by (simp add: out_flow_def discards_def)
qed

lemma ignores_no_change:
  "ignores_runner (p\<lparr>pr_input := i\<rparr>) = ignores_runner p"
  "ignores_runner (p\<lparr>pr_started := a, pr_started_event := b\<rparr>) = ignores_runner p"
  "ignores_runner (set_inc p s inc) = ignores_runner p"
  "ignores_runner (put_stream p s inc w) = ignores_runner p"
  "ignores_runner (peer_note_buffered p) = ignores_runner p"
  by (simp_all add: ignores_runner_def)

lemma out_flow_to_peer:
  assumes c: "connected p r ws (m # ms)" and f: "out_flow p r (m # ms) s red sunk"
    and res: "peer_receive now (rn_key r) m p = (res, q)"
  shows "out_flow q r ms s red sunk"
proof (cases "ignores_runner p")
  case True
  have d: "out_flow p r ms s red sunk" by (rule out_flow_drop [OF f True])
  have "out_flow (peer_tick p now) r ms s red sunk"
    by (rule out_flow_quiet_peer [OF d quiet_peer_tick]) (simp add: connectedD(2) [OF c])
  with d res show ?thesis
    using ignored_message [OF True, of now m] connectedD(4) [OF c] by (cases m) auto
next
  case ni: False
  note key = connectedD(4) [OF c] and nt = to_peer_ok_no_terminal [OF connectedD(8) [OF c]]
  show ?thesis
  proof (cases m)
    case (WireInputCredit u)
    with res ni key nt show ?thesis
      by (intro out_flow_taken [OF f ni])
        (auto simp: peer_credit_def Let_def ignores_no_change has_terminal_def inc_of_def inc_bytes_def
          split: sum.splits if_splits)
  next
    case WireStarted
    with res ni key nt show ?thesis
      by (intro out_flow_taken [OF f ni])
        (auto simp: peer_started_def ignores_no_change has_terminal_def inc_of_def inc_bytes_def
          split: if_splits)
  next
    case (WireEnd t)
    with res ni key nt show ?thesis
      by (intro out_flow_taken [OF f ni])
        (auto simp: peer_end_output_def ignores_no_change has_terminal_def inc_of_set_inc
          inc_bytes_def split: if_splits)
  next
    case WireInputClosed
    have "out_flow p r ms s red sunk"
      using f WireInputClosed
      by (intro out_flow_taken [OF f ni ni]) (auto simp: has_terminal_def nt)
    then show ?thesis
      using out_flow_quiet_peer [OF _ quiet_peer_input_closed [OF connectedD(2) [OF c]], of r ms s red sunk "rn_key r"]
        WireInputClosed res by simp
  next
    case (WireTerminal oc)
    let ?t = "peer_tick p now"
    have t: "quiet_peer p ?t" by (rule quiet_peer_tick) (simp add: connectedD(2) [OF c])
    have ft: "out_flow ?t r (WireTerminal oc # ms) s red sunk"
      using out_flow_quiet_peer [OF f t] WireTerminal by simp
    show ?thesis
    proof (cases "ignores_runner ?t")
      case True
      with res WireTerminal key out_flow_drop [OF ft True] show ?thesis
        by (auto simp: peer_terminal_def Let_def)
    next
      case False
      have ct: "connected ?t r ws (WireTerminal oc # ms)"
        using connected_quiet_peer [OF c t] WireTerminal by simp
      from terminal_all_ended [OF ct False]
      obtain v where v: "quiet_peer ?t v"
        "peer_terminal p now (pr_key p) oc = (Inr Applied, v\<lparr>pr_terminal := Some oc\<rparr>)"
        using peer_terminal_taken [OF connectedD(2) [OF c] refl False] nt by auto
      have "ms = []" using connectedD(8) [OF ct] by (auto simp: to_peer_ok_def)
      with out_flow_terminal [OF _ False v(1)] ft v(2) res WireTerminal key show ?thesis by auto
    qed
  next
    case (WireOutput t bs)
    have co: "connected p r ws (WireOutput t bs # ms)" using c WireOutput by simp
    from deliver_output_charge [OF co ni] obtain w where
      out: "peer_output p (rn_key r) t bs =
        (if inc_discarding (inc_of p t)
         then (Inr Late, put_stream p t ((inc_of p t)\<lparr>inc_truncated := True\<rparr>)
                 (granted_free w (window_cost (lim_output (pr_limits p)) (length bs))))
         else (Inr Applied, peer_note_buffered (put_stream p t
                 ((inc_of p t)\<lparr>inc_inbox := inbox_push (inc_inbox (inc_of p t)) bs\<rparr>) w)))"
      by blast
    show ?thesis
    proof (cases "inc_discarding (inc_of p t) \<and> s = t")
      case True
      with out res WireOutput nt show ?thesis
        by (intro out_flow_discarded [OF f]) (auto simp: inc_of_put_stream inc_bytes_def)
    next
      case False
      with out res WireOutput nt ni show ?thesis
        by (intro out_flow_taken [OF f ni])
          (auto simp: ignores_no_change inc_of_put_stream inc_bytes_def has_terminal_def
            split: if_splits)
    qed
  qed
qed

text \<open>What the runner takes from its peer leaves its streams as they are, a cancellation apart.\<close>

lemma to_runner_streams:
  assumes "runner_receive now key m r = (res, q)"
  shows "quiet_runner r q \<or>
    rn_detached q = rn_detached r \<and> (\<forall>s. out_of q s = out_of r s) \<and> rn_finished q = rn_finished r"
proof (cases m)
  case (WireCancel c)
  with assms quiet_cancel [of r now key c] show ?thesis by simp
next
  case (WireCredit p n)
  have "rn_detached (snd (runner_credit r key p n)) = rn_detached r \<and>
    (\<forall>s. out_of (snd (runner_credit r key p n)) s = out_of r s) \<and>
    rn_finished (snd (runner_credit r key p n)) = rn_finished r"
    unfolding runner_credit_def
    by (rule admitted_inv) (simp_all add: out_of_def split: sum.split)
  with assms WireCredit show ?thesis by simp
next
  case (WireInput bs)
  have "rn_detached (snd (runner_input r key bs)) = rn_detached r \<and>
    (\<forall>s. out_of (snd (runner_input r key bs)) s = out_of r s) \<and>
    rn_finished (snd (runner_input r key bs)) = rn_finished r"
    unfolding runner_input_def
    by (rule admitted_inv) (simp_all add: out_of_def Let_def split: sum.split)
  with assms WireInput show ?thesis by simp
next
  case WireInputEnd
  have "rn_detached (snd (runner_end_input r key)) = rn_detached r \<and>
    (\<forall>s. out_of (snd (runner_end_input r key)) s = out_of r s) \<and>
    rn_finished (snd (runner_end_input r key)) = rn_finished r"
    unfolding runner_end_input_def
    by (rule admitted_inv) (simp_all add: out_of_def Let_def close_input_when_taken_def)
  with assms WireInputEnd show ?thesis by simp
qed

lemma peer_send_streams:
  assumes "peer_next_message buffer p = (m, buffer', q)"
  shows "ignores_runner q = ignores_runner p" "pr_terminal q = pr_terminal p"
    "inc_of q s = inc_of p s"
proof -
  have inp: "ignores_runner p1 = ignores_runner p" "pr_terminal p1 = pr_terminal p"
    "inc_of p1 s = inc_of p s" if "next_input buffer p = (m', b, p1)" for m' b p1
    using that by (auto simp: next_input_def ignores_runner_def inc_of_def Let_def split: if_splits prod.splits)
  have "ignores_runner q = ignores_runner p \<and> pr_terminal q = pr_terminal p \<and> inc_of q s = inc_of p s"
  proof (cases m)
    case None
    with assms show ?thesis using peer_next_message_None [of buffer p buffer' q] by simp
  next
    case (Some m')
    with assms have "peer_next_message buffer p = (Some m', buffer', q)" by simp
    then show ?thesis
    proof (cases rule: peer_next_message_Some)
      case (input p1)
      with inp [OF input(4)] show ?thesis by (simp add: ignores_runner_def inc_of_def)
    qed (simp_all add: ignores_runner_def inc_of_def)
  qed
  then show "ignores_runner q = ignores_runner p" "pr_terminal q = pr_terminal p"
    "inc_of q s = inc_of p s" by simp_all
qed

section \<open>The system keeps the output\<close>

definition out_flows :: "system \<Rightarrow> bool" where
  "out_flows y \<longleftrightarrow> (\<forall>s. out_flow (sy_peer y) (sy_runner y) (sy_to_peer y) s
     (bytes_of (sy_read y) s) (bytes_of (sy_sunk y) s))"

lemma bytes_of_add2 [simp]:
  "bytes_of (add2 a s bs) s' = (if s' = s then bytes_of a s @ bs else bytes_of a s')"
  by (cases s; cases s') (simp_all add: bytes_of_def add2_def at2_put2)

text \<open>One action at a time.\<close>

lemma out_flowsD:
  assumes "system_ok y" and "out_flows y"
  shows "connected (sy_peer y) (sy_runner y) (sy_to_runner y) (sy_to_peer y)"
    and "out_flow (sy_peer y) (sy_runner y) (sy_to_peer y) s
      (bytes_of (sy_read y) s) (bytes_of (sy_sunk y) s)"
  using assms by (simp_all add: system_ok_def out_flows_def)

lemma out_flows_read:
  assumes ok: "system_ok y" and f: "out_flows y"
  shows "out_flows (act (Read s bs) y)"
proof -
  let ?p = "sy_peer y" and ?r = "sy_runner y" and ?ws = "sy_to_runner y" and ?ms = "sy_to_peer y"
  note c = out_flowsD(1) [OF ok f] and fs = out_flowsD(2) [OF ok f]
  obtain n q where q: "runner_output ?r s bs = (n, q)" by (cases "runner_output ?r s bs")
  note st = runner_output_stream [OF q]
  have same: "rn_detached q = rn_detached ?r" "rn_finished q = rn_finished ?r"
    using runner_output_fields [of ?r s bs] q by simp_all
  have "out_flow ?p q ?ms s (bytes_of (sy_read y) s @ take n bs) (bytes_of (sy_sunk y) s)"
    by (rule out_flow_grow [OF fs connectedD(8) [OF c] same st(2,3,4)])
  moreover have "out_flow ?p q ?ms s' (bytes_of (sy_read y) s') (bytes_of (sy_sunk y) s')" if "s' \<noteq> s" for s'
    using fs [of s'] out_flow_runner_cong [OF same(1) st(1) [OF that] same(2)] by simp
  ultimately show ?thesis using q by (simp add: out_flows_def)
qed

lemma out_flows_discarded:
  assumes ok: "system_ok y" and f: "out_flows y"
  shows "out_flows (act (ReadDiscarded s bs) y)"
proof -
  let ?p = "sy_peer y" and ?r = "sy_runner y" and ?ws = "sy_to_runner y" and ?ms = "sy_to_peer y"
  note c = out_flowsD(1) [OF ok f] and fs = out_flowsD(2) [OF ok f]
  let ?q = "discarded ?r s (length bs)"
  have same: "rn_detached ?q = rn_detached ?r" "rn_finished ?q = rn_finished ?r"
    by (simp_all add: discarded_def Let_def)
  have "out_flow ?p ?q ?ms s (bytes_of (sy_read y) s @ bs) (bytes_of (sy_sunk y) s)"
    if "out_discarding (out_of ?r s)" "\<not> out_closed (out_of ?r s)"
    by (rule out_flow_grow [OF fs connectedD(8) [OF c] same])
      (use that in \<open>simp_all add: discarded_def Let_def out_of_set_out\<close>)
  moreover have "out_flow ?p ?q ?ms s' (bytes_of (sy_read y) s') (bytes_of (sy_sunk y) s')" if "s' \<noteq> s" for s'
    using fs [of s'] out_flow_runner_cong [OF same(1) _ same(2)] that
    by (simp add: discarded_def Let_def out_of_set_out)
  ultimately show ?thesis using fs by (simp add: out_flows_def Let_def)
qed

lemma out_flows_runner_send:
  assumes ok: "system_ok y" and f: "out_flows y"
  shows "out_flows (act (RunnerSend buffer) y)"
proof -
  let ?p = "sy_peer y" and ?r = "sy_runner y" and ?ws = "sy_to_runner y" and ?ms = "sy_to_peer y"
  note c = out_flowsD(1) [OF ok f] and fs = out_flowsD(2) [OF ok f]
  obtain m b q where m: "runner_next_message buffer ?r = (m, b, q)"
    by (cases "runner_next_message buffer ?r")
  have turn: "rn_turn ?r < 2" using connectedD(1) [OF c] by (simp add: runner_inv_def)
  show ?thesis
  proof (cases m)
    case None
    with m have "q = ?r" using runner_next_message_None [of buffer ?r b q] turn by simp
    with m None fs show ?thesis by (simp add: out_flows_def)
  next
    case (Some m')
    with out_flow_runner_send [OF c _ fs, of buffer m' b q] m show ?thesis
      by (cases "rn_detached q") (simp_all add: out_flows_def)
  qed
qed

lemma out_flows_to_runner:
  assumes ok: "system_ok y" and f: "out_flows y"
  shows "out_flows (act (ToRunner now) y)"
proof -
  let ?p = "sy_peer y" and ?r = "sy_runner y" and ?ws = "sy_to_runner y" and ?ms = "sy_to_peer y"
  note c = out_flowsD(1) [OF ok f] and fs = out_flowsD(2) [OF ok f]
  show ?thesis
  proof (cases ?ws)
    case (Cons w ws)
    obtain res q where q: "runner_receive now (pr_key ?p) w ?r = (res, q)"
      by (cases "runner_receive now (pr_key ?p) w ?r")
    have "out_flow ?p q ?ms s (bytes_of (sy_read y) s) (bytes_of (sy_sunk y) s)" for s
      using to_runner_streams [OF q] out_flow_quiet_runner [OF fs] out_flow_runner_cong [of q ?r s] fs [of s]
      by auto
    with Cons q show ?thesis by (simp add: out_flows_def)
  qed (use fs in \<open>simp add: out_flows_def\<close>)
qed

lemma out_flows_peer_send:
  assumes ok: "system_ok y" and f: "out_flows y"
  shows "out_flows (act (PeerSend buffer) y)"
proof -
  let ?p = "sy_peer y" and ?r = "sy_runner y" and ?ws = "sy_to_runner y" and ?ms = "sy_to_peer y"
  note c = out_flowsD(1) [OF ok f] and fs = out_flowsD(2) [OF ok f]
  obtain m b q where m: "peer_next_message buffer ?p = (m, b, q)"
    by (cases "peer_next_message buffer ?p")
  have "out_flow q ?r ?ms s (bytes_of (sy_read y) s) (bytes_of (sy_sunk y) s)" for s
    using fs [of s] peer_send_streams(1,2) [OF m] peer_send_streams(3) [OF m, of s] out_flow_peer_cong [of q ?p s] by simp
  with m show ?thesis by (cases m) (simp_all add: out_flows_def)
qed

lemma out_flows_to_peer:
  assumes ok: "system_ok y" and f: "out_flows y"
  shows "out_flows (act (ToPeer now) y)"
proof -
  let ?p = "sy_peer y" and ?r = "sy_runner y" and ?ws = "sy_to_runner y" and ?ms = "sy_to_peer y"
  note c = out_flowsD(1) [OF ok f] and fs = out_flowsD(2) [OF ok f]
  show ?thesis
  proof (cases ?ms)
    case (Cons m ms)
    obtain res q where q: "peer_receive now (rn_key ?r) m ?p = (res, q)"
      by (cases "peer_receive now (rn_key ?r) m ?p")
    have "out_flow q ?r ms s (bytes_of (sy_read y) s) (bytes_of (sy_sunk y) s)" for s
      using out_flow_to_peer [OF _ _ q] c fs [of s] Cons by simp
    with Cons q show ?thesis by (simp add: out_flows_def)
  qed (use fs in \<open>simp add: out_flows_def\<close>)
qed

lemma out_flows_act:
  assumes ok: "system_ok y" and f: "out_flows y"
  shows "out_flows (act a y)"
proof -
  let ?p = "sy_peer y" and ?r = "sy_runner y" and ?ms = "sy_to_peer y"
  note c = out_flowsD(1) [OF ok f] and fs = out_flowsD(2) [OF ok f]
  show ?thesis
  proof (cases a)
    case (Workload w)
    with fs out_flow_quiet_runner [OF _ quiet_workload] show ?thesis by (simp add: out_flows_def)
  next
    case (Caller w)
    with fs out_flow_quiet_peer [OF _ quiet_caller [OF connectedD(2,3) [OF c]]] show ?thesis
      by (simp add: out_flows_def)
  next
    case (WriteInput n)
    have "out_flow ?p (input_written ?r n) ?ms s (bytes_of (sy_read y) s) (bytes_of (sy_sunk y) s)" for s
      using fs [of s] out_flow_runner_cong [of "input_written ?r n" ?r s]
      by (simp add: input_written_def close_input_when_taken_def out_of_def Let_def split: prod.split)
    with WriteInput show ?thesis by (simp add: out_flows_def Let_def)
  next
    case (LoseToPeer n)
    have "terminal_last ?ms" using connectedD(8) [OF c] by (simp add: to_peer_ok_def)
    with LoseToPeer fs out_flow_lose [OF fs] show ?thesis by (simp add: out_flows_def)
  next
    case (GiveInput bs)
    have "out_flow (snd (peer_input ?p bs)) ?r ?ms s (bytes_of (sy_read y) s) (bytes_of (sy_sunk y) s)" for s
      using fs [of s] out_flow_peer_cong [of "snd (peer_input ?p bs)" ?p s]
      by (simp add: peer_input_def ignores_runner_def inc_of_def Let_def)
    with GiveInput show ?thesis by (cases "peer_input ?p bs") (simp add: out_flows_def)
  next
    case (Sink s n)
    have "out_flow (consumed ?p s n) ?r ?ms s' (bytes_of (sy_read y) s')
        (bytes_of (add2 (sy_sunk y) s (take n (inc_bytes ?p s))) s')" for s'
      using out_flow_sink [OF fs [of s'], of s n] by (cases "s' = s") simp_all
    with Sink show ?thesis by (simp add: out_flows_def inc_bytes_def del: bytes_of_add2)
  qed (use assms in \<open>simp_all add: out_flows_read out_flows_discarded out_flows_runner_send
         out_flows_to_runner out_flows_peer_send out_flows_to_peer del: act.simps,
         simp_all add: out_flows_def\<close>)
qed

end
