(* ===== verification/Exec_Flow_Input.thy ===== *)
theory Exec_Flow_Input
  imports Exec_Flow
begin

text \<open>
  The workload's input, from the caller to the workload: what the workload took, what the runner
  holds, what is in flight and what the peer holds make up what the peer took from its caller, in
  order. The runner asks its adapter to close the input only once the workload took all of it.
\<close>

section \<open>Input\<close>

fun input_bytes_of :: "peer_wire \<Rightarrow> bytes" where
  "input_bytes_of (WireInput bs) = bs"
| "input_bytes_of _ = []"

definition in_flight :: "peer_wire list \<Rightarrow> bytes" where
  "in_flight ws = concat (map input_bytes_of ws)"

lemma in_flight_bytes [simp]:
  "in_flight [] = []" "in_flight (w # ws) = input_bytes_of w @ in_flight ws"
  "in_flight (ws @ ws') = in_flight ws @ in_flight ws'"
  by (simp_all add: in_flight_def)

definition in_bytes :: "runner \<Rightarrow> bytes" where
  "in_bytes r = ib_bytes (in_inbox (rn_input r))"

definition takes_input :: "runner \<Rightarrow> bool" where
  "takes_input r \<longleftrightarrow> \<not> in_closed (rn_input r) \<and> \<not> rn_finished r"

text \<open>What the peer has yet to deliver: what is in flight, then its queue unless it dropped it.\<close>

definition unsent :: "peer \<Rightarrow> peer_wire list \<Rightarrow> bytes \<Rightarrow> bool" where
  "unsent p ws rest \<longleftrightarrow>
     (\<exists>tail. rest = in_flight ws @ tail \<and> (\<not> og_closed (pr_input p) \<longrightarrow> tail = og_queue (pr_input p)))"

definition input_flow :: "peer \<Rightarrow> runner \<Rightarrow> peer_wire list \<Rightarrow> bytes \<Rightarrow> bytes \<Rightarrow> bool" where
  "input_flow p r ws given written \<longleftrightarrow>
     (\<exists>rest. given = written @ in_bytes r @ rest \<and> (takes_input r \<longrightarrow> unsent p ws rest)) \<and>
     (WireInputEnd \<in> set ws \<and> takes_input r \<longrightarrow> given = written @ in_bytes r @ in_flight ws)"

text \<open>Once the runner has seen the end of the input, it holds all that the workload has yet to take.\<close>

definition input_end :: "peer \<Rightarrow> runner \<Rightarrow> peer_wire list \<Rightarrow> bytes \<Rightarrow> bytes \<Rightarrow> bool" where
  "input_end p r ws given written \<longleftrightarrow>
     (in_peer_ended (rn_input r) \<and> \<not> in_closed (rn_input r) \<longrightarrow> given = written @ in_bytes r) \<and>
     (in_close_requested (rn_input r) \<longrightarrow>
        in_closed (rn_input r) \<and> in_peer_ended (rn_input r) \<and> given = written) \<and>
     (in_peer_ended (rn_input r) \<or> WireInputEnd \<in> set ws \<longrightarrow> og_end_sent (pr_input p))"

definition in_flow :: "peer \<Rightarrow> runner \<Rightarrow> peer_wire list \<Rightarrow> bytes \<Rightarrow> bytes \<Rightarrow> bool" where
  "in_flow p r ws given written \<longleftrightarrow>
     input_flow p r ws given written \<and> input_end p r ws given written"

text \<open>What a call that neither gives nor sends input does to the peer's queue.\<close>

definition keeps_queue :: "peer \<Rightarrow> peer \<Rightarrow> bool" where
  "keeps_queue p q \<longleftrightarrow>
     og_end_sent (pr_input q) = og_end_sent (pr_input p) \<and>
     (og_closed (pr_input p) \<longrightarrow> og_closed (pr_input q)) \<and>
     (og_closed (pr_input q) \<or> og_queue (pr_input q) = og_queue (pr_input p))"

lemma keeps_queue_quiet: "quiet_peer p q \<Longrightarrow> keeps_queue p q"
  using quiet_peerD(1) [of p q] by (auto simp: keeps_queue_def quiet_outgoing_def)

lemma keeps_queue_same:
  "og_end_sent (pr_input q) = og_end_sent (pr_input p) \<Longrightarrow> og_closed (pr_input q) = og_closed (pr_input p) \<Longrightarrow>
   og_queue (pr_input q) = og_queue (pr_input p) \<Longrightarrow> keeps_queue p q"
  by (simp add: keeps_queue_def)

lemma unsent_keeps: "unsent p ws rest \<Longrightarrow> keeps_queue p q \<Longrightarrow> unsent q ws rest"
  by (auto simp: unsent_def keeps_queue_def)

lemma in_flow_peer:
  assumes f: "in_flow p r ws given written" and k: "keeps_queue p q"
  shows "in_flow q r ws given written"
proof -
  have "input_flow q r ws given written"
    using f unsent_keeps [OF _ k] unfolding in_flow_def input_flow_def by blast
  moreover have "input_end q r ws given written"
    using f k unfolding in_flow_def input_end_def keeps_queue_def by simp
  ultimately show ?thesis by (simp add: in_flow_def)
qed

lemma in_flow_runner_cong:
  assumes f: "in_flow p r ws given written"
    and "in_inbox (rn_input q) = in_inbox (rn_input r)" "in_closed (rn_input q) = in_closed (rn_input r)"
      "in_peer_ended (rn_input q) = in_peer_ended (rn_input r)"
      "in_close_requested (rn_input q) = in_close_requested (rn_input r)"
      "rn_finished r \<Longrightarrow> rn_finished q"
  shows "in_flow p q ws given written"
  using assms by (auto simp: in_flow_def input_flow_def input_end_def takes_input_def in_bytes_def)

lemma in_flow_quiet_runner:
  assumes f: "in_flow p r ws given written" and q: "quiet_runner r q"
  shows "in_flow p q ws given written"
proof -
  note i = quiet_runnerD(1) [OF q, unfolded quiet_input_def] and fin = quiet_runnerD(6) [OF q]
  have takes: "takes_input q \<Longrightarrow> takes_input r" using i fin by (simp add: takes_input_def)
  have bytes: "in_bytes q = in_bytes r \<or>
      in_bytes q = [] \<and> \<not> in_closed (rn_input r) \<and> in_closed (rn_input q)"
    using i by (auto simp: in_bytes_def)
  from f obtain rest where rest: "given = written @ in_bytes r @ rest"
    "takes_input r \<longrightarrow> unsent p ws rest"
    "WireInputEnd \<in> set ws \<and> takes_input r \<longrightarrow> given = written @ in_bytes r @ in_flight ws"
    by (auto simp: in_flow_def input_flow_def)
  have "input_flow p q ws given written"
  proof (cases "in_bytes q = in_bytes r")
    case True
    with rest takes show ?thesis unfolding input_flow_def by metis
  next
    case False
    with bytes have "in_bytes q = []" "\<not> takes_input q" by (simp_all add: takes_input_def)
    with rest(1) show ?thesis by (simp add: input_flow_def)
  qed
  moreover have "input_end p q ws given written"
    using f i bytes unfolding in_flow_def input_end_def by (intro conjI impI) (metis+)
  ultimately show ?thesis by (simp add: in_flow_def)
qed

section \<open>Actions on the input\<close>

lemma in_flow_give:
  assumes f: "in_flow p r ws given written" and inv: "peer_inv p"
    and q: "peer_input p bs = (n, q)"
  shows "in_flow q r ws (given @ take n bs) written"
proof (cases "n = 0")
  case True
  with f q show ?thesis
    by (auto simp: peer_input_def Let_def intro!: in_flow_peer [OF f] keeps_queue_same)
next
  case False
  with q have n: "\<not> og_closed (pr_input p)" "\<not> og_ended (pr_input p)"
    "pr_input q = (pr_input p)\<lparr>og_queue := og_queue (pr_input p) @ take n bs\<rparr>"
    by (auto simp: peer_input_def write_allowance_def Let_def split: if_splits)
  with peer_inv_outD [OF inv] have ne: "\<not> og_end_sent (pr_input p)" by (auto simp: outgoing_ok_def)
  have "unsent q ws (rest @ take n bs)" if "unsent p ws rest" for rest
    using that n by (auto simp: unsent_def)
  moreover obtain rest where rest: "given = written @ in_bytes r @ rest"
    "takes_input r \<longrightarrow> unsent p ws rest"
    using f by (auto simp: in_flow_def input_flow_def)
  ultimately have "\<exists>rest. given @ take n bs = written @ in_bytes r @ rest \<and>
      (takes_input r \<longrightarrow> unsent q ws rest)"
    by (intro exI [of _ "rest @ take n bs"]) simp
  moreover have "\<not> in_peer_ended (rn_input r)" "WireInputEnd \<notin> set ws"
    "\<not> in_close_requested (rn_input r)"
    using f ne by (auto simp: in_flow_def input_end_def)
  ultimately show ?thesis by (simp add: in_flow_def input_flow_def input_end_def)
qed

lemma in_flow_write:
  assumes f: "in_flow p r ws given written"
  shows "in_flow p (input_written r n) ws given
    (written @ (if in_closed (rn_input r) then [] else take n (in_bytes r)))"
proof (cases "in_closed (rn_input r)")
  case True
  with f show ?thesis by (simp add: input_written_def)
next
  case False
  obtain freed ib where pop: "inbox_pop (in_inbox (rn_input r)) n = (freed, ib)"
    by (cases "inbox_pop (in_inbox (rn_input r)) n")
  let ?q = "r\<lparr>rn_input := (rn_input r)\<lparr>in_inbox := ib,
              in_window := granted_free (in_window (rn_input r)) freed\<rparr>\<rparr>"
  have split: "take n (in_bytes r) @ drop n (in_bytes r) @ rest = in_bytes r @ rest" for rest
    by (metis append.assoc append_take_drop_id)
  have q: "input_written r n = close_input_when_taken ?q"
    using False by (simp add: input_written_def pop Let_def)
  have bytes: "in_bytes ?q = drop n (in_bytes r)"
    using inbox_pop_fields [OF pop] by (simp add: in_bytes_def)
  have fq: "in_flow p ?q ws given (written @ take n (in_bytes r))"
    using f False unfolding in_flow_def input_flow_def input_end_def bytes
    by (simp add: takes_input_def split)
  have "in_flow p (close_input_when_taken ?q) ws given (written @ take n (in_bytes r))"
  proof (cases "in_peer_ended (rn_input r) \<and> inbox_is_empty ib")
    case True
    then have "in_bytes ?q = []" by (simp add: in_bytes_def inbox_is_empty_def)
    with fq True False show ?thesis
      by (auto simp: close_input_when_taken_def in_flow_def input_flow_def input_end_def
          takes_input_def in_bytes_def)
  qed (use fq False in \<open>auto simp: close_input_when_taken_def Let_def\<close>)
  with q False show ?thesis by simp
qed

lemma input_seq_after: "input_seq True e ws \<Longrightarrow> in_flight ws = []"
  by (induction True e ws rule: input_seq.induct) simp_all

lemma input_seq_seen: "input_seq True e ws \<Longrightarrow> e"
  by (induction True e ws rule: input_seq.induct) simp_all

lemma input_seq_end: "input_seq d e ws \<Longrightarrow> WireInputEnd \<in> set ws \<Longrightarrow> e"
proof (induction d e ws rule: input_seq.induct)
  case (3 seen sent ws)
  then show ?case using input_seq_seen [of sent ws] by simp
qed auto

lemma in_flow_lose:
  assumes f: "in_flow p r ws given written" and closed: "og_closed (pr_input p)"
    and tr: "to_runner_ok p r ws"
  shows "in_flow p r (take n ws) given written"
proof -
  have split: "in_flight ws = in_flight (take n ws) @ in_flight (drop n ws)"
    using in_flight_bytes(3) [of "take n ws" "drop n ws"] by simp
  have none: "in_flight (drop n ws) = []" if e: "WireInputEnd \<in> set (take n ws)" and nf: "\<not> rn_finished r"
  proof -
    obtain e where "input_seq (in_peer_ended (rn_input r)) e ws"
      using tr nf by (auto simp: to_runner_ok_def)
    then obtain d where d: "input_seq (in_peer_ended (rn_input r)) d (take n ws)"
      "input_seq d e (drop n ws)"
      using input_seq_append [of _ _ "take n ws" "drop n ws"] by auto
    have "d" using d(1) e by (rule input_seq_end)
    with d(2) input_seq_after show ?thesis by simp
  qed
  have "input_flow p r (take n ws) given written"
    using f closed none unfolding in_flow_def input_flow_def unsent_def takes_input_def split
    by (intro conjI; (metis append.assoc append_Nil2 in_set_takeD)?)
  moreover have "input_end p r (take n ws) given written"
    using f by (auto simp: in_flow_def input_end_def dest: in_set_takeD)
  ultimately show ?thesis by (simp add: in_flow_def)
qed

lemma in_flow_peer_send:
  assumes f: "in_flow p r ws given written" and nd: "\<not> og_closed (pr_input p)"
    and m: "w \<noteq> WireInputEnd" "og_queue (pr_input p) = input_bytes_of w @ og_queue (pr_input q)"
      "og_closed (pr_input q) = og_closed (pr_input p)"
      "og_end_sent (pr_input q) = og_end_sent (pr_input p)"
      "input_bytes_of w \<noteq> [] \<Longrightarrow> \<not> og_end_sent (pr_input p)"
  shows "in_flow q r (ws @ [w]) given written"
proof -
  have "unsent q (ws @ [w]) rest" if "unsent p ws rest" for rest
    using that m nd by (simp add: unsent_def)
  moreover have "input_bytes_of w = []" if "WireInputEnd \<in> set ws"
    using f m(5) that by (auto simp: in_flow_def input_end_def)
  ultimately have "input_flow q r (ws @ [w]) given written"
    using f m(1) unfolding in_flow_def input_flow_def by auto
  moreover have "input_end q r (ws @ [w]) given written"
    using f m(1,4) by (auto simp: in_flow_def input_end_def)
  ultimately show ?thesis by (simp add: in_flow_def)
qed

lemma in_flow_end_sent:
  assumes f: "in_flow p r ws given written"
    and "\<not> og_closed (pr_input p)" "og_queue (pr_input p) = []"
    and q: "pr_input q = (pr_input p)\<lparr>og_end_sent := True\<rparr>"
  shows "in_flow q r (ws @ [WireInputEnd]) given written"
  using assms by (auto simp: in_flow_def input_flow_def input_end_def unsent_def)

lemma in_flow_next_message:
  assumes f: "in_flow p r ws given written" and inv: "peer_inv p"
    and m: "peer_next_message buffer p = (Some m, buffer', q)"
  shows "in_flow q r (ws @ [wire_of_peer buffer' m]) given written"
proof -
  have other: "in_flow q r (ws @ [w]) given written"
    if "pr_input q = pr_input p" "w \<noteq> WireInputEnd" "input_bytes_of w = []" for w
    using f that by (auto simp: in_flow_def input_flow_def input_end_def unsent_def)
  from m show ?thesis
  proof (cases rule: peer_next_message_Some)
    case (input p1)
    let ?n = "input_length buffer p"
    have q: "pr_input q = pr_input p1" using input(5) by simp
    have le: "?n \<le> length (og_queue (pr_input p))" using input_length_le [of buffer p] by simp
    show ?thesis
    proof (cases "0 < ?n")
      case True
      with le have "\<not> og_end_sent (pr_input p)"
        using peer_inv_outD [OF inv] by (auto simp: outgoing_ok_def)
      with True input(4) q le show ?thesis
        by (intro in_flow_peer_send [OF f])
          (auto simp: next_input_eq Let_def input_sent_def split: if_splits)
    next
      case False
      with input(4) q show ?thesis
        by (auto simp: next_input_eq Let_def split: if_splits intro!: in_flow_end_sent [OF f])
    qed
  next
    case cancel
    with other [of "wire_of_peer buffer' m"] show ?thesis by simp
  next
    case (credit i u v)
    with other [of "wire_of_peer buffer' m"] show ?thesis by simp
  qed
qed

text \<open>Messages that reach the runner.\<close>

lemma in_flow_taken:
  assumes f: "in_flow p r (w # ws) given written" and w: "w \<noteq> WireInputEnd"
    and q: "in_closed (rn_input q) = in_closed (rn_input r)" "rn_finished q = rn_finished r"
      "in_peer_ended (rn_input q) = in_peer_ended (rn_input r)"
      "in_close_requested (rn_input q) = in_close_requested (rn_input r)"
    and bytes: "in_bytes q = in_bytes r @ (if takes_input r then input_bytes_of w else [])"
    and ended: "takes_input r \<Longrightarrow> in_peer_ended (rn_input r) \<Longrightarrow> input_bytes_of w = []"
  shows "in_flow p q ws given written"
proof -
  have takes: "takes_input q = takes_input r" using q by (simp add: takes_input_def)
  have "input_flow p q ws given written"
    using f w bytes takes by (auto simp: in_flow_def input_flow_def unsent_def)
  moreover have "input_end p q ws given written"
    using f q bytes ended by (auto simp: in_flow_def input_end_def)
  ultimately show ?thesis by (simp add: in_flow_def)
qed

lemma in_flow_drop_wire:
  assumes f: "in_flow p r (w # ws) given written" and "\<not> takes_input r"
  shows "in_flow p r ws given written"
  using assms by (auto simp: in_flow_def input_flow_def input_end_def)

lemma in_flow_end_taken:
  assumes f: "in_flow p r (WireInputEnd # ws) given written"
    and nf: "\<not> rn_finished r" and seq: "input_seq True e ws"
    and q: "q = r\<lparr>rn_input := (rn_input r)\<lparr>in_peer_ended := True\<rparr>\<rparr>"
  shows "in_flow p (if in_closed (rn_input r) then q else close_input_when_taken q) ws given written"
proof -
  have [simp]: "in_bytes q = in_bytes r" "takes_input q = takes_input r"
    "in_peer_ended (rn_input q)" "in_closed (rn_input q) = in_closed (rn_input r)"
    "in_close_requested (rn_input q) = in_close_requested (rn_input r)"
    by (simp_all add: q in_bytes_def takes_input_def)
  have none: "in_flight ws = []" using seq by (rule input_seq_after)
  have all: "given = written @ in_bytes r" if "\<not> in_closed (rn_input r)"
    using f nf that none by (auto simp: in_flow_def input_flow_def takes_input_def)
  have fq: "in_flow p q ws given written"
    using f all none by (auto simp: in_flow_def input_flow_def input_end_def unsent_def)
  show ?thesis
  proof (cases "\<not> in_closed (rn_input r) \<and> inbox_is_empty (in_inbox (rn_input r))")
    case True
    with all have "given = written" by (simp add: in_bytes_def inbox_is_empty_def)
    with True fq show ?thesis
      by (auto simp: close_input_when_taken_def q Let_def in_flow_def input_flow_def input_end_def
          takes_input_def in_bytes_def inbox_is_empty_def)
  next
    case False
    with fq show ?thesis by (auto simp: close_input_when_taken_def q Let_def)
  qed
qed

lemma in_flow_to_runner:
  assumes c: "connected p r (w # ws) ms" and f: "in_flow p r (w # ws) given written"
    and res: "runner_receive now (pr_key p) w r = (rc, q)"
  shows "in_flow p q ws given written"
proof -
  note key = connectedD(4) [OF c] and tr = connectedD(9) [OF c]
  show ?thesis
  proof (cases w)
    case (WireCancel x)
    have "in_flow p r ws given written" using WireCancel by (intro in_flow_taken [OF f]) auto
    then show ?thesis
      using in_flow_quiet_runner [OF _ quiet_cancel, of p r ws given written now "pr_key p" x]
        res WireCancel by simp
  next
    case (WireCredit x n)
    with res show ?thesis
      by (intro in_flow_taken [OF f])
        (auto simp: runner_credit_def key in_bytes_def split: sum.splits if_splits)
  next
    case (WireInput bs)
    obtain rc' u where u: "runner_input r (rn_key r) bs = (Inr rc', u)"
      using connected_to_runner [of p r w ws ms now] c WireInput key by (cases "runner_input r (rn_key r) bs") auto
    with res key WireInput have "q = u" by simp
    with u WireInput show ?thesis
      by (intro in_flow_taken [OF f])
        (auto simp: runner_input_def Let_def in_bytes_def takes_input_def split: sum.splits if_splits)
  next
    case WireInputEnd
    show ?thesis
    proof (cases "rn_finished r")
      case True
      with res WireInputEnd key in_flow_drop_wire [OF f] show ?thesis
        by (auto simp: runner_end_input_def takes_input_def)
    next
      case False
      with tr WireInputEnd obtain e where e: "\<not> in_peer_ended (rn_input r)" "input_seq True e ws"
        by (auto simp: to_runner_ok_def)
      with in_flow_end_taken [OF _ False e(2) refl] f WireInputEnd res key False show ?thesis
        by (auto simp: runner_end_input_def Let_def split: if_splits)
    qed
  qed
qed

end
