(* ===== verification/Exec_Delivery.thy ===== *)
theory Exec_Delivery
  imports Exec_Flow_Input
begin

text \<open>
  The system as a whole, from the start of both sides: no side reports a violation of the other,
  and every byte arrives in order. The theorems speak of any sequence of actions, so of every way
  in which the calls of both adapters may interleave.
\<close>

section \<open>The peer's queue under the runner's messages\<close>

lemma keeps_queue_refl [simp]: "keeps_queue p p"
  by (simp add: keeps_queue_def)

lemma keeps_queue_trans: "keeps_queue p q \<Longrightarrow> keeps_queue q u \<Longrightarrow> keeps_queue p u"
  by (auto simp: keeps_queue_def)

lemma keeps_queue_to_peer:
  assumes c: "connected p r ws (m # ms)" and res: "peer_receive now (rn_key r) m p = (rc, q)"
  shows "keeps_queue p q"
proof (cases m)
  case (WireTerminal oc)
  let ?t = "peer_tick p now"
  note inv = connectedD(2) [OF c] and key = connectedD(4) [OF c]
  have t: "quiet_peer p ?t" by (rule quiet_peer_tick) (simp add: inv)
  show ?thesis
  proof (cases "ignores_runner ?t \<or> pr_terminal ?t \<noteq> None \<or> \<not> all2 inc_ended (pr_outputs ?t)")
    case True
    with res WireTerminal key keeps_queue_quiet [OF t] show ?thesis
      by (auto simp: peer_terminal_def Let_def split: if_splits)
  next
    case False
    with inv obtain v where "quiet_peer ?t v"
      "peer_terminal p now (pr_key p) oc = (Inr Applied, v\<lparr>pr_terminal := Some oc\<rparr>)"
      using peer_terminal_taken [OF inv refl] by blast
    with res WireTerminal key have "keeps_queue ?t q"
      using keeps_queue_quiet [of ?t v] by (auto simp: keeps_queue_def)
    with keeps_queue_quiet [OF t] show ?thesis by (rule keeps_queue_trans)
  qed
next
  case WireInputClosed
  then show ?thesis
    using res keeps_queue_quiet [OF quiet_peer_input_closed [OF connectedD(2) [OF c]], of "rn_key r"]
    by simp
next
  case (WireOutput s bs)
  have "pr_input (snd (peer_output p (rn_key r) s bs)) = pr_input p"
    unfolding peer_output_def
    by (rule admitted_inv) (simp_all add: Let_def window_free_def split: sum.split)
  with res WireOutput show ?thesis by (simp add: keeps_queue_same)
next
  case (WireInputCredit n)
  with res show ?thesis
    by (auto simp: peer_credit_def Let_def connectedD(4) [OF c] keeps_queue_def
        split: sum.splits if_splits)
next
  case WireStarted
  with res show ?thesis
    by (auto simp: peer_started_def connectedD(4) [OF c] split: if_splits intro!: keeps_queue_same)
next
  case (WireEnd s)
  with res show ?thesis
    by (auto simp: peer_end_output_def connectedD(4) [OF c] split: if_splits intro!: keeps_queue_same)
qed

lemma runner_send_input:
  assumes "runner_next_message buffer r = (m, buffer', q)" and turn: "rn_turn r < 2"
  shows "in_inbox (rn_input q) = in_inbox (rn_input r) \<and> in_closed (rn_input q) = in_closed (rn_input r) \<and>
    in_peer_ended (rn_input q) = in_peer_ended (rn_input r) \<and>
    in_close_requested (rn_input q) = in_close_requested (rn_input r) \<and>
    (rn_finished r \<longrightarrow> rn_finished q)"
proof (cases m)
  case None
  with assms show ?thesis using runner_next_message_None [of buffer r buffer' q] by simp
next
  case (Some m')
  with assms(1) have "runner_next_message buffer r = (Some m', buffer', q)" by simp
  from this turn show ?thesis
  proof (cases rule: runner_next_message_Some)
    case sent
    from sent(2) turn show ?thesis
    proof (cases rule: next_sent_Some)
      case (credit r1)
      then show ?thesis by (elim runner_next_credit_Some) (use sent(1) in simp)
    next
      case (other r1)
      from other(2) show ?thesis
        by (cases rule: next_other_Some) (use other(3) sent(1) in \<open>simp_all add: turn_sent_def Let_def\<close>)
    qed
  qed simp
qed

section \<open>The invariant of the system\<close>

definition delivers :: "system \<Rightarrow> bool" where
  "delivers y \<longleftrightarrow>
     system_ok y \<and> out_flows y \<and>
     in_flow (sy_peer y) (sy_runner y) (sy_to_runner y) (sy_given y) (sy_written y)"

lemma delivers_new: "delivers (system_new key l tp np tr nr)"
proof -
  have "out_of (runner_new key l tr nr) s = output_default"
    "inc_of (peer_new key l tp np) s = incoming_new l" for s
    by (cases s; simp add: runner_new_def peer_new_def out_of_def inc_of_def at2_def)+
  then show ?thesis
    using system_ok_new [of key l tp np tr nr]
    by (simp add: delivers_def out_flows_def out_flow_def flow_def undelivered_def outcome_flow_def
        discards_def finishes_def system_new_def in_flow_def input_flow_def input_end_def unsent_def
        bytes_of_def at2_def inc_bytes_def in_bytes_def output_default_def incoming_new_def inbox_new_def
        runner_new_def peer_new_def)
qed

lemma delivers_act:
  assumes "delivers y"
  shows "delivers (act a y)"
proof -
  let ?p = "sy_peer y" and ?r = "sy_runner y" and ?ws = "sy_to_runner y" and ?ms = "sy_to_peer y"
  have ok: "system_ok y" and f: "in_flow ?p ?r ?ws (sy_given y) (sy_written y)"
    using assms by (simp_all add: delivers_def)
  then have c: "connected ?p ?r ?ws ?ms" by (simp add: system_ok_def)
  then have turn: "rn_turn ?r < 2" using connectedD(1) by (auto simp: runner_inv_def)
  have "in_flow (sy_peer (act a y)) (sy_runner (act a y)) (sy_to_runner (act a y))
      (sy_given (act a y)) (sy_written (act a y))"
  proof (cases a)
    case (Workload w)
    with in_flow_quiet_runner [OF f quiet_workload] show ?thesis by simp
  next
    case (Caller w)
    with in_flow_peer [OF f keeps_queue_quiet [OF quiet_caller [OF connectedD(2,3) [OF c]]]]
    show ?thesis by simp
  next
    case (Read s bs)
    with f runner_output_fields [of ?r s bs] show ?thesis
      by (cases "runner_output ?r s bs") (auto intro: in_flow_runner_cong [OF f])
  next
    case (ReadDiscarded s bs)
    with f show ?thesis
      by (auto simp: Let_def discarded_def intro: in_flow_runner_cong [OF f])
  next
    case (WriteInput n)
    with in_flow_write [OF f, of n] show ?thesis
      by (cases "in_closed (rn_input ?r)") (simp_all add: in_bytes_def)
  next
    case (RunnerSend buffer)
    obtain m b q where m: "runner_next_message buffer ?r = (m, b, q)"
      by (cases "runner_next_message buffer ?r")
    have "in_flow ?p q ?ws (sy_given y) (sy_written y)"
      using runner_send_input [OF m turn] by (intro in_flow_runner_cong [OF f]) auto
    with m RunnerSend show ?thesis by (cases m) simp_all
  next
    case (ToRunner now)
    show ?thesis
    proof (cases ?ws)
      case (Cons w ws)
      with in_flow_to_runner [of ?p ?r w ws ?ms] c f ToRunner show ?thesis
        by (cases "runner_receive now (pr_key ?p) w ?r") simp
    qed (use f ToRunner in simp)
  next
    case (GiveInput bs)
    with in_flow_give [OF f connectedD(2) [OF c]] show ?thesis
      by (cases "peer_input ?p bs") simp
  next
    case (Sink s n)
    have "pr_input (consumed ?p s n) = pr_input ?p"
      by (simp add: consumed_def Let_def window_free_def split: prod.split)
    with Sink in_flow_peer [OF f keeps_queue_same] show ?thesis by simp
  next
    case (PeerSend buffer)
    then show ?thesis
      using in_flow_next_message [OF f connectedD(2) [OF c]] f
      by (cases "peer_next_message buffer ?p"; cases "fst (peer_next_message buffer ?p)")
        (auto dest: peer_next_message_None)
  next
    case (ToPeer now)
    show ?thesis
    proof (cases ?ms)
      case (Cons m ms)
      with in_flow_peer [OF f keeps_queue_to_peer [of ?p ?r ?ws m ms now]] c ToPeer show ?thesis
        by (cases "peer_receive now (rn_key ?r) m ?p") simp
    qed (use f ToPeer in simp)
  next
    case (LoseToRunner n)
    have "og_closed (pr_input ?p)" if "pr_detached ?p"
      using connectedD(3) [OF c] that by (simp add: ended_closed_def)
    with LoseToRunner f in_flow_lose [OF f _ connectedD(9) [OF c]] show ?thesis by simp
  qed (use f in simp)
  with assms system_ok_act [of y a] out_flows_act [of y a] show ?thesis
    by (simp add: delivers_def)
qed

interpretation delivery: transition_system system_initial system_step delivers
  by unfold_locales (auto simp: system_initial_def delivers_new delivers_act)

lemma system_run_delivers: "delivers (system_run as (system_new key l tp np tr nr))"
  by (rule delivery.invar_reachable [OF _ system_run_steps]) (unfold system_initial_def, blast)

section \<open>What the history says\<close>

lemma delivers_sunk:
  assumes "delivers y"
  shows "\<exists>rest. bytes_of (sy_read y) s = bytes_of (sy_sunk y) s @ rest"
  using assms by (auto simp: delivers_def out_flows_def out_flow_def flow_def)

lemma delivers_written:
  assumes "delivers y"
  shows "\<exists>rest. sy_given y = sy_written y @ rest"
  using assms by (auto simp: delivers_def in_flow_def input_flow_def)

lemma is_truncated_with_truncated [simp]:
  "is_truncated (with_truncated oc s) s' \<longleftrightarrow> s' = s \<or> is_truncated oc s'"
  by (cases s; cases s') (auto simp: is_truncated_def with_truncated_def at2_put2)

lemma peer_outcome_whole:
  assumes "peer_outcome p = Some oc" and "\<not> is_truncated oc s"
  obtains terminal where "pr_terminal p = Some terminal" "\<not> is_truncated terminal s"
    "\<not> inc_truncated (inc_of p s)" "inc_bytes p s = []"
proof -
  have empty: "inc_bytes p s = []"
    using assms(1) by (cases s) (auto simp: peer_outcome_def all2_def inc_bytes_def inc_of_def at2_def
        inbox_is_empty_def split: if_splits)
  obtain terminal where terminal: "pr_terminal p = Some terminal"
    using assms by (cases s) (auto simp: peer_outcome_def Let_def split: if_splits option.splits)
  moreover have "\<not> is_truncated terminal s \<and> \<not> inc_truncated (inc_of p s)"
    using assms terminal
    by (cases s) (auto simp: peer_outcome_def Let_def split: if_splits option.splits)
  ultimately show ?thesis using that empty by blast
qed

lemma next_event_finished:
  assumes "fst (next_event p) = Some (EventFinished oc)"
  shows "peer_outcome p = Some oc"
  using assms by (auto simp: next_event_def split: if_splits option.splits)

lemma delivers_whole:
  assumes "delivers y" and "fst (next_event (sy_peer y)) = Some (EventFinished oc)"
    and "\<not> is_truncated oc s"
  shows "bytes_of (sy_sunk y) s = bytes_of (sy_read y) s"
proof -
  from peer_outcome_whole [OF next_event_finished [OF assms(2)] assms(3)]
  obtain terminal where "pr_terminal (sy_peer y) = Some terminal" "\<not> is_truncated terminal s"
    "\<not> inc_truncated (inc_of (sy_peer y) s)" "inc_bytes (sy_peer y) s = []" .
  with assms(1) show ?thesis
    by (auto simp: delivers_def out_flows_def out_flow_def outcome_flow_def)
qed

lemma next_request_close:
  "fst (next_request r) = Some CloseInput \<Longrightarrow> in_close_requested (rn_input r)"
  by (auto simp: next_request_def split: if_splits option.splits)

lemma delivers_close:
  assumes "delivers y" and "fst (next_request (sy_runner y)) = Some CloseInput"
  shows "sy_written y = sy_given y"
  using assms next_request_close by (auto simp: delivers_def in_flow_def input_end_def)

section \<open>A run\<close>

text \<open>
  An execution that takes two bytes of input, writes three bytes to its standard output and exits,
  for the witnesses of the theorems that have hypotheses.
\<close>

definition demo_key :: exec_key where
  "demo_key = \<lparr>key_id = 1, key_generation = 2\<rparr>"

definition demo_limits :: limits where
  "demo_limits = \<lparr>lim_chunk = 4, lim_input = \<lparr>win_unit = UnitBytes, win_size = 8\<rparr>,
     lim_output = \<lparr>win_unit = UnitBytes, win_size = 8\<rparr>, lim_shared = False\<rparr>"

definition demo_input :: "action list" where
  "demo_input =
     (let buffer = [0, 0, 0, 0]
      in [PeerSend buffer, PeerSend buffer, ToRunner 0, ToRunner 0, RunnerSend buffer, ToPeer 0,
          Workload (Launched (Inr ())), GiveInput [7, 8], Caller EndInput,
          PeerSend buffer, PeerSend buffer, ToRunner 1, ToRunner 1, WriteInput 2])"

definition demo_output :: "action list" where
  "demo_output =
     (let buffer = [0, 0, 0, 0]
      in [Workload TakeRequest, Read Stdout [1, 2, 3],
          RunnerSend buffer, RunnerSend buffer, RunnerSend buffer,
          Workload (OutputClosed Stdout), Workload (OutputClosed Stderr),
          Workload (WorkloadExited 2 (Some (Exited 0))), Workload TakeRequest,
          Workload (WorkloadSettled SettlementSettled)] @
         replicate 5 (RunnerSend buffer) @ replicate 6 (ToPeer 3) @
         [Sink Stdout 2, Sink Stdout 1] @ replicate 3 (Caller TakeEvent))"

end
