(* ===== verification/Exec_Runner_Ends.thy ===== *)
theory Exec_Runner_Ends
  imports Exec_Runner_Inv
begin

text \<open>
  That every wait of the runner is bounded: once its execution was terminated, for whatever cause, and
  the grace and the settlement time have passed, a tick and a few retrievals of messages end it,
  whatever the workload, the peer and the transport did before and do in between.
\<close>

section \<open>Deadlines of a terminated execution\<close>

definition out_quiet :: "run_output \<Rightarrow> bool" where
  "out_quiet o1 \<longleftrightarrow> out_queue o1 = [] \<and> (out_closed o1 \<or> out_discarding o1)"

definition over :: "runner \<Rightarrow> bool" where
  "over r \<longleftrightarrow> rn_gave_up r \<or> is_cleaned_up r"

definition give_up_time :: "runner \<Rightarrow> instant \<Rightarrow> instant" where
  "give_up_time r t = t + tm_grace (rn_timers r) + tm_settlement (rn_timers r)"

definition bounded_wait :: "runner \<Rightarrow> bool" where
  "bounded_wait r \<longleftrightarrow>
     (rn_gave_up r \<longrightarrow> all2 out_closed (rn_outputs r) \<and> rn_exit r \<noteq> None \<and> rn_settling r = SettlingFenced) \<and>
     (\<forall>t. rn_terminated_at r = Some t \<longrightarrow> in_closed (rn_input r) \<and>
        (give_up_time r t < instant_limit \<longrightarrow>
           (rn_grace_until r = Some (t + tm_grace (rn_timers r)) \<or>
            rn_grace_until r = None \<and> all2 out_quiet (rn_outputs r)) \<and>
           (over r \<or> (\<exists>x. rn_give_up_at r = Some x \<and> x \<le> give_up_time r t))))"

text \<open>
  The steps that leave the deadlines alone: they undo nothing that a termination waits for, and add
  nothing to send.
\<close>

definition output_keeps :: "run_output \<Rightarrow> run_output \<Rightarrow> bool" where
  "output_keeps o1 o2 \<longleftrightarrow> (out_closed o1 \<longrightarrow> out_closed o2) \<and> (out_quiet o1 \<longrightarrow> out_quiet o2) \<and>
     (out_ended o1 \<longrightarrow> out_ended o2)"

definition keeps :: "runner \<Rightarrow> runner \<Rightarrow> bool" where
  "keeps r r' \<longleftrightarrow>
     rn_timers r' = rn_timers r \<and> rn_terminated_at r' = rn_terminated_at r \<and>
     rn_grace_until r' = rn_grace_until r \<and> rn_give_up_at r' = rn_give_up_at r \<and> rn_gave_up r' = rn_gave_up r \<and>
     (rn_launch r \<noteq> None \<longrightarrow> rn_launch r' = rn_launch r) \<and> (rn_exit r \<noteq> None \<longrightarrow> rn_exit r' = rn_exit r) \<and>
     (rn_settling r = SettlingSettled \<or> rn_settling r = SettlingFenced \<longrightarrow> rn_settling r' = rn_settling r) \<and>
     (in_closed (rn_input r) \<longrightarrow> in_closed (rn_input r') \<and>
        (in_closed_message (rn_input r') \<longrightarrow> in_closed_message (rn_input r))) \<and>
     (awaits_launch r \<or> (rn_started_message r' \<longrightarrow> rn_started_message r)) \<and>
     rn_detached r' = rn_detached r \<and>
     output_keeps (elem0 (rn_outputs r)) (elem0 (rn_outputs r')) \<and>
     output_keeps (elem1 (rn_outputs r)) (elem1 (rn_outputs r'))"

lemma output_keeps_refl [simp]: "output_keeps o1 o1"
  by (simp add: output_keeps_def)

lemma keeps_refl [simp]: "keeps r r"
  by (simp add: keeps_def)

lemma is_cleaned_up_keeps: "keeps r r' \<Longrightarrow> is_cleaned_up r \<Longrightarrow> is_cleaned_up r'"
  by (auto simp: keeps_def is_cleaned_up_def all2_def output_keeps_def)

lemma over_keeps: "keeps r r' \<Longrightarrow> over r \<Longrightarrow> over r'"
  using is_cleaned_up_keeps by (auto simp: over_def keeps_def)

lemma keepsD:
  assumes "keeps r r'"
  shows "rn_timers r' = rn_timers r" "rn_terminated_at r' = rn_terminated_at r" "rn_grace_until r' = rn_grace_until r"
    "rn_give_up_at r' = rn_give_up_at r" "rn_gave_up r' = rn_gave_up r" "rn_detached r' = rn_detached r"
    "rn_exit r \<noteq> None \<Longrightarrow> rn_exit r' \<noteq> None" "in_closed (rn_input r) \<Longrightarrow> in_closed (rn_input r')"
    "rn_settling r = SettlingFenced \<Longrightarrow> rn_settling r' = SettlingFenced"
    "all2 out_closed (rn_outputs r) \<Longrightarrow> all2 out_closed (rn_outputs r')"
    "all2 out_quiet (rn_outputs r) \<Longrightarrow> all2 out_quiet (rn_outputs r')"
    "give_up_time r' = give_up_time r"
  using assms by (simp_all add: keeps_def all2_def output_keeps_def give_up_time_def fun_eq_iff)

lemma bounded_wait_keeps:
  assumes "keeps r r'" and b: "bounded_wait r"
  shows "bounded_wait r'"
proof -
  note k = keepsD [OF assms(1)] over_keeps [OF assms(1)]
  show ?thesis
    using b k(7-11,13) unfolding bounded_wait_def k(1-5,12) by blast
qed

section \<open>Calls\<close>

lemma keeps_credit: "keeps r (snd (runner_credit r key p n))"
  by (auto simp: runner_credit_def admitted_def keeps_def split: sum.splits)

lemma keeps_input: "keeps r (snd (runner_input r key bs))"
  by (auto simp: runner_input_def admitted_def keeps_def Let_def split: sum.splits)

lemma keeps_close_input_when_taken: "keeps r (close_input_when_taken r)"
  by (auto simp: close_input_when_taken_def keeps_def Let_def)

lemma keeps_close_input: "keeps r (runner_close_input r)"
  by (auto simp: runner_close_input_def keeps_def Let_def)

lemma keeps_trans: "keeps r r1 \<Longrightarrow> keeps r1 r2 \<Longrightarrow> awaits_launch r = awaits_launch r1 \<Longrightarrow> keeps r r2"
  by (auto simp: keeps_def output_keeps_def)

lemma keeps_end_input: "keeps r (snd (runner_end_input r key))"
  by (auto simp: runner_end_input_def admitted_def keeps_def close_input_when_taken_def Let_def split: sum.splits)

lemma keeps_launched: "keeps r (runner_launched r res)"
  by (auto simp: runner_launched_def keeps_def runner_close_input_def awaits_launch_def Let_def split: sum.splits)

lemma keeps_set_out: "output_keeps (out_of r s) o1 \<Longrightarrow> keeps r (set_out r s o1)"
  by (cases s) (auto simp: keeps_def set_out_def out_of_def at2_def awaits_launch_def)

lemma keeps_note: "keeps r r' \<Longrightarrow> keeps r (runner_note_buffered r')"
  by (simp add: keeps_def)

lemma keeps_output: "keeps r (snd (runner_output r s bs))"
  by (auto simp: runner_output_def Let_def output_keeps_def out_quiet_def intro!: keeps_set_out keeps_note)

lemma keeps_flags:
  "keeps r (discarded r s n)" "keeps r (output_closed r s)" "keeps r (output_failed r s)" "keeps r (output_hung_up r s)"
  by (auto simp: discarded_def output_closed_def output_failed_def output_hung_up_def output_keeps_def out_quiet_def
      Let_def intro!: keeps_set_out)

lemma keeps_input_written: "keeps r (input_written r n)"
  by (auto simp: input_written_def keeps_def close_input_when_taken_def Let_def split: prod.splits)

lemma keeps_settled: "keeps r (settled r res)"
  by (auto simp: settled_def keeps_def split: settling.splits)

lemma keeps_next_request: "keeps r (snd (next_request r))"
  by (auto simp: next_request_def output_keeps_def out_quiet_def split: option.splits intro!: keeps_set_out)
    (auto simp: keeps_def)

lemma keeps_turn_sent: "keeps r (turn_sent n (r\<lparr>rn_turn := t\<rparr>))"
proof -
  have "output_keeps (out_of r s) ((out_of r s)\<lparr>out_queue := drop n (out_queue (out_of r s))\<rparr>)" for s
    by (simp add: output_keeps_def out_quiet_def)
  from keeps_set_out [OF this] show ?thesis
    by (simp add: turn_sent_def keeps_def Let_def out_of_def set_out_def awaits_launch_def)
qed

lemma keeps_next_message:
  assumes "rn_turn r < 2"
  shows "keeps r (snd (snd (runner_next_message buffer r)))"
proof (cases "runner_next_message buffer r")
  case (fields m b r')
  have "keeps r r'"
  proof (cases m)
    case None
    then show ?thesis using runner_next_message_None [of buffer r b r'] fields assms by simp
  next
    case (Some m1)
    have c: "keeps r r1 \<Longrightarrow> keeps r (r1\<lparr>rn_credited := x\<rparr>)" for r1 x by (simp add: keeps_def)
    have o: "keeps r r1" if "next_other buffer r = (Some m1, b, r1)" for r1
      using that
      by (cases rule: next_other_Some)
        (auto simp: keeps_turn_sent output_keeps_def out_quiet_def intro!: keeps_set_out, auto simp: keeps_def)
    have i: "keeps r r1" if "runner_next_credit buffer r = (Some m1, b, r1)" for r1
      using that by (cases rule: runner_next_credit_Some) (simp add: keeps_def)
    from fields [unfolded Some] assms show ?thesis
      by (cases rule: runner_next_message_Some)
        (auto elim!: next_sent_Some [OF _ assms] intro!: c dest: o i simp: keeps_def [of r "r\<lparr>rn_finished := True\<rparr>"])
  qed
  with fields show ?thesis by simp
qed

section \<open>Timers\<close>

lemma quiet_after_grace: "out_quiet (end_grace_output o1)"
  by (simp add: end_grace_output_def drop_queue_def out_quiet_def Let_def)

lemma closed_end_grace [simp]: "out_closed (end_grace_output o1) = out_closed o1" "out_ended (end_grace_output o1) = out_ended o1"
  by (simp_all add: end_grace_output_def drop_queue_def Let_def)

lemma closed_give_up [simp]: "out_closed (give_up_output o1)" "out_ended (give_up_output o1) = out_ended o1"
  "out_queue (give_up_output o1) = []"
  by (simp_all add: give_up_output_def drop_queue_def Let_def)

lemma bounded_end_grace: "bounded_wait r \<Longrightarrow> bounded_wait (runner_end_grace r)"
  by (auto simp: bounded_wait_def runner_end_grace_def give_up_time_def over_def is_cleaned_up_def quiet_after_grace all2_def)

lemma bounded_terminate:
  assumes "bounded_wait r"
  shows "bounded_wait (runner_terminate r now c)"
proof (cases "rn_terminated_at r")
  case None
  let ?g = "tm_grace (rn_timers r)" and ?s = "tm_settlement (rn_timers r)"
  define r1 where "r1 = (let r = r\<lparr>rn_terminated_at := Some now, rn_timeout_at := None\<rparr>;
      r = (if rn_exit r = None then r\<lparr>rn_cause := Some c, rn_terminate_request := Some c\<rparr> else r);
      r = runner_close_input r; r = r\<lparr>rn_grace_until := after now ?g\<rparr>
    in r\<lparr>rn_give_up_at := Option.bind (rn_grace_until r) (\<lambda>grace. after grace ?s)\<rparr>)"
  have f: "rn_terminated_at r1 = Some now" "rn_timers r1 = rn_timers r" "rn_grace_until r1 = after now ?g"
    "rn_give_up_at r1 = Option.bind (after now ?g) (\<lambda>grace. after grace ?s)" "rn_gave_up r1 = rn_gave_up r"
    "rn_outputs r1 = rn_outputs r" "rn_exit r1 = rn_exit r" "rn_settling r1 = rn_settling r" "in_closed (rn_input r1)"
    by (simp_all add: r1_def Let_def) (simp add: runner_close_input_def Let_def)
  have "bounded_wait r1"
    using assms by (auto simp: bounded_wait_def f give_up_time_def after_def checked_add_instant_def)
  moreover have "runner_terminate r now c = (if passed now (rn_grace_until r1) then runner_end_grace r1 else r1)"
    using None by (simp add: runner_terminate_def r1_def Let_def)
  ultimately show ?thesis by (simp add: bounded_end_grace)
qed (simp add: assms runner_terminate_def)

lemma bounded_give_up: "bounded_wait r \<Longrightarrow> bounded_wait (runner_give_up r)"
  by (auto simp: bounded_wait_def runner_give_up_def give_up_time_def over_def all2_def out_quiet_def Let_def)

lemma bounded_upd:
  "bounded_wait (r\<lparr>rn_timeout_at := x\<rparr>) = bounded_wait r"
  "is_cleaned_up r \<Longrightarrow> bounded_wait r \<Longrightarrow> bounded_wait (r\<lparr>rn_give_up_at := y\<rparr>)"
  by (auto simp: bounded_wait_def give_up_time_def over_def is_cleaned_up_def)

lemma keeps_fire_settlement: "keeps r (fire_settlement now r)"
  by (auto simp: fire_settlement_def keeps_def split: settling.splits)

lemma bounded_fire_abandon: "bounded_wait r \<Longrightarrow> bounded_wait (fire_abandon now r)"
proof -
  assume b: "bounded_wait r"
  define r1 where "r1 = (if awaits_launch r then abandon_launch r else r)"
  have "bounded_wait r1"
    using b by (auto simp: r1_def bounded_wait_def abandon_launch_def give_up_time_def over_def is_cleaned_up_def awaits_launch_def)
  moreover have "keeps r1 (abandon_open_streams r1)"
    by (simp add: keeps_def abandon_open_streams_def abandon_output_def output_keeps_def out_quiet_def awaits_launch_def)
  ultimately show "bounded_wait (fire_abandon now r)"
    using b bounded_wait_keeps by (auto simp: fire_abandon_def r1_def Let_def)
qed

lemma bounded_fires:
  assumes "bounded_wait r"
  shows "bounded_wait (fire_timeout now r)" "bounded_wait (fire_grace now r)" "bounded_wait (fire_settlement now r)"
    "bounded_wait (fire_give_up now r)"
  using assms bounded_wait_keeps [OF keeps_fire_settlement]
  by (simp_all add: fire_timeout_def fire_grace_def fire_give_up_def bounded_terminate bounded_upd bounded_end_grace bounded_give_up)

lemma bounded_tick: "bounded_wait r \<Longrightarrow> bounded_wait (runner_tick r now)"
  by (simp add: runner_tick_def bounded_fires bounded_fire_abandon)

lemma bounded_detach: "bounded_wait r \<Longrightarrow> bounded_wait (runner_detach r now c)"
proof -
  assume b: "bounded_wait r"
  define r1 where "r1 = runner_terminate (runner_tick r now) now c"
  define r2 where "r2 = runner_end_grace (r1\<lparr>rn_detached := True, rn_started_message := False,
    rn_input := (rn_input r1)\<lparr>in_closed_message := False\<rparr>\<rparr>)"
  have "bounded_wait r1" unfolding r1_def by (intro bounded_terminate bounded_tick b)
  then have "bounded_wait (r1\<lparr>rn_detached := True, rn_started_message := False,
      rn_input := (rn_input r1)\<lparr>in_closed_message := False\<rparr>\<rparr>)"
    by (auto simp: bounded_wait_def give_up_time_def over_def is_cleaned_up_def)
  then have b2: "bounded_wait r2" unfolding r2_def by (rule bounded_end_grace)
  have "bounded_wait (r2\<lparr>rn_give_up_at := earliest (rn_give_up_at r2) x\<rparr>)" for x
  proof -
    have "\<exists>z. earliest (Some y) x = Some z \<and> z \<le> y" for y by (cases x) (simp_all add: earliest_def)
    then have "\<exists>z. earliest (rn_give_up_at r2) x = Some z \<and> z \<le> n" if "rn_give_up_at r2 = Some y" "y \<le> n" for y n
      using that by (metis order_trans)
    then have d: "over r2 \<or> (\<exists>y. rn_give_up_at r2 = Some y \<and> y \<le> n) \<Longrightarrow>
        over r2 \<or> (\<exists>z. earliest (rn_give_up_at r2) x = Some z \<and> z \<le> n)" for n
      by blast
    have o: "over (r2\<lparr>rn_give_up_at := u\<rparr>) = over r2" "give_up_time (r2\<lparr>rn_give_up_at := u\<rparr>) = give_up_time r2" for u
      by (simp_all add: over_def is_cleaned_up_def give_up_time_def fun_eq_iff)
    show ?thesis
      using b2 d unfolding bounded_wait_def o by simp
  qed
  then show "bounded_wait (runner_detach r now c)"
    using bounded_tick [OF b] by (simp add: runner_detach_def r2_def r1_def Let_def)
qed

lemma bounded_cancel: "bounded_wait r \<Longrightarrow> bounded_wait (snd (runner_cancel r now key c))"
  by (auto simp: runner_cancel_def admitted_def Let_def bounded_tick bounded_terminate split: sum.splits)

lemma bounded_exited: "bounded_wait r \<Longrightarrow> bounded_wait (exited r now st)"
proof -
  assume "bounded_wait r"
  then have b: "bounded_wait (runner_tick (r\<lparr>rn_timeout_at := None\<rparr>) now)"
    by (simp add: bounded_tick bounded_upd)
  have "bounded_wait (let r = runner_close_input (r1\<lparr>rn_exit := Some st\<rparr>)
      in r\<lparr>rn_settle_request := True, rn_settling := SettlingRequested x, rn_abandon_at := y\<rparr>)"
    if "bounded_wait r1" "rn_exit r1 = None" "\<not> rn_gave_up r1" for r1 x y
    using that
    by (auto simp: bounded_wait_def give_up_time_def over_def is_cleaned_up_def runner_close_input_def Let_def)
  from this [OF b] show "bounded_wait (exited r now st)"
    using b by (simp add: exited_def Let_def)
qed

lemma bounded_apply:
  assumes "runner_inv r" and "bounded_wait r"
  shows "bounded_wait (runner_apply c r)"
proof -
  note k = bounded_wait_keeps [OF _ assms(2)]
  have "rn_turn r < 2" using assms(1) by (simp add: runner_inv_def)
  note n = k [OF keeps_next_message [OF this]]
  show ?thesis
    by (cases c)
      (simp_all add: assms(2) n k keeps_credit keeps_input keeps_end_input keeps_launched keeps_output keeps_flags
        keeps_input_written keeps_settled keeps_next_request runner_input_closed_def keeps_close_input bounded_tick
        bounded_cancel bounded_exited runner_dropped_def runner_reset_def runner_disconnect_def bounded_detach)
qed

lemma bounded_run: "bounded_wait (runner_run calls (runner_new key l t now))"
proof (induction calls rule: rev_induct)
  case Nil
  then show ?case by (simp add: runner_run_def bounded_wait_def runner_new_def)
next
  case (snoc c calls)
  then show ?case using bounded_apply [OF runner_run_inv] by (simp add: runner_run_def)
qed

section \<open>The end\<close>

text \<open>
  A runner that waits for nothing but the retrieval of its last messages: its cleanup is complete or it
  gave up, and it holds no byte of its streams.
\<close>

definition winding :: "runner \<Rightarrow> bool" where
  "winding r \<longleftrightarrow> over r \<and> bounded_wait r \<and> rn_terminated_at r \<noteq> None \<and> in_closed (rn_input r) \<and>
     all2 (\<lambda>o1. out_closed o1 \<and> out_quiet o1) (rn_outputs r)"

definition to_send :: "runner \<Rightarrow> nat" where
  "to_send r = (if rn_detached r then 0
     else of_bool (rn_started_message r) + of_bool (in_closed_message (rn_input r)) +
       of_bool (\<not> out_ended (elem0 (rn_outputs r))) + of_bool (\<not> out_ended (elem1 (rn_outputs r))))"

lemma over_facts:
  assumes "over r" and "bounded_wait r"
  shows "\<not> awaits_launch r" "rn_exit r \<noteq> None" "rn_settling r = SettlingSettled \<or> rn_settling r = SettlingFenced"
  using assms by (auto simp: over_def is_cleaned_up_def awaits_launch_def bounded_wait_def)

lemma winding_keeps:
  assumes k: "keeps r r'" and w: "winding r"
  shows "winding r'" "to_send r' \<le> to_send r"
proof -
  have a: "\<not> awaits_launch r" using w over_facts(1) by (simp add: winding_def)
  show "winding r'"
    using w over_keeps [OF k] bounded_wait_keeps [OF k] k
    by (simp add: winding_def keeps_def all2_def output_keeps_def)
  show "to_send r' \<le> to_send r"
    using w k a by (auto simp: winding_def keeps_def output_keeps_def to_send_def)
qed

lemma over_closed: "over r \<Longrightarrow> bounded_wait r \<Longrightarrow> all2 out_closed (rn_outputs r)"
  by (auto simp: over_def is_cleaned_up_def bounded_wait_def)

lemma keeps_abandon: "keeps r (abandon_open_streams r)"
  by (simp add: keeps_def abandon_open_streams_def abandon_output_def output_keeps_def out_quiet_def awaits_launch_def)

lemma over_after_give_up:
  assumes b: "bounded_wait r" and t: "rn_terminated_at r = Some t" and l: "give_up_time r t < instant_limit"
    and n: "give_up_time r t \<le> now" and q: "all2 out_quiet (rn_outputs r)"
  shows "over (fire_give_up now r)" "all2 out_quiet (rn_outputs (fire_give_up now r))"
    "rn_terminated_at (fire_give_up now r) = Some t"
proof -
  have "over r \<or> passed now (rn_give_up_at r)" using b t l n by (fastforce simp: bounded_wait_def)
  then show "over (fire_give_up now r)"
    by (auto simp: fire_give_up_def over_def is_cleaned_up_def runner_give_up_def Let_def)
  show "all2 out_quiet (rn_outputs (fire_give_up now r))"
    using q by (simp add: fire_give_up_def runner_give_up_def Let_def all2_def out_quiet_def)
  show "rn_terminated_at (fire_give_up now r) = Some t"
    using t by (simp add: fire_give_up_def runner_give_up_def Let_def)
qed

lemma winding_after_deadline:
  assumes b: "bounded_wait r" and t: "rn_terminated_at r = Some t" and l: "give_up_time r t < instant_limit"
    and n: "give_up_time r t \<le> now" and f: "\<not> rn_finished r"
  shows "winding (runner_tick r now)"
proof -
  define r1 where "r1 = fire_timeout now r"
  define r2 where "r2 = fire_grace now r1"
  define r3 where "r3 = fire_settlement now r2"
  define r4 where "r4 = fire_give_up now r3"
  have r1: "r1 = r \<or> r1 = r\<lparr>rn_timeout_at := None\<rparr>" using t by (simp add: r1_def fire_timeout_def runner_terminate_def)
  have b1: "bounded_wait r1" unfolding r1_def by (rule bounded_fires [OF b])
  have f1: "rn_terminated_at r1 = Some t" "rn_timers r1 = rn_timers r" using r1 t by auto
  have b2: "bounded_wait r2" unfolding r2_def by (rule bounded_fires [OF b1])
  have f2: "rn_terminated_at r2 = Some t" "rn_timers r2 = rn_timers r" using f1 by (simp_all add: r2_def fire_grace_def)
  have g: "give_up_time r' t = give_up_time r t" if "rn_timers r' = rn_timers r" for r' using that by (simp add: give_up_time_def)
  have "passed now (rn_grace_until r1) \<or> all2 out_quiet (rn_outputs r1)"
    using b1 f1 l n g [OF f1(2)] by (auto simp: bounded_wait_def give_up_time_def)
  then have q2: "all2 out_quiet (rn_outputs r2)"
    by (auto simp: r2_def fire_grace_def runner_end_grace_def quiet_after_grace all2_def)
  have k3: "keeps r2 r3" unfolding r3_def by (rule keeps_fire_settlement)
  have b3: "bounded_wait r3" by (rule bounded_wait_keeps [OF k3 b2])
  note f3 = keepsD(1,2,11) [OF k3]
  have r4: "over r4" "all2 out_quiet (rn_outputs r4)" "rn_terminated_at r4 = Some t"
    unfolding r4_def using over_after_give_up [OF b3, of t now] f2 f3 q2 g [of r3] l n by simp_all
  have b4: "bounded_wait r4" unfolding r4_def by (rule bounded_fires [OF b3])
  then have "in_closed (rn_input r4)" using r4(3) by (simp add: bounded_wait_def)
  then have w: "winding r4"
    using r4 b4 over_closed [OF r4(1) b4] by (simp add: winding_def all2_def)
  have "keeps r4 (fire_abandon now r4)"
    using over_facts(1) [OF r4(1) b4] keeps_abandon by (simp add: fire_abandon_def Let_def)
  from winding_keeps(1) [OF this w] show ?thesis
    using f by (simp add: runner_tick_def r4_def r3_def r2_def r1_def)
qed

definition winds :: "runner \<Rightarrow> runner \<Rightarrow> bool" where
  "winds r r' \<longleftrightarrow> winding r' \<and> to_send r' \<le> to_send r \<and> (rn_finished r \<longrightarrow> rn_finished r')"

lemma winds_refl: "winding r \<Longrightarrow> winds r r"
  by (simp add: winds_def)

lemma winds_trans: "winds r r1 \<Longrightarrow> winds r1 r2 \<Longrightarrow> winds r r2"
  by (auto simp: winds_def)

lemma winds_keeps: "winding r \<Longrightarrow> keeps r r' \<Longrightarrow> rn_finished r' = rn_finished r \<Longrightarrow> winds r r'"
  using winding_keeps by (simp add: winds_def)

lemma windingD: "winds r r' \<Longrightarrow> winding r'"
  by (simp add: winds_def)

lemma winds_fires:
  assumes w: "winding r"
  shows "winds r (fire_timeout now r)" "winds r (fire_grace now r)" "winds r (fire_settlement now r)"
    "winds r (fire_give_up now r)" "winds r (fire_abandon now r)"
proof -
  have b: "bounded_wait r" and o: "over r" using w by (simp_all add: winding_def)
  show "winds r (fire_timeout now r)"
    using w b by (auto simp: winds_def winding_def to_send_def fire_timeout_def runner_terminate_def bounded_upd over_def
        is_cleaned_up_def)
  have "bounded_wait (runner_end_grace r)" by (rule bounded_end_grace [OF b])
  then show "winds r (fire_grace now r)"
    using w by (auto simp: winds_def winding_def to_send_def fire_grace_def runner_end_grace_def quiet_after_grace over_def
        is_cleaned_up_def all2_def)
  show "winds r (fire_settlement now r)" using w by (simp add: winds_keeps keeps_fire_settlement)
  have "bounded_wait (runner_give_up r)" by (rule bounded_give_up [OF b])
  then show "winds r (fire_give_up now r)"
    using w bounded_upd(2) [of r None]
    by (auto simp: winds_def winding_def to_send_def fire_give_up_def runner_give_up_def over_def is_cleaned_up_def all2_def
        out_quiet_def Let_def)
  show "winds r (fire_abandon now r)"
    using w over_facts(1) [OF o b] keeps_abandon by (simp add: winds_keeps fire_abandon_def Let_def)
qed

lemma winds_then_fires:
  assumes "winds r r1"
  shows "winds r (fire_timeout now r1)" "winds r (fire_grace now r1)" "winds r (fire_settlement now r1)"
    "winds r (fire_give_up now r1)" "winds r (fire_abandon now r1)"
  using assms winds_fires [OF windingD [OF assms]] by (blast intro: winds_trans)+

lemma winds_tick: "winding r \<Longrightarrow> winds r (runner_tick r now)"
  by (simp add: runner_tick_def winds_then_fires winds_refl)

lemma winds_upd: "winding r \<Longrightarrow> winds r (r\<lparr>rn_timeout_at := x\<rparr>)"
  by (auto simp: winds_def winding_def to_send_def bounded_upd over_def is_cleaned_up_def)

lemma winds_detach: "winding r \<Longrightarrow> winds r (runner_detach r now c)"
proof -
  assume "winding r"
  then have w: "winds r (runner_tick r now)" by (rule winds_tick)
  have b: "bounded_wait (runner_detach r now c)"
    using \<open>winding r\<close> by (intro bounded_detach) (simp add: winding_def)
  have "winding (runner_tick r now)" by (rule windingD [OF w])
  then have "winds (runner_tick r now) (runner_detach r now c)"
    using b by (auto simp: winds_def winding_def to_send_def runner_detach_def runner_terminate_def runner_end_grace_def
        quiet_after_grace over_def is_cleaned_up_def all2_def Let_def)
  with w show ?thesis by (rule winds_trans)
qed

lemma winds_cancel: "winding r \<Longrightarrow> winds r (snd (runner_cancel r now key c))"
proof -
  assume w: "winding r"
  have "rn_terminated_at (runner_tick r now) \<noteq> None"
    using windingD [OF winds_tick [OF w]] by (simp add: winding_def)
  then have "snd (runner_cancel r now key c) =
      (case key_admits (rn_key r) key of Inr True \<Rightarrow> runner_tick r now | _ \<Rightarrow> r)"
    unfolding runner_cancel_def admitted_def Let_def by (simp split: sum.split)
  with winds_tick [OF w] winds_refl [OF w] show ?thesis by (simp split: sum.split bool.split)
qed

lemma winds_exited:
  assumes w: "winding r"
  shows "winds r (exited r now st)"
proof -
  define r1 where "r1 = runner_tick (r\<lparr>rn_timeout_at := None\<rparr>) now"
  have u: "winds r (r\<lparr>rn_timeout_at := None\<rparr>)" by (rule winds_upd [OF w])
  have t: "winds r r1" unfolding r1_def by (rule winds_trans [OF u winds_tick [OF windingD [OF u]]])
  then have "rn_exit r1 \<noteq> None" using over_facts(2) [of r1] by (simp add: winds_def winding_def)
  then have "exited r now st = r1" unfolding exited_def Let_def r1_def by simp
  with t show ?thesis by simp
qed

text \<open>A retrieval of a message sends one of the last messages, or the terminal outcome.\<close>

lemma winding_outcome:
  assumes "winding r" and "to_send r = 0"
  shows "runner_outcome r \<noteq> None"
proof -
  have "over r" "bounded_wait r" using assms(1) by (simp_all add: winding_def)
  note o = over_facts [OF this]
  have "all2 (\<lambda>o1. is_done o1 \<and> (out_ended o1 \<or> rn_detached r)) (rn_outputs r)"
    using assms by (auto simp: winding_def to_send_def all2_def is_done_def out_quiet_def split: if_splits)
  then show ?thesis using o by (auto simp: runner_outcome_def Let_def split: settling.splits)
qed

lemma next_output_quiet:
  assumes "all2 out_quiet (rn_outputs r)" and "rn_turn r < 2"
  shows "next_output buffer r = (None, buffer, r)"
proof -
  have q: "out_queue (out_of r1 s) = []" if "rn_outputs r1 = rn_outputs r" for s r1
    using assms(1) that by (cases s) (simp_all add: all2_def out_quiet_def out_of_def at2_def)
  have z: "credit_sendable c 0 = 0" for c by (simp add: credit_sendable_def split: credit_unit.split)
  have t: "next_output_turn buffer r1 = (None, buffer, r1\<lparr>rn_turn := 1 - rn_turn r1\<rparr>)"
    if "rn_outputs r1 = rn_outputs r" for r1
    using that by (simp add: next_output_turn_def q z Let_def)
  have "Suc 0 - (Suc 0 - rn_turn r) = rn_turn r" using assms(2) by linarith
  then show ?thesis by (simp add: next_output_def t or_next_def)
qed

lemma winding_sent:
  assumes w: "winding r" and t: "rn_turn r < 2"
  shows "next_sent buffer r = (if rn_detached r then (None, buffer, r) else noting_credited False (next_other buffer r))"
    "fst (next_other buffer r) = None \<Longrightarrow> next_other buffer r = (None, buffer, r)"
proof -
  have c: "runner_next_credit buffer1 r1 = (None, buffer1, r1)" if "in_closed (rn_input r1)" for buffer1 r1
    using that by (simp add: runner_next_credit_def input_accepts_def)
  have q: "next_output buffer r = (None, buffer, r)"
    using w by (intro next_output_quiet [OF _ t]) (simp add: winding_def all2_def)
  show n: "fst (next_other buffer r) = None \<Longrightarrow> next_other buffer r = (None, buffer, r)"
    using next_other_None [OF _ t] by (cases "next_other buffer r") fastforce
  have i: "in_closed (rn_input r)" using w by (simp add: winding_def)
  show "next_sent buffer r =
      (if rn_detached r then (None, buffer, r) else noting_credited False (next_other buffer r))"
    using n c [OF i]
    by (cases "next_other buffer r"; cases "fst (next_other buffer r)")
      (simp_all add: next_sent_def or_next_def noting_credited_def)
qed

lemma winding_other:
  assumes w: "winding r" and d: "\<not> rn_detached r" and t: "rn_turn r < 2"
    and m: "next_other buffer r = (m, buffer1, r1)"
  shows "if m = None then to_send r = 0 else to_send (r1\<lparr>rn_credited := False\<rparr>) < to_send r"
proof -
  have a: "\<not> awaits_launch r" using w over_facts(1) by (simp add: winding_def)
  have ended: "is_done (out_of r Stdout)" "is_done (out_of r Stderr)"
    using w by (simp_all add: winding_def all2_def is_done_def out_quiet_def out_of_def at2_def)
  have q: "next_output buffer r = (None, buffer, r)"
    using w by (intro next_output_quiet [OF _ t]) (simp add: winding_def all2_def)
  show ?thesis
    using m a ended d unfolding next_other_def q
    by (auto simp: to_send_def out_of_def at2_def set_out_def put2_def split: if_splits)
qed

lemma winding_sends:
  assumes w: "winding r" and f: "\<not> rn_finished r" and t: "rn_turn r < 2"
  shows "rn_finished (snd (snd (runner_next_message buffer r))) \<or>
    to_send (snd (snd (runner_next_message buffer r))) < to_send r"
proof -
  obtain m b r1 where n: "next_other buffer r = (m, b, r1)" by (cases "next_other buffer r")
  have end_of: ?thesis if "to_send r = 0" "next_sent buffer r = (None, buffer, r)"
    using winding_outcome [OF w that(1)] that(2) f by (auto simp: runner_next_message_def or_next_def)
  consider "rn_detached r" | "\<not> rn_detached r" "m = None" | m1 where "\<not> rn_detached r" "m = Some m1" by (cases m) auto
  then show ?thesis
  proof cases
    case 1
    then show ?thesis using winding_sent(1) [OF w t] by (intro end_of) (simp_all add: to_send_def)
  next
    case 2
    with winding_other [OF w 2(1) t n] winding_sent [OF w t, of buffer] n
    show ?thesis by (intro end_of) (simp_all add: noting_credited_def)
  next
    case 3
    with winding_other [OF w 3(1) t n] winding_sent(1) [OF w t, of buffer] n f
    show ?thesis by (simp add: noting_credited_def runner_next_message_def or_next_def)
  qed
qed

section \<open>Every later call\<close>

lemma finished_call:
  "rn_finished (snd (runner_credit r key p n)) = rn_finished r" "rn_finished (snd (runner_input r key bs)) = rn_finished r"
  "rn_finished (snd (runner_end_input r key)) = rn_finished r" "rn_finished (runner_launched r res) = rn_finished r"
  "rn_finished (snd (runner_output r s bs)) = rn_finished r" "rn_finished (discarded r s k) = rn_finished r"
  "rn_finished (output_closed r s) = rn_finished r" "rn_finished (output_failed r s) = rn_finished r"
  "rn_finished (output_hung_up r s) = rn_finished r" "rn_finished (input_written r k) = rn_finished r"
  "rn_finished (settled r st) = rn_finished r" "rn_finished (snd (next_request r)) = rn_finished r"
  "rn_finished (snd (runner_cancel r now key c)) = rn_finished r" "rn_finished (exited r now ex) = rn_finished r"
  by (simp_all add: runner_credit_def runner_input_def runner_end_input_def admitted_def Let_def runner_launched_def
      runner_output_def discarded_def output_closed_def output_failed_def output_hung_up_def set_out_def
      input_written_def settled_def next_request_def runner_cancel_def exited_def
      split: sum.split option.split settling.split prod.split)

lemma finished_apply: "rn_finished r \<Longrightarrow> rn_finished (runner_apply c r)"
  by (cases c)
    (simp_all add: finished_call runner_input_closed_def runner_dropped_def runner_reset_def runner_disconnect_def
      runner_next_message_def)

lemma finished_run: "rn_finished r \<Longrightarrow> rn_finished (runner_run calls r)"
  by (induction calls arbitrary: r) (simp_all add: runner_run_def finished_apply)

lemma winds_apply:
  assumes "runner_inv r" and w: "winding r"
  shows "winds r (runner_apply c r)"
proof -
  note k = winds_keeps [OF w]
  have t: "rn_turn r < 2" using assms(1) by (simp add: runner_inv_def)
  have n: "winds r (runner_apply (RCallNextMessage buffer) r)" for buffer
    using winding_keeps [OF keeps_next_message [OF t] w] finished_apply [of r "RCallNextMessage buffer"]
    by (simp add: winds_def)
  show ?thesis
    using n w
    by (cases c)
      (simp_all add: k keeps_credit keeps_input keeps_end_input keeps_launched keeps_output keeps_flags
        keeps_input_written keeps_settled keeps_next_request runner_input_closed_def keeps_close_input finished_call
        winds_tick winds_cancel winds_exited runner_dropped_def runner_reset_def runner_disconnect_def winds_detach)
qed

text \<open>The retrievals of messages among the calls of a run.\<close>

fun is_retrieval :: "runner_call \<Rightarrow> bool" where
  "is_retrieval (RCallNextMessage _) = True"
| "is_retrieval _ = False"

lemma winding_run:
  assumes "runner_inv r" and "winding r" and "to_send r < length (filter is_retrieval calls)"
  shows "rn_finished (runner_run calls r)"
  using assms
proof (induction calls arbitrary: r)
  case (Cons c calls)
  define q where "q = runner_apply c r"
  have q: "runner_inv q" "winds r q"
    using inv_apply winds_apply Cons.prems(1,2) by (simp_all add: q_def)
  have "rn_finished q \<or> to_send q < length (filter is_retrieval calls)"
  proof (cases "\<exists>buffer. c = RCallNextMessage buffer")
    case True
    then show ?thesis
      using winding_sends [OF Cons.prems(2)] Cons.prems q(2) by (fastforce simp: q_def runner_inv_def winds_def)
  next
    case False
    then have "\<not> is_retrieval c" by (cases c) simp_all
    with Cons.prems(3) q(2) show ?thesis by (simp add: winds_def)
  qed
  then have "rn_finished (runner_run calls q)"
    using Cons.IH [of q] q finished_run [of q calls] by (auto simp: winds_def)
  then show ?case by (simp add: runner_run_def q_def)
qed simp

lemma to_send_bound: "to_send r \<le> 4"
  by (simp add: to_send_def of_bool_def)

text \<open>
  C7. Every execution ends: once the runner's execution was terminated, for whatever cause, and its
  grace and its settlement time have passed, a tick and any later calls among which are five retrievals
  of messages finish it: its terminal outcome has been retrieved. It needs neither an answer of the
  workload or of the adapter, nor credit or anything else of the peer.
\<close>

theorem runner_ends:
  assumes "rn_terminated_at (runner_run calls (runner_new key l tm start)) = Some t"
    and "t + tm_grace tm + tm_settlement tm \<le> now"
    and "t + tm_grace tm + tm_settlement tm < instant_limit"
    and "5 \<le> length (filter is_retrieval later)"
  shows "rn_finished (runner_run (calls @ RCallTick now # later) (runner_new key l tm start))"
proof -
  define r where "r = runner_run calls (runner_new key l tm start)"
  have tm: "give_up_time r t = t + tm_grace tm + tm_settlement tm"
    using runner_run_setup [of calls key l tm start] by (simp add: r_def give_up_time_def runner_setup_def)
  have split: "runner_run (calls @ RCallTick now # later) (runner_new key l tm start) = runner_run later (runner_tick r now)"
    by (simp add: runner_run_def r_def)
  show ?thesis
  proof (cases "rn_finished r")
    case True
    then show ?thesis unfolding split by (intro finished_run) simp
  next
    case False
    have "winding (runner_tick r now)"
      using assms(1-3) tm False bounded_run by (intro winding_after_deadline [where t = t]) (simp_all add: r_def)
    moreover have "runner_inv (runner_tick r now)" unfolding r_def by (intro inv_tick runner_run_inv)
    ultimately show ?thesis
      unfolding split using to_send_bound [of "runner_tick r now"] assms(4) by (intro winding_run) simp_all
  qed
qed

definition silent_timers :: timers where
  "silent_timers = \<lparr>tm_timeout = Some 5, tm_grace = 10, tm_settlement = 20\<rparr>"

definition silent_new :: runner where
  "silent_new = runner_new \<lparr>key_id = 1, key_generation = 2\<rparr>
     \<lparr>lim_chunk = 4, lim_input = \<lparr>win_unit = UnitBytes, win_size = 8\<rparr>,
      lim_output = \<lparr>win_unit = UnitBytes, win_size = 8\<rparr>, lim_shared = False\<rparr> silent_timers 0"

theorem runner_ends_witness:
  "rn_terminated_at (runner_run [RCallLaunched (Inr ()), RCallOutput Stdout [7], RCallTick 6] silent_new) = Some 6 \<and>
   \<not> rn_finished (runner_run [RCallLaunched (Inr ()), RCallOutput Stdout [7], RCallTick 6] silent_new) \<and>
   rn_finished (runner_run ([RCallLaunched (Inr ()), RCallOutput Stdout [7], RCallTick 6] @ RCallTick 36 #
     replicate 5 (RCallNextMessage [])) silent_new)"
proof -
  have a: "rn_terminated_at (runner_run [RCallLaunched (Inr ()), RCallOutput Stdout [7], RCallTick 6] silent_new) = Some 6"
    by code_simp
  moreover have "\<not> rn_finished (runner_run [RCallLaunched (Inr ()), RCallOutput Stdout [7], RCallTick 6] silent_new)"
    by code_simp
  moreover have "rn_finished (runner_run ([RCallLaunched (Inr ()), RCallOutput Stdout [7], RCallTick 6] @ RCallTick 36 #
     replicate 5 (RCallNextMessage [])) silent_new)"
    unfolding silent_new_def
    by (rule runner_ends [OF a [unfolded silent_new_def]]) (simp_all add: silent_timers_def instant_limit_def)
  ultimately show ?thesis by blast
qed

end
