(* ===== verification/Wire_Outer.thy ===== *)
theory Wire_Outer
  imports Nvx_Prelude
begin

text \<open>
  The outer records of the control console (\<^verbatim>\<open>protocol/outer.rs\<close>, and the readers of
  little-endian fields of \<^verbatim>\<open>protocol/mod.rs\<close>): the constants of the format, the codec of a
  record's header, and the payloads of acknowledgements and credits. A fixed array \<^verbatim>\<open>[u8; N]\<close> is a
  list of bytes, and where a theorem needs it, its length is a hypothesis.
\<close>

section \<open>Protocol errors and fields\<close>

text \<open>
  An error holds its message. A message is text, except where the sources format a name with
  \<^verbatim>\<open>{name:?}\<close>: that part holds the name, unrendered.
\<close>

datatype message_part = Lit string | Quoted bytes

datatype protocol_error = ProtocolError "message_part list"

definition protocol_violation :: "string \<Rightarrow> protocol_error" where
  "protocol_violation text = ProtocolError [Lit text]"

definition u16_at :: "bytes \<Rightarrow> usize \<Rightarrow> u16 option" where
  "u16_at bs offset =
     (case checked_add_usize offset 2 of
        None \<Rightarrow> None
      | Some end_offset \<Rightarrow> map_option from_le_bytes (get_range bs offset end_offset))"

definition u32_at :: "bytes \<Rightarrow> usize \<Rightarrow> u32 option" where
  "u32_at bs offset =
     (case checked_add_usize offset 4 of
        None \<Rightarrow> None
      | Some end_offset \<Rightarrow> map_option from_le_bytes (get_range bs offset end_offset))"

text \<open>
  A field is read at an offset exactly when the bytes from there on start with it, as long as the
  bytes are a slice of Rust, whose length a \<^verbatim>\<open>usize\<close> holds.
\<close>

lemma get_range_drop:
  "get_range bs k (k + n) = Some xs \<longleftrightarrow> k \<le> length bs \<and> length xs = n \<and> (\<exists>post. drop k bs = xs @ post)"
  if "0 < n \<or> k \<le> length bs"
proof
  assume "get_range bs k (k + n) = Some xs"
  then have "k + n \<le> length bs" "xs = take n (drop k bs)"
    by (simp_all add: get_range_def slice_at_def split: if_splits)
  then show "k \<le> length bs \<and> length xs = n \<and> (\<exists>post. drop k bs = xs @ post)"
    by (auto intro!: exI [of _ "drop n (drop k bs)"] simp: append_take_drop_id [symmetric] simp del: drop_drop)
next
  assume "k \<le> length bs \<and> length xs = n \<and> (\<exists>post. drop k bs = xs @ post)"
  then obtain post where h: "k \<le> length bs" "length xs = n" "drop k bs = xs @ post" by blast
  then have "length bs - k = n + length post" by (metis length_append length_drop)
  with h show "get_range bs k (k + n) = Some xs"
    by (simp add: get_range_def slice_at_def)
qed

lemma word_at_drop:
  assumes "length bs \<le> usize_max" and "0 < n" and "8 * n = LENGTH('a::len)"
  shows "(case checked_add_usize k n of
            None \<Rightarrow> None
          | Some stop \<Rightarrow> map_option from_le_bytes (get_range bs k stop)) = Some (w :: 'a word) \<longleftrightarrow>
    (\<exists>post. drop k bs = to_le_bytes w @ post)"
proof
  assume "(case checked_add_usize k n of
            None \<Rightarrow> None
          | Some stop \<Rightarrow> map_option from_le_bytes (get_range bs k stop)) = Some w"
  then obtain xs where "get_range bs k (k + n) = Some xs" "w = from_le_bytes xs"
    by (auto simp: checked_add_usize_def split: option.splits if_splits)
  with assms show "\<exists>post. drop k bs = to_le_bytes w @ post"
    using get_range_drop [of n k bs xs] by (auto simp: to_le_from_le)
next
  assume "\<exists>post. drop k bs = to_le_bytes w @ post"
  then obtain post where d: "drop k bs = to_le_bytes w @ post" by blast
  have n: "length (to_le_bytes w) = n" using assms(3) by (metis length_to_le_bytes nonzero_mult_div_cancel_left zero_neq_numeral)
  with d have "length bs - k = n + length post" by (metis length_append length_drop)
  with assms(1,2) have "k \<le> length bs" "k + n \<le> usize_max" by linarith+
  with d n assms(2) have "get_range bs k (k + n) = Some (to_le_bytes w)"
    using get_range_drop [of n k bs "to_le_bytes w"] by blast
  moreover have "8 dvd LENGTH('a)" using assms(3) by (metis dvd_triv_left)
  ultimately show "(case checked_add_usize k n of
            None \<Rightarrow> None
          | Some stop \<Rightarrow> map_option from_le_bytes (get_range bs k stop)) = Some w"
    using \<open>k + n \<le> usize_max\<close> by (simp add: checked_add_usize_def)
qed

lemma u16_at_drop:
  "length bs \<le> usize_max \<Longrightarrow> u16_at bs k = Some w \<longleftrightarrow> (\<exists>post. drop k bs = to_le_bytes w @ post)"
  unfolding u16_at_def by (rule word_at_drop) simp_all

lemma u32_at_drop:
  "length bs \<le> usize_max \<Longrightarrow> u32_at bs k = Some w \<longleftrightarrow> (\<exists>post. drop k bs = to_le_bytes w @ post)"
  unfolding u32_at_def by (rule word_at_drop) simp_all

text \<open>Bytes that are read after a part of known length continue where it ends.\<close>

lemma drop_past: "drop k bs = xs @ ys \<Longrightarrow> j = k + length xs \<Longrightarrow> drop j bs = ys"
  by (metis add.commute append_eq_conv_conj drop_drop)

lemma drop_then:
  "j = k + length a \<Longrightarrow>
     (\<exists>post. drop k bs = a @ post) \<and> (\<exists>post. drop j bs = b @ post) \<longleftrightarrow> (\<exists>post. drop k bs = a @ b @ post)"
  using drop_past by (metis append.assoc)

section \<open>Constants\<close>

definition outer_magic :: bytes where
  "outer_magic = [0x4e, 0x56, 0x58, 0x53]"

definition outer_version :: u16 where
  "outer_version = 1"

definition outer_header_len :: usize where
  "outer_header_len = 44"

definition outer_max_payload :: usize where
  "outer_max_payload = 65536"

definition outer_receive_window :: u32 where
  "outer_receive_window = 1024 * 1024"

definition outer_min_receive_window :: u32 where
  "outer_min_receive_window = word_of_nat outer_max_payload"

definition outer_max_receive_window :: u32 where
  "outer_max_receive_window = 4 * 1024 * 1024 + 10"

definition outer_guest_attach :: u8 where
  "outer_guest_attach = 1"

definition outer_host_attach :: u8 where
  "outer_host_attach = 2"

definition outer_reset :: u8 where
  "outer_reset = 3"

definition outer_ack :: u8 where
  "outer_ack = 4"

definition outer_data :: u8 where
  "outer_data = 5"

definition outer_wait :: u8 where
  "outer_wait = 6"

definition outer_ready :: u8 where
  "outer_ready = 7"

definition outer_error :: u8 where
  "outer_error = 8"

definition outer_credit :: u8 where
  "outer_credit = 9"

definition capability_len :: usize where
  "capability_len = 32"

section \<open>Headers\<close>

record outer_header =
  oh_record_type :: u8
  oh_instance_id :: bytes
  oh_epoch :: u64
  oh_sequence :: u64
  oh_length :: usize

definition encode_header :: "u8 \<Rightarrow> bytes \<Rightarrow> u64 \<Rightarrow> u64 \<Rightarrow> u32 \<Rightarrow> bytes" where
  "encode_header record_type instance_id epoch sequence n =
     outer_magic @ to_le_bytes outer_version @ [record_type] @ [0] @ instance_id @
     to_le_bytes epoch @ to_le_bytes sequence @ to_le_bytes n"

definition encode_outer ::
  "u8 \<Rightarrow> bytes \<Rightarrow> u64 \<Rightarrow> u64 \<Rightarrow> bytes \<Rightarrow> (protocol_error, bytes) result" where
  "encode_outer record_type instance_id epoch sequence payload =
     (if length payload < 2 ^ 32 \<and> length payload \<le> outer_max_payload
      then Inr (encode_header record_type instance_id epoch sequence (word_of_nat (length payload)) @
                payload)
      else Inl (protocol_violation ''control payload exceeds the outer protocol limit''))"

definition decode_outer_header :: "bytes \<Rightarrow> (protocol_error, outer_header) result" where
  "decode_outer_header header =
     (let version = from_le_bytes (slice_at header 4 6) :: u16;
          flags = header ! 7;
          n = unat (from_le_bytes (slice_at header 40 44) :: u32)
      in if slice_at header 0 4 \<noteq> outer_magic \<or> version \<noteq> outer_version \<or> flags \<noteq> 0
         then Inl (protocol_violation ''control endpoint returned an invalid outer record'')
         else if n > outer_max_payload
         then Inl (protocol_violation ''control endpoint returned an oversized outer record'')
         else Inr \<lparr>oh_record_type = header ! 6, oh_instance_id = slice_at header 8 24,
                   oh_epoch = from_le_bytes (slice_at header 24 32),
                   oh_sequence = from_le_bytes (slice_at header 32 40), oh_length = n\<rparr>)"

section \<open>Payloads of acknowledgements and credits\<close>

definition decode_window :: "bytes \<Rightarrow> string \<Rightarrow> (protocol_error, u32) result" where
  "decode_window payload kind =
     (if length payload = 4 then Inr (from_le_bytes payload)
      else Inl (protocol_violation (''control '' @ kind @ '' payload is not four bytes'')))"

definition encode_ack_payload :: "u32 \<Rightarrow> (protocol_error, bytes) result" where
  "encode_ack_payload window =
     (if \<not> (outer_min_receive_window \<le> window \<and> window \<le> outer_max_receive_window)
      then Inl (protocol_violation ''control acknowledgement has an invalid receive window'')
      else Inr (to_le_bytes window))"

definition decode_ack_payload :: "bytes \<Rightarrow> (protocol_error, u32) result" where
  "decode_ack_payload payload =
     and_then (decode_window payload ''acknowledgement'') (\<lambda>window.
       if \<not> (outer_min_receive_window \<le> window \<and> window \<le> outer_max_receive_window)
       then Inl (protocol_violation ''control acknowledgement has an invalid receive window'')
       else Inr window)"

definition encode_credit_payload :: "u32 \<Rightarrow> (protocol_error, bytes) result" where
  "encode_credit_payload n =
     (if n = 0 \<or> n > outer_max_receive_window
      then Inl (protocol_violation ''control credit has an invalid byte count'')
      else Inr (to_le_bytes n))"

definition decode_credit_payload :: "bytes \<Rightarrow> (protocol_error, u32) result" where
  "decode_credit_payload payload =
     and_then (decode_window payload ''credit'') (\<lambda>n.
       if n = 0 \<or> n > outer_max_receive_window
       then Inl (protocol_violation ''control credit has an invalid byte count'')
       else Inr n)"

section \<open>Facts of the format\<close>

lemma length_outer_magic [wire_simps]: "length outer_magic = 4"
  by (simp add: outer_magic_def)

lemma length_encode_header [wire_simps]:
  "length iid = 16 \<Longrightarrow> length (encode_header t iid ep sq n) = outer_header_len"
  by (simp add: encode_header_def wire_simps outer_header_len_def)

text \<open>Where an encoded header has its fields.\<close>

lemma encode_header_fields:
  assumes "length iid = 16"
  shows "slice_at (encode_header t iid ep sq n) 0 4 = outer_magic"
    "slice_at (encode_header t iid ep sq n) 4 6 = to_le_bytes outer_version"
    "encode_header t iid ep sq n ! 6 = t"
    "encode_header t iid ep sq n ! 7 = 0"
    "slice_at (encode_header t iid ep sq n) 8 24 = iid"
    "slice_at (encode_header t iid ep sq n) 24 32 = to_le_bytes ep"
    "slice_at (encode_header t iid ep sq n) 32 40 = to_le_bytes sq"
    "slice_at (encode_header t iid ep sq n) 40 44 = to_le_bytes n"
  using assms by (simp_all add: encode_header_def slice_at_def nth_append wire_simps)

text \<open>A header is made of its fields.\<close>

lemma header_of_fields:
  assumes "length h = 44" and "slice_at h 0 4 = outer_magic"
    and "(from_le_bytes (slice_at h 4 6) :: u16) = outer_version" and "h ! 7 = 0"
  shows "h = encode_header (h ! 6) (slice_at h 8 24) (from_le_bytes (slice_at h 24 32))
    (from_le_bytes (slice_at h 32 40)) (from_le_bytes (slice_at h 40 44))"
proof -
  have v: "to_le_bytes outer_version = slice_at h 4 6"
    using assms(1,3) to_le_from_le [where 'a = 16, of "slice_at h 4 6"] by simp
  have le: "to_le_bytes (from_le_bytes (slice_at h 24 32) :: u64) = slice_at h 24 32"
    "to_le_bytes (from_le_bytes (slice_at h 32 40) :: u64) = slice_at h 32 40"
    "to_le_bytes (from_le_bytes (slice_at h 40 44) :: u32) = slice_at h 40 44"
    using assms(1) by (simp_all add: to_le_from_le)
  have bytes: "slice_at h 6 7 = [h ! 6]" "slice_at h 7 8 = [0]"
    using assms(1,4) slice_at_Suc [of 6 h] slice_at_Suc [of 7 h] by simp_all
  have "h = slice_at h 0 44" using assms(1) by (simp add: slice_at_def)
  also have "\<dots> = slice_at h 0 4 @ slice_at h 4 6 @ slice_at h 6 7 @ slice_at h 7 8 @ slice_at h 8 24 @
      slice_at h 24 32 @ slice_at h 32 40 @ slice_at h 40 44"
    by (simp add: slice_at_join)
  finally show ?thesis
    by (simp add: encode_header_def assms(2) v le bytes)
qed

lemma max_payload_u32 [wire_simps]:
  "n \<le> outer_max_payload \<Longrightarrow> unat (word_of_nat n :: u32) = n"
  by (simp add: outer_max_payload_def unat_of_nat)

lemma decode_encode_header:
  assumes "length iid = 16" and "unat n \<le> outer_max_payload"
  shows "decode_outer_header (encode_header t iid ep sq n) =
    Inr \<lparr>oh_record_type = t, oh_instance_id = iid, oh_epoch = ep, oh_sequence = sq, oh_length = unat n\<rparr>"
  using assms by (simp add: decode_outer_header_def encode_header_fields)

lemma decode_outer_header_Inr:
  assumes "length h = 44"
  shows "decode_outer_header h = Inr x \<longleftrightarrow>
    h = encode_header (oh_record_type x) (oh_instance_id x) (oh_epoch x) (oh_sequence x)
          (word_of_nat (oh_length x)) \<and>
    length (oh_instance_id x) = 16 \<and> oh_length x \<le> outer_max_payload"
proof
  assume d: "decode_outer_header h = Inr x"
  then have x: "x = \<lparr>oh_record_type = h ! 6, oh_instance_id = slice_at h 8 24,
      oh_epoch = from_le_bytes (slice_at h 24 32), oh_sequence = from_le_bytes (slice_at h 32 40),
      oh_length = unat (from_le_bytes (slice_at h 40 44) :: u32)\<rparr>"
    and le: "unat (from_le_bytes (slice_at h 40 44) :: u32) \<le> outer_max_payload"
    and h: "slice_at h 0 4 = outer_magic" "(from_le_bytes (slice_at h 4 6) :: u16) = outer_version"
      "h ! 7 = 0"
    by (auto simp: decode_outer_header_def Let_def split: if_splits)
  from header_of_fields [OF assms h] le assms show "h = encode_header (oh_record_type x)
      (oh_instance_id x) (oh_epoch x) (oh_sequence x) (word_of_nat (oh_length x)) \<and>
      length (oh_instance_id x) = 16 \<and> oh_length x \<le> outer_max_payload"
    by (simp add: x)
next
  assume "h = encode_header (oh_record_type x) (oh_instance_id x) (oh_epoch x) (oh_sequence x)
      (word_of_nat (oh_length x)) \<and> length (oh_instance_id x) = 16 \<and> oh_length x \<le> outer_max_payload"
  then show "decode_outer_header h = Inr x"
    by (simp add: decode_encode_header wire_simps)
qed

lemma encode_outer_Inr:
  "encode_outer t iid ep sq payload = Inr r \<longleftrightarrow>
     length payload \<le> outer_max_payload \<and>
     r = encode_header t iid ep sq (word_of_nat (length payload)) @ payload"
  by (auto simp: encode_outer_def outer_max_payload_def)

text \<open>
  The decoder of outer headers accepts exactly the 44-byte headers that the encoder produces for
  payloads within the limit, and returns the fields that were encoded: the encoding is unambiguous,
  and no other header passes.
\<close>

lemma outer_header_roundtrip:
  assumes "length h = outer_header_len"
  shows "decode_outer_header h = Inr x \<longleftrightarrow>
    (\<exists>payload. encode_outer (oh_record_type x) (oh_instance_id x) (oh_epoch x) (oh_sequence x) payload =
        Inr (h @ payload) \<and> length payload = oh_length x) \<and> length (oh_instance_id x) = 16"
proof -
  have "(\<exists>payload. encode_outer (oh_record_type x) (oh_instance_id x) (oh_epoch x) (oh_sequence x) payload =
        Inr (h @ payload) \<and> length payload = oh_length x) \<longleftrightarrow>
      oh_length x \<le> outer_max_payload \<and>
      h = encode_header (oh_record_type x) (oh_instance_id x) (oh_epoch x) (oh_sequence x)
        (word_of_nat (oh_length x))"
    unfolding encode_outer_Inr
    by (auto intro!: exI [of _ "replicate (oh_length x) 0"])
  with decode_outer_header_Inr [of h x] assms show ?thesis
    by (auto simp: outer_header_len_def)
qed

text \<open>
  The payloads of acknowledgements and credits survive their codecs, for exactly the byte counts
  that the broker accepts: a window between the largest payload and the largest window, and a credit
  of at least one byte and at most the largest window.
\<close>

lemma window_payload_roundtrip:
  "(decode_ack_payload bs = Inr w \<longleftrightarrow> encode_ack_payload w = Inr bs) \<and>
   (decode_credit_payload bs = Inr w \<longleftrightarrow> encode_credit_payload w = Inr bs)"
proof -
  have "to_le_bytes w = bs \<longleftrightarrow> length bs = 4 \<and> from_le_bytes bs = w"
    using to_le_from_le [where 'a = 32, of bs] by auto
  then show ?thesis
    by (auto simp: decode_ack_payload_def encode_ack_payload_def decode_credit_payload_def
        encode_credit_payload_def decode_window_def split: if_splits)
qed

end
