(* ===== verification/Nvxs_Record.thy ===== *)
theory Nvxs_Record
  imports Wire_Outer
begin

text \<open>
  The records of an NVXS session (\<^verbatim>\<open>protocol/nvxs/record.rs\<close>): their types, the rules that a record
  satisfies, the encoder, and the incremental parser with its buffer of one partial record.
\<close>

section \<open>Types of records\<close>

datatype record_type =
    GuestAttach
  | HostAttach
  | Reset
  | Ack
  | Data
  | Wait
  | Ready
  | RecordTypeError
  | CreditRecord

fun record_code :: "record_type \<Rightarrow> u8" where
  "record_code GuestAttach = outer_guest_attach"
| "record_code HostAttach = outer_host_attach"
| "record_code Reset = outer_reset"
| "record_code Ack = outer_ack"
| "record_code Data = outer_data"
| "record_code Wait = outer_wait"
| "record_code Ready = outer_ready"
| "record_code RecordTypeError = outer_error"
| "record_code CreditRecord = outer_credit"

definition record_from_code :: "u8 \<Rightarrow> record_type option" where
  "record_from_code c =
     (if c = outer_guest_attach then Some GuestAttach
      else if c = outer_host_attach then Some HostAttach
      else if c = outer_reset then Some Reset
      else if c = outer_ack then Some Ack
      else if c = outer_data then Some Data
      else if c = outer_wait then Some Wait
      else if c = outer_ready then Some Ready
      else if c = outer_error then Some RecordTypeError
      else if c = outer_credit then Some CreditRecord
      else None)"

fun is_bootstrap :: "record_type \<Rightarrow> bool" where
  "is_bootstrap GuestAttach \<longleftrightarrow> True"
| "is_bootstrap HostAttach \<longleftrightarrow> True"
| "is_bootstrap _ \<longleftrightarrow> False"

fun allows_length :: "record_type \<Rightarrow> usize \<Rightarrow> bool" where
  "allows_length GuestAttach n \<longleftrightarrow> n = 0"
| "allows_length Reset n \<longleftrightarrow> n = 0"
| "allows_length Wait n \<longleftrightarrow> n = 0"
| "allows_length Ready n \<longleftrightarrow> n = 0"
| "allows_length HostAttach n \<longleftrightarrow> n = capability_len"
| "allows_length Ack n \<longleftrightarrow> n = 4"
| "allows_length RecordTypeError n \<longleftrightarrow> n = 4"
| "allows_length CreditRecord n \<longleftrightarrow> n = 4"
| "allows_length Data n \<longleftrightarrow> n \<ge> 1 \<and> n \<le> outer_max_payload"

fun record_name :: "record_type \<Rightarrow> string" where
  "record_name GuestAttach = ''GUEST_ATTACH''"
| "record_name HostAttach = ''HOST_ATTACH''"
| "record_name Reset = ''RESET''"
| "record_name Ack = ''ACK''"
| "record_name Data = ''DATA''"
| "record_name Wait = ''WAIT''"
| "record_name Ready = ''READY''"
| "record_name RecordTypeError = ''ERROR''"
| "record_name CreditRecord = ''CREDIT''"

datatype error_code = Authentication

fun error_code_value :: "error_code \<Rightarrow> u32" where
  "error_code_value Authentication = 1"

definition error_from_code :: "u32 \<Rightarrow> error_code option" where
  "error_from_code c = (if c = 1 then Some Authentication else None)"

datatype record_error =
    BadMagic bytes
  | BadVersion u16
  | BadType u8
  | BadFlags u8
  | BadLength record_type usize
  | BootstrapIdentity record_type
  | BadErrorCode u32
  | BadReceiveWindow u32
  | BadCredit u32

section \<open>Records\<close>

record nvxs_record =
  rec_type :: record_type
  rec_instance_id :: bytes
  rec_epoch :: u64
  rec_sequence :: u64
  rec_payload :: bytes

definition payload_value :: "bytes \<Rightarrow> u32" where
  "payload_value payload = from_le_bytes payload"

definition rec_window :: "nvxs_record \<Rightarrow> u32 option" where
  "rec_window r = (if rec_type r = Ack then Some (payload_value (rec_payload r)) else None)"

definition rec_credit :: "nvxs_record \<Rightarrow> u32 option" where
  "rec_credit r = (if rec_type r = CreditRecord then Some (payload_value (rec_payload r)) else None)"

definition rec_error_code :: "nvxs_record \<Rightarrow> error_code option" where
  "rec_error_code r =
     (if rec_type r = RecordTypeError then error_from_code (payload_value (rec_payload r)) else None)"

definition check_length :: "record_type \<Rightarrow> usize \<Rightarrow> (record_error, unit) result" where
  "check_length t n = (if allows_length t n then Inr () else Inl (BadLength t n))"

definition check_bootstrap ::
  "record_type \<Rightarrow> bytes \<Rightarrow> u64 \<Rightarrow> u64 \<Rightarrow> (record_error, unit) result" where
  "check_bootstrap t iid epoch sequence =
     (if is_bootstrap t \<and> (iid \<noteq> replicate 16 0 \<or> epoch \<noteq> 0 \<or> sequence \<noteq> 0)
      then Inl (BootstrapIdentity t) else Inr ())"

fun check_payload :: "record_type \<Rightarrow> bytes \<Rightarrow> (record_error, unit) result" where
  "check_payload Ack payload =
     (let window = payload_value payload
      in if outer_min_receive_window \<le> window \<and> window \<le> outer_max_receive_window then Inr ()
         else Inl (BadReceiveWindow window))"
| "check_payload CreditRecord payload =
     (let n = payload_value payload
      in if 1 \<le> n \<and> n \<le> outer_max_receive_window then Inr () else Inl (BadCredit n))"
| "check_payload RecordTypeError payload =
     (let c = payload_value payload
      in case error_from_code c of Some _ \<Rightarrow> Inr () | None \<Rightarrow> Inl (BadErrorCode c))"
| "check_payload _ payload = Inr ()"

definition encode_record ::
  "record_type \<Rightarrow> bytes \<Rightarrow> u64 \<Rightarrow> u64 \<Rightarrow> bytes \<Rightarrow> bytes \<Rightarrow> (record_error, unit) result \<times> bytes" where
  "encode_record t iid epoch sequence payload out =
     (case and_then (check_length t (length payload)) (\<lambda>_.
             and_then (check_bootstrap t iid epoch sequence) (\<lambda>_. check_payload t payload)) of
        Inl e \<Rightarrow> (Inl e, out)
      | Inr _ \<Rightarrow>
          (Inr (), out @ encode_header (record_code t) iid epoch sequence (word_of_nat (length payload)) @
             payload))"

record nvxs_header =
  hd_type :: record_type
  hd_instance_id :: bytes
  hd_epoch :: u64
  hd_sequence :: u64
  hd_length :: usize

definition parse_header :: "bytes \<Rightarrow> (record_error, nvxs_header) result" where
  "parse_header bs =
     (let magic = slice_at bs 0 4;
          version = from_le_bytes [bs ! 4, bs ! 5] :: u16
      in if magic \<noteq> outer_magic then Inl (BadMagic magic)
         else if version \<noteq> outer_version then Inl (BadVersion version)
         else and_then (ok_or (BadType (bs ! 6)) (record_from_code (bs ! 6))) (\<lambda>t.
           if bs ! 7 \<noteq> 0 then Inl (BadFlags (bs ! 7))
           else
             (let header = \<lparr>hd_type = t, hd_instance_id = slice_at bs 8 24,
                            hd_epoch = from_le_bytes (slice_at bs 24 32),
                            hd_sequence = from_le_bytes (slice_at bs 32 40),
                            hd_length = unat (from_le_bytes (slice_at bs 40 44) :: u32)\<rparr>
              in and_then (check_length t (hd_length header)) (\<lambda>_.
                 and_then (check_bootstrap t (hd_instance_id header) (hd_epoch header)
                             (hd_sequence header)) (\<lambda>_. Inr header)))))"

section \<open>The parser\<close>

record record_parser =
  ps_header :: bytes
  ps_header_len :: usize
  ps_body :: "(nvxs_header \<times> bytes) option"
  ps_error :: "record_error option"

definition parser_new :: record_parser where
  "parser_new = \<lparr>ps_header = replicate outer_header_len 0, ps_header_len = 0, ps_body = None,
                 ps_error = None\<rparr>"

definition needed :: "record_parser \<Rightarrow> usize" where
  "needed p =
     (case ps_body p of
        Some (header, payload) \<Rightarrow> hd_length header - length payload
      | None \<Rightarrow> outer_header_len - ps_header_len p)"

definition buffered :: "record_parser \<Rightarrow> usize" where
  "buffered p =
     (case ps_body p of
        Some (_, payload) \<Rightarrow> outer_header_len + length payload
      | None \<Rightarrow> ps_header_len p)"

text \<open>The header's part of \<^verbatim>\<open>accept\<close>: bytes up to the end of the header, whose fields it then checks.\<close>

definition take_header ::
  "record_parser \<Rightarrow> bytes \<Rightarrow> (record_error, usize) result \<times> record_parser" where
  "take_header p input =
     (case ps_body p of
        Some _ \<Rightarrow> (Inr 0, p)
      | None \<Rightarrow>
          (let n = min (outer_header_len - ps_header_len p) (length input);
               p = p\<lparr>ps_header := take (ps_header_len p) (ps_header p) @ take n input @
                                    drop (ps_header_len p + n) (ps_header p),
                     ps_header_len := ps_header_len p + n\<rparr>
           in if ps_header_len p < outer_header_len then (Inr n, p)
              else (case parse_header (ps_header p) of
                      Inl e \<Rightarrow> (Inl e, p)
                    | Inr header \<Rightarrow> (Inr n, p\<lparr>ps_body := Some (header, [])\<rparr>))))"

text \<open>The payload's part: bytes up to the end of the payload, and then the record.\<close>

definition take_payload ::
  "record_parser \<Rightarrow> usize \<Rightarrow> bytes
     \<Rightarrow> (record_error, usize \<times> nvxs_record option) result \<times> record_parser" where
  "take_payload p consumed input =
     (case ps_body p of
        None \<Rightarrow> (Inr (consumed, None), p)
      | Some (header, payload) \<Rightarrow>
          (let n = min (hd_length header - length payload) (length input - consumed);
               payload = payload @ slice_at input consumed (consumed + n);
               consumed = consumed + n
           in if length payload < hd_length header
              then (Inr (consumed, None), p\<lparr>ps_body := Some (header, payload)\<rparr>)
              else
                (let p = p\<lparr>ps_body := None, ps_header_len := 0\<rparr>
                 in case check_payload (hd_type header) payload of
                      Inl e \<Rightarrow> (Inl e, p)
                    | Inr _ \<Rightarrow>
                        (Inr (consumed, Some \<lparr>rec_type = hd_type header,
                           rec_instance_id = hd_instance_id header, rec_epoch = hd_epoch header,
                           rec_sequence = hd_sequence header, rec_payload = payload\<rparr>), p))))"

definition parser_accept ::
  "record_parser \<Rightarrow> bytes
     \<Rightarrow> (record_error, usize \<times> nvxs_record option) result \<times> record_parser" where
  "parser_accept p input =
     (case take_header p input of
        (Inl e, p) \<Rightarrow> (Inl e, p)
      | (Inr consumed, p) \<Rightarrow> take_payload p consumed input)"

definition push ::
  "record_parser \<Rightarrow> bytes
     \<Rightarrow> (record_error, usize \<times> nvxs_record option) result \<times> record_parser" where
  "push p input =
     (case ps_error p of
        Some e \<Rightarrow> (Inl e, p)
      | None \<Rightarrow>
          (case parser_accept p input of
             (Inl e, p) \<Rightarrow> (Inl e, p\<lparr>ps_header_len := 0, ps_body := None, ps_error := Some e\<rparr>)
           | res \<Rightarrow> res))"

section \<open>Valid records\<close>

definition valid_record :: "nvxs_record \<Rightarrow> bool" where
  "valid_record r \<longleftrightarrow>
     length (rec_instance_id r) = 16 \<and> allows_length (rec_type r) (length (rec_payload r)) \<and>
     check_bootstrap (rec_type r) (rec_instance_id r) (rec_epoch r) (rec_sequence r) = Inr () \<and>
     check_payload (rec_type r) (rec_payload r) = Inr ()"

definition record_bytes :: "nvxs_record \<Rightarrow> bytes" where
  "record_bytes r =
     encode_header (record_code (rec_type r)) (rec_instance_id r) (rec_epoch r) (rec_sequence r)
       (word_of_nat (length (rec_payload r))) @ rec_payload r"

lemmas outer_types = outer_guest_attach_def outer_host_attach_def outer_reset_def outer_ack_def
  outer_data_def outer_wait_def outer_ready_def outer_error_def outer_credit_def

lemma record_from_code_code [simp]: "record_from_code (record_code t) = Some t"
  by (cases t) (simp_all add: record_from_code_def outer_types)

lemma record_from_code_Some: "record_from_code c = Some t \<longleftrightarrow> c = record_code t"
proof
  assume "record_from_code c = Some t"
  then show "c = record_code t" by (auto simp: record_from_code_def split: if_splits)
qed simp

lemma allows_length_bound: "allows_length t n \<Longrightarrow> n \<le> outer_max_payload"
  by (cases t) (auto simp: outer_max_payload_def capability_len_def)

lemma check_length_Inr [simp]: "check_length t n = Inr u \<longleftrightarrow> allows_length t n"
  by (simp add: check_length_def)

text \<open>The encoder appends the bytes of a record that satisfies the rules, and nothing otherwise.\<close>

lemma encode_record_Inr:
  "encode_record t iid ep sq payload out = (Inr u, out') \<longleftrightarrow>
     allows_length t (length payload) \<and> check_bootstrap t iid ep sq = Inr () \<and>
     check_payload t payload = Inr () \<and>
     out' = out @ record_bytes \<lparr>rec_type = t, rec_instance_id = iid, rec_epoch = ep,
                               rec_sequence = sq, rec_payload = payload\<rparr>"
  by (cases "allows_length t (length payload)")
    (auto simp: encode_record_def record_bytes_def check_length_def split: sum.splits)

lemma encode_record_Inl:
  "encode_record t iid ep sq payload out = (Inl e, out') \<Longrightarrow> out' = out"
  by (auto simp: encode_record_def split: sum.splits)

lemma length_record_bytes [simp]:
  "length (rec_instance_id r) = 16 \<Longrightarrow>
     length (record_bytes r) = outer_header_len + length (rec_payload r)"
  by (simp add: record_bytes_def wire_simps)

text \<open>The headers that the parser accepts are those of the encoder.\<close>

lemma from_le_two: "length h = 44 \<Longrightarrow> [h ! 4, h ! 5] = slice_at h 4 6"
  using slice_at_join [of 4 5 6 h] slice_at_Suc [of 4 h] slice_at_Suc [of 5 h] by simp

definition header_ok :: "nvxs_header \<Rightarrow> bool" where
  "header_ok h \<longleftrightarrow>
     length (hd_instance_id h) = 16 \<and> allows_length (hd_type h) (hd_length h) \<and>
     check_bootstrap (hd_type h) (hd_instance_id h) (hd_epoch h) (hd_sequence h) = Inr ()"

definition header_bytes :: "nvxs_header \<Rightarrow> bytes" where
  "header_bytes h =
     encode_header (record_code (hd_type h)) (hd_instance_id h) (hd_epoch h) (hd_sequence h)
       (word_of_nat (hd_length h))"

lemma parse_header_bytes: "header_ok h \<Longrightarrow> parse_header (header_bytes h) = Inr h"
  using allows_length_bound [of "hd_type h" "hd_length h"]
  by (simp add: header_ok_def header_bytes_def parse_header_def Let_def from_le_two wire_simps
      outer_header_len_def encode_header_fields)

lemma parse_header_Inr:
  assumes len: "length bs = 44" and p: "parse_header bs = Inr h"
  shows "header_ok h \<and> bs = header_bytes h"
proof -
  from p have f: "slice_at bs 0 4 = outer_magic" "(from_le_bytes (slice_at bs 4 6) :: u16) = outer_version"
    "bs ! 7 = 0" "bs ! 6 = record_code (hd_type h)" "hd_instance_id h = slice_at bs 8 24"
    "hd_epoch h = from_le_bytes (slice_at bs 24 32)" "hd_sequence h = from_le_bytes (slice_at bs 32 40)"
    "hd_length h = unat (from_le_bytes (slice_at bs 40 44) :: u32)"
    "allows_length (hd_type h) (hd_length h)"
    "check_bootstrap (hd_type h) (hd_instance_id h) (hd_epoch h) (hd_sequence h) = Inr ()"
    by (auto simp: parse_header_def Let_def from_le_two [OF len] record_from_code_Some split: if_splits)
  with header_of_fields [OF len f(1,2,3)] len show ?thesis
    by (simp add: header_ok_def header_bytes_def)
qed

section \<open>Reading a stream at once\<close>

text \<open>The specification of the parser: what a stream's bytes say when they are read all at once.\<close>

datatype reading = More | Bad record_error | Got nvxs_record bytes

definition read_payload :: "nvxs_header \<Rightarrow> bytes \<Rightarrow> reading" where
  "read_payload h bs =
     (if length bs < hd_length h then More
      else (case check_payload (hd_type h) (take (hd_length h) bs) of
              Inl e \<Rightarrow> Bad e
            | Inr _ \<Rightarrow>
                Got \<lparr>rec_type = hd_type h, rec_instance_id = hd_instance_id h, rec_epoch = hd_epoch h,
                     rec_sequence = hd_sequence h, rec_payload = take (hd_length h) bs\<rparr>
                  (drop (hd_length h) bs)))"

definition read_record :: "bytes \<Rightarrow> reading" where
  "read_record bs =
     (if length bs < outer_header_len then More
      else (case parse_header (take outer_header_len bs) of
              Inl e \<Rightarrow> Bad e
            | Inr h \<Rightarrow> read_payload h (drop outer_header_len bs)))"

lemma read_record_shorter: "read_record bs = Got r rest \<Longrightarrow> length rest < length bs"
  by (auto simp: read_record_def read_payload_def outer_header_len_def split: if_splits sum.splits)

function read_stream :: "bytes \<Rightarrow> nvxs_record list \<times> record_error option \<times> bytes" where
  "read_stream bs =
     (case read_record bs of
        More \<Rightarrow> ([], None, bs)
      | Bad e \<Rightarrow> ([], Some e, [])
      | Got r rest \<Rightarrow> (let (rs, e, left) = read_stream rest in (r # rs, e, left)))"
  by pat_completeness auto
termination by (relation "measure length") (auto dest: read_record_shorter)

declare read_stream.simps [simp del]

lemma read_record_bytes:
  assumes "valid_record r"
  shows "read_record (record_bytes r @ rest) = Got r rest"
proof -
  let ?h = "\<lparr>hd_type = rec_type r, hd_instance_id = rec_instance_id r, hd_epoch = rec_epoch r,
    hd_sequence = rec_sequence r, hd_length = length (rec_payload r)\<rparr>"
  have h: "header_ok ?h" using assms by (simp add: header_ok_def valid_record_def)
  have split: "record_bytes r @ rest = header_bytes ?h @ rec_payload r @ rest"
    by (simp add: record_bytes_def header_bytes_def)
  have len: "length (header_bytes ?h) = outer_header_len"
    using assms by (simp add: header_bytes_def valid_record_def wire_simps)
  show ?thesis
    using assms len unfolding split read_record_def
    by (simp add: parse_header_bytes [OF h] read_payload_def valid_record_def)
qed

lemma read_record_Got:
  assumes "read_record bs = Got r rest"
  shows "valid_record r \<and> bs = record_bytes r @ rest"
proof -
  from assms obtain h where len: "outer_header_len \<le> length bs"
    and h: "parse_header (take outer_header_len bs) = Inr h"
    and got: "read_payload h (drop outer_header_len bs) = Got r rest"
    by (auto simp: read_record_def split: if_splits sum.splits)
  from parse_header_Inr [OF _ h] len have ok: "header_ok h" "take outer_header_len bs = header_bytes h"
    by (simp_all add: outer_header_len_def)
  have "bs = header_bytes h @ drop outer_header_len bs"
    using ok(2) by (metis append_take_drop_id)
  moreover have "drop outer_header_len bs = rec_payload r @ rest" "length (rec_payload r) = hd_length h"
    "check_payload (hd_type h) (rec_payload r) = Inr ()"
    "r = \<lparr>rec_type = hd_type h, rec_instance_id = hd_instance_id h, rec_epoch = hd_epoch h,
         rec_sequence = hd_sequence h, rec_payload = rec_payload r\<rparr>"
    using got append_take_drop_id [of "hd_length h" "drop outer_header_len bs"]
    by (auto simp: read_payload_def simp del: append_take_drop_id split: if_splits sum.splits)
  ultimately show ?thesis
    using ok(1) by (cases r) (auto simp: valid_record_def record_bytes_def header_bytes_def header_ok_def)
qed

lemma read_stream_records:
  assumes "\<And>r. r \<in> set rs \<Longrightarrow> valid_record r"
  shows "read_stream (concat (map record_bytes rs) @ rest) =
    (let (rs', e, left) = read_stream rest in (rs @ rs', e, left))"
  using assms
proof (induction rs)
  case Nil
  then show ?case by (simp split: prod.split)
next
  case (Cons r rs)
  then have "read_record (record_bytes r @ (concat (map record_bytes rs) @ rest)) =
      Got r (concat (map record_bytes rs) @ rest)"
    by (intro read_record_bytes) simp
  with Cons show ?case
    by (subst read_stream.simps) (simp split: prod.splits)
qed

lemma read_stream_all:
  assumes "\<And>r. r \<in> set rs \<Longrightarrow> valid_record r" and "bs = concat (map record_bytes rs)"
  shows "read_stream bs = (rs, None, [])"
proof -
  have "read_stream ([] :: bytes) = ([], None, [])"
    by (simp add: read_stream.simps read_record_def outer_header_len_def)
  with read_stream_records [OF assms(1), of rs "[]"] assms(2) show ?thesis by simp
qed

lemma read_stream_sound:
  assumes "read_stream bs = (rs, e, left)"
  shows "(\<forall>r \<in> set rs. valid_record r) \<and>
    (\<exists>rest. bs = concat (map record_bytes rs) @ rest \<and> (e = None \<longrightarrow> rest = left))"
  using assms
proof (induction bs arbitrary: rs e left rule: read_stream.induct)
  case (1 bs)
  show ?case
  proof (cases "read_record bs")
    case (Got r rest)
    obtain rs' e' left' where rest: "read_stream rest = (rs', e', left')"
      by (cases "read_stream rest")
    with 1(2) Got have eqs: "rs = r # rs'" "e = e'" "left = left'"
      by (simp_all add: read_stream.simps [of bs])
    from 1(1) [OF Got rest] read_record_Got [OF Got] show ?thesis
      unfolding eqs by auto
  qed (use 1(2) in \<open>auto simp: read_stream.simps [of bs]\<close>)
qed

end
