(* ===== verification/Nvxs_Parser.thy ===== *)
theory Nvxs_Parser
  imports Nvxs_Record
begin

text \<open>
  The incremental parser of \<^verbatim>\<open>protocol/nvxs/record.rs\<close> against its specification: whatever the pieces
  in which a stream arrives, the parser returns the records that the stream's bytes hold, in order,
  and holds no more than one partial record.
\<close>

section \<open>The parser's invariant\<close>

definition parser_inv :: "record_parser \<Rightarrow> bool" where
  "parser_inv p \<longleftrightarrow>
     length (ps_header p) = outer_header_len \<and>
     (ps_error p \<noteq> None \<longrightarrow> ps_header_len p = 0 \<and> ps_body p = None) \<and>
     (case ps_body p of
        None \<Rightarrow> ps_header_len p < outer_header_len
      | Some (h, payload) \<Rightarrow>
          ps_header_len p = outer_header_len \<and> parse_header (ps_header p) = Inr h \<and>
          length payload < hd_length h)"

text \<open>The bytes of the record in progress.\<close>

definition partial :: "record_parser \<Rightarrow> bytes" where
  "partial p = take (ps_header_len p) (ps_header p) @ (case ps_body p of None \<Rightarrow> [] | Some (_, bs) \<Rightarrow> bs)"

lemma parser_inv_new [simp]: "parser_inv parser_new" "partial parser_new = []" "ps_error parser_new = None"
  by (simp_all add: parser_inv_def parser_new_def partial_def outer_header_len_def)

lemma parser_inv_hd:
  "parser_inv p \<Longrightarrow> ps_body p = Some (h, payload) \<Longrightarrow> header_ok h"
  using parse_header_Inr [of "ps_header p" h] by (simp add: parser_inv_def outer_header_len_def)

lemma length_partial: "parser_inv p \<Longrightarrow> length (partial p) = buffered p"
  by (auto simp: parser_inv_def partial_def buffered_def split: option.splits)

section \<open>One call\<close>

text \<open>The state that a reading of the bytes so far leaves the parser in.\<close>

definition reads ::
  "record_parser \<Rightarrow> bytes \<Rightarrow> (record_error, usize \<times> nvxs_record option) result \<times> record_parser \<Rightarrow> bool" where
  "reads p input res \<longleftrightarrow>
     (case read_record (partial p @ input) of
        More \<Rightarrow>
          \<exists>p'. res = (Inr (length input, None), p') \<and> parser_inv p' \<and> ps_error p' = None \<and>
               partial p' = partial p @ input
      | Bad e \<Rightarrow>
          \<exists>p'. res = (Inl e, p') \<and> parser_inv p' \<and> ps_error p' = Some e \<and> partial p' = []
      | Got r rest \<Rightarrow>
          \<exists>p' n. res = (Inr (n, Some r), p') \<and> parser_inv p' \<and> ps_error p' = None \<and> partial p' = [] \<and>
               0 < n \<and> n \<le> length input \<and> rest = drop n input)"

lemma take_payload_reads:
  assumes body: "ps_body p = Some (h, payload)" and len: "length payload < hd_length h \<or> payload = []"
    and inv: "length (ps_header p) = outer_header_len" "ps_header_len p = outer_header_len"
      "parse_header (ps_header p) = Inr h" "ps_error p = None"
    and c: "consumed \<le> length input"
  shows "case read_payload h (payload @ drop consumed input) of
      More \<Rightarrow> \<exists>p'. take_payload p consumed input = (Inr (length input, None), p') \<and> parser_inv p' \<and>
        ps_error p' = None \<and> partial p' = partial p @ drop consumed input
    | Bad e \<Rightarrow> \<exists>p'. take_payload p consumed input = (Inl e, p') \<and> length (ps_header p') = outer_header_len
    | Got r rest \<Rightarrow> \<exists>p'. take_payload p consumed input =
          (Inr (consumed + (hd_length h - length payload), Some r), p') \<and> parser_inv p' \<and>
        ps_error p' = None \<and> partial p' = [] \<and>
        consumed + (hd_length h - length payload) \<le> length input \<and>
        rest = drop (consumed + (hd_length h - length payload)) input"
proof -
  from len have "length payload \<le> hd_length h" by auto
  then obtain k where k: "hd_length h = length payload + k" using le_Suc_ex by blast
  from c obtain m where m: "length input = consumed + m" using le_Suc_ex by blast
  have slice: "slice_at input consumed (consumed + n) = take n (drop consumed input)" for n
    by (simp add: slice_at_def)
  show ?thesis
  proof (cases "m < k")
    case True
    with m body inv show ?thesis
      by (simp add: take_payload_def read_payload_def Let_def slice k parser_inv_def partial_def)
  next
    case False
    with m body inv show ?thesis
      by (auto simp: take_payload_def read_payload_def Let_def slice k parser_inv_def partial_def
          outer_header_len_def add.commute split: sum.splits)
  qed
qed

lemma take_header_short:
  assumes inv: "parser_inv p" and body: "ps_body p = None" and e: "ps_error p = None"
    and short: "ps_header_len p + length input < outer_header_len"
  shows "\<exists>p'. take_header p input = (Inr (length input), p') \<and> parser_inv p' \<and> ps_body p' = None \<and>
    ps_error p' = None \<and> partial p' = partial p @ input"
proof -
  have "min (outer_header_len - ps_header_len p) (length input) = length input" using short by simp
  with assms show ?thesis
    by (auto simp: take_header_def Let_def parser_inv_def partial_def)
qed

lemma take_header_full:
  assumes inv: "parser_inv p" and body: "ps_body p = None" and e: "ps_error p = None"
    and full: "outer_header_len \<le> ps_header_len p + length input"
  defines "n \<equiv> outer_header_len - ps_header_len p"
  shows "n \<le> length input" "0 < n"
    "case parse_header (take outer_header_len (partial p @ input)) of
       Inl e \<Rightarrow> \<exists>p'. take_header p input = (Inl e, p') \<and> length (ps_header p') = outer_header_len
     | Inr h \<Rightarrow> \<exists>p'. take_header p input = (Inr n, p') \<and> ps_body p' = Some (h, []) \<and>
         length (ps_header p') = outer_header_len \<and> ps_header_len p' = outer_header_len \<and>
         ps_error p' = None \<and> parse_header (ps_header p') = Inr h \<and>
         partial p' @ drop n input = partial p @ input"
proof -
  have lt: "ps_header_len p < outer_header_len" "length (ps_header p) = outer_header_len"
    using inv body by (simp_all add: parser_inv_def)
  show n: "n \<le> length input" "0 < n" using full lt by (simp_all add: n_def)
  have m: "min (outer_header_len - ps_header_len p) (length input) = n" using n by (simp add: n_def)
  have part: "partial p = take (ps_header_len p) (ps_header p)"
    using body by (simp add: partial_def)
  have sum: "ps_header_len p + n = outer_header_len" using lt by (simp add: n_def)
  define hdr where "hdr = take (ps_header_len p) (ps_header p) @ take n input"
  have bytes: "take outer_header_len (partial p @ input) = hdr"
    using lt by (simp add: part n_def hdr_def)
  have len: "length hdr = outer_header_len" using lt n sum by (simp add: hdr_def)
  have header: "take (ps_header_len p) (ps_header p) @ take n input @
      drop outer_header_len (ps_header p) = hdr"
    using lt by (simp add: hdr_def)
  have "hdr @ drop n input = partial p @ input" by (simp add: hdr_def part)
  then show "case parse_header (take outer_header_len (partial p @ input)) of
       Inl e \<Rightarrow> \<exists>p'. take_header p input = (Inl e, p') \<and> length (ps_header p') = outer_header_len
     | Inr h \<Rightarrow> \<exists>p'. take_header p input = (Inr n, p') \<and> ps_body p' = Some (h, []) \<and>
         length (ps_header p') = outer_header_len \<and> ps_header_len p' = outer_header_len \<and>
         ps_error p' = None \<and> parse_header (ps_header p') = Inr h \<and>
         partial p' @ drop n input = partial p @ input"
    unfolding bytes
    using body e len sum
    by (auto simp: take_header_def Let_def m header partial_def split: sum.splits)
qed

lemma push_reads:
  assumes inv: "parser_inv p" and e: "ps_error p = None"
  shows "reads p input (push p input)"
proof (cases "ps_body p")
  case None
  show ?thesis
  proof (cases "ps_header_len p + length input < outer_header_len")
    case True
    then have more: "read_record (partial p @ input) = More"
      using inv None by (simp add: read_record_def partial_def parser_inv_def)
    from take_header_short [OF inv None e True] obtain p' where
      "take_header p input = (Inr (length input), p')" "parser_inv p'" "ps_body p' = None"
      "ps_error p' = None" "partial p' = partial p @ input" by blast
    with e more show ?thesis
      by (simp add: reads_def push_def parser_accept_def take_payload_def)
  next
    case False
    let ?n = "outer_header_len - ps_header_len p"
    have full: "outer_header_len \<le> ps_header_len p + length input" using False by simp
    note th = take_header_full [OF inv None e full]
    have len: "length (partial p) = ps_header_len p"
      using inv None by (simp add: partial_def parser_inv_def)
    show ?thesis
    proof (cases "parse_header (take outer_header_len (partial p @ input))")
      case (Inl er)
      with th(3) obtain p' where "take_header p input = (Inl er, p')"
        "length (ps_header p') = outer_header_len" by auto
      with e full len Inl show ?thesis
        by (simp add: reads_def read_record_def push_def parser_accept_def parser_inv_def partial_def
            outer_header_len_def)
    next
      case (Inr h)
      with th(3) obtain p' where p': "take_header p input = (Inr ?n, p')" "ps_body p' = Some (h, [])"
        "length (ps_header p') = outer_header_len" "ps_header_len p' = outer_header_len"
        "ps_error p' = None" "parse_header (ps_header p') = Inr h"
        "partial p' @ drop ?n input = partial p @ input" by auto
      have rest: "drop outer_header_len (partial p @ input) = drop ?n input"
        using len inv None by (simp add: parser_inv_def)
      have rr: "read_record (partial p @ input) = read_payload h ([] @ drop ?n input)"
        using full len Inr rest by (simp add: read_record_def)
      have tp: "push p input = (case take_payload p' ?n input of
          (Inl e, p) \<Rightarrow> (Inl e, p\<lparr>ps_header_len := 0, ps_body := None, ps_error := Some e\<rparr>)
        | res \<Rightarrow> res)"
        using e p'(1) by (simp add: push_def parser_accept_def)
      from take_payload_reads [OF p'(2) _ p'(3,4,6,5) th(1)] p'(7) th(2) show ?thesis
        unfolding reads_def rr tp
        by (cases "read_payload h ([] @ drop ?n input)")
          (auto simp: parser_inv_def partial_def outer_header_len_def)
    qed
  qed
next
  case (Some b)
  obtain h payload where body: "ps_body p = Some (h, payload)" using Some by (cases b) simp
  have b: "length (ps_header p) = outer_header_len" "ps_header_len p = outer_header_len"
    "parse_header (ps_header p) = Inr h" "length payload < hd_length h"
    using inv body by (simp_all add: parser_inv_def)
  have rr: "read_record (partial p @ input) = read_payload h (payload @ drop 0 input)"
    using b body by (simp add: read_record_def partial_def)
  have tp: "push p input = (case take_payload p 0 input of
      (Inl e, p) \<Rightarrow> (Inl e, p\<lparr>ps_header_len := 0, ps_body := None, ps_error := Some e\<rparr>)
    | res \<Rightarrow> res)"
    using e body by (simp add: push_def parser_accept_def take_header_def)
  from take_payload_reads [OF body _ b(1,2,3) e, of 0 input] b(4) show ?thesis
    unfolding reads_def rr tp
    by (cases "read_payload h (payload @ drop 0 input)")
      (auto simp: parser_inv_def partial_def outer_header_len_def)
qed

section \<open>Streams in pieces\<close>

text \<open>
  A caller that hands the parser a piece of the stream, and again what a call left of it, and the
  pieces one after the other.
\<close>

function feed :: "record_parser \<Rightarrow> bytes \<Rightarrow> nvxs_record list \<times> record_parser" where
  "feed p input =
     (case push p input of
        (Inr (n, Some r), p') \<Rightarrow>
          if 0 < n \<and> input \<noteq> [] then (let (rs, q) = feed p' (drop n input) in (r # rs, q))
          else ([r], p')
      | (_, p') \<Rightarrow> ([], p'))"
  by pat_completeness auto
termination by (relation "measure (length \<circ> snd)") auto

declare feed.simps [simp del]

fun feed_all :: "record_parser \<Rightarrow> bytes list \<Rightarrow> nvxs_record list \<times> record_parser" where
  "feed_all p [] = ([], p)"
| "feed_all p (piece # pieces) =
     (let (rs, p') = feed p piece; (rs', q) = feed_all p' pieces in (rs @ rs', q))"

lemma feed_reads:
  assumes "parser_inv p" and "ps_error p = None" and "feed p input = (rs, q)"
  shows "parser_inv q \<and> read_stream (partial p @ input) = (rs, ps_error q, partial q)"
  using assms
proof (induction p input arbitrary: rs q rule: feed.induct)
  case (1 p input)
  note step = push_reads [OF 1(2,3), of input, unfolded reads_def]
  show ?case
  proof (cases "read_record (partial p @ input)")
    case More
    with step 1(4) show ?thesis
      by (auto simp: feed.simps [of p input] read_stream.simps [of "partial p @ input"])
  next
    case (Bad e)
    with step 1(4) show ?thesis
      by (auto simp: feed.simps [of p input] read_stream.simps [of "partial p @ input"])
  next
    case (Got r rest)
    with step obtain p' n where push: "push p input = (Inr (n, Some r), p')" "parser_inv p'"
      "ps_error p' = None" "partial p' = []" "0 < n" "n \<le> length input" "rest = drop n input"
      by auto
    obtain rs' q' where q': "feed p' (drop n input) = (rs', q')" by (cases "feed p' (drop n input)")
    have ne: "0 < n \<and> input \<noteq> []" using push(5,6) by auto
    with 1(4) push(1) q' have eqs: "rs = r # rs'" "q = q'" by (auto simp: feed.simps [of p input])
    from 1(1) [OF push(1) [symmetric] refl refl refl ne push(2,3) q'] Got push(4,7) show ?thesis
      by (simp add: eqs read_stream.simps [of "partial p @ input"])
  qed
qed

lemma push_error: "ps_error p = Some e \<Longrightarrow> push p input = (Inl e, p)"
  by (simp add: push_def)

lemma feed_error: "ps_error p = Some e \<Longrightarrow> feed p input = ([], p)"
  by (simp add: feed.simps [of p input] push_error)

lemma feed_all_error: "ps_error p = Some e \<Longrightarrow> feed_all p pieces = ([], p)"
  by (induction pieces) (simp_all add: feed_error)

text \<open>A stream that was read up to a partial record is read on from there.\<close>

lemma read_record_append:
  "read_record bs = Bad e \<Longrightarrow> read_record (bs @ tail) = Bad e"
  "read_record bs = Got r rest \<Longrightarrow> read_record (bs @ tail) = Got r (rest @ tail)"
  by (auto simp: read_record_def read_payload_def split: if_splits sum.splits)

lemma read_stream_append:
  "read_stream bs = (rs, e, left) \<Longrightarrow>
   read_stream (bs @ tail) =
     (case e of
        None \<Rightarrow> (let (rs', e', left') = read_stream (left @ tail) in (rs @ rs', e', left'))
      | Some e \<Rightarrow> (rs, Some e, []))"
proof (induction bs arbitrary: rs e left rule: read_stream.induct)
  case (1 bs)
  show ?case
  proof (cases "read_record bs")
    case (Got r rest)
    obtain rs' e' left' where rest: "read_stream rest = (rs', e', left')"
      by (cases "read_stream rest")
    with 1(2) Got have eqs: "rs = r # rs'" "e = e'" "left = left'"
      by (simp_all add: read_stream.simps [of bs])
    from 1(1) [OF Got rest] read_record_append(2) [OF Got, of tail] show ?thesis
      by (subst read_stream.simps) (simp add: eqs split: option.split prod.split)
  next
    case More
    with 1(2) have "rs = []" "e = None" "left = bs" by (simp_all add: read_stream.simps [of bs])
    then show ?thesis by (simp split: prod.split)
  next
    case (Bad er)
    with 1(2) read_record_append(1) [OF Bad, of tail] show ?thesis
      by (auto simp: read_stream.simps [of bs] read_stream.simps [of "bs @ tail"])
  qed
qed

lemma read_record_partial: "parser_inv p \<Longrightarrow> read_record (partial p) = More"
  by (cases "ps_body p")
    (auto simp: parser_inv_def partial_def read_record_def read_payload_def)

lemma feed_all_reads:
  assumes "parser_inv p" and "ps_error p = None" and "feed_all p pieces = (rs, q)"
  shows "parser_inv q \<and> read_stream (partial p @ concat pieces) = (rs, ps_error q, partial q)"
  using assms
proof (induction pieces arbitrary: p rs q)
  case Nil
  with read_record_partial [OF Nil(1)] show ?case by (auto simp: read_stream.simps)
next
  case (Cons piece pieces)
  obtain rs1 p1 where f: "feed p piece = (rs1, p1)" by (cases "feed p piece")
  obtain rs2 q' where g: "feed_all p1 pieces = (rs2, q')" by (cases "feed_all p1 pieces")
  from Cons.prems(3) f g have eqs: "rs = rs1 @ rs2" "q = q'" by simp_all
  from feed_reads [OF Cons.prems(1,2) f]
  have p1: "parser_inv p1" "read_stream (partial p @ piece) = (rs1, ps_error p1, partial p1)" by simp_all
  note app = read_stream_append [OF p1(2), of "concat pieces"]
  show ?case
  proof (cases "ps_error p1")
    case None
    from Cons.IH [OF p1(1) None g] app None show ?thesis by (simp add: eqs)
  next
    case (Some e)
    with g have "rs2 = []" "q' = p1" by (simp_all add: feed_all_error)
    moreover have "partial p1 = []" using p1(1) Some by (simp add: parser_inv_def partial_def)
    ultimately show ?thesis using app Some p1(1) by (simp add: eqs)
  qed
qed

text \<open>
  C15. Whatever the pieces in which a stream arrives, the parser returns the records that the stream's
  bytes hold when they are read at once, ends with the same error if they hold a malformed record,
  and keeps exactly the bytes of the record in progress.
\<close>

theorem parser_is_incremental:
  "(let (rs, p) = feed_all parser_new pieces in (rs, ps_error p, partial p)) =
     read_stream (concat pieces)"
  using feed_all_reads [OF parser_inv_new(1,3)]
  by (cases "feed_all parser_new pieces") (simp add: parser_inv_new)

text \<open>
  C16. Records that the encoder produced come out of the parser as they went in, in order, however the
  stream of them is cut into pieces, with nothing left over.
\<close>

theorem records_roundtrip:
  assumes "\<And>r. r \<in> set rs \<Longrightarrow> length (rec_instance_id r) = 16 \<and>
      encode_record (rec_type r) (rec_instance_id r) (rec_epoch r) (rec_sequence r) (rec_payload r) [] =
        (Inr (), encoded r)"
    and "concat pieces = concat (map encoded rs)"
  shows "fst (feed_all parser_new pieces) = rs \<and> buffered (snd (feed_all parser_new pieces)) = 0 \<and>
    ps_error (snd (feed_all parser_new pieces)) = None"
proof -
  have "valid_record r \<and> encoded r = record_bytes r" if "r \<in> set rs" for r
    using assms(1) [OF that] by (cases r) (auto simp: encode_record_Inr valid_record_def)
  then have valid: "\<And>r. r \<in> set rs \<Longrightarrow> valid_record r" and "map encoded rs = map record_bytes rs"
    by simp_all
  with assms(2) have bytes: "concat pieces = concat (map record_bytes rs)" by simp
  obtain rs' q where f: "feed_all parser_new pieces = (rs', q)" by (cases "feed_all parser_new pieces")
  have "read_stream (concat pieces) = (rs, None, [])" by (rule read_stream_all [OF valid bytes])
  with feed_all_reads [OF parser_inv_new(1,3) f] length_partial [of q] f show ?thesis
    by (simp add: parser_inv_new)
qed

theorem records_roundtrip_witness:
  "fst (feed_all parser_new
     [record_bytes \<lparr>rec_type = Data, rec_instance_id = replicate 16 9, rec_epoch = 1,
                    rec_sequence = 4, rec_payload = [1, 2, 3]\<rparr>]) =
   [\<lparr>rec_type = Data, rec_instance_id = replicate 16 9, rec_epoch = 1, rec_sequence = 4,
     rec_payload = [1, 2, 3]\<rparr>]"
proof -
  let ?r = "\<lparr>rec_type = Data, rec_instance_id = replicate 16 9, rec_epoch = 1, rec_sequence = 4,
    rec_payload = [1, 2, 3]\<rparr>"
  have "length (rec_instance_id ?r) = 16 \<and> encode_record (rec_type ?r) (rec_instance_id ?r)
      (rec_epoch ?r) (rec_sequence ?r) (rec_payload ?r) [] = (Inr (), record_bytes ?r)"
    by code_simp
  then show ?thesis
    using records_roundtrip [of "[?r]" record_bytes "[record_bytes ?r]"] by simp
qed

lemma read_stream_failed:
  "read_stream bs = (rs, Some e, left) \<Longrightarrow>
     \<exists>rest. bs = concat (map record_bytes rs) @ rest \<and> read_record rest = Bad e \<and> (\<forall>r\<in>set rs. valid_record r)"
proof (induction bs arbitrary: rs rule: read_stream.induct)
  case (1 bs)
  show ?case
  proof (cases "read_record bs")
    case (Got r tail)
    obtain rs' e' left' where t: "read_stream tail = (rs', e', left')" by (cases "read_stream tail")
    with 1(2) Got have "rs = r # rs'" "e' = Some e" "left' = left" by (simp_all add: read_stream.simps [of bs])
    moreover from 1(1) [OF Got] t calculation obtain rest where "tail = concat (map record_bytes rs') @ rest"
      "read_record rest = Bad e" "\<forall>r\<in>set rs'. valid_record r" by auto
    ultimately show ?thesis using read_record_Got [OF Got] by auto
  qed (use 1(2) in \<open>auto simp: read_stream.simps [of bs]\<close>)
qed

text \<open>
  C17. Whatever arrives, and also when the stream turns out to be malformed, every record that the parser
  returns satisfies the rules of the encoder, and the records that it returned are what the stream starts
  with: it invents, drops and reorders nothing. As long as the parser has not failed, the rest of the
  stream is what it holds; once it has, the rest starts with a malformed record of the reported error, and
  nothing is held.
\<close>

theorem parser_is_sound:
  assumes "feed_all parser_new pieces = (rs, p)"
  shows "(\<forall>r \<in> set rs. valid_record r) \<and>
    (\<exists>rest. concat pieces = concat (map record_bytes rs) @ rest \<and>
       (case ps_error p of
          None \<Rightarrow> rest = partial p \<and> length rest = buffered p
        | Some e \<Rightarrow> read_record rest = Bad e \<and> buffered p = 0))"
proof -
  from feed_all_reads [OF parser_inv_new(1,3) assms]
  have r: "parser_inv p" "read_stream (concat pieces) = (rs, ps_error p, partial p)"
    by (simp_all add: parser_inv_new)
  show ?thesis
  proof (cases "ps_error p")
    case None
    with r read_stream_sound [of "concat pieces" rs None "partial p"] length_partial [of p] show ?thesis by auto
  next
    case (Some e)
    with r(1) have "buffered p = 0" by (simp add: parser_inv_def buffered_def)
    with Some read_stream_failed [OF r(2) [unfolded Some]] show ?thesis by auto
  qed
qed

definition sound_record :: nvxs_record where
  "sound_record = \<lparr>rec_type = Data, rec_instance_id = replicate 16 9, rec_epoch = 1, rec_sequence = 4, rec_payload = [1, 2]\<rparr>"

definition sound_pieces :: "bytes list" where
  "sound_pieces = [take 20 (record_bytes sound_record), drop 20 (record_bytes sound_record) @ [0], replicate 50 0]"

theorem parser_is_sound_witness:
  "feed_all parser_new sound_pieces = ([sound_record], snd (feed_all parser_new sound_pieces)) \<and>
   ps_error (snd (feed_all parser_new sound_pieces)) = Some (BadMagic [0, 0, 0, 0]) \<and> valid_record sound_record \<and>
   (\<exists>rest. concat sound_pieces = record_bytes sound_record @ rest \<and> read_record rest = Bad (BadMagic [0, 0, 0, 0]))"
proof -
  have f: "feed_all parser_new sound_pieces = ([sound_record], snd (feed_all parser_new sound_pieces))"
    and e: "ps_error (snd (feed_all parser_new sound_pieces)) = Some (BadMagic [0, 0, 0, 0])" by code_simp+
  from parser_is_sound [OF f] e f show ?thesis by auto
qed

lemma read_record_needed:
  assumes inv: "parser_inv p" and le: "length input \<le> needed p"
    and got: "read_record (partial p @ input) = Got r rest"
  shows "rest = []"
proof (cases "ps_body p")
  case None
  with inv have len: "length (partial p) = ps_header_len p" "ps_header_len p < outer_header_len"
    by (auto simp: parser_inv_def partial_def)
  with got le None show ?thesis
    by (auto simp: read_record_def read_payload_def needed_def split: if_splits sum.splits)
next
  case (Some b)
  obtain h payload where b: "ps_body p = Some (h, payload)" using Some by (cases b) simp
  with inv have "length (ps_header p) = outer_header_len" "ps_header_len p = outer_header_len"
    "parse_header (ps_header p) = Inr h" "length payload < hd_length h"
    by (simp_all add: parser_inv_def)
  with got le b show ?thesis
    by (auto simp: read_record_def read_payload_def needed_def partial_def split: if_splits sum.splits)
qed

text \<open>
  C18. At any time, also after a malformed record, the parser holds less than the header and one maximal
  payload, and needs at least one more byte and at most a maximal payload. A call that succeeds consumes
  no more than it was given, and all of it if that was no more than the parser needed, so that such a
  caller never reads a byte after the record in progress; a call that fails leaves nothing held.
\<close>

theorem parser_is_bounded:
  assumes "feed_all parser_new pieces = (rs, p)"
  shows "buffered p < outer_header_len + outer_max_payload \<and> 0 < needed p \<and> needed p \<le> outer_max_payload \<and>
    (case push p input of
       (Inl e, q) \<Rightarrow> ps_error q = Some e \<and> buffered q = 0
     | (Inr (n, r), q) \<Rightarrow> n \<le> length input \<and> (length input \<le> needed p \<longrightarrow> n = length input))"
proof -
  have inv: "parser_inv p" using feed_all_reads [OF parser_inv_new(1,3) assms(1)] by simp
  have ok: "hd_length h \<le> outer_max_payload" if "ps_body p = Some (h, payload)" for h payload
    using parser_inv_hd [OF inv that] allows_length_bound by (auto simp: header_ok_def)
  have "case push p input of
       (Inl e, q) \<Rightarrow> ps_error q = Some e \<and> buffered q = 0
     | (Inr (n, r), q) \<Rightarrow> n \<le> length input \<and> (length input \<le> needed p \<longrightarrow> n = length input)"
  proof (cases "ps_error p")
    case None
    show ?thesis
      using push_reads [OF inv None, of input] read_record_needed [OF inv, of input]
      by (auto simp: reads_def parser_inv_def buffered_def split: reading.splits)
  next
    case (Some e)
    with inv show ?thesis by (simp add: push_error parser_inv_def buffered_def)
  qed
  with inv ok show ?thesis
    by (auto simp: parser_inv_def buffered_def needed_def outer_header_len_def outer_max_payload_def
        split: option.splits)
qed

theorem parser_is_bounded_witness:
  "feed_all parser_new sound_pieces = ([sound_record], snd (feed_all parser_new sound_pieces)) \<and>
   buffered (snd (feed_all parser_new sound_pieces)) < outer_header_len + outer_max_payload \<and>
   0 < needed (snd (feed_all parser_new sound_pieces))"
proof -
  have "feed_all parser_new sound_pieces = ([sound_record], snd (feed_all parser_new sound_pieces))" by code_simp
  with parser_is_bounded [OF this] show ?thesis by blast
qed

end
