(* ===== verification/Nvxs_Session.thy ===== *)
theory Nvxs_Session
  imports Nvxs_Parser
begin

text \<open>
  What the two roles of an NVXS session share (\<^verbatim>\<open>protocol/nvxs/mod.rs\<close>): identities, failures, the
  checks of a record's sequence number and identity, and the encoding of a role's next record. The
  locale \<open>record_session\<close> is the contract between a role and its parser: a role that receives as both
  roles do judges the records of the stream, whatever the pieces in which the stream arrives.
\<close>

section \<open>Identities and failures\<close>

record identity =
  id_instance :: bytes
  id_epoch :: u64

datatype session_error =
    SessionRecord record_error
  | Unexpected record_type
  | MissingIdentity record_type
  | OtherInstance bytes bytes
  | OtherEpoch u64 u64
  | StaleEpoch u64 u64
  | OtherSequence u64 u64
  | SequenceOverflow record_type
  | WindowExceeded u32 u32 u32
  | InvalidCredit u32 u32
  | Truncated usize
  | InvalidState

definition record_identity :: "nvxs_record \<Rightarrow> identity option" where
  "record_identity r =
     (if rec_instance_id r \<noteq> replicate 16 0 \<and> rec_epoch r \<noteq> 0
      then Some \<lparr>id_instance = rec_instance_id r, id_epoch = rec_epoch r\<rparr> else None)"

definition next_sequence :: "u64 \<Rightarrow> record_type \<Rightarrow> (session_error, u64) result" where
  "next_sequence sequence t = ok_or (SequenceOverflow t) (checked_add sequence 1)"

definition check_sequence :: "nvxs_record \<Rightarrow> u64 \<Rightarrow> (session_error, unit) result" where
  "check_sequence r expected =
     (if rec_sequence r = expected then Inr () else Inl (OtherSequence expected (rec_sequence r)))"

definition check_identity :: "nvxs_record \<Rightarrow> identity \<Rightarrow> (session_error, unit) result" where
  "check_identity r i =
     (if rec_instance_id r \<noteq> id_instance i then Inl (OtherInstance (id_instance i) (rec_instance_id r))
      else if rec_epoch r \<noteq> id_epoch i then Inl (OtherEpoch (id_epoch i) (rec_epoch r))
      else Inr ())"

section \<open>The next record of a role\<close>

definition encode_next ::
  "record_type \<Rightarrow> identity \<Rightarrow> u64 \<Rightarrow> bytes \<Rightarrow> bytes \<Rightarrow> (session_error, unit) result \<times> u64 \<times> bytes" where
  "encode_next t i sequence payload out =
     (case next_sequence sequence t of
        Inl e \<Rightarrow> (Inl e, sequence, out)
      | Inr next \<Rightarrow>
          (case encode_record t (id_instance i) (id_epoch i) sequence payload out of
             (Inl e, out) \<Rightarrow> (Inl (SessionRecord e), sequence, out)
           | (Inr _, out) \<Rightarrow> (Inr (), next, out)))"

definition encode_data ::
  "identity \<Rightarrow> u64 \<Rightarrow> bytes \<Rightarrow> bytes \<Rightarrow> (session_error, usize) result \<times> u64 \<times> bytes" where
  "encode_data i sequence data out =
     (let taken = min (length data) outer_max_payload
      in case encode_next Data i sequence (take taken data) out of
           (Inl e, sequence, out) \<Rightarrow> (Inl e, sequence, out)
         | (Inr _, sequence, out) \<Rightarrow> (Inr taken, sequence, out))"

section \<open>Facts\<close>

definition identity_ok :: "identity \<Rightarrow> bool" where
  "identity_ok i \<longleftrightarrow>
     length (id_instance i) = 16 \<and> id_instance i \<noteq> replicate 16 0 \<and> id_epoch i \<noteq> 0"

definition session_record :: "record_type \<Rightarrow> identity \<Rightarrow> u64 \<Rightarrow> bytes \<Rightarrow> nvxs_record" where
  "session_record t i sequence payload =
     \<lparr>rec_type = t, rec_instance_id = id_instance i, rec_epoch = id_epoch i, rec_sequence = sequence,
      rec_payload = payload\<rparr>"

lemma session_record_simps [simp]:
  "rec_type (session_record t i q pl) = t" "rec_instance_id (session_record t i q pl) = id_instance i"
  "rec_epoch (session_record t i q pl) = id_epoch i" "rec_sequence (session_record t i q pl) = q"
  "rec_payload (session_record t i q pl) = pl"
  by (simp_all add: session_record_def)

lemma record_identity_Some:
  "record_identity r = Some i \<longleftrightarrow>
     rec_instance_id r = id_instance i \<and> rec_epoch r = id_epoch i \<and>
     id_instance i \<noteq> replicate 16 0 \<and> id_epoch i \<noteq> 0"
  by (cases i) (auto simp: record_identity_def)

lemma record_identity_ok: "record_identity r = Some i \<Longrightarrow> valid_record r \<Longrightarrow> identity_ok i"
  by (simp add: record_identity_Some identity_ok_def valid_record_def)

lemma next_sequence_Inr:
  "next_sequence q t = Inr n \<longleftrightarrow> unat q + 1 < 2 ^ 64 \<and> n = q + 1"
  by (auto simp: next_sequence_def checked_add_Some_iff)

lemma check_sequence_Inr: "check_sequence r q = Inr u \<longleftrightarrow> rec_sequence r = q"
  by (simp add: check_sequence_def)

lemma check_identity_Inr:
  "check_identity r i = Inr u \<longleftrightarrow> rec_instance_id r = id_instance i \<and> rec_epoch r = id_epoch i"
  by (simp add: check_identity_def)

lemma encode_next_Inr:
  "encode_next t i q payload out = (Inr u, q', out') \<longleftrightarrow>
     unat q + 1 < 2 ^ 64 \<and> q' = q + 1 \<and> allows_length t (length payload) \<and>
     check_bootstrap t (id_instance i) (id_epoch i) q = Inr () \<and> check_payload t payload = Inr () \<and>
     out' = out @ record_bytes (session_record t i q payload)"
  by (auto simp: encode_next_def session_record_def next_sequence_Inr encode_record_Inr
      split: sum.splits prod.splits) (auto simp: next_sequence_def checked_add_def encode_record_def
      check_length_def split: sum.splits)

lemma encode_next_Inl: "encode_next t i q payload out = (Inl e, q', out') \<Longrightarrow> q' = q \<and> out' = out"
  by (auto simp: encode_next_def dest: encode_record_Inl split: sum.splits prod.splits)

lemma encode_data_Inr:
  "encode_data i q bs out = (Inr n, q', out') \<longleftrightarrow>
     unat q + 1 < 2 ^ 64 \<and> bs \<noteq> [] \<and> n = min (length bs) outer_max_payload \<and> q' = q + 1 \<and>
     out' = out @ record_bytes (session_record Data i q (take n bs))"
proof -
  have "encode_next Data i q (take n bs) out = (Inr (), q', out') \<longleftrightarrow>
      unat q + 1 < 2 ^ 64 \<and> bs \<noteq> [] \<and> q' = q + 1 \<and>
      out' = out @ record_bytes (session_record Data i q (take n bs))"
    if "n = min (length bs) outer_max_payload"
    using that by (cases bs) (auto simp: encode_next_Inr check_bootstrap_def outer_max_payload_def)
  then show ?thesis
    by (auto simp: encode_data_def Let_def split: sum.splits prod.splits)
qed

lemma encode_data_Inl: "encode_data i q bs out = (Inl e, q', out') \<Longrightarrow> q' = q \<and> out' = out"
  by (auto simp: encode_data_def Let_def dest: encode_next_Inl split: sum.splits prod.splits)

lemma valid_data_record:
  "length (id_instance i) = 16 \<Longrightarrow> payload \<noteq> [] \<Longrightarrow> length payload \<le> outer_max_payload \<Longrightarrow>
   valid_record (session_record Data i q payload)"
  by (cases payload) (simp_all add: valid_record_def check_bootstrap_def)

section \<open>Receiving in pieces\<close>

text \<open>
  A caller that hands a role the pieces of the broker's stream, one after the other, and again what a
  call left of a piece, until the role has ended.
\<close>

function take_in ::
  "('s \<Rightarrow> bool) \<Rightarrow> ('s \<Rightarrow> bytes \<Rightarrow> (session_error, usize \<times> 'ev option) result \<times> 's)
     \<Rightarrow> 's \<Rightarrow> bytes \<Rightarrow> 'ev list \<times> session_error option \<times> 's" where
  "take_in is_open receive s input =
     (if input = [] \<or> \<not> is_open s then ([], None, s)
      else (case receive s input of
              (Inl e, s') \<Rightarrow> ([], Some e, s')
            | (Inr (n, None), s') \<Rightarrow> ([], None, s')
            | (Inr (n, Some ev), s') \<Rightarrow>
                if n = 0 then ([ev], None, s')
                else (let (evs, e, t) = take_in is_open receive s' (drop n input) in (ev # evs, e, t))))"
  by pat_completeness auto
termination by (relation "measure (\<lambda>(_, _, _, input). length input)") auto

declare take_in.simps [simp del]

fun take_pieces ::
  "('s \<Rightarrow> bool) \<Rightarrow> ('s \<Rightarrow> bytes \<Rightarrow> (session_error, usize \<times> 'ev option) result \<times> 's)
     \<Rightarrow> 's \<Rightarrow> bytes list \<Rightarrow> 'ev list \<times> session_error option \<times> 's" where
  "take_pieces is_open receive s [] = ([], None, s)"
| "take_pieces is_open receive s (piece # pieces) =
     (case take_in is_open receive s piece of
        (evs, Some e, s') \<Rightarrow> (evs, Some e, s')
      | (evs, None, s') \<Rightarrow>
          (let (evs', e, t) = take_pieces is_open receive s' pieces in (evs @ evs', e, t)))"

text \<open>What a role makes of records: the specification of its side of the stream.\<close>

fun judge ::
  "('s \<Rightarrow> bool) \<Rightarrow> ('s \<Rightarrow> nvxs_record \<Rightarrow> (session_error, 'ev) result \<times> 's) \<Rightarrow> ('s \<Rightarrow> 's)
     \<Rightarrow> 's \<Rightarrow> nvxs_record list \<Rightarrow> 'ev list \<times> session_error option \<times> 's" where
  "judge is_open accept fail s [] = ([], None, s)"
| "judge is_open accept fail s (r # rs) =
     (if is_open s
      then (case accept s r of
              (Inl e, s') \<Rightarrow> ([], Some e, fail s')
            | (Inr ev, s') \<Rightarrow>
                (let (evs, e, t) = judge is_open accept fail s' rs in (ev # evs, e, t)))
      else ([], None, s))"

definition judge_stream ::
  "('s \<Rightarrow> bool) \<Rightarrow> ('s \<Rightarrow> nvxs_record \<Rightarrow> (session_error, 'ev) result \<times> 's) \<Rightarrow> ('s \<Rightarrow> 's)
     \<Rightarrow> 's \<Rightarrow> nvxs_record list \<Rightarrow> record_error option \<Rightarrow> 'ev list \<times> session_error option \<times> 's" where
  "judge_stream is_open accept fail s rs re =
     (let (evs, e, t) = judge is_open accept fail s rs
      in case re of
           Some x \<Rightarrow> if e = None \<and> is_open t then (evs, Some (SessionRecord x), fail t) else (evs, e, t)
         | None \<Rightarrow> (evs, e, t))"

locale record_session =
  fixes is_open :: "'s \<Rightarrow> bool"
    and parser_of :: "'s \<Rightarrow> record_parser"
    and with_parser :: "'s \<Rightarrow> record_parser \<Rightarrow> 's"
    and accept :: "'s \<Rightarrow> nvxs_record \<Rightarrow> (session_error, 'ev) result \<times> 's"
    and fail :: "'s \<Rightarrow> 's"
    and receive :: "'s \<Rightarrow> bytes \<Rightarrow> (session_error, usize \<times> 'ev option) result \<times> 's"
  assumes receive_closed: "\<not> is_open s \<Longrightarrow> receive s input = (Inl InvalidState, s)"
    and receive_open: "is_open s \<Longrightarrow> receive s input =
      (case push (parser_of s) input of
         (Inl e, p) \<Rightarrow> (Inl (SessionRecord e), fail (with_parser s p))
       | (Inr (n, None), p) \<Rightarrow> (Inr (n, None), with_parser s p)
       | (Inr (n, Some r), p) \<Rightarrow>
           (case accept (with_parser s p) r of
              (Inl e, s') \<Rightarrow> (Inl e, fail s')
            | (Inr ev, s') \<Rightarrow> (Inr (n, Some ev), s')))"
    and parser_with: "parser_of (with_parser s p) = p"
    and with_with: "with_parser (with_parser s p) q = with_parser s q"
    and with_same: "with_parser s (parser_of s) = s"
    and open_with: "is_open (with_parser s p) = is_open s"
    and accept_with: "accept (with_parser s p) r = (fst (accept s r), with_parser (snd (accept s r)) p)"
    and fail_with: "fail (with_parser s p) = with_parser (fail s) p"
    and fail_closed: "\<not> is_open (fail s)"
begin

definition same_role :: "'s \<Rightarrow> 's \<Rightarrow> bool" where
  "same_role s t \<longleftrightarrow> (\<forall>p. with_parser s p = with_parser t p)"

lemma same_role_with [simp]: "same_role (with_parser s p) t = same_role s t"
  "same_role s (with_parser t p) = same_role s t"
  by (simp_all add: same_role_def with_with)

lemma same_role_refl [simp]: "same_role s s"
  by (simp add: same_role_def)

lemma same_role_D: "same_role s t \<Longrightarrow> s = with_parser t (parser_of s)"
  unfolding same_role_def using with_same by metis

lemma judge_with:
  "judge is_open accept fail (with_parser s p) rs =
     (case judge is_open accept fail s rs of (evs, e, t) \<Rightarrow> (evs, e, with_parser t p))"
proof (induction rs arbitrary: s)
  case (Cons r rs)
  then show ?case
    by (cases "accept s r"; cases "fst (accept s r)")
      (auto simp: open_with accept_with fail_with split: prod.split)
qed simp

lemma judge_closed: "\<not> is_open s \<Longrightarrow> judge is_open accept fail s rs = ([], None, s)"
  by (cases rs) simp_all

lemma judge_append:
  "judge is_open accept fail s (rs @ rs') =
     (case judge is_open accept fail s rs of
        (evs, Some e, t) \<Rightarrow> (evs, Some e, t)
      | (evs, None, t) \<Rightarrow> (let (evs', e, u) = judge is_open accept fail t rs' in (evs @ evs', e, u)))"
proof (induction rs arbitrary: s)
  case (Cons r rs)
  then show ?case
    by (auto simp: judge_closed split: prod.split sum.split option.split)
qed (simp split: prod.split)

lemma judge_failed:
  "judge is_open accept fail s rs = (evs, Some e, t) \<Longrightarrow> \<not> is_open t"
proof (induction rs arbitrary: s evs)
  case (Cons r rs)
  then show ?case
    by (auto simp: fail_closed split: if_splits prod.splits sum.splits)
qed simp

lemma judge_stream_Cons:
  "is_open s \<Longrightarrow> judge_stream is_open accept fail s (r # rs) re =
     (case accept s r of
        (Inl e, u) \<Rightarrow> ([], Some e, fail u)
      | (Inr ev, u) \<Rightarrow>
          (let (evs, e, t) = judge_stream is_open accept fail u rs re in (ev # evs, e, t)))"
  by (auto simp: judge_stream_def Let_def split: prod.split sum.split option.split)

lemma judge_stream_with:
  "judge_stream is_open accept fail (with_parser s p) rs re =
     (case judge_stream is_open accept fail s rs re of (evs, e, t) \<Rightarrow> (evs, e, with_parser t p))"
  by (cases "judge is_open accept fail s rs")
    (auto simp: judge_stream_def judge_with open_with fail_with split: option.split)

lemma judge_stream_closed:
  "\<not> is_open s \<Longrightarrow> judge_stream is_open accept fail s rs re = ([], None, s)"
  by (simp add: judge_stream_def judge_closed split: option.split)

lemma take_in_got:
  assumes "is_open s" and inv: "parser_inv (parser_of s)" and ne: "ps_error (parser_of s) = None"
    and "input \<noteq> []" and got: "read_record (partial (parser_of s) @ input) = Got r rest"
  obtains p where "parser_inv p" "ps_error p = None" "partial p = []" "length rest < length input"
    "take_in is_open receive s input =
       (case accept s r of
          (Inl e, u) \<Rightarrow> ([], Some e, fail (with_parser u p))
        | (Inr ev, u) \<Rightarrow>
            (let (evs, e, t) = take_in is_open receive (with_parser u p) rest in (ev # evs, e, t)))"
proof -
  from push_reads [OF inv ne, of input, unfolded reads_def] got
  obtain p n where p: "push (parser_of s) input = (Inr (n, Some r), p)" "parser_inv p"
    "ps_error p = None" "partial p = []" "0 < n" "n \<le> length input" "rest = drop n input" by auto
  obtain res u where acc: "accept s r = (res, u)" by (cases "accept s r")
  have "take_in is_open receive s input =
      (case res of
         Inl e \<Rightarrow> ([], Some e, fail (with_parser u p))
       | Inr ev \<Rightarrow>
           (let (evs, e, t) = take_in is_open receive (with_parser u p) rest in (ev # evs, e, t)))"
    using assms(1,4) p(1,5,7) acc
    by (cases res) (simp_all add: take_in.simps [of _ _ s] receive_open accept_with)
  with that p assms(4) acc show ?thesis by simp
qed

lemma take_in_stop:
  assumes "is_open s" and inv: "parser_inv (parser_of s)" and ne: "ps_error (parser_of s) = None"
    and "input \<noteq> []" and stop: "\<And>r rest. read_record (partial (parser_of s) @ input) \<noteq> Got r rest"
    and tk: "take_in is_open receive s input = (evs, err, t)"
    and rd: "read_stream (partial (parser_of s) @ input) = (rs, re, left)"
  shows "\<exists>t'. judge_stream is_open accept fail s rs re = (evs, err, t') \<and> same_role t t' \<and>
    (err = None \<and> is_open t \<longrightarrow>
       parser_inv (parser_of t) \<and> ps_error (parser_of t) = None \<and> partial (parser_of t) = left)"
proof -
  note step = push_reads [OF inv ne, of input, unfolded reads_def]
  show ?thesis
  proof (cases "read_record (partial (parser_of s) @ input)")
    case More
    with step obtain p' where p': "push (parser_of s) input = (Inr (length input, None), p')"
      "parser_inv p'" "ps_error p' = None" "partial p' = partial (parser_of s) @ input" by auto
    with tk assms(1,4) have "evs = []" "err = None" "t = with_parser s p'"
      by (simp_all add: take_in.simps [of _ _ s] receive_open)
    moreover have "rs = []" "re = None" "left = partial (parser_of s) @ input"
      using rd More by (simp_all add: read_stream.simps [of "partial (parser_of s) @ input"])
    ultimately show ?thesis using p' by (simp add: judge_stream_def parser_with)
  next
    case (Bad x)
    with step obtain p' where "push (parser_of s) input = (Inl x, p')" by auto
    with tk assms(1,4) have "evs = []" "err = Some (SessionRecord x)" "t = fail (with_parser s p')"
      by (simp_all add: take_in.simps [of _ _ s] receive_open)
    moreover have "rs = []" "re = Some x"
      using rd Bad by (simp_all add: read_stream.simps [of "partial (parser_of s) @ input"])
    ultimately show ?thesis using assms(1) by (simp add: judge_stream_def fail_with)
  qed (use stop in blast)
qed

lemma take_in_judges:
  assumes "is_open s" and "parser_inv (parser_of s)" and "ps_error (parser_of s) = None"
    and "take_in is_open receive s input = (evs, err, t)"
    and "read_stream (partial (parser_of s) @ input) = (rs, re, left)"
  shows "\<exists>t'. judge_stream is_open accept fail s rs re = (evs, err, t') \<and> same_role t t' \<and>
    (err = None \<and> is_open t \<longrightarrow>
       parser_inv (parser_of t) \<and> ps_error (parser_of t) = None \<and> partial (parser_of t) = left)"
  using assms
proof (induction input arbitrary: s evs rs rule: length_induct)
  case (1 input)
  note op = 1(2) and inv = 1(3) and ne = 1(4) and tk = 1(5) and rd = 1(6)
  consider (empty) "input = []" | (got) r rest where "input \<noteq> []"
      "read_record (partial (parser_of s) @ input) = Got r rest"
    | (stop) "input \<noteq> []" "\<And>r rest. read_record (partial (parser_of s) @ input) \<noteq> Got r rest"
    by blast
  then show ?case
  proof cases
    case empty
    have "read_stream (partial (parser_of s)) = ([], None, partial (parser_of s))"
      by (simp add: read_stream.simps read_record_partial [OF inv])
    with empty op tk rd inv ne show ?thesis by (auto simp: take_in.simps judge_stream_def)
  next
    case stop
    with take_in_stop [OF op inv ne] tk rd show ?thesis by blast
  next
    case (got r rest)
    from take_in_got [OF op inv ne got] obtain p where p: "parser_inv p" "ps_error p = None"
      "partial p = []" "length rest < length input"
      "take_in is_open receive s input =
         (case accept s r of
            (Inl e, u) \<Rightarrow> ([], Some e, fail (with_parser u p))
          | (Inr ev, u) \<Rightarrow>
              (let (evs, e, t) = take_in is_open receive (with_parser u p) rest in (ev # evs, e, t)))" .
    obtain rs' where rs': "rs = r # rs'" "read_stream rest = (rs', re, left)"
      using rd got(2) by (auto simp: read_stream.simps [of "partial (parser_of s) @ input"] split: prod.splits)
    obtain res u where acc: "accept s r = (res, u)" by (cases "accept s r")
    show ?thesis
    proof (cases res)
      case (Inl e)
      with acc p(5) tk op show ?thesis by (auto simp: rs' judge_stream_Cons fail_with fail_closed)
    next
      case (Inr ev)
      obtain evs' where evs': "evs = ev # evs'"
        "take_in is_open receive (with_parser u p) rest = (evs', err, t)"
        using tk p(5) acc Inr by (auto split: prod.splits)
      have "\<exists>t'. judge_stream is_open accept fail (with_parser u p) rs' re = (evs', err, t') \<and>
          same_role t t' \<and> (err = None \<and> is_open t \<longrightarrow> parser_inv (parser_of t) \<and>
            ps_error (parser_of t) = None \<and> partial (parser_of t) = left)"
      proof (cases "is_open u")
        case True
        with 1(1) [rule_format, OF p(4), of "with_parser u p"] p(1,2,3) evs'(2) rs'(2) show ?thesis
          by (simp add: open_with parser_with)
      next
        case False
        with evs'(2) show ?thesis
          by (auto simp: take_in.simps [of _ _ "with_parser u p"] open_with judge_stream_closed)
      qed
      with acc Inr op evs'(1) show ?thesis
        by (auto simp: rs'(1) judge_stream_Cons judge_stream_with split: prod.splits)
    qed
  qed
qed

lemma receive_cases:
  assumes op: "is_open s" and inv: "parser_inv (parser_of s)" and ne: "ps_error (parser_of s) = None"
  obtains (more) q where "receive s input = (Inr (length input, None), with_parser s q)"
      "parser_inv q" "ps_error q = None"
  | (bad) e q where "receive s input = (Inl e, fail (with_parser s q))" "parser_inv q"
  | (refused) r e u q where "valid_record r" "accept s r = (Inl e, u)" "parser_inv q"
      "receive s input = (Inl e, fail (with_parser u q))"
  | (accepted) r ev u q n where "valid_record r" "accept s r = (Inr ev, u)" "parser_inv q"
      "ps_error q = None" "receive s input = (Inr (n, Some ev), with_parser u q)"
proof -
  note step = push_reads [OF inv ne, of input, unfolded reads_def] and recv = receive_open [OF op, of input]
  show ?thesis
  proof (cases "read_record (partial (parser_of s) @ input)")
    case More
    with step recv more show ?thesis by auto
  next
    case (Bad e)
    with step recv bad show ?thesis by auto
  next
    case (Got r rest)
    with step obtain q n where q: "push (parser_of s) input = (Inr (n, Some r), q)" "parser_inv q"
      "ps_error q = None" by auto
    have valid: "valid_record r" using read_record_Got [OF Got] by simp
    obtain res u where acc: "accept s r = (res, u)" by (cases "accept s r")
    then have acc': "accept (with_parser s q) r = (res, with_parser u q)" by (simp add: accept_with)
    show ?thesis
    proof (cases res)
      case (Inl e)
      with recv q(1) acc' have "receive s input = (Inl e, fail (with_parser u q))" by simp
      with refused [OF valid _ q(2)] acc Inl show ?thesis by blast
    next
      case (Inr ev)
      with recv q(1) acc' have "receive s input = (Inr (n, Some ev), with_parser u q)" by simp
      with accepted [OF valid _ q(2,3)] acc Inr show ?thesis by blast
    qed
  qed
qed

text \<open>The pieces one after the other.\<close>

lemma judge_stream_append:
  assumes "judge_stream is_open accept fail s rs None = (evs, None, t)"
  shows "judge_stream is_open accept fail s (rs @ rs') re =
    (let (evs', e, u) = judge_stream is_open accept fail t rs' re in (evs @ evs', e, u))"
proof -
  from assms have "judge is_open accept fail s rs = (evs, None, t)"
    by (auto simp: judge_stream_def split: prod.splits)
  then show ?thesis
    by (auto simp: judge_stream_def judge_append Let_def split: prod.split option.split)
qed

lemma judge_stream_ended:
  assumes "judge_stream is_open accept fail s rs re = (evs, err, t)" and "err \<noteq> None \<or> \<not> is_open t"
    and "read_stream bs = (rs, re, left)" and "read_stream (bs @ tail) = (rs', re', left')"
  shows "judge_stream is_open accept fail s rs' re' = (evs, err, t)"
proof (cases re)
  case (Some x)
  with read_stream_append [OF assms(3), of tail] assms(1,4) show ?thesis by simp
next
  case None
  with read_stream_append [OF assms(3), of tail] assms(4) obtain more where
    rs': "rs' = rs @ more" by (auto split: prod.splits)
  from assms(1) None have j: "judge is_open accept fail s rs = (evs, err, t)"
    by (simp add: judge_stream_def split: prod.splits)
  show ?thesis
  proof (cases err)
    case None
    with assms(2) j show ?thesis
      by (simp add: rs' judge_stream_def judge_append judge_closed split: option.split)
  next
    case (Some e)
    with j show ?thesis
      by (simp add: rs' judge_stream_def judge_append split: option.split)
  qed
qed

lemma take_pieces_closed:
  "\<not> is_open s \<Longrightarrow> take_pieces is_open receive s pieces = ([], None, s)"
  by (induction pieces) (simp_all add: take_in.simps)

lemma take_pieces_judge:
  assumes "is_open s" and "parser_inv (parser_of s)" and "ps_error (parser_of s) = None"
    and "take_pieces is_open receive s pieces = (evs, err, t)"
    and "read_stream (partial (parser_of s) @ concat pieces) = (rs, re, left)"
  shows "\<exists>t'. judge_stream is_open accept fail s rs re = (evs, err, t') \<and> same_role t t'"
  using assms
proof (induction pieces arbitrary: s evs rs)
  case Nil
  have "read_stream (partial (parser_of s)) = ([], None, partial (parser_of s))"
    using read_record_partial [OF Nil(2)] by (simp add: read_stream.simps [of "partial (parser_of s)"])
  with Nil show ?case by (auto simp: judge_stream_def)
next
  case (Cons piece pieces)
  obtain evs1 err1 s1 where t1: "take_in is_open receive s piece = (evs1, err1, s1)"
    by (cases "take_in is_open receive s piece")
  obtain rs1 re1 left1 where r1: "read_stream (partial (parser_of s) @ piece) = (rs1, re1, left1)"
    by (cases "read_stream (partial (parser_of s) @ piece)")
  from take_in_judges [OF Cons.prems(1,2,3) t1 r1] obtain s1' where
    j1: "judge_stream is_open accept fail s rs1 re1 = (evs1, err1, s1')" and same: "same_role s1 s1'"
    and go: "err1 = None \<and> is_open s1 \<longrightarrow> parser_inv (parser_of s1) \<and>
      ps_error (parser_of s1) = None \<and> partial (parser_of s1) = left1" by blast
  have op: "is_open s1 = is_open s1'" using same_role_D [OF same] open_with by metis
  have all: "read_stream ((partial (parser_of s) @ piece) @ concat pieces) = (rs, re, left)"
    using Cons.prems(5) by simp
  show ?case
  proof (cases "err1 = None \<and> is_open s1")
    case False
    with Cons.prems(4) t1 take_pieces_closed have "evs = evs1" "err = err1" "t = s1"
      by (auto split: option.splits)
    with judge_stream_ended [OF j1 _ r1 all] False op same show ?thesis by auto
  next
    case True
    have "re1 = None"
      using j1 True op by (auto simp: judge_stream_def fail_closed split: prod.splits option.splits if_splits)
    with True go r1 all read_stream_append [OF r1, of "concat pieces"]
    obtain rs2 where rs2: "rs = rs1 @ rs2"
      "read_stream (partial (parser_of s1) @ concat pieces) = (rs2, re, left)"
      by (auto split: prod.splits)
    obtain evs2 where evs2: "evs = evs1 @ evs2"
      "take_pieces is_open receive s1 pieces = (evs2, err, t)"
      using Cons.prems(4) t1 True by (auto split: prod.splits)
    from Cons.IH [OF _ _ _ evs2(2) rs2(2)] True go obtain t' where
      j2: "judge_stream is_open accept fail s1 rs2 re = (evs2, err, t')" "same_role t t'" by auto
    have "judge_stream is_open accept fail s1' rs2 re = (evs2, err, with_parser t' (parser_of s1'))"
      using judge_stream_with [of s1 "parser_of s1'" rs2 re] same_role_D [of s1' s1] same j2(1)
      by (simp add: same_role_def with_same)
    with judge_stream_append [of s rs1 evs1 s1' rs2 re] j1 True \<open>re1 = None\<close> evs2(1) rs2(1) j2(2)
    show ?thesis by simp
  qed
qed

end

section \<open>Records in sequence\<close>

fun in_sequence :: "u64 \<Rightarrow> nvxs_record list \<Rightarrow> bool" where
  "in_sequence q [] \<longleftrightarrow> True"
| "in_sequence q (r # rs) \<longleftrightarrow> rec_sequence r = q \<and> unat q + 1 < 2 ^ 64 \<and> in_sequence (q + 1) rs"

lemma in_sequence_append:
  "in_sequence q (rs @ rs') \<longleftrightarrow> in_sequence q rs \<and> in_sequence (q + word_of_nat (length rs)) rs'"
  by (induction rs arbitrary: q) (auto simp: algebra_simps)

lemma in_sequence_nth:
  "in_sequence q rs \<Longrightarrow> k < length rs \<Longrightarrow> unat (rec_sequence (rs ! k)) = unat q + k"
proof (induction rs arbitrary: q k)
  case (Cons r rs)
  then show ?case by (cases k) (auto simp: unat_word_ariths)
qed simp

section \<open>Messages of any length\<close>

text \<open>
  A message as the records that carry it: one for each part of at most the largest payload. A caller
  sends a message by sending what is left of it until nothing is.
\<close>

function parts :: "bytes \<Rightarrow> bytes list" where
  "parts msg = (if msg = [] then [] else take outer_max_payload msg # parts (drop outer_max_payload msg))"
  by pat_completeness auto
termination by (relation "measure length") (auto simp: outer_max_payload_def)

declare parts.simps [simp del]

fun data_records :: "identity \<Rightarrow> u64 \<Rightarrow> bytes list \<Rightarrow> nvxs_record list" where
  "data_records i q [] = []"
| "data_records i q (part # rest) = session_record Data i q part # data_records i (q + 1) rest"

function send_all ::
  "('s \<Rightarrow> bytes \<Rightarrow> bytes \<Rightarrow> (session_error, usize) result \<times> 's \<times> bytes)
     \<Rightarrow> 's \<Rightarrow> bytes \<Rightarrow> bytes \<Rightarrow> session_error option \<times> 's \<times> bytes" where
  "send_all send s msg out =
     (if msg = [] then (None, s, out)
      else (case send s msg out of
              (Inl e, s', out') \<Rightarrow> (Some e, s', out')
            | (Inr n, s', out') \<Rightarrow>
                if n = 0 then (None, s', out') else send_all send s' (drop n msg) out'))"
  by pat_completeness auto
termination by (relation "measure (\<lambda>(_, _, msg, _). length msg)") auto

declare send_all.simps [simp del]

lemma concat_parts: "concat (parts msg) = msg"
  by (induction msg rule: parts.induct) (subst parts.simps, simp)

lemma parts_bounds: "part \<in> set (parts msg) \<Longrightarrow> part \<noteq> [] \<and> length part \<le> outer_max_payload"
proof (induction msg rule: parts.induct)
  case (1 msg)
  show ?case
  proof (cases "msg = []")
    case True
    with 1(2) show ?thesis by (simp add: parts.simps)
  next
    case False
    with 1(2) have "part = take outer_max_payload msg \<or> part \<in> set (parts (drop outer_max_payload msg))"
      by (simp add: parts.simps [of msg])
    with 1(1) False show ?thesis by (auto simp: outer_max_payload_def)
  qed
qed

lemma data_records_valid:
  assumes "length (id_instance i) = 16"
    and "\<And>part. part \<in> set ps \<Longrightarrow> part \<noteq> [] \<and> length part \<le> outer_max_payload"
  shows "r \<in> set (data_records i q ps) \<Longrightarrow> valid_record r"
  using assms by (induction ps arbitrary: q) (auto intro!: valid_data_record)

lemma data_records_simps [simp]:
  "length (data_records i q ps) = length ps" "map rec_payload (data_records i q ps) = ps"
  by (induction ps arbitrary: q) auto

lemma data_records_sequence:
  "unat q + length ps < 2 ^ 64 \<Longrightarrow> in_sequence q (data_records i q ps)"
  by (induction ps arbitrary: q) (auto simp: unat_word_ariths)

lemma data_records_identity:
  "r \<in> set (data_records i q ps) \<Longrightarrow>
     rec_type r = Data \<and> rec_instance_id r = id_instance i \<and> rec_epoch r = id_epoch i"
  by (induction ps arbitrary: q) auto

locale data_sender =
  fixes sends :: "'s \<Rightarrow> identity \<Rightarrow> bool"
    and sequence_of :: "'s \<Rightarrow> u64"
    and with_sequence :: "'s \<Rightarrow> u64 \<Rightarrow> 's"
    and send :: "'s \<Rightarrow> bytes \<Rightarrow> bytes \<Rightarrow> (session_error, usize) result \<times> 's \<times> bytes"
  assumes send_encodes: "sends s i \<Longrightarrow> send s bs out =
      (case encode_data i (sequence_of s) bs out of (res, q, out) \<Rightarrow> (res, with_sequence s q, out))"
    and sends_with: "sends (with_sequence s q) i = sends s i"
    and sequence_with: "sequence_of (with_sequence s q) = q"
    and with_sequence_with: "with_sequence (with_sequence s q) q' = with_sequence s q'"
    and with_sequence_same: "with_sequence s (sequence_of s) = s"
begin

lemma send_all_parts:
  assumes "sends s i" and "unat (sequence_of s) + length (parts msg) < 2 ^ 64"
  shows "send_all send s msg out =
    (None, with_sequence s (sequence_of s + word_of_nat (length (parts msg))),
     out @ concat (map record_bytes (data_records i (sequence_of s) (parts msg))))"
  using assms
proof (induction msg arbitrary: s out rule: parts.induct)
  case (1 msg)
  show ?case
  proof (cases "msg = []")
    case True
    then show ?thesis
      by (simp add: send_all.simps [of _ s] parts.simps [of "[]"] with_sequence_same)
  next
    case False
    define n where "n = min (length msg) outer_max_payload"
    let ?q = "sequence_of s"
    have parts: "parts msg = take outer_max_payload msg # parts (drop outer_max_payload msg)"
      using False by (simp add: parts.simps [of msg])
    have part: "take n msg = take outer_max_payload msg" "drop n msg = drop outer_max_payload msg"
      by (cases "length msg \<le> outer_max_payload"; simp add: n_def min_def)+
    have q: "unat ?q + 1 < 2 ^ 64" "unat (?q + 1) = unat ?q + 1"
      using 1(3) by (auto simp: parts unat_word_ariths)
    have "encode_data i ?q msg out = (Inr n, ?q + 1, out @ record_bytes (session_record Data i ?q (take n msg)))"
      using q False by (simp add: encode_data_Inr n_def)
    with 1(2) have send: "send s msg out = (Inr n, with_sequence s (?q + 1),
        out @ record_bytes (session_record Data i ?q (take outer_max_payload msg)))"
      by (simp add: send_encodes part)
    have n: "n \<noteq> 0" using False by (simp add: n_def outer_max_payload_def)
    have IH: "send_all send (with_sequence s (?q + 1)) (drop outer_max_payload msg) out' =
        (None, with_sequence s (?q + 1 + word_of_nat (length (parts (drop outer_max_payload msg)))),
         out' @ concat (map record_bytes (data_records i (?q + 1) (parts (drop outer_max_payload msg)))))"
      for out'
      using 1(1) [OF False, of "with_sequence s (?q + 1)" out'] 1(2,3) q
      by (simp add: sends_with sequence_with with_sequence_with parts)
    have "send_all send s msg out = send_all send (with_sequence s (?q + 1))
        (drop outer_max_payload msg) (out @ record_bytes (session_record Data i ?q (take outer_max_payload msg)))"
      using False send n by (simp add: send_all.simps [of _ s] part(2))
    then show ?thesis by (simp add: IH parts add.assoc)
  qed
qed

end

text \<open>What a parser of the other side makes of the bytes.\<close>

lemma data_records_parse:
  assumes "length (id_instance i) = 16"
    and "concat pieces = concat (map record_bytes (data_records i q (parts msg)))"
  shows "fst (feed_all parser_new pieces) = data_records i q (parts msg)"
proof -
  obtain rs p where f: "feed_all parser_new pieces = (rs, p)" by (cases "feed_all parser_new pieces")
  have "read_stream (concat pieces) = (data_records i q (parts msg), None, [])"
    by (rule read_stream_all [OF data_records_valid [OF assms(1) parts_bounds] assms(2)])
  with feed_all_reads [OF parser_inv_new(1,3) f] f show ?thesis by simp
qed

end
