(* ===== verification/Nvxs_Host.thy ===== *)
theory Nvxs_Host
  imports Nvxs_Session
begin

text \<open>
  The host's role in an NVXS session (\<^verbatim>\<open>protocol/nvxs/host.rs\<close>): its states, the events that it
  reports, and its operations. An operation that appends to \<^verbatim>\<open>output\<close> takes the bytes and returns them.
\<close>

section \<open>State\<close>

datatype host_state =
    HostDetached
  | HostAttaching
  | HostAttached
  | HostRejected
  | HostReset
  | HostClosed
  | HostFailed

datatype host_event =
    EventWait
  | EventAttached identity
  | EventRejected error_code
  | EventData bytes
  | EventReset identity

record host_session =
  hs_state :: host_state
  hs_parser :: record_parser
  hs_identity :: "identity option"
  hs_receive_sequence :: u64
  hs_send_sequence :: u64

definition host_new :: host_session where
  "host_new = \<lparr>hs_state = HostDetached, hs_parser = parser_new, hs_identity = None,
               hs_receive_sequence = 0, hs_send_sequence = 0\<rparr>"

definition host_needed :: "host_session \<Rightarrow> usize" where
  "host_needed s = needed (hs_parser s)"

section \<open>Operations\<close>

definition host_fail :: "host_session \<Rightarrow> host_session" where
  "host_fail s = s\<lparr>hs_state := HostFailed\<rparr>"

definition host_attach ::
  "host_session \<Rightarrow> bytes \<Rightarrow> bytes \<Rightarrow> (session_error, unit) result \<times> host_session \<times> bytes" where
  "host_attach s capability out =
     (if hs_state s \<noteq> HostDetached then (Inl InvalidState, s, out)
      else (case encode_record HostAttach (replicate 16 0) 0 0 capability out of
              (Inl e, out) \<Rightarrow> (Inl (SessionRecord e), s, out)
            | (Inr _, out) \<Rightarrow> (Inr (), s\<lparr>hs_state := HostAttaching\<rparr>, out)))"

definition host_allows :: "host_state \<Rightarrow> record_type \<Rightarrow> bool" where
  "host_allows st t =
     (case st of
        HostAttaching \<Rightarrow> t = Wait \<or> t = Ready \<or> t = RecordTypeError
      | HostAttached \<Rightarrow> t = Data \<or> t = Reset
      | _ \<Rightarrow> False)"

definition host_apply ::
  "host_session \<Rightarrow> nvxs_record \<Rightarrow> (session_error, host_event) result \<times> host_session" where
  "host_apply s r =
     (case (rec_type r, hs_identity s) of
        (Wait, _) \<Rightarrow> (Inr EventWait, s)
      | (Ready, _) \<Rightarrow>
          (case record_identity r of
             None \<Rightarrow> (Inl (MissingIdentity (rec_type r)), s)
           | Some i \<Rightarrow> (Inr (EventAttached i), s\<lparr>hs_identity := Some i, hs_state := HostAttached\<rparr>))
      | (RecordTypeError, _) \<Rightarrow>
          (case rec_error_code r of
             None \<Rightarrow> (Inl (Unexpected (rec_type r)), s)
           | Some c \<Rightarrow> (Inr (EventRejected c), s\<lparr>hs_state := HostRejected\<rparr>))
      | (Data, Some i) \<Rightarrow>
          (case check_identity r i of
             Inl e \<Rightarrow> (Inl e, s)
           | Inr _ \<Rightarrow> (Inr (EventData (rec_payload r)), s))
      | (Reset, Some i) \<Rightarrow>
          (case record_identity r of
             None \<Rightarrow> (Inl (MissingIdentity (rec_type r)), s)
           | Some reset \<Rightarrow>
               if id_instance reset \<noteq> id_instance i
               then (Inl (OtherInstance (id_instance i) (id_instance reset)), s)
               else if id_epoch reset \<le> id_epoch i
               then (Inl (StaleEpoch (id_epoch i) (id_epoch reset)), s)
               else (Inr (EventReset reset), s\<lparr>hs_state := HostReset\<rparr>))
      | _ \<Rightarrow> (Inl (Unexpected (rec_type r)), s))"

definition host_accept ::
  "host_session \<Rightarrow> nvxs_record \<Rightarrow> (session_error, host_event) result \<times> host_session" where
  "host_accept s r =
     (if \<not> host_allows (hs_state s) (rec_type r) then (Inl (Unexpected (rec_type r)), s)
      else (case check_sequence r (hs_receive_sequence s) of
              Inl e \<Rightarrow> (Inl e, s)
            | Inr _ \<Rightarrow>
                (case next_sequence (hs_receive_sequence s) (rec_type r) of
                   Inl e \<Rightarrow> (Inl e, s)
                 | Inr next \<Rightarrow>
                     (case host_apply s r of
                        (Inl e, s) \<Rightarrow> (Inl e, s)
                      | (Inr event, s) \<Rightarrow> (Inr event, s\<lparr>hs_receive_sequence := next\<rparr>)))))"

definition host_open :: "host_session \<Rightarrow> bool" where
  "host_open s \<longleftrightarrow> hs_state s = HostAttaching \<or> hs_state s = HostAttached"

definition host_receive ::
  "host_session \<Rightarrow> bytes \<Rightarrow> (session_error, usize \<times> host_event option) result \<times> host_session" where
  "host_receive s input =
     (if \<not> host_open s then (Inl InvalidState, s)
      else (case push (hs_parser s) input of
              (Inl e, p) \<Rightarrow> (Inl (SessionRecord e), host_fail (s\<lparr>hs_parser := p\<rparr>))
            | (Inr (consumed, None), p) \<Rightarrow> (Inr (consumed, None), s\<lparr>hs_parser := p\<rparr>)
            | (Inr (consumed, Some r), p) \<Rightarrow>
                (case host_accept (s\<lparr>hs_parser := p\<rparr>) r of
                   (Inl e, s) \<Rightarrow> (Inl e, host_fail s)
                 | (Inr event, s) \<Rightarrow> (Inr (consumed, Some event), s))))"

definition host_send ::
  "host_session \<Rightarrow> bytes \<Rightarrow> bytes \<Rightarrow> (session_error, usize) result \<times> host_session \<times> bytes" where
  "host_send s data out =
     (case (hs_state s, hs_identity s) of
        (HostAttached, Some i) \<Rightarrow>
          (case encode_data i (hs_send_sequence s) data out of
             (res, sequence, out) \<Rightarrow> (res, s\<lparr>hs_send_sequence := sequence\<rparr>, out))
      | _ \<Rightarrow> (Inl InvalidState, s, out))"

definition host_disconnect :: "host_session \<Rightarrow> (session_error, unit) result \<times> host_session" where
  "host_disconnect s =
     (if \<not> (hs_state s = HostDetached \<or> hs_state s = HostAttaching \<or> hs_state s = HostAttached)
      then (Inr (), s)
      else if buffered (hs_parser s) \<noteq> 0
      then (Inl (Truncated (buffered (hs_parser s))), host_fail s)
      else (Inr (), s\<lparr>hs_state := HostClosed\<rparr>))"

section \<open>The role and its parser\<close>

lemma host_apply_parser:
  "host_apply (s\<lparr>hs_parser := p\<rparr>) r =
     (fst (host_apply s r), (snd (host_apply s r))\<lparr>hs_parser := p\<rparr>)"
  by (simp add: host_apply_def split: record_type.split option.split sum.split)

lemma host_accept_parser:
  "host_accept (s\<lparr>hs_parser := p\<rparr>) r =
     (fst (host_accept s r), (snd (host_accept s r))\<lparr>hs_parser := p\<rparr>)"
  by (cases "host_apply s r")
    (auto simp: host_accept_def host_apply_parser split: sum.split)

interpretation host: record_session host_open hs_parser "\<lambda>s p. s\<lparr>hs_parser := p\<rparr>" host_accept
  host_fail host_receive
  by unfold_locales
    (auto simp: host_receive_def host_open_def host_accept_parser host_fail_def
      split: prod.splits sum.splits option.splits)

interpretation host_sender: data_sender
  "\<lambda>s i. hs_state s = HostAttached \<and> hs_identity s = Some i" hs_send_sequence
  "\<lambda>s q. s\<lparr>hs_send_sequence := q\<rparr>" host_send
  by unfold_locales (auto simp: host_send_def split: prod.split)

section \<open>What the host accepts\<close>

lemma host_open_states:
  "hs_state s = HostAttaching \<Longrightarrow> host_open s" "hs_state s = HostAttached \<Longrightarrow> host_open s"
  by (simp_all add: host_open_def)

lemma host_accept_Inr:
  assumes "host_accept s r = (Inr ev, t)"
  shows "rec_sequence r = hs_receive_sequence s" "unat (hs_receive_sequence s) + 1 < 2 ^ 64"
    "hs_receive_sequence t = hs_receive_sequence s + 1" "host_allows (hs_state s) (rec_type r)"
    "\<exists>u. host_apply s r = (Inr ev, u) \<and> t = u\<lparr>hs_receive_sequence := hs_receive_sequence s + 1\<rparr>"
  using assms
  by (auto simp: host_accept_def check_sequence_Inr next_sequence_Inr split: if_splits sum.splits prod.splits)

lemma host_acceptI:
  assumes "rec_sequence r = hs_receive_sequence s" "unat (hs_receive_sequence s) + 1 < 2 ^ 64"
    "host_allows (hs_state s) (rec_type r)" "host_apply s r = (Inr ev, u)"
  shows "host_accept s r = (Inr ev, u\<lparr>hs_receive_sequence := hs_receive_sequence s + 1\<rparr>)"
proof -
  have "next_sequence (hs_receive_sequence s) (rec_type r) = Inr (hs_receive_sequence s + 1)"
    using assms(2) by (simp add: next_sequence_Inr)
  with assms show ?thesis by (simp add: host_accept_def check_sequence_def)
qed

lemma judge_waits:
  assumes "hs_state s = HostAttaching" and "\<And>r. r \<in> set rs \<Longrightarrow> rec_type r = Wait"
    and "in_sequence (hs_receive_sequence s) rs"
  shows "judge host_open host_accept host_fail s rs =
    (map (\<lambda>_. EventWait) rs, None,
     s\<lparr>hs_receive_sequence := hs_receive_sequence s + word_of_nat (length rs)\<rparr>)"
  using assms
proof (induction rs arbitrary: s)
  case (Cons r rs)
  let ?t = "s\<lparr>hs_receive_sequence := hs_receive_sequence s + 1\<rparr>"
  from Cons.prems have acc: "host_accept s r = (Inr EventWait, ?t)"
    by (intro host_acceptI) (auto simp: host_allows_def host_apply_def)
  from Cons.IH [of ?t] Cons.prems acc show ?case by (simp add: host_open_states add.assoc)
qed simp

lemma judge_datas:
  assumes "hs_state s = HostAttached" and "hs_identity s = Some i"
    and "\<And>r. r \<in> set rs \<Longrightarrow> rec_type r = Data \<and> rec_instance_id r = id_instance i \<and> rec_epoch r = id_epoch i"
    and "in_sequence (hs_receive_sequence s) rs"
  shows "judge host_open host_accept host_fail s rs =
    (map (\<lambda>r. EventData (rec_payload r)) rs, None,
     s\<lparr>hs_receive_sequence := hs_receive_sequence s + word_of_nat (length rs)\<rparr>)"
  using assms
proof (induction rs arbitrary: s)
  case (Cons r rs)
  let ?t = "s\<lparr>hs_receive_sequence := hs_receive_sequence s + 1\<rparr>"
  have r: "rec_type r = Data" "rec_instance_id r = id_instance i" "rec_epoch r = id_epoch i"
    using Cons.prems(3) [of r] by simp_all
  have ap: "host_apply s r = (Inr (EventData (rec_payload r)), s)"
    using r Cons.prems(2) by (simp add: host_apply_def check_identity_def)
  have sq: "rec_sequence r = hs_receive_sequence s" "unat (hs_receive_sequence s) + 1 < 2 ^ 64"
    using Cons.prems(4) by simp_all
  have al: "host_allows (hs_state s) (rec_type r)"
    using r Cons.prems(1) by (simp add: host_allows_def)
  note acc = host_acceptI [OF sq al ap]
  have "judge host_open host_accept host_fail ?t rs = (map (\<lambda>r. EventData (rec_payload r)) rs, None,
      ?t\<lparr>hs_receive_sequence := hs_receive_sequence ?t + word_of_nat (length rs)\<rparr>)"
  proof (rule Cons.IH)
    show "rec_type x = Data \<and> rec_instance_id x = id_instance i \<and> rec_epoch x = id_epoch i"
      if "x \<in> set rs" for x
      by (rule Cons.prems(3)) (use that in simp)
  qed (use Cons.prems(1,2,4) in simp_all)
  with acc Cons.prems(1) show ?case by (simp add: host_open_states add.assoc)
qed simp

lemma host_attach_new:
  assumes "host_attach host_new capability out = (Inr (), s, out')"
  shows "s = host_new\<lparr>hs_state := HostAttaching\<rparr>"
  using assms by (auto simp: host_attach_def host_new_def split: prod.splits sum.splits)

lemma host_pieces_judge:
  assumes "host_attach host_new capability out = (Inr (), s, out')"
    and "read_stream (concat pieces) = (rs, re, left)"
    and "take_pieces host_open host_receive s pieces = (evs, err, t)"
  shows "\<exists>t'. judge_stream host_open host_accept host_fail s rs re = (evs, err, t') \<and>
    hs_state t = hs_state t' \<and> hs_identity t = hs_identity t' \<and>
    hs_receive_sequence t = hs_receive_sequence t'"
proof -
  note s = host_attach_new [OF assms(1)]
  have "host_open s" "hs_parser s = parser_new" by (simp_all add: s host_open_def host_new_def)
  then obtain t' where "judge_stream host_open host_accept host_fail s rs re = (evs, err, t')"
    and same: "host.same_role t t'"
    using host.take_pieces_judge [of s pieces evs err t rs re left] assms(2,3)
    by (auto simp: parser_inv_new)
  moreover note eq = host.same_role_D [OF same]
  have "hs_state t = hs_state t' \<and> hs_identity t = hs_identity t' \<and>
      hs_receive_sequence t = hs_receive_sequence t'"
    using arg_cong [OF eq, of hs_state] arg_cong [OF eq, of hs_identity]
      arg_cong [OF eq, of hs_receive_sequence] by simp
  ultimately show ?thesis by blast
qed

text \<open>
  C19. An attaching host that a broker answers by the protocol - waits, then a ready record with the
  session's identity, then data with that identity, all numbered in sequence - reports exactly those
  waits, the attachment and the data, in order, however the broker's bytes are cut into pieces.
\<close>

theorem host_follows_broker:
  assumes "host_attach host_new capability out = (Inr (), s, out')"
    and "\<And>r. r \<in> set (waits @ ready # datas) \<Longrightarrow> valid_record r"
    and "\<And>r. r \<in> set waits \<Longrightarrow> rec_type r = Wait"
    and "rec_type ready = Ready" and "record_identity ready = Some i"
    and "\<And>r. r \<in> set datas \<Longrightarrow> rec_type r = Data \<and> rec_instance_id r = id_instance i \<and> rec_epoch r = id_epoch i"
    and "in_sequence 0 (waits @ ready # datas)"
    and "concat pieces = concat (map record_bytes (waits @ ready # datas))"
  shows "\<exists>t. take_pieces host_open host_receive s pieces =
      (map (\<lambda>_. EventWait) waits @ EventAttached i # map (\<lambda>r. EventData (rec_payload r)) datas, None, t) \<and>
    hs_state t = HostAttached \<and> hs_identity t = Some i"
proof -
  let ?rs = "waits @ ready # datas"
  note s = host_attach_new [OF assms(1)]
  have rd: "read_stream (concat pieces) = (?rs, None, [])"
    by (rule read_stream_all [OF assms(2,8)])
  let ?w = "s\<lparr>hs_receive_sequence := word_of_nat (length waits)\<rparr>"
  let ?a = "?w\<lparr>hs_identity := Some i, hs_state := HostAttached,
               hs_receive_sequence := word_of_nat (length waits) + 1\<rparr>"
  have w: "judge host_open host_accept host_fail s waits = (map (\<lambda>_. EventWait) waits, None, ?w)"
    using judge_waits [of s waits] assms(3,7) by (simp add: s host_new_def in_sequence_append)
  have "host_apply ?w ready = (Inr (EventAttached i), ?w\<lparr>hs_identity := Some i, hs_state := HostAttached\<rparr>)"
    using assms(4,5) by (simp add: host_apply_def)
  then have a: "host_accept ?w ready = (Inr (EventAttached i), ?a)"
    using host_acceptI [of ready ?w] assms(4,7)
    by (simp add: in_sequence_append s host_new_def host_allows_def)
  have d: "judge host_open host_accept host_fail ?a datas =
      (map (\<lambda>r. EventData (rec_payload r)) datas, None,
       ?a\<lparr>hs_receive_sequence := hs_receive_sequence ?a + word_of_nat (length datas)\<rparr>)"
    by (rule judge_datas [OF _ _ assms(6)]) (use assms(7) in \<open>simp_all add: in_sequence_append\<close>)
  have js: "judge_stream host_open host_accept host_fail s ?rs None =
      (map (\<lambda>_. EventWait) waits @ EventAttached i # map (\<lambda>r. EventData (rec_payload r)) datas, None,
       ?a\<lparr>hs_receive_sequence := hs_receive_sequence ?a + word_of_nat (length datas)\<rparr>)"
    using w a d by (simp add: judge_stream_def host.judge_append host_open_states s)
  obtain evs err t where t: "take_pieces host_open host_receive s pieces = (evs, err, t)"
    by (cases "take_pieces host_open host_receive s pieces")
  from host_pieces_judge [OF assms(1) rd t] t show ?thesis unfolding js by auto
qed

theorem host_follows_broker_witness:
  "\<exists>t. take_pieces host_open host_receive (host_new\<lparr>hs_state := HostAttaching\<rparr>)
      [record_bytes (session_record Wait \<lparr>id_instance = replicate 16 0, id_epoch = 0\<rparr> 0 []),
       record_bytes (session_record Ready \<lparr>id_instance = replicate 16 9, id_epoch = 1\<rparr> 1 []) @
       record_bytes (session_record Data \<lparr>id_instance = replicate 16 9, id_epoch = 1\<rparr> 2 [1, 2])] =
    ([EventWait, EventAttached \<lparr>id_instance = replicate 16 9, id_epoch = 1\<rparr>, EventData [1, 2]], None, t) \<and>
    hs_state t = HostAttached \<and> hs_identity t = Some \<lparr>id_instance = replicate 16 9, id_epoch = 1\<rparr>"
proof -
  let ?i = "\<lparr>id_instance = replicate 16 9, id_epoch = 1\<rparr>"
  let ?w = "session_record Wait \<lparr>id_instance = replicate 16 0, id_epoch = 0\<rparr> 0 []"
  let ?r = "session_record Ready ?i 1 []" and ?d = "session_record Data ?i 2 [1, 2]"
  have a: "host_attach host_new (replicate 32 7) [] =
      (Inr (), host_new\<lparr>hs_state := HostAttaching\<rparr>,
       record_bytes (session_record HostAttach \<lparr>id_instance = replicate 16 0, id_epoch = 0\<rparr> 0 (replicate 32 7)))"
    by code_simp
  have v: "valid_record ?w" "valid_record ?r" "valid_record ?d" by code_simp+
  have i: "record_identity ?r = Some ?i" by code_simp
  have s: "in_sequence 0 ([?w] @ ?r # [?d])" by code_simp
  have "\<exists>t. take_pieces host_open host_receive (host_new\<lparr>hs_state := HostAttaching\<rparr>)
      [record_bytes ?w, record_bytes ?r @ record_bytes ?d] =
    (map (\<lambda>_. EventWait) [?w] @ EventAttached ?i # map (\<lambda>r. EventData (rec_payload r)) [?d], None, t) \<and>
    hs_state t = HostAttached \<and> hs_identity t = Some ?i"
  proof (rule host_follows_broker [OF a _ _ _ i _ s])
    show "valid_record x" if "x \<in> set ([?w] @ ?r # [?d])" for x
    proof -
      from that have "x = ?w \<or> x = ?r \<or> x = ?d" by simp
      with v show ?thesis by (elim disjE) (simp_all only:)
    qed
  qed simp_all
  then show ?thesis by simp
qed

text \<open>The payloads that an event delivers.\<close>

fun host_payload :: "host_event \<Rightarrow> bytes list" where
  "host_payload (EventData bs) = [bs]"
| "host_payload _ = []"

definition host_ready :: "host_session \<Rightarrow> bool" where
  "host_ready s \<longleftrightarrow> (hs_state s = HostAttached \<longrightarrow> hs_identity s \<noteq> None)"

text \<open>One record that the host accepts.\<close>

lemma host_accept_step:
  assumes acc: "host_accept s r = (Inr ev, t)" and rdy: "host_ready s"
  shows "host_ready t \<and>
    (hs_state s \<noteq> HostAttaching \<longrightarrow> hs_identity t = hs_identity s \<and> hs_state t \<noteq> HostAttaching) \<and>
    host_payload ev = (if rec_type r = Data then [rec_payload r] else []) \<and>
    (rec_type r = Data \<longrightarrow> hs_state s \<noteq> HostAttaching \<and>
       (\<exists>i. hs_identity s = Some i \<and> rec_instance_id r = id_instance i \<and> rec_epoch r = id_epoch i))"
proof -
  from host_accept_Inr(5) [OF acc] obtain u where u: "host_apply s r = (Inr ev, u)"
    "t = u\<lparr>hs_receive_sequence := hs_receive_sequence s + 1\<rparr>" by blast
  have "hs_state s = HostAttaching \<and> (rec_type r = Wait \<or> rec_type r = Ready \<or> rec_type r = RecordTypeError) \<or>
      hs_state s = HostAttached \<and> (rec_type r = Data \<or> rec_type r = Reset)"
    using host_accept_Inr(4) [OF acc] by (auto simp: host_allows_def split: host_state.splits)
  then consider "hs_state s = HostAttaching" "rec_type r = Wait"
    | "hs_state s = HostAttaching" "rec_type r = Ready"
    | "hs_state s = HostAttaching" "rec_type r = RecordTypeError"
    | i where "hs_state s = HostAttached" "rec_type r = Data" "hs_identity s = Some i"
    | i where "hs_state s = HostAttached" "rec_type r = Reset" "hs_identity s = Some i"
    using rdy by (auto simp: host_ready_def)
  then show ?thesis
    by cases (use u in \<open>auto simp: host_apply_def host_ready_def check_identity_Inr
      split: option.splits sum.splits if_splits\<close>)
qed

lemma host_judge_run:
  assumes "judge host_open host_accept host_fail s rs = (evs, err, t)" and "host_ready s"
  shows "\<exists>taken rest. rs = taken @ rest \<and> length taken = length evs \<and>
    in_sequence (hs_receive_sequence s) taken \<and>
    concat (map host_payload evs) = map rec_payload (filter (\<lambda>r. rec_type r = Data) taken) \<and>
    (\<forall>r \<in> set taken. rec_type r = Data \<longrightarrow>
       (\<exists>i. hs_identity t = Some i \<and> rec_instance_id r = id_instance i \<and> rec_epoch r = id_epoch i)) \<and>
    (hs_state s \<noteq> HostAttaching \<longrightarrow> hs_identity t = hs_identity s)"
  using assms
proof (induction rs arbitrary: s evs)
  case (Cons r rs)
  obtain res u where acc: "host_accept s r = (res, u)" by (cases "host_accept s r")
  consider (closed) "\<not> host_open s" | (failed) e where "host_open s" "res = Inl e"
    | (taken) ev where "host_open s" "res = Inr ev" by (cases res) auto
  then show ?case
  proof cases
    case closed
    with Cons.prems(1) have "evs = []" "t = s" by simp_all
    then show ?thesis by (intro exI [of _ "[]"] exI [of _ "r # rs"]) simp
  next
    case failed
    then have "u = s"
      using acc by (auto simp: host_accept_def host_apply_def split: if_splits sum.splits prod.splits
          record_type.splits option.splits)
    with failed acc Cons.prems(1) have "evs = []" "hs_identity t = hs_identity s"
      by (auto simp: host_fail_def)
    then show ?thesis by (intro exI [of _ "[]"] exI [of _ "r # rs"]) simp
  next
    case (taken ev)
    with acc have acc: "host_accept s r = (Inr ev, u)" by simp
    note step = host_accept_step [OF acc Cons.prems(2)] and sq = host_accept_Inr(1-3) [OF acc]
    from Cons.prems(1) taken(1) acc obtain evs' where evs': "evs = ev # evs'"
      "judge host_open host_accept host_fail u rs = (evs', err, t)" by (auto split: prod.splits)
    from Cons.IH [OF evs'(2)] step obtain tk rest where IH: "rs = tk @ rest"
      "length tk = length evs'" "in_sequence (hs_receive_sequence u) tk"
      "concat (map host_payload evs') = map rec_payload (filter (\<lambda>r. rec_type r = Data) tk)"
      "\<forall>r \<in> set tk. rec_type r = Data \<longrightarrow> (\<exists>i. hs_identity t = Some i \<and>
         rec_instance_id r = id_instance i \<and> rec_epoch r = id_epoch i)"
      "hs_state u \<noteq> HostAttaching \<longrightarrow> hs_identity t = hs_identity u" by blast
    have keep: "hs_state s \<noteq> HostAttaching \<longrightarrow> hs_identity t = hs_identity s"
      using step IH(6) by simp
    have d: "\<exists>i. hs_identity t = Some i \<and> rec_instance_id r = id_instance i \<and> rec_epoch r = id_epoch i"
      if "rec_type r = Data" using step that keep by metis
    have "concat (map host_payload evs) =
        map rec_payload (filter (\<lambda>r. rec_type r = Data) (r # tk))"
      using step IH(4) by (simp add: evs'(1))
    moreover have "\<forall>x \<in> set (r # tk). rec_type x = Data \<longrightarrow> (\<exists>i. hs_identity t = Some i \<and>
         rec_instance_id x = id_instance i \<and> rec_epoch x = id_epoch i)"
      using d IH(5) by (metis set_ConsD)
    moreover have "in_sequence (hs_receive_sequence s) (r # tk)" using sq IH(3) by simp
    ultimately show ?thesis
      using IH(1,2) evs'(1) keep by (intro exI [of _ "r # tk"] exI [of _ rest]) simp
  qed
qed (intro exI [of _ "[]"]; simp)

text \<open>
  C20. Whatever bytes the broker sends, the events that an attaching host reports are those of the first
  records of the stream, whose sequence numbers are 0, 1, 2 and so on; the data that it delivers is
  the payload of the data records among them, in order, each of which carries the identity that the
  host is attached to. A record that is repeated, skipped, out of order or of another session is never
  delivered.
\<close>

theorem host_accepts_in_order:
  assumes "host_attach host_new capability out = (Inr (), s, out')"
    and "take_pieces host_open host_receive s pieces = (evs, err, t)"
  shows "\<exists>taken rest. fst (read_stream (concat pieces)) = taken @ rest \<and> length taken = length evs \<and>
    (\<forall>k < length taken. unat (rec_sequence (taken ! k)) = k) \<and>
    concat (map host_payload evs) = map rec_payload (filter (\<lambda>r. rec_type r = Data) taken) \<and>
    (\<forall>r \<in> set taken. rec_type r = Data \<longrightarrow>
       (\<exists>i. hs_identity t = Some i \<and> rec_instance_id r = id_instance i \<and> rec_epoch r = id_epoch i))"
proof -
  obtain rs re left where rd: "read_stream (concat pieces) = (rs, re, left)"
    by (cases "read_stream (concat pieces)")
  note s = host_attach_new [OF assms(1)]
  from host_pieces_judge [OF assms(1) rd assms(2)] obtain t' where
    js: "judge_stream host_open host_accept host_fail s rs re = (evs, err, t')"
    and t: "hs_identity t = hs_identity t'" by blast
  then obtain err' u where j: "judge host_open host_accept host_fail s rs = (evs, err', u)"
    and u: "hs_identity u = hs_identity t'"
    by (auto simp: judge_stream_def host_fail_def split: prod.splits option.splits if_splits)
  have "host_ready s" by (simp add: s host_ready_def)
  from host_judge_run [OF j this] obtain taken rest where run: "rs = taken @ rest"
    "length taken = length evs" "in_sequence (hs_receive_sequence s) taken"
    "concat (map host_payload evs) = map rec_payload (filter (\<lambda>r. rec_type r = Data) taken)"
    "\<forall>r \<in> set taken. rec_type r = Data \<longrightarrow> (\<exists>i. hs_identity u = Some i \<and>
       rec_instance_id r = id_instance i \<and> rec_epoch r = id_epoch i)" by blast
  have "\<forall>k < length taken. unat (rec_sequence (taken ! k)) = k"
    using in_sequence_nth [OF run(3)] by (simp add: s host_new_def)
  moreover have "fst (read_stream (concat pieces)) = taken @ rest" using rd run(1) by simp
  ultimately show ?thesis using run(2,4,5) unfolding t u [symmetric] by blast
qed

theorem host_accepts_in_order_witness:
  "\<exists>taken rest. fst (read_stream (record_bytes
      (session_record Ready \<lparr>id_instance = replicate 16 9, id_epoch = 1\<rparr> 0 []))) = taken @ rest \<and>
    length taken = 1"
proof -
  let ?r = "session_record Ready \<lparr>id_instance = replicate 16 9, id_epoch = 1\<rparr> 0 []"
  have a: "host_attach host_new (replicate 32 7) [] =
      (Inr (), host_new\<lparr>hs_state := HostAttaching\<rparr>,
       record_bytes (session_record HostAttach \<lparr>id_instance = replicate 16 0, id_epoch = 0\<rparr> 0 (replicate 32 7)))"
    by code_simp
  have t: "take_pieces host_open host_receive (host_new\<lparr>hs_state := HostAttaching\<rparr>) [record_bytes ?r] =
      ([EventAttached \<lparr>id_instance = replicate 16 9, id_epoch = 1\<rparr>], None,
       snd (snd (take_pieces host_open host_receive (host_new\<lparr>hs_state := HostAttaching\<rparr>) [record_bytes ?r])))"
    by code_simp
  from host_accepts_in_order [OF a t] show ?thesis by auto
qed

text \<open>
  A failure while receiving ends the host's session for good: the state is failed, and every later
  receive, send and attachment is refused without changing the session or the output.
\<close>

lemma host_failure_is_final:
  assumes "host_open s" and "host_receive s input = (Inl e, t)"
  shows "hs_state t = HostFailed \<and> host_receive t more_input = (Inl InvalidState, t) \<and>
    host_send t bs out = (Inl InvalidState, t, out) \<and>
    host_attach t capability out = (Inl InvalidState, t, out) \<and> host_disconnect t = (Inr (), t)"
proof -
  have "hs_state t = HostFailed"
    using assms by (auto simp: host_receive_def host_fail_def split: prod.splits sum.splits option.splits)
  then show ?thesis
    by (simp add: host_receive_def host_open_def host_send_def host_attach_def host_disconnect_def)
qed

text \<open>
  C21. A message of any length that an attached host sends, as often as it takes, reaches the broker's
  parser whole, in data records of the session's identity that are numbered in sequence from the
  host's next number, however the bytes are cut into pieces.
\<close>

theorem host_message_arrives:
  assumes "hs_state s = HostAttached" and "hs_identity s = Some i" and "length (id_instance i) = 16"
    and "unat (hs_send_sequence s) + length (parts msg) < 2 ^ 64"
  shows "\<exists>t sent. send_all host_send s msg out = (None, t, out @ sent) \<and>
    (\<forall>pieces. concat pieces = sent \<longrightarrow>
       (let rs = fst (feed_all parser_new pieces)
        in concat (map rec_payload rs) = msg \<and> in_sequence (hs_send_sequence s) rs \<and>
           (\<forall>r \<in> set rs. rec_type r = Data \<and> rec_instance_id r = id_instance i \<and>
              rec_epoch r = id_epoch i)))"
proof -
  have "send_all host_send s msg out = (None, s\<lparr>hs_send_sequence := hs_send_sequence s +
      word_of_nat (length (parts msg))\<rparr>,
      out @ concat (map record_bytes (data_records i (hs_send_sequence s) (parts msg))))"
    by (rule host_sender.send_all_parts) (use assms in simp_all)
  moreover have "in_sequence (hs_send_sequence s) (data_records i (hs_send_sequence s) (parts msg))"
    by (rule data_records_sequence [OF assms(4)])
  ultimately show ?thesis
    using data_records_parse [OF assms(3), of _ "hs_send_sequence s" msg] data_records_identity
    by (auto simp: Let_def concat_parts)
qed

theorem host_message_arrives_witness:
  "\<exists>t sent. send_all host_send \<lparr>hs_state = HostAttached, hs_parser = parser_new,
      hs_identity = Some \<lparr>id_instance = replicate 16 9, id_epoch = 1\<rparr>, hs_receive_sequence = 1,
      hs_send_sequence = 0\<rparr> [1, 2, 3] [] = (None, t, sent) \<and>
    concat (map rec_payload (fst (feed_all parser_new [sent]))) = [1, 2, 3]"
proof -
  let ?i = "\<lparr>id_instance = replicate 16 9, id_epoch = 1\<rparr>"
  let ?s = "\<lparr>hs_state = HostAttached, hs_parser = parser_new, hs_identity = Some ?i,
    hs_receive_sequence = 1, hs_send_sequence = 0\<rparr>"
  have "length (id_instance ?i) = 16" "unat (hs_send_sequence ?s) + length (parts [1, 2, 3]) < 2 ^ 64"
    by code_simp+
  then obtain t sent where "send_all host_send ?s [1, 2, 3] [] = (None, t, [] @ sent)"
    "\<forall>pieces. concat pieces = sent \<longrightarrow> (let rs = fst (feed_all parser_new pieces)
      in concat (map rec_payload rs) = [1, 2, 3] \<and> in_sequence (hs_send_sequence ?s) rs \<and>
         (\<forall>r \<in> set rs. rec_type r = Data \<and> rec_instance_id r = id_instance ?i \<and>
            rec_epoch r = id_epoch ?i))"
    using host_message_arrives [of ?s ?i "[1, 2, 3]" "[]"] by auto
  then show ?thesis by (auto simp: Let_def dest: spec [of _ "[sent]"])
qed

end
