(* ===== verification/Nvxs_Guest.thy ===== *)
theory Nvxs_Guest
  imports Nvxs_Session
begin

text \<open>
  The guest's role in an NVXS session (\<^verbatim>\<open>protocol/nvxs/guest.rs\<close>): its states, the epochs that the
  broker's resets start, the receive window and its credits, and the records that the guest sends.
\<close>

section \<open>State\<close>

datatype guest_state =
    GuestDetached
  | GuestAttaching
  | GuestResetting
  | GuestActive
  | GuestClosed
  | GuestFailed

datatype guest_event =
    GuestEventReset identity
  | GuestEventData bytes

record guest_session =
  gs_state :: guest_state
  gs_parser :: record_parser
  gs_identity :: "identity option"
  gs_receive_sequence :: u64
  gs_send_sequence :: u64
  gs_window :: u32
  gs_outstanding :: u32

definition guest_new :: guest_session where
  "guest_new = \<lparr>gs_state = GuestDetached, gs_parser = parser_new, gs_identity = None,
                gs_receive_sequence = 0, gs_send_sequence = 0, gs_window = 0, gs_outstanding = 0\<rparr>"

definition guest_window :: "guest_session \<Rightarrow> u32 option" where
  "guest_window s = (if gs_state s = GuestActive then Some (gs_window s) else None)"

definition guest_needed :: "guest_session \<Rightarrow> usize" where
  "guest_needed s = needed (gs_parser s)"

section \<open>Operations\<close>

definition guest_fail :: "guest_session \<Rightarrow> guest_session" where
  "guest_fail s = s\<lparr>gs_state := GuestFailed\<rparr>"

definition guest_attach ::
  "guest_session \<Rightarrow> bytes \<Rightarrow> (session_error, unit) result \<times> guest_session \<times> bytes" where
  "guest_attach s out =
     (if gs_state s \<noteq> GuestDetached then (Inl InvalidState, s, out)
      else (case encode_record GuestAttach (replicate 16 0) 0 0 [] out of
              (Inl e, out) \<Rightarrow> (Inl (SessionRecord e), s, out)
            | (Inr _, out) \<Rightarrow> (Inr (), s\<lparr>gs_state := GuestAttaching\<rparr>, out)))"

text \<open>A reset of the session's instance that does not advance its epoch.\<close>

definition stale_reset :: "identity option \<Rightarrow> identity \<Rightarrow> session_error option" where
  "stale_reset current i =
     (case current of
        Some c \<Rightarrow>
          if id_instance c = id_instance i \<and> id_epoch i \<le> id_epoch c
          then Some (StaleEpoch (id_epoch c) (id_epoch i)) else None
      | None \<Rightarrow> None)"

definition guest_reset ::
  "guest_session \<Rightarrow> nvxs_record \<Rightarrow> (session_error, guest_event) result \<times> guest_session" where
  "guest_reset s r =
     (case record_identity r of
        None \<Rightarrow> (Inl (MissingIdentity Reset), s)
      | Some i \<Rightarrow>
          (case stale_reset (gs_identity s) i of
             Some e \<Rightarrow> (Inl e, s)
           | None \<Rightarrow>
               (case next_sequence (rec_sequence r) Reset of
                  Inl e \<Rightarrow> (Inl e, s)
                | Inr next \<Rightarrow>
                    (Inr (GuestEventReset i),
                     s\<lparr>gs_identity := Some i, gs_receive_sequence := next, gs_send_sequence := 0,
                       gs_window := 0, gs_outstanding := 0, gs_state := GuestResetting\<rparr>))))"

definition guest_data ::
  "guest_session \<Rightarrow> nvxs_record \<Rightarrow> (session_error, guest_event) result \<times> guest_session" where
  "guest_data s r =
     (case gs_identity s of
        None \<Rightarrow> (Inl (Unexpected Data), s)
      | Some i \<Rightarrow>
          (case and_then (check_sequence r (gs_receive_sequence s)) (\<lambda>_.
                  and_then (check_identity r i) (\<lambda>_. next_sequence (gs_receive_sequence s) Data)) of
             Inl e \<Rightarrow> (Inl e, s)
           | Inr next \<Rightarrow>
               (let n = word_of_nat (length (rec_payload r)) :: u32
                in if n > saturating_sub (gs_window s) (gs_outstanding s)
                   then (Inl (WindowExceeded (gs_window s) (gs_outstanding s) n), s)
                   else (Inr (GuestEventData (rec_payload r)),
                         s\<lparr>gs_receive_sequence := next, gs_outstanding := gs_outstanding s + n\<rparr>))))"

definition guest_accept ::
  "guest_session \<Rightarrow> nvxs_record \<Rightarrow> (session_error, guest_event) result \<times> guest_session" where
  "guest_accept s r =
     (if (gs_state s = GuestAttaching \<or> gs_state s = GuestResetting \<or> gs_state s = GuestActive) \<and>
         rec_type r = Reset
      then guest_reset s r
      else if gs_state s = GuestActive \<and> rec_type r = Data then guest_data s r
      else (Inl (Unexpected (rec_type r)), s))"

definition guest_open :: "guest_session \<Rightarrow> bool" where
  "guest_open s \<longleftrightarrow>
     gs_state s = GuestAttaching \<or> gs_state s = GuestResetting \<or> gs_state s = GuestActive"

definition guest_receive ::
  "guest_session \<Rightarrow> bytes \<Rightarrow> (session_error, usize \<times> guest_event option) result \<times> guest_session" where
  "guest_receive s input =
     (if \<not> guest_open s then (Inl InvalidState, s)
      else (case push (gs_parser s) input of
              (Inl e, p) \<Rightarrow> (Inl (SessionRecord e), guest_fail (s\<lparr>gs_parser := p\<rparr>))
            | (Inr (consumed, None), p) \<Rightarrow> (Inr (consumed, None), s\<lparr>gs_parser := p\<rparr>)
            | (Inr (consumed, Some r), p) \<Rightarrow>
                (case guest_accept (s\<lparr>gs_parser := p\<rparr>) r of
                   (Inl e, s) \<Rightarrow> (Inl e, guest_fail s)
                 | (Inr event, s) \<Rightarrow> (Inr (consumed, Some event), s))))"

definition guest_acknowledge ::
  "guest_session \<Rightarrow> u32 \<Rightarrow> bytes \<Rightarrow> (session_error, unit) result \<times> guest_session \<times> bytes" where
  "guest_acknowledge s window out =
     (case (gs_state s, gs_identity s) of
        (GuestResetting, Some i) \<Rightarrow>
          (case encode_record Ack (id_instance i) (id_epoch i) 0 (to_le_bytes window) out of
             (Inl e, out) \<Rightarrow> (Inl (SessionRecord e), s, out)
           | (Inr _, out) \<Rightarrow>
               (Inr (), s\<lparr>gs_send_sequence := 1, gs_window := window, gs_outstanding := 0,
                          gs_state := GuestActive\<rparr>, out))
      | _ \<Rightarrow> (Inl InvalidState, s, out))"

definition guest_send ::
  "guest_session \<Rightarrow> bytes \<Rightarrow> bytes \<Rightarrow> (session_error, usize) result \<times> guest_session \<times> bytes" where
  "guest_send s data out =
     (case (gs_state s, gs_identity s) of
        (GuestActive, Some i) \<Rightarrow>
          (case encode_data i (gs_send_sequence s) data out of
             (res, sequence, out) \<Rightarrow> (res, s\<lparr>gs_send_sequence := sequence\<rparr>, out))
      | _ \<Rightarrow> (Inl InvalidState, s, out))"

definition guest_credit ::
  "guest_session \<Rightarrow> u32 \<Rightarrow> bytes \<Rightarrow> (session_error, unit) result \<times> guest_session \<times> bytes" where
  "guest_credit s n out =
     (case (gs_state s, gs_identity s) of
        (GuestActive, Some i) \<Rightarrow>
          if n = 0 \<or> n > gs_outstanding s then (Inl (InvalidCredit (gs_outstanding s) n), s, out)
          else (case encode_next CreditRecord i (gs_send_sequence s) (to_le_bytes n) out of
                  (Inl e, sequence, out) \<Rightarrow> (Inl e, s\<lparr>gs_send_sequence := sequence\<rparr>, out)
                | (Inr _, sequence, out) \<Rightarrow>
                    (Inr (), s\<lparr>gs_send_sequence := sequence, gs_outstanding := gs_outstanding s - n\<rparr>,
                     out))
      | _ \<Rightarrow> (Inl InvalidState, s, out))"

definition guest_disconnect :: "guest_session \<Rightarrow> (session_error, unit) result \<times> guest_session" where
  "guest_disconnect s =
     (if gs_state s = GuestClosed \<or> gs_state s = GuestFailed then (Inr (), s)
      else if buffered (gs_parser s) \<noteq> 0
      then (Inl (Truncated (buffered (gs_parser s))), guest_fail s)
      else (Inr (), s\<lparr>gs_state := GuestClosed\<rparr>))"

section \<open>The role and its parser\<close>

lemma guest_accept_parser:
  "guest_accept (s\<lparr>gs_parser := p\<rparr>) r =
     (fst (guest_accept s r), (snd (guest_accept s r))\<lparr>gs_parser := p\<rparr>)"
  by (simp add: guest_accept_def guest_reset_def guest_data_def Let_def split: option.split sum.split)

interpretation guest: record_session guest_open gs_parser "\<lambda>s p. s\<lparr>gs_parser := p\<rparr>" guest_accept
  guest_fail guest_receive
  by unfold_locales
    (auto simp: guest_receive_def guest_open_def guest_accept_parser guest_fail_def
      split: prod.splits sum.splits option.splits)

interpretation guest_sender: data_sender
  "\<lambda>s i. gs_state s = GuestActive \<and> gs_identity s = Some i" gs_send_sequence
  "\<lambda>s q. s\<lparr>gs_send_sequence := q\<rparr>" guest_send
  by unfold_locales (auto simp: guest_send_def split: prod.split)

section \<open>Runs\<close>

text \<open>
  The calls of the guest's caller, with the history that the theorems speak of: the records of the
  current epoch that the guest sent, the data bytes of the epoch that it received and credited, and
  the identities of all the resets it reported.
\<close>

datatype guest_call =
    CallAttach
  | CallReceive bytes
  | CallAcknowledge u32
  | CallSend bytes
  | CallCredit u32
  | CallDisconnect

record guest_run =
  gr_session :: guest_session
  gr_out :: bytes
  gr_received :: nat
  gr_credited :: nat
  gr_epochs :: "identity list"

fun guest_apply :: "guest_call \<Rightarrow> guest_run \<Rightarrow> guest_run" where
  "guest_apply CallAttach g =
     (let (_, s, _) = guest_attach (gr_session g) [] in g\<lparr>gr_session := s\<rparr>)"
| "guest_apply (CallReceive input) g =
     (case guest_receive (gr_session g) input of
        (Inr (_, Some (GuestEventReset i)), s) \<Rightarrow>
          g\<lparr>gr_session := s, gr_out := [], gr_received := 0, gr_credited := 0,
            gr_epochs := gr_epochs g @ [i]\<rparr>
      | (Inr (_, Some (GuestEventData bs)), s) \<Rightarrow>
          g\<lparr>gr_session := s, gr_received := gr_received g + length bs\<rparr>
      | (_, s) \<Rightarrow> g\<lparr>gr_session := s\<rparr>)"
| "guest_apply (CallAcknowledge window) g =
     (let (_, s, out) = guest_acknowledge (gr_session g) window (gr_out g)
      in g\<lparr>gr_session := s, gr_out := out\<rparr>)"
| "guest_apply (CallSend bs) g =
     (let (_, s, out) = guest_send (gr_session g) bs (gr_out g) in g\<lparr>gr_session := s, gr_out := out\<rparr>)"
| "guest_apply (CallCredit n) g =
     (case guest_credit (gr_session g) n (gr_out g) of
        (Inr _, s, out) \<Rightarrow> g\<lparr>gr_session := s, gr_out := out, gr_credited := gr_credited g + unat n\<rparr>
      | (Inl _, s, out) \<Rightarrow> g\<lparr>gr_session := s, gr_out := out\<rparr>)"
| "guest_apply CallDisconnect g = g\<lparr>gr_session := snd (guest_disconnect (gr_session g))\<rparr>"

definition run_new :: guest_run where
  "run_new = \<lparr>gr_session = guest_new, gr_out = [], gr_received = 0, gr_credited = 0, gr_epochs = []\<rparr>"

definition guest_runs :: "guest_call list \<Rightarrow> guest_run" where
  "guest_runs calls = fold guest_apply calls run_new"

inductive guest_step :: "guest_run \<Rightarrow> guest_run \<Rightarrow> bool" where
  call: "guest_step g (guest_apply c g)"

inductive_cases guest_stepE [elim!]: "guest_step g h"

section \<open>The invariant\<close>

text \<open>
  What records on the wire grant to the broker: the window that an acknowledgement announces, and the
  credit that comes after it.
\<close>

definition announced :: "nvxs_record list \<Rightarrow> nat" where
  "announced rs = (\<Sum>r\<leftarrow>rs. case rec_window r of Some w \<Rightarrow> unat w | None \<Rightarrow> 0)"

definition granted :: "nvxs_record list \<Rightarrow> nat" where
  "granted rs = (\<Sum>r\<leftarrow>rs. case rec_credit r of Some n \<Rightarrow> unat n | None \<Rightarrow> 0)"

definition newer_epoch :: "identity \<Rightarrow> identity \<Rightarrow> bool" where
  "newer_epoch i j \<longleftrightarrow> id_instance i = id_instance j \<longrightarrow> id_epoch i < id_epoch j"

definition sent_ok :: "identity \<Rightarrow> u64 \<Rightarrow> nat \<Rightarrow> nat \<Rightarrow> bytes \<Rightarrow> bool" where
  "sent_ok i q window credited out \<longleftrightarrow>
     (\<exists>rs. out = concat (map record_bytes rs) \<and> in_sequence 0 rs \<and> unat q = length rs \<and>
        (\<forall>r \<in> set rs. valid_record r \<and> rec_instance_id r = id_instance i \<and> rec_epoch r = id_epoch i) \<and>
        (\<forall>k < length rs. rec_type (rs ! k) = Ack \<longleftrightarrow> k = 0) \<and>
        announced rs = window \<and> granted rs = credited)"

definition window_ok :: "guest_session \<Rightarrow> nat \<Rightarrow> nat \<Rightarrow> bool" where
  "window_ok s received credited \<longleftrightarrow>
     unat (gs_outstanding s) \<le> unat (gs_window s) \<and>
     received = credited + unat (gs_outstanding s) \<and> gs_window s \<le> outer_max_receive_window"

definition epoch_ok :: "guest_session \<Rightarrow> bytes \<Rightarrow> nat \<Rightarrow> nat \<Rightarrow> bool" where
  "epoch_ok s out received credited \<longleftrightarrow>
     (case gs_identity s of
        None \<Rightarrow>
          gs_state s \<noteq> GuestResetting \<and> gs_state s \<noteq> GuestActive \<and> out = [] \<and> gs_window s = 0 \<and>
          credited = 0
      | Some i \<Rightarrow>
          identity_ok i \<and> sent_ok i (gs_send_sequence s) (unat (gs_window s)) credited out) \<and>
     (gs_state s = GuestResetting \<longrightarrow> out = [] \<and> received = 0) \<and>
     (gs_state s = GuestActive \<longrightarrow> gs_send_sequence s \<noteq> 0)"

definition parser_ok :: "guest_session \<Rightarrow> bool" where
  "parser_ok s \<longleftrightarrow>
     parser_inv (gs_parser s) \<and> (guest_open s \<longrightarrow> ps_error (gs_parser s) = None) \<and>
     (gs_state s = GuestDetached \<longrightarrow> gs_parser s = parser_new)"

definition guest_ok :: "guest_session \<Rightarrow> bytes \<Rightarrow> nat \<Rightarrow> nat \<Rightarrow> bool" where
  "guest_ok s out received credited \<longleftrightarrow>
     window_ok s received credited \<and> epoch_ok s out received credited \<and> parser_ok s"

definition epochs_ok :: "identity option \<Rightarrow> identity list \<Rightarrow> bool" where
  "epochs_ok current is \<longleftrightarrow>
     successively newer_epoch is \<and> current = (if is = [] then None else Some (last is))"

definition guest_inv :: "guest_run \<Rightarrow> bool" where
  "guest_inv g \<longleftrightarrow> guest_ok (gr_session g) (gr_out g) (gr_received g) (gr_credited g) \<and>
     epochs_ok (gs_identity (gr_session g)) (gr_epochs g)"

text \<open>The parser changes, or the session ends.\<close>

lemma guest_ok_parser:
  "guest_ok s out rc cr \<Longrightarrow> parser_inv q \<Longrightarrow> ps_error q = None \<Longrightarrow> gs_state s \<noteq> GuestDetached \<Longrightarrow>
     guest_ok (s\<lparr>gs_parser := q\<rparr>) out rc cr"
  by (auto simp: guest_ok_def window_ok_def epoch_ok_def parser_ok_def split: option.splits)

lemma guest_ok_fail:
  "guest_ok s out rc cr \<Longrightarrow> parser_inv q \<Longrightarrow> guest_ok (guest_fail (s\<lparr>gs_parser := q\<rparr>)) out rc cr"
  by (simp add: guest_ok_def window_ok_def epoch_ok_def parser_ok_def guest_fail_def guest_open_def
      split: option.splits)

lemma sent_ok_empty: "sent_ok i 0 0 0 []"
  unfolding sent_ok_def by (intro exI [of _ "[]"]) (simp add: announced_def granted_def)

lemma announced_snoc:
  "announced (rs @ [session_record t i q pl]) =
     announced rs + (if t = Ack then unat (payload_value pl) else 0)"
  by (simp add: announced_def rec_window_def session_record_def)

lemma granted_snoc:
  "granted (rs @ [session_record t i q pl]) =
     granted rs + (if t = CreditRecord then unat (payload_value pl) else 0)"
  by (simp add: granted_def rec_credit_def session_record_def)

lemma sent_ok_more:
  assumes ok: "sent_ok i q w cr out" and q: "unat q + 1 < 2 ^ 64" and "valid_record (session_record t i q pl)"
    and t: "t = Ack \<longleftrightarrow> q = 0"
  shows "sent_ok i (q + 1) (w + (if t = Ack then unat (payload_value pl) else 0))
    (cr + (if t = CreditRecord then unat (payload_value pl) else 0))
    (out @ record_bytes (session_record t i q pl))"
proof -
  from ok obtain rs where rs: "out = concat (map record_bytes rs)" "in_sequence 0 rs"
    "unat q = length rs"
    "\<forall>r \<in> set rs. valid_record r \<and> rec_instance_id r = id_instance i \<and> rec_epoch r = id_epoch i"
    "\<forall>k < length rs. rec_type (rs ! k) = Ack \<longleftrightarrow> k = 0" "announced rs = w" "granted rs = cr"
    unfolding sent_ok_def by blast
  have "word_of_nat (length rs) = q" using rs(3) [symmetric] by simp
  then have "in_sequence 0 (rs @ [session_record t i q pl])"
    using rs(2) q by (simp add: in_sequence_append)
  moreover have "unat (q + 1) = length (rs @ [session_record t i q pl])"
    using rs(3) q by (simp add: unat_word_ariths)
  moreover have "(rec_type ((rs @ [session_record t i q pl]) ! k) = Ack) = (k = 0)"
    if "k < length (rs @ [session_record t i q pl])" for k
    using that rs(3,5) t by (auto simp: nth_append less_Suc_eq unat_eq_0)
  ultimately show ?thesis
    unfolding sent_ok_def using rs(1,4,6,7) assms(3)
    by (intro exI [of _ "rs @ [session_record t i q pl]"]) (auto simp: announced_snoc granted_snoc)
qed

lemma window_mono:
  "n \<le> gs_outstanding s \<Longrightarrow> unat (gs_outstanding s - n) = unat (gs_outstanding s) - unat n"
  by (simp add: unat_sub_no_wrap word_le_nat_alt)

text \<open>What a record that the guest accepts does.\<close>

lemma guest_accept_Reset:
  assumes "guest_accept s r = (Inr (GuestEventReset i), t)"
  shows "record_identity r = Some i" "stale_reset (gs_identity s) i = None"
    "t = s\<lparr>gs_identity := Some i, gs_receive_sequence := rec_sequence r + 1, gs_send_sequence := 0,
         gs_window := 0, gs_outstanding := 0, gs_state := GuestResetting\<rparr>"
  using assms
  by (auto simp: guest_accept_def guest_reset_def guest_data_def Let_def next_sequence_Inr
      split: if_splits option.splits sum.splits)

lemma guest_accept_Data:
  assumes "guest_accept s r = (Inr (GuestEventData bs), t)"
  defines "n \<equiv> (word_of_nat (length bs) :: u32)"
  shows "bs = rec_payload r" "gs_state s = GuestActive" "rec_type r = Data"
    "\<exists>i. gs_identity s = Some i \<and> rec_instance_id r = id_instance i \<and> rec_epoch r = id_epoch i"
    "rec_sequence r = gs_receive_sequence s" "unat (gs_receive_sequence s) + 1 < 2 ^ 64"
    "unat n \<le> unat (gs_window s) - unat (gs_outstanding s)"
    "t = s\<lparr>gs_receive_sequence := gs_receive_sequence s + 1, gs_outstanding := gs_outstanding s + n\<rparr>"
  using assms
  by (auto simp: guest_accept_def guest_reset_def guest_data_def Let_def next_sequence_Inr
      check_sequence_Inr check_identity_Inr word_less_nat_alt unat_saturating_sub
      split: if_splits option.splits sum.splits)

lemma valid_payload_length:
  "valid_record r \<Longrightarrow> unat (word_of_nat (length (rec_payload r)) :: u32) = length (rec_payload r)"
  using allows_length_bound [of "rec_type r" "length (rec_payload r)"]
  by (simp add: valid_record_def wire_simps)

lemma guest_ok_data:
  assumes ok: "guest_ok s out rc cr" and a: "guest_accept s r = (Inr (GuestEventData bs), t)"
    and valid: "valid_record r"
  shows "guest_ok t out (rc + length bs) cr"
proof -
  note d = guest_accept_Data [OF a]
  have n: "unat (word_of_nat (length bs) :: u32) = length bs"
    using valid_payload_length [OF valid] d(1) by simp
  have le: "unat (gs_outstanding s) + length bs \<le> unat (gs_window s)"
    using d(7) n ok by (auto simp: guest_ok_def window_ok_def)
  then have "unat (gs_outstanding s + word_of_nat (length bs)) = unat (gs_outstanding s) + length bs"
    using n unat_add_no_wrap [of "gs_outstanding s" "word_of_nat (length bs)"]
      unat_bound [of "gs_window s"] by simp
  with d(2,8) le ok show ?thesis
    by (auto simp: guest_ok_def window_ok_def epoch_ok_def parser_ok_def guest_open_def split: option.splits)
qed

lemma guest_ok_reset:
  assumes ok: "guest_ok s out rc cr" and a: "guest_accept s r = (Inr (GuestEventReset i), t)"
    and valid: "valid_record r" and q: "parser_inv q" "ps_error q = None"
  shows "guest_ok (t\<lparr>gs_parser := q\<rparr>) [] 0 0"
proof -
  have "identity_ok i" using guest_accept_Reset(1) [OF a] record_identity_ok valid by blast
  with q guest_accept_Reset(3) [OF a] show ?thesis
    by (simp add: guest_ok_def window_ok_def epoch_ok_def parser_ok_def sent_ok_empty)
qed

lemma epochs_ok_reset:
  assumes "epochs_ok current is" and "stale_reset current i = None"
  shows "epochs_ok (Some i) (is @ [i])"
  using assms
  by (auto simp: epochs_ok_def stale_reset_def newer_epoch_def successively_append_iff
      split: if_splits option.splits)

lemma guest_inv_receive:
  assumes inv: "guest_inv g"
  shows "guest_inv (guest_apply (CallReceive input) g)"
proof (cases "guest_open (gr_session g)")
  case False
  with inv show ?thesis by (simp add: guest_receive_def guest_inv_def)
next
  case True
  let ?s = "gr_session g"
  have ok: "guest_ok ?s (gr_out g) (gr_received g) (gr_credited g)"
    and eps: "epochs_ok (gs_identity ?s) (gr_epochs g)" using inv by (simp_all add: guest_inv_def)
  have nd: "gs_state ?s \<noteq> GuestDetached" using True by (auto simp: guest_open_def)
  have p: "parser_inv (gs_parser ?s)" "ps_error (gs_parser ?s) = None"
    using ok True by (simp_all add: guest_ok_def parser_ok_def)
  from True p show ?thesis
  proof (cases rule: guest.receive_cases [where input = input])
    case (more q)
    with guest_ok_parser [OF ok _ _ nd] eps show ?thesis by (simp add: guest_inv_def)
  next
    case (bad e q)
    with guest_ok_fail [OF ok] eps show ?thesis by (simp add: guest_inv_def guest_fail_def)
  next
    case (refused r e u q)
    then have "u = ?s"
      by (auto simp: guest_accept_def guest_reset_def guest_data_def Let_def
          split: if_splits option.splits sum.splits)
    with refused guest_ok_fail [OF ok] eps show ?thesis by (simp add: guest_inv_def guest_fail_def)
  next
    case (accepted r ev u q n)
    show ?thesis
    proof (cases ev)
      case (GuestEventReset i)
      with accepted have a: "guest_accept ?s r = (Inr (GuestEventReset i), u)" by simp
      with accepted guest_ok_reset [OF ok a] epochs_ok_reset [OF eps guest_accept_Reset(2) [OF a]]
        guest_accept_Reset(3) [OF a] GuestEventReset show ?thesis by (simp add: guest_inv_def)
    next
      case (GuestEventData bs)
      with accepted have a: "guest_accept ?s r = (Inr (GuestEventData bs), u)" by simp
      have "gs_state u \<noteq> GuestDetached" "gs_identity u = gs_identity ?s"
        using guest_accept_Data(2,8) [OF a] by simp_all
      with accepted guest_ok_parser [OF guest_ok_data [OF ok a]] GuestEventData eps show ?thesis
        by (simp add: guest_inv_def)
    qed
  qed
qed

lemma ack_payload_ok:
  "check_payload Ack (to_le_bytes w) = Inr () \<Longrightarrow> w \<le> outer_max_receive_window"
  by (auto simp: Let_def payload_value_def split: if_splits)

lemma guest_inv_acknowledge:
  assumes inv: "guest_inv g"
  shows "guest_inv (guest_apply (CallAcknowledge window) g)"
proof -
  let ?s = "gr_session g"
  obtain res t out where a: "guest_acknowledge ?s window (gr_out g) = (res, t, out)"
    by (cases "guest_acknowledge ?s window (gr_out g)")
  show ?thesis
  proof (cases res)
    case (Inl e)
    with a have "t = ?s" "out = gr_out g"
      by (auto simp: guest_acknowledge_def dest: encode_record_Inl
          split: guest_state.splits option.splits prod.splits sum.splits)
    with a inv show ?thesis by (simp add: guest_inv_def)
  next
    case (Inr u)
    then obtain i where i: "gs_state ?s = GuestResetting" "gs_identity ?s = Some i"
      "encode_record Ack (id_instance i) (id_epoch i) 0 (to_le_bytes window) (gr_out g) = (Inr (), out)"
      "t = ?s\<lparr>gs_send_sequence := 1, gs_window := window, gs_outstanding := 0, gs_state := GuestActive\<rparr>"
      using a by (auto simp: guest_acknowledge_def
          split: guest_state.splits option.splits prod.splits sum.splits)
    let ?r = "session_record Ack i 0 (to_le_bytes window)"
    have out: "out = gr_out g @ record_bytes ?r" "check_payload Ack (to_le_bytes window) = Inr ()"
      using i(3) by (simp_all add: encode_record_Inr session_record_def)
    have ok: "gr_out g = []" "gr_received g = 0" "gr_credited g = 0" "identity_ok i" "parser_ok ?s"
      using inv i(1,2) by (auto simp: guest_inv_def guest_ok_def epoch_ok_def window_ok_def)
    have "valid_record ?r"
      using ok(4) out(2) by (simp add: valid_record_def identity_ok_def check_bootstrap_def)
    from sent_ok_more [OF sent_ok_empty _ this] have "sent_ok i 1 (unat window) 0 out"
      using out(1) ok(1) by (simp add: payload_value_def)
    with a i ok ack_payload_ok [OF out(2)] inv show ?thesis
      by (simp add: guest_inv_def guest_ok_def window_ok_def epoch_ok_def parser_ok_def guest_open_def)
  qed
qed

text \<open>A record of an active epoch that the guest sends.\<close>

lemma epoch_sent:
  assumes ok: "epoch_ok s out rc cr" and act: "gs_state s = GuestActive" "gs_identity s = Some i"
    and q: "unat (gs_send_sequence s) + 1 < 2 ^ 64"
    and valid: "valid_record (session_record t i (gs_send_sequence s) pl)" and t: "t \<noteq> Ack"
  shows "epoch_ok (s\<lparr>gs_send_sequence := gs_send_sequence s + 1\<rparr>)
    (out @ record_bytes (session_record t i (gs_send_sequence s) pl)) rc
    (cr + (if t = CreditRecord then unat (payload_value pl) else 0))"
proof -
  have e: "sent_ok i (gs_send_sequence s) (unat (gs_window s)) cr out" "gs_send_sequence s \<noteq> 0" "identity_ok i"
    using ok act by (simp_all add: epoch_ok_def)
  have "unat (gs_send_sequence s + 1) \<noteq> 0" using q by (simp add: unat_word_ariths)
  then have "gs_send_sequence s + 1 \<noteq> 0" by (metis unat_0)
  with sent_ok_more [OF e(1) q valid] e(2,3) t act show ?thesis by (simp add: epoch_ok_def)
qed

lemma guest_inv_send:
  assumes inv: "guest_inv g"
  shows "guest_inv (guest_apply (CallSend bs) g)"
proof -
  let ?s = "gr_session g"
  obtain res t out where a: "guest_send ?s bs (gr_out g) = (res, t, out)"
    by (cases "guest_send ?s bs (gr_out g)")
  show ?thesis
  proof (cases res)
    case (Inl e)
    with a have "t = ?s" "out = gr_out g"
      by (auto simp: guest_send_def dest: encode_data_Inl split: guest_state.splits option.splits prod.splits)
    with a inv show ?thesis by (simp add: guest_inv_def)
  next
    case (Inr n)
    then obtain i where i: "gs_state ?s = GuestActive" "gs_identity ?s = Some i"
      "encode_data i (gs_send_sequence ?s) bs (gr_out g) = (Inr n, gs_send_sequence t, out)"
      "t = ?s\<lparr>gs_send_sequence := gs_send_sequence t\<rparr>"
      using a by (auto simp: guest_send_def split: guest_state.splits option.splits prod.splits)
    note enc = i(3) [unfolded encode_data_Inr]
    have ok: "identity_ok i" "epoch_ok ?s (gr_out g) (gr_received g) (gr_credited g)"
      using inv i(1,2) by (simp_all add: guest_inv_def guest_ok_def epoch_ok_def)
    then have "valid_record (session_record Data i (gs_send_sequence ?s) (take n bs))"
      using enc by (intro valid_data_record) (auto simp: identity_ok_def outer_max_payload_def)
    from epoch_sent [OF ok(2) i(1,2) _ this] enc
    have "epoch_ok (?s\<lparr>gs_send_sequence := gs_send_sequence ?s + 1\<rparr>) out (gr_received g) (gr_credited g)"
      by simp
    with inv enc i(4) a show ?thesis
      by (simp add: guest_inv_def guest_ok_def window_ok_def parser_ok_def guest_open_def)
  qed
qed

lemma guest_inv_credit:
  assumes inv: "guest_inv g"
  shows "guest_inv (guest_apply (CallCredit n) g)"
proof -
  let ?s = "gr_session g"
  obtain res t out where a: "guest_credit ?s n (gr_out g) = (res, t, out)"
    by (cases "guest_credit ?s n (gr_out g)")
  show ?thesis
  proof (cases res)
    case (Inl e)
    with a have "t = ?s" "out = gr_out g"
      by (auto simp: guest_credit_def dest: encode_next_Inl
          split: guest_state.splits option.splits prod.splits sum.splits if_splits)
    with a Inl inv show ?thesis by (simp add: guest_inv_def)
  next
    case (Inr u)
    then obtain i where i: "gs_state ?s = GuestActive" "gs_identity ?s = Some i" "n \<le> gs_outstanding ?s"
      "encode_next CreditRecord i (gs_send_sequence ?s) (to_le_bytes n) (gr_out g) =
         (Inr (), gs_send_sequence t, out)"
      "t = ?s\<lparr>gs_send_sequence := gs_send_sequence t, gs_outstanding := gs_outstanding ?s - n\<rparr>"
      using a by (auto simp: guest_credit_def not_less
          split: guest_state.splits option.splits prod.splits sum.splits if_splits)
    note enc = i(4) [unfolded encode_next_Inr]
    let ?r = "session_record CreditRecord i (gs_send_sequence ?s) (to_le_bytes n)"
    have ok: "identity_ok i" "epoch_ok ?s (gr_out g) (gr_received g) (gr_credited g)"
      using inv i(1,2) by (simp_all add: guest_inv_def guest_ok_def epoch_ok_def)
    then have "valid_record ?r" using enc by (simp add: valid_record_def identity_ok_def)
    from epoch_sent [OF ok(2) i(1,2) _ this] enc
    have "epoch_ok (?s\<lparr>gs_send_sequence := gs_send_sequence ?s + 1, gs_outstanding := gs_outstanding ?s - n\<rparr>)
        out (gr_received g) (gr_credited g + unat n)"
      using i(1,2) by (simp add: epoch_ok_def payload_value_def)
    moreover have "unat n \<le> unat (gs_outstanding ?s)" using i(3) by (simp add: word_le_nat_alt)
    ultimately show ?thesis using a Inr i(5) enc inv window_mono [OF i(3)]
      by (auto simp: guest_inv_def guest_ok_def window_ok_def parser_ok_def guest_open_def)
  qed
qed

lemma guest_inv_apply: "guest_inv g \<Longrightarrow> guest_inv (guest_apply c g)"
proof (cases c)
  case CallAttach
  assume "guest_inv g"
  with CallAttach show ?thesis
    by (auto simp: guest_inv_def guest_attach_def guest_ok_def window_ok_def epoch_ok_def parser_ok_def
        guest_open_def parser_inv_new split: prod.splits sum.splits option.splits)
next
  case CallDisconnect
  assume "guest_inv g"
  with CallDisconnect show ?thesis
    by (auto simp: guest_inv_def guest_disconnect_def guest_fail_def guest_ok_def window_ok_def
        epoch_ok_def parser_ok_def guest_open_def split: option.splits)
qed (simp_all only: guest_inv_receive guest_inv_acknowledge guest_inv_send guest_inv_credit)

interpretation guest_sys: transition_system "\<lambda>g. g = run_new" guest_step guest_inv
proof unfold_locales
  show "guest_inv g" if "g = run_new" for g
    using that by (simp add: guest_inv_def run_new_def guest_new_def guest_ok_def window_ok_def epoch_ok_def
        parser_ok_def parser_inv_new guest_open_def epochs_ok_def)
qed (auto intro: guest_inv_apply)

lemma guest_runs_steps: "guest_step\<^sup>*\<^sup>* g (fold guest_apply calls g)"
proof (induction calls arbitrary: g)
  case (Cons c calls)
  from guest_step.call [of g c] Cons.IH [of "guest_apply c g"] show ?case
    by (simp add: converse_rtranclp_into_rtranclp)
qed simp

lemma guest_runs_inv: "guest_inv (guest_runs calls)"
  using guest_sys.invar_reachable [OF refl guest_runs_steps] by (simp add: guest_runs_def)

section \<open>What the guest promises\<close>

lemma guest_sent_records:
  fixes calls
  defines "g \<equiv> guest_runs calls"
  obtains rs where "read_stream (gr_out g) = (rs, None, [])"
    "announced rs = unat (gs_window (gr_session g))" "granted rs = gr_credited g"
proof -
  have ok: "epoch_ok (gr_session g) (gr_out g) (gr_received g) (gr_credited g)"
    using guest_runs_inv [of calls] by (simp add: g_def guest_inv_def guest_ok_def)
  have "\<exists>rs. read_stream (gr_out g) = (rs, None, []) \<and> announced rs = unat (gs_window (gr_session g)) \<and>
      granted rs = gr_credited g"
  proof (cases "gs_identity (gr_session g)")
    case None
    with ok read_stream_all [of "[]" "[]"] show ?thesis
      by (simp add: epoch_ok_def announced_def granted_def)
  next
    case (Some i)
    with ok obtain rs where rs: "gr_out g = concat (map record_bytes rs)" "\<And>r. r \<in> set rs \<Longrightarrow> valid_record r"
      "announced rs = unat (gs_window (gr_session g))" "granted rs = gr_credited g"
      unfolding epoch_ok_def sent_ok_def by auto
    from read_stream_all [OF rs(2,1)] rs(3,4) show ?thesis by blast
  qed
  with that show ?thesis by blast
qed

text \<open>
  C22. Whatever the caller does and whatever bytes arrive, the bytes that a guest session has written in
  its epoch are whole records, and they tell the broker the truth about the flow of data: the window
  that the session enforces is the one in the acknowledgement on the wire, none before there is one,
  and within the protocol's limit; the data it has delivered is what the credit records on the wire
  have granted back plus what is outstanding; and the outstanding data never exceeds that window.
\<close>

theorem guest_window_respected:
  "let g = guest_runs calls; s = gr_session g; rs = fst (read_stream (gr_out g))
   in snd (read_stream (gr_out g)) = (None, []) \<and>
      unat (gs_window s) = announced rs \<and> announced rs \<le> unat outer_max_receive_window \<and>
      gr_received g = granted rs + unat (gs_outstanding s) \<and> unat (gs_outstanding s) \<le> announced rs"
proof -
  obtain rs where "read_stream (gr_out (guest_runs calls)) = (rs, None, [])"
    "announced rs = unat (gs_window (gr_session (guest_runs calls)))"
    "granted rs = gr_credited (guest_runs calls)" by (rule guest_sent_records)
  with guest_runs_inv [of calls] show ?thesis
    by (simp add: guest_inv_def guest_ok_def window_ok_def word_le_nat_alt)
qed

text \<open>
  C23. Whatever the caller does, the bytes that a guest session has written since the reset of its epoch
  are a stream of whole valid records with the epoch's identity, numbered 0, 1, 2 and so on up to the
  session's next number, of which exactly the first is an acknowledgement.
\<close>

theorem guest_stream_well_formed:
  assumes "gs_identity (gr_session (guest_runs calls)) = Some i"
  shows "\<exists>rs. read_stream (gr_out (guest_runs calls)) = (rs, None, []) \<and>
    length rs = unat (gs_send_sequence (gr_session (guest_runs calls))) \<and>
    (\<forall>k < length rs. unat (rec_sequence (rs ! k)) = k \<and> (rec_type (rs ! k) = Ack \<longleftrightarrow> k = 0)) \<and>
    (\<forall>r \<in> set rs. rec_instance_id r = id_instance i \<and> rec_epoch r = id_epoch i)"
proof -
  let ?g = "guest_runs calls"
  have "sent_ok i (gs_send_sequence (gr_session ?g)) (unat (gs_window (gr_session ?g))) (gr_credited ?g) (gr_out ?g)"
    using guest_runs_inv [of calls] assms by (simp add: guest_inv_def guest_ok_def epoch_ok_def)
  then obtain rs where rs: "gr_out ?g = concat (map record_bytes rs)" "in_sequence 0 rs"
    "unat (gs_send_sequence (gr_session ?g)) = length rs"
    "\<And>r. r \<in> set rs \<Longrightarrow> valid_record r" "\<forall>r \<in> set rs. rec_instance_id r = id_instance i \<and> rec_epoch r = id_epoch i"
    "\<forall>k < length rs. rec_type (rs ! k) = Ack \<longleftrightarrow> k = 0"
    unfolding sent_ok_def by blast
  have "read_stream (gr_out ?g) = (rs, None, [])" by (rule read_stream_all [OF rs(4,1)])
  moreover have "\<forall>k < length rs. unat (rec_sequence (rs ! k)) = k" using in_sequence_nth [OF rs(2)] by simp
  ultimately show ?thesis using rs(3,5,6) by (intro exI [of _ rs]) simp
qed

definition demo_identity :: identity where
  "demo_identity = \<lparr>id_instance = replicate 16 9, id_epoch = 1\<rparr>"

definition demo_reset :: nvxs_record where
  "demo_reset = session_record Reset demo_identity 4 []"

definition demo_calls :: "guest_call list" where
  "demo_calls = [CallAttach, CallReceive (record_bytes demo_reset), CallAcknowledge outer_min_receive_window, CallSend [1, 2, 3]]"

theorem guest_stream_well_formed_witness:
  "\<exists>rs. read_stream (gr_out (guest_runs demo_calls)) = (rs, None, []) \<and> length rs = 2"
proof -
  have "gs_identity (gr_session (guest_runs demo_calls)) = Some demo_identity"
    "unat (gs_send_sequence (gr_session (guest_runs demo_calls))) = 2" by code_simp+
  with guest_stream_well_formed [of demo_calls demo_identity] show ?thesis by auto
qed

text \<open>One data record, and a list of them, at an active guest.\<close>

lemma guest_accept_fits:
  assumes act: "gs_state s = GuestActive" "gs_identity s = Some i"
    and r: "rec_type r = Data" "rec_instance_id r = id_instance i" "rec_epoch r = id_epoch i"
    and sq: "rec_sequence r = gs_receive_sequence s" "unat (gs_receive_sequence s) + 1 < 2 ^ 64"
    and valid: "valid_record r"
  shows "unat (gs_outstanding s) + length (rec_payload r) \<le> unat (gs_window s) \<Longrightarrow>
      guest_accept s r = (Inr (GuestEventData (rec_payload r)),
        s\<lparr>gs_receive_sequence := gs_receive_sequence s + 1,
          gs_outstanding := gs_outstanding s + word_of_nat (length (rec_payload r))\<rparr>)"
    and "gs_outstanding s \<le> gs_window s \<Longrightarrow>
      unat (gs_window s) < unat (gs_outstanding s) + length (rec_payload r) \<Longrightarrow>
      guest_accept s r = (Inl (WindowExceeded (gs_window s) (gs_outstanding s)
        (word_of_nat (length (rec_payload r)))), s)"
proof -
  have nx: "next_sequence (gs_receive_sequence s) Data = Inr (gs_receive_sequence s + 1)"
    using sq(2) by (simp add: next_sequence_Inr)
  note n = valid_payload_length [OF valid]
  show "guest_accept s r = (Inr (GuestEventData (rec_payload r)),
        s\<lparr>gs_receive_sequence := gs_receive_sequence s + 1,
          gs_outstanding := gs_outstanding s + word_of_nat (length (rec_payload r))\<rparr>)"
    if "unat (gs_outstanding s) + length (rec_payload r) \<le> unat (gs_window s)"
    using that n act r sq(1) nx
    by (simp add: guest_accept_def guest_data_def check_sequence_def check_identity_def Let_def
        word_less_nat_alt unat_saturating_sub)
  show "guest_accept s r = (Inl (WindowExceeded (gs_window s) (gs_outstanding s)
        (word_of_nat (length (rec_payload r)))), s)"
    if "gs_outstanding s \<le> gs_window s"
      "unat (gs_window s) < unat (gs_outstanding s) + length (rec_payload r)"
    using that n act r sq(1) nx
    by (simp add: guest_accept_def guest_data_def check_sequence_def check_identity_def Let_def
        word_less_nat_alt word_le_nat_alt unat_saturating_sub)
qed

abbreviation payloads :: "nvxs_record list \<Rightarrow> nat" where
  "payloads rs \<equiv> sum_list (map (\<lambda>r. length (rec_payload r)) rs)"

lemma guest_open_active: "gs_state s = GuestActive \<Longrightarrow> guest_open s"
  by (simp add: guest_open_def)

lemma judge_guest_datas:
  assumes "gs_state s = GuestActive" and "gs_identity s = Some i"
    and "\<And>r. r \<in> set rs \<Longrightarrow> valid_record r \<and> rec_type r = Data \<and> rec_instance_id r = id_instance i \<and>
      rec_epoch r = id_epoch i"
    and "in_sequence (gs_receive_sequence s) rs"
    and "unat (gs_outstanding s) + payloads rs \<le> unat (gs_window s)"
  shows "judge guest_open guest_accept guest_fail s rs =
    (map (\<lambda>r. GuestEventData (rec_payload r)) rs, None,
     s\<lparr>gs_receive_sequence := gs_receive_sequence s + word_of_nat (length rs),
       gs_outstanding := gs_outstanding s + word_of_nat (payloads rs)\<rparr>)"
  using assms
proof (induction rs arbitrary: s)
  case (Cons r rs)
  let ?t = "s\<lparr>gs_receive_sequence := gs_receive_sequence s + 1,
      gs_outstanding := gs_outstanding s + word_of_nat (length (rec_payload r))\<rparr>"
  have r: "valid_record r" "rec_type r = Data" "rec_instance_id r = id_instance i" "rec_epoch r = id_epoch i"
    using Cons.prems(3) [of r] by simp_all
  have sq: "rec_sequence r = gs_receive_sequence s" "unat (gs_receive_sequence s) + 1 < 2 ^ 64"
    using Cons.prems(4) by simp_all
  have fits: "unat (gs_outstanding s) + length (rec_payload r) \<le> unat (gs_window s)"
    using Cons.prems(5) by simp
  note acc = guest_accept_fits(1) [OF Cons.prems(1,2) r(2-4) sq r(1) fits]
  have o: "unat (gs_outstanding ?t) = unat (gs_outstanding s) + length (rec_payload r)"
    using fits valid_payload_length [OF r(1)] unat_bound [of "gs_window s"]
      unat_add_no_wrap [of "gs_outstanding s" "word_of_nat (length (rec_payload r))"] by simp
  have "judge guest_open guest_accept guest_fail ?t rs = (map (\<lambda>r. GuestEventData (rec_payload r)) rs, None,
      ?t\<lparr>gs_receive_sequence := gs_receive_sequence ?t + word_of_nat (length rs),
         gs_outstanding := gs_outstanding ?t + word_of_nat (payloads rs)\<rparr>)"
  proof (rule Cons.IH)
    show "valid_record x \<and> rec_type x = Data \<and> rec_instance_id x = id_instance i \<and> rec_epoch x = id_epoch i"
      if "x \<in> set rs" for x
      by (rule Cons.prems(3)) (use that in simp)
    show "unat (gs_outstanding ?t) + payloads rs \<le> unat (gs_window ?t)"
      unfolding o using Cons.prems(5) by simp
  qed (use Cons.prems(1,2,4) in simp_all)
  with acc Cons.prems(1) show ?case by (simp add: guest_open_active add.assoc)
qed simp

text \<open>A session that is reached, between two records, and the records of a stream.\<close>

lemma guest_pieces_judge:
  assumes "s = gr_session (guest_runs calls)" and op: "guest_open s"
    and "partial (gs_parser s) = []"
    and "\<And>r. r \<in> set rs \<Longrightarrow> valid_record r" and "concat pieces = concat (map record_bytes rs)"
  obtains evs err t p where
    "take_pieces guest_open guest_receive s pieces = (evs, err, t\<lparr>gs_parser := p\<rparr>)"
    "judge guest_open guest_accept guest_fail s rs = (evs, err, t)"
proof -
  have "parser_inv (gs_parser s)" "ps_error (gs_parser s) = None"
    using guest_runs_inv [of calls] op assms(1) by (simp_all add: guest_inv_def guest_ok_def parser_ok_def)
  moreover obtain evs err t where t: "take_pieces guest_open guest_receive s pieces = (evs, err, t)"
    by (cases "take_pieces guest_open guest_receive s pieces")
  moreover have "read_stream (concat pieces) = (rs, None, [])" by (rule read_stream_all [OF assms(4,5)])
  ultimately obtain t' where j: "judge_stream guest_open guest_accept guest_fail s rs None = (evs, err, t')"
    and same: "guest.same_role t t'"
    using guest.take_pieces_judge [of s pieces evs err t rs None "[]"] op assms(3) by auto
  from j have "judge guest_open guest_accept guest_fail s rs = (evs, err, t')"
    by (simp add: judge_stream_def split: prod.splits)
  with that t guest.same_role_D [OF same] show ?thesis by simp
qed

text \<open>
  C24. An active guest session, at any point of its run between two records, delivers every data record
  of its identity that is numbered in sequence while their payloads fit the rest of the window: all of
  the payloads, in order, however the bytes are cut into pieces, and then exactly those bytes are
  outstanding in addition.
\<close>

theorem guest_delivers_what_fits:
  assumes "s = gr_session (guest_runs calls)"
    and "gs_state s = GuestActive" and "gs_identity s = Some i" and "partial (gs_parser s) = []"
    and "\<And>r. r \<in> set datas \<Longrightarrow> valid_record r \<and> rec_type r = Data \<and> rec_instance_id r = id_instance i \<and>
      rec_epoch r = id_epoch i"
    and "in_sequence (gs_receive_sequence s) datas"
    and "unat (gs_outstanding s) + payloads datas \<le> unat (gs_window s)"
    and "concat pieces = concat (map record_bytes datas)"
  shows "\<exists>t. take_pieces guest_open guest_receive s pieces =
      (map (\<lambda>r. GuestEventData (rec_payload r)) datas, None, t) \<and>
    gs_state t = GuestActive \<and> unat (gs_outstanding t) = unat (gs_outstanding s) + payloads datas"
proof -
  note j = judge_guest_datas [OF assms(2,3,5-7)]
  have v: "\<And>r. r \<in> set datas \<Longrightarrow> valid_record r" using assms(5) by blast
  have "unat (word_of_nat (payloads datas) :: u32) = payloads datas"
    using assms(7) unat_bound [of "gs_window s"] by (simp add: unat_of_nat)
  then have "unat (gs_outstanding s + word_of_nat (payloads datas)) = unat (gs_outstanding s) + payloads datas"
    using unat_add_no_wrap [of "gs_outstanding s" "word_of_nat (payloads datas)"] assms(7)
      unat_bound [of "gs_window s"] by simp
  moreover from guest_pieces_judge [OF assms(1) guest_open_active [OF assms(2)] assms(4) v assms(8)]
  obtain evs err t p where
    "take_pieces guest_open guest_receive s pieces = (evs, err, t\<lparr>gs_parser := p\<rparr>)"
    "judge guest_open guest_accept guest_fail s datas = (evs, err, t)" .
  ultimately show ?thesis using j assms(2) by auto
qed

text \<open>The session after the demonstration's calls, and data records for it.\<close>

definition demo_session :: guest_session where
  "demo_session = gr_session (guest_runs demo_calls)"

definition demo_data :: "u64 \<Rightarrow> bytes \<Rightarrow> nvxs_record" where
  "demo_data q bs = session_record Data demo_identity q bs"

lemma demo_session_facts:
  "gs_state demo_session = GuestActive" "gs_identity demo_session = Some demo_identity"
  "partial (gs_parser demo_session) = []" "gs_receive_sequence demo_session = 5"
  "gs_outstanding demo_session = 0" "gs_window demo_session = outer_min_receive_window"
  by code_simp+

lemma demo_data_facts:
  "0 < length bs \<Longrightarrow> length bs \<le> outer_max_payload \<Longrightarrow> valid_record (demo_data q bs)"
  "rec_type (demo_data q bs) = Data" "rec_instance_id (demo_data q bs) = id_instance demo_identity"
  "rec_epoch (demo_data q bs) = id_epoch demo_identity" "rec_sequence (demo_data q bs) = q"
  "rec_payload (demo_data q bs) = bs"
  unfolding demo_data_def
  by (intro valid_data_record; simp add: demo_identity_def) (simp_all add: session_record_def)

theorem guest_delivers_what_fits_witness:
  "\<exists>t. take_pieces guest_open guest_receive demo_session
      [record_bytes (demo_data 5 [1, 2]) @ record_bytes (demo_data 6 [3])] =
      ([GuestEventData [1, 2], GuestEventData [3]], None, t) \<and>
    gs_state t = GuestActive \<and> unat (gs_outstanding t) = 3"
proof -
  let ?ds = "[demo_data 5 [1, 2], demo_data 6 [3]]"
  have "\<exists>t. take_pieces guest_open guest_receive demo_session
      [record_bytes (demo_data 5 [1, 2]) @ record_bytes (demo_data 6 [3])] =
      (map (\<lambda>r. GuestEventData (rec_payload r)) ?ds, None, t) \<and>
    gs_state t = GuestActive \<and> unat (gs_outstanding t) = unat (gs_outstanding demo_session) + payloads ?ds"
  proof (rule guest_delivers_what_fits [OF demo_session_def demo_session_facts(1-3)])
    show "valid_record r \<and> rec_type r = Data \<and> rec_instance_id r = id_instance demo_identity \<and>
        rec_epoch r = id_epoch demo_identity" if "r \<in> set ?ds" for r
      using that by (auto simp only: set_simps insert_iff empty_iff)
        (simp_all add: demo_data_facts outer_max_payload_def)
    show "unat (gs_outstanding demo_session) + payloads ?ds \<le> unat (gs_window demo_session)"
      by code_simp
  qed (simp_all add: demo_session_facts demo_data_facts)
  then show ?thesis by (simp add: demo_session_facts demo_data_facts numeral_3_eq_3)
qed

text \<open>
  C25. When the data exceeds the window - data records that fit, then one that does not - the guest
  session delivers what fits and fails with the window error on the record that does not: no byte
  beyond the window is delivered.
\<close>

theorem guest_refuses_excess:
  assumes "s = gr_session (guest_runs calls)"
    and "gs_state s = GuestActive" and "gs_identity s = Some i" and "partial (gs_parser s) = []"
    and "\<And>r. r \<in> set (datas @ [over]) \<Longrightarrow> valid_record r \<and> rec_type r = Data \<and>
      rec_instance_id r = id_instance i \<and> rec_epoch r = id_epoch i"
    and "in_sequence (gs_receive_sequence s) (datas @ [over])"
    and "unat (gs_outstanding s) + payloads datas \<le> unat (gs_window s)"
    and "unat (gs_window s) < unat (gs_outstanding s) + payloads (datas @ [over])"
    and "concat pieces = concat (map record_bytes (datas @ [over]))"
  shows "\<exists>held t. take_pieces guest_open guest_receive s pieces =
      (map (\<lambda>r. GuestEventData (rec_payload r)) datas,
       Some (WindowExceeded (gs_window s) held (word_of_nat (length (rec_payload over)))), t) \<and>
    unat held = unat (gs_outstanding s) + payloads datas \<and> gs_state t = GuestFailed"
proof -
  let ?u = "s\<lparr>gs_receive_sequence := gs_receive_sequence s + word_of_nat (length datas),
       gs_outstanding := gs_outstanding s + word_of_nat (payloads datas)\<rparr>"
  have v: "\<And>r. r \<in> set (datas @ [over]) \<Longrightarrow> valid_record r" using assms(5) by blast
  have d: "\<And>r. r \<in> set datas \<Longrightarrow> valid_record r \<and> rec_type r = Data \<and> rec_instance_id r = id_instance i \<and>
      rec_epoch r = id_epoch i" by (rule assms(5)) simp
  have r: "rec_type over = Data" "rec_instance_id over = id_instance i" "rec_epoch over = id_epoch i"
    "valid_record over" using assms(5) [of over] by simp_all
  have sq: "in_sequence (gs_receive_sequence s) datas"
    "rec_sequence over = gs_receive_sequence ?u" "unat (gs_receive_sequence ?u) + 1 < 2 ^ 64"
    using assms(6) by (simp_all add: in_sequence_append)
  note j = judge_guest_datas [OF assms(2,3) d sq(1) assms(7)]
  have "unat (word_of_nat (payloads datas) :: u32) = payloads datas"
    using assms(7) unat_bound [of "gs_window s"] by (simp add: unat_of_nat)
  then have o: "unat (gs_outstanding ?u) = unat (gs_outstanding s) + payloads datas"
    using unat_add_no_wrap [of "gs_outstanding s" "word_of_nat (payloads datas)"] assms(7)
      unat_bound [of "gs_window s"] by simp
  have "guest_accept ?u over = (Inl (WindowExceeded (gs_window ?u) (gs_outstanding ?u)
      (word_of_nat (length (rec_payload over)))), ?u)"
    by (rule guest_accept_fits(2) [OF _ _ r(1-3) sq(2,3) r(4)])
      (use assms(2,3,7,8) o in \<open>simp_all add: word_le_nat_alt\<close>)
  with j have "judge guest_open guest_accept guest_fail s (datas @ [over]) =
      (map (\<lambda>r. GuestEventData (rec_payload r)) datas, Some (WindowExceeded (gs_window s)
        (gs_outstanding ?u) (word_of_nat (length (rec_payload over)))), guest_fail ?u)"
    using assms(2) by (simp add: guest.judge_append guest_open_active)
  moreover from guest_pieces_judge [OF assms(1) guest_open_active [OF assms(2)] assms(4) v assms(9)]
  obtain evs err t p where
    "take_pieces guest_open guest_receive s pieces = (evs, err, t\<lparr>gs_parser := p\<rparr>)"
    "judge guest_open guest_accept guest_fail s (datas @ [over]) = (evs, err, t)" .
  ultimately show ?thesis using o by (simp add: guest_fail_def)
qed

theorem guest_refuses_excess_witness:
  "\<exists>held t. take_pieces guest_open guest_receive demo_session
      [record_bytes (demo_data 5 (replicate outer_max_payload 0)) @ record_bytes (demo_data 6 [3])] =
      ([GuestEventData (replicate outer_max_payload 0)],
       Some (WindowExceeded outer_min_receive_window held 1), t) \<and>
    unat held = outer_max_payload \<and> gs_state t = GuestFailed"
proof -
  let ?full = "replicate outer_max_payload 0 :: bytes"
  let ?d = "demo_data 5 ?full" and ?o = "demo_data 6 [3]"
  have w: "unat (gs_outstanding demo_session) + payloads [?d] \<le> unat (gs_window demo_session)"
    "unat (gs_window demo_session) < unat (gs_outstanding demo_session) + payloads ([?d] @ [?o])"
    by (simp_all add: demo_session_facts demo_data_facts wire_simps outer_min_receive_window_def)
  have "\<exists>held t. take_pieces guest_open guest_receive demo_session [record_bytes ?d @ record_bytes ?o] =
      (map (\<lambda>r. GuestEventData (rec_payload r)) [?d],
       Some (WindowExceeded (gs_window demo_session) held (word_of_nat (length (rec_payload ?o)))), t) \<and>
    unat held = unat (gs_outstanding demo_session) + payloads [?d] \<and> gs_state t = GuestFailed"
  proof (rule guest_refuses_excess [OF demo_session_def demo_session_facts(1-3) _ _ w])
    show "valid_record r \<and> rec_type r = Data \<and> rec_instance_id r = id_instance demo_identity \<and>
        rec_epoch r = id_epoch demo_identity" if "r \<in> set ([?d] @ [?o])" for r
      using that by (auto simp only: set_simps insert_iff empty_iff append_Cons append_Nil)
        (simp_all add: demo_data_facts outer_max_payload_def)
  qed (simp_all add: demo_session_facts demo_data_facts)
  then show ?thesis by (simp add: demo_session_facts demo_data_facts)
qed





text \<open>The error that a call returns, if it does, and the calls that break the session.\<close>

definition guest_error :: "guest_call \<Rightarrow> guest_session \<Rightarrow> session_error option" where
  "guest_error c s =
     (case c of
        CallAttach \<Rightarrow> (case fst (guest_attach s []) of Inl e \<Rightarrow> Some e | Inr _ \<Rightarrow> None)
      | CallReceive input \<Rightarrow> (case fst (guest_receive s input) of Inl e \<Rightarrow> Some e | Inr _ \<Rightarrow> None)
      | CallAcknowledge w \<Rightarrow> (case fst (guest_acknowledge s w []) of Inl e \<Rightarrow> Some e | Inr _ \<Rightarrow> None)
      | CallSend bs \<Rightarrow> (case fst (guest_send s bs []) of Inl e \<Rightarrow> Some e | Inr _ \<Rightarrow> None)
      | CallCredit n \<Rightarrow> (case fst (guest_credit s n []) of Inl e \<Rightarrow> Some e | Inr _ \<Rightarrow> None)
      | CallDisconnect \<Rightarrow> (case fst (guest_disconnect s) of Inl e \<Rightarrow> Some e | Inr _ \<Rightarrow> None))"

fun guest_breaks :: "guest_call \<Rightarrow> guest_session \<Rightarrow> bool" where
  "guest_breaks (CallReceive input) s \<longleftrightarrow> guest_open s \<and> guest_error (CallReceive input) s \<noteq> None"
| "guest_breaks CallDisconnect s \<longleftrightarrow> guest_error CallDisconnect s \<noteq> None"
| "guest_breaks _ s \<longleftrightarrow> False"

lemma guest_accept_state: "gs_state s \<noteq> GuestFailed \<Longrightarrow> gs_state (snd (guest_accept s r)) \<noteq> GuestFailed"
  by (simp add: guest_accept_def guest_reset_def guest_data_def Let_def split: option.split sum.split)

lemma guest_receive_failed:
  assumes "guest_open s"
  shows "gs_state (snd (guest_receive s input)) = GuestFailed \<longleftrightarrow> guest_error (CallReceive input) s \<noteq> None"
proof -
  have "gs_state u \<noteq> GuestFailed" if "guest_accept (s\<lparr>gs_parser := p\<rparr>) r = (res, u)" for p r res u
    using guest_accept_state [of "s\<lparr>gs_parser := p\<rparr>" r] assms that by (auto simp: guest_open_def)
  moreover have "gs_state s \<noteq> GuestFailed" using assms by (auto simp: guest_open_def)
  ultimately show ?thesis using assms
    by (auto simp: guest_receive_def guest_error_def guest_fail_def
        split: prod.split sum.split option.split)
qed

lemma guest_apply_failed: "gs_state (gr_session g) = GuestFailed \<Longrightarrow> guest_apply c g = g"
  by (cases c) (simp_all add: guest_attach_def guest_receive_def guest_open_def guest_acknowledge_def
      guest_send_def guest_credit_def guest_disconnect_def)

lemma guest_apply_breaks:
  "gs_state (gr_session (guest_apply c g)) = GuestFailed \<longleftrightarrow>
     gs_state (gr_session g) = GuestFailed \<or> guest_breaks c (gr_session g)"
proof (cases c)
  case (CallReceive input)
  have "gr_session (guest_apply c g) = snd (guest_receive (gr_session g) input)"
    by (auto simp: CallReceive split: prod.split sum.split option.split guest_event.split)
  with CallReceive guest_receive_failed [of "gr_session g" input] show ?thesis
    by (cases "guest_open (gr_session g)") (auto simp: guest_receive_def guest_open_def)
next
  case CallAttach
  then show ?thesis by (auto simp: guest_attach_def split: prod.split sum.split)
next
  case (CallAcknowledge w)
  then show ?thesis
    by (auto simp: guest_acknowledge_def split: prod.split sum.split option.split guest_state.split)
next
  case (CallSend bs)
  then show ?thesis by (auto simp: guest_send_def split: prod.split option.split guest_state.split)
next
  case (CallCredit n)
  then show ?thesis
    by (auto simp: guest_credit_def split: prod.split sum.split option.split guest_state.split)
next
  case CallDisconnect
  then show ?thesis by (auto simp: guest_error_def guest_disconnect_def guest_fail_def)
qed

text \<open>
  C27. In every run, the guest session is failed after a call if and only if it was failed before, or
  the call was a receive of an open session or a disconnection and returned an error: no other call,
  whatever it returns, breaks a session. And a failed session is failed for good: no further calls, in
  any number and order, change it, its output or its counts, and each of them returns the invalid
  state error, except a disconnection, which succeeds.
\<close>

theorem guest_failure_is_final:
  "let g = guest_runs calls; s = gr_session g
   in (gs_state (gr_session (guest_runs (calls @ [c]))) = GuestFailed \<longleftrightarrow>
         gs_state s = GuestFailed \<or> guest_breaks c s) \<and>
      (gs_state s = GuestFailed \<longrightarrow>
         guest_runs (calls @ later) = g \<and>
         guest_error c s = (if c = CallDisconnect then None else Some InvalidState))"
proof -
  have final: "fold guest_apply cs g = g" if "gs_state (gr_session g) = GuestFailed" for cs g
    using that by (induction cs) (simp_all add: guest_apply_failed)
  have "guest_error c s = (if c = CallDisconnect then None else Some InvalidState)"
    if "gs_state s = GuestFailed" for s
    using that by (cases c) (simp_all add: guest_error_def guest_attach_def guest_receive_def guest_open_def
        guest_acknowledge_def guest_send_def guest_credit_def guest_disconnect_def)
  with final guest_apply_breaks [of c "guest_runs calls"] show ?thesis
    by (simp add: guest_runs_def Let_def)
qed

definition broken_calls :: "guest_call list" where
  "broken_calls = demo_calls @ [CallReceive (replicate 44 0)]"

theorem guest_failure_is_final_witness:
  "gs_state (gr_session (guest_runs broken_calls)) = GuestFailed \<and>
    guest_runs (broken_calls @ [CallAttach, CallSend [1], CallDisconnect]) = guest_runs broken_calls \<and>
    guest_error (CallSend [1]) (gr_session (guest_runs broken_calls)) = Some InvalidState"
proof -
  have "guest_breaks (CallReceive (replicate 44 0)) (gr_session (guest_runs demo_calls))" by code_simp
  with guest_failure_is_final [of demo_calls "CallReceive (replicate 44 0)"]
  have "gs_state (gr_session (guest_runs broken_calls)) = GuestFailed"
    by (simp add: Let_def broken_calls_def)
  with guest_failure_is_final [of broken_calls "CallSend [1]" "[CallAttach, CallSend [1], CallDisconnect]"]
  show ?thesis by (simp add: Let_def)
qed

text \<open>
  C28. A message of any length that an active guest sends, as often as it takes, reaches the broker's
  parser whole, in data records of the epoch's identity that are numbered in sequence from the
  guest's next number, however the bytes are cut into pieces.
\<close>

theorem guest_message_arrives:
  assumes "gs_state s = GuestActive" and "gs_identity s = Some i" and "length (id_instance i) = 16"
    and "unat (gs_send_sequence s) + length (parts msg) < 2 ^ 64"
  shows "\<exists>t sent. send_all guest_send s msg out = (None, t, out @ sent) \<and>
    (\<forall>pieces. concat pieces = sent \<longrightarrow>
       (let rs = fst (feed_all parser_new pieces)
        in concat (map rec_payload rs) = msg \<and> in_sequence (gs_send_sequence s) rs \<and>
           (\<forall>r \<in> set rs. rec_type r = Data \<and> rec_instance_id r = id_instance i \<and>
              rec_epoch r = id_epoch i)))"
proof -
  have "send_all guest_send s msg out = (None, s\<lparr>gs_send_sequence := gs_send_sequence s +
      word_of_nat (length (parts msg))\<rparr>,
      out @ concat (map record_bytes (data_records i (gs_send_sequence s) (parts msg))))"
    by (rule guest_sender.send_all_parts) (use assms in simp_all)
  moreover have "in_sequence (gs_send_sequence s) (data_records i (gs_send_sequence s) (parts msg))"
    by (rule data_records_sequence [OF assms(4)])
  ultimately show ?thesis
    using data_records_parse [OF assms(3), of _ "gs_send_sequence s" msg] data_records_identity
    by (auto simp: Let_def concat_parts)
qed

theorem guest_message_arrives_witness:
  "\<exists>t sent. send_all guest_send demo_session [1, 2, 3] [] = (None, t, sent) \<and>
    concat (map rec_payload (fst (feed_all parser_new [sent]))) = [1, 2, 3]"
proof -
  have "length (id_instance demo_identity) = 16"
    "unat (gs_send_sequence demo_session) + length (parts [1, 2, 3]) < 2 ^ 64" by code_simp+
  then obtain t sent where "send_all guest_send demo_session [1, 2, 3] [] = (None, t, [] @ sent)"
    "\<forall>pieces. concat pieces = sent \<longrightarrow> (let rs = fst (feed_all parser_new pieces)
      in concat (map rec_payload rs) = [1, 2, 3] \<and> in_sequence (gs_send_sequence demo_session) rs \<and>
         (\<forall>r \<in> set rs. rec_type r = Data \<and> rec_instance_id r = id_instance demo_identity \<and>
            rec_epoch r = id_epoch demo_identity))"
    using guest_message_arrives [OF demo_session_facts(1,2), of "[1, 2, 3]" "[]"] by auto
  then show ?thesis by (auto simp: Let_def dest: spec [of _ "[sent]"])
qed

end
