(* ===== verification/Rust_Text.thy ===== *)
theory Rust_Text
  imports Nvx_Prelude
begin

text \<open>
  Text as the Rust sources handle it. A \<^verbatim>\<open>String\<close> is the list of its UTF-8 bytes, and what
  \<^verbatim>\<open>String::from_utf8\<close> accepts is the table of well-formed UTF-8 of the standard library. A
  literal of the sources is ASCII.
\<close>

definition ascii :: "string \<Rightarrow> bytes" where
  "ascii = map of_char"

section \<open>Well-formed UTF-8\<close>

definition utf8_tail :: "u8 \<Rightarrow> bool" where
  "utf8_tail b \<longleftrightarrow> 0x80 \<le> b \<and> b \<le> 0xBF"

text \<open>The second byte of a sequence of three or four bytes, which depends on the first.\<close>

definition utf8_second3 :: "u8 \<Rightarrow> u8 \<Rightarrow> bool" where
  "utf8_second3 a b \<longleftrightarrow>
     (if a = 0xE0 then 0xA0 \<le> b \<and> b \<le> 0xBF
      else if a = 0xED then 0x80 \<le> b \<and> b \<le> 0x9F
      else utf8_tail b)"

definition utf8_second4 :: "u8 \<Rightarrow> u8 \<Rightarrow> bool" where
  "utf8_second4 a b \<longleftrightarrow>
     (if a = 0xF0 then 0x90 \<le> b \<and> b \<le> 0xBF
      else if a = 0xF4 then 0x80 \<le> b \<and> b \<le> 0x8F
      else utf8_tail b)"

fun utf8_valid :: "bytes \<Rightarrow> bool" where
  "utf8_valid [] = True"
| "utf8_valid (a # bs) =
     (if a < 0x80 then utf8_valid bs
      else if 0xC2 \<le> a \<and> a \<le> 0xDF
      then (case bs of b # bs' \<Rightarrow> utf8_tail b \<and> utf8_valid bs' | _ \<Rightarrow> False)
      else if 0xE0 \<le> a \<and> a \<le> 0xEF
      then (case bs of b # c # bs' \<Rightarrow> utf8_second3 a b \<and> utf8_tail c \<and> utf8_valid bs' | _ \<Rightarrow> False)
      else if 0xF0 \<le> a \<and> a \<le> 0xF4
      then (case bs of b # c # d # bs' \<Rightarrow>
              utf8_second4 a b \<and> utf8_tail c \<and> utf8_tail d \<and> utf8_valid bs' | _ \<Rightarrow> False)
      else False)"

lemma utf8_valid_ascii: "(\<And>b. b \<in> set bs \<Longrightarrow> b < 0x80) \<Longrightarrow> utf8_valid bs"
  by (induction bs) simp_all

section \<open>Splitting\<close>

text \<open>\<^verbatim>\<open>slice.split(|&byte| byte == c)\<close>: the parts between the separators, empty ones included.\<close>

fun split_on :: "'a \<Rightarrow> 'a list \<Rightarrow> 'a list list" where
  "split_on c [] = [[]]"
| "split_on c (b # bs) =
     (if b = c then [] # split_on c bs
      else (case split_on c bs of part # parts \<Rightarrow> (b # part) # parts | [] \<Rightarrow> [[b]]))"

lemma split_on_not_Nil [simp]: "split_on c bs \<noteq> []"
  by (cases bs) (auto split: list.splits)

lemma split_on_free: "part \<in> set (split_on c bs) \<Longrightarrow> c \<notin> set part"
  by (induction bs arbitrary: part) (fastforce split: list.splits if_splits)+

end
