(* ===== verification/Wire_App.thy ===== *)
theory Wire_App
  imports Wire_Outer Rust_Text
begin

text \<open>
  Application frames (\<^verbatim>\<open>protocol/app.rs\<close>), which the outer data records carry between the host's
  client and the guest's agent, the exit categories of their responses, and the control features of
  a guest image (\<^verbatim>\<open>protocol/features.rs\<close>). The decoder of frames accepts exactly what the encoder
  writes, and the names of the features that an image lacks are empty exactly when it has them all.
\<close>

unbundle bit_operations_syntax

section \<open>Constants\<close>

definition app_magic :: bytes where
  "app_magic = [0x4e, 0x56, 0x58, 0x43]"

definition app_version :: u8 where
  "app_version = 1"

definition app_header_len :: usize where
  "app_header_len = 24"

definition app_ping :: u8 where "app_ping = 1"

definition app_exec :: u8 where "app_exec = 2"

definition app_stop :: u8 where "app_stop = 3"

definition app_cancel :: u8 where "app_cancel = 4"

definition app_features :: u8 where "app_features = 5"

definition app_maps :: u8 where "app_maps = 6"

definition app_ready :: u8 where "app_ready = 0x81"

definition app_stdout :: u8 where "app_stdout = 0x82"

definition app_stderr :: u8 where "app_stderr = 0x83"

definition app_exit :: u8 where "app_exit = 0x84"

definition app_stopped :: u8 where "app_stopped = 0x85"

definition app_error :: u8 where "app_error = 0xff"

section \<open>Frames\<close>

record app_frame =
  af_kind :: u8
  af_request_id :: u64
  af_status :: i32
  af_payload :: bytes

definition encode_app :: "u8 \<Rightarrow> u64 \<Rightarrow> i32 \<Rightarrow> bytes \<Rightarrow> bytes" where
  "encode_app kind request_id status payload =
     (let n = try_from_or_max (length payload) :: u32
      in app_magic @ [app_version] @ [kind] @ to_le_bytes (0 :: u16) @ to_le_bytes request_id @
         to_le_bytes status @ to_le_bytes n @ payload)"

definition decode_app :: "bytes \<Rightarrow> (protocol_error, app_frame) result" where
  "decode_app frame =
     (if length frame < app_header_len
      then Inl (protocol_violation ''control endpoint returned a truncated application frame'')
      else
        (let flags = from_le_bytes [frame ! 6, frame ! 7] :: u16;
             n = unat (from_le_bytes (slice_at frame 20 24) :: u32);
             payload = drop app_header_len frame
         in if take 4 frame \<noteq> app_magic \<or> frame ! 4 \<noteq> app_version \<or> flags \<noteq> 0 \<or> n \<noteq> length payload
            then Inl (protocol_violation ''control endpoint returned an invalid application frame'')
            else Inr \<lparr>af_kind = frame ! 5, af_request_id = from_le_bytes (slice_at frame 8 16),
                      af_status = from_le_bytes (slice_at frame 16 20), af_payload = payload\<rparr>))"

section \<open>Exit categories\<close>

datatype exit_category = Exit | Timeout | OutputLimit | Signal | Failed | Cancelled

definition exit_category_parse :: "bytes \<Rightarrow> (protocol_error, exit_category) result" where
  "exit_category_parse payload =
     (if payload = ascii ''exit'' then Inr Exit
      else if payload = ascii ''timeout'' then Inr Timeout
      else if payload = ascii ''output-limit'' then Inr OutputLimit
      else if payload = ascii ''signal'' then Inr Signal
      else if payload = ascii ''failed'' then Inr Failed
      else if payload = ascii ''cancelled'' then Inr Cancelled
      else Inl (protocol_violation ''guest agent returned an unsupported exit category''))"

fun exit_category_as_str :: "exit_category \<Rightarrow> bytes" where
  "exit_category_as_str Exit = ascii ''exit''"
| "exit_category_as_str Timeout = ascii ''timeout''"
| "exit_category_as_str OutputLimit = ascii ''output-limit''"
| "exit_category_as_str Signal = ascii ''signal''"
| "exit_category_as_str Failed = ascii ''failed''"
| "exit_category_as_str Cancelled = ascii ''cancelled''"

section \<open>Guest features\<close>

datatype guest_features = GuestFeatures (features_bits: u32)

definition features_none :: guest_features where
  "features_none = GuestFeatures 0"

definition features_cancel :: guest_features where
  "features_cancel = GuestFeatures (push_bit 0 1)"

definition features_workload_account :: guest_features where
  "features_workload_account = GuestFeatures (push_bit 2 1)"

definition features_exec_cgroup :: guest_features where
  "features_exec_cgroup = GuestFeatures (push_bit 3 1)"

definition features_exec_environment :: guest_features where
  "features_exec_environment = GuestFeatures (push_bit 4 1)"

definition features_exec_cwd :: guest_features where
  "features_exec_cwd = GuestFeatures (push_bit 5 1)"

definition features_host_mapping_table :: guest_features where
  "features_host_mapping_table = GuestFeatures (push_bit 6 1)"

definition features_union :: "guest_features \<Rightarrow> guest_features \<Rightarrow> guest_features" where
  "features_union a b = GuestFeatures (features_bits a OR features_bits b)"

definition direct_agent :: guest_features where
  "direct_agent = GuestFeatures
     (features_bits features_cancel OR features_bits features_workload_account OR
      features_bits features_exec_cgroup OR features_bits features_exec_environment OR
      features_bits features_exec_cwd OR features_bits features_host_mapping_table)"

definition sandbox_agent :: guest_features where
  "sandbox_agent = GuestFeatures
     (features_bits features_cancel OR features_bits features_exec_environment OR
      features_bits features_host_mapping_table)"

definition features_required :: guest_features where
  "features_required = direct_agent"

definition layered_sandbox :: guest_features where
  "layered_sandbox = GuestFeatures
     (features_bits features_exec_environment OR features_bits features_host_mapping_table)"

definition features_names :: "(guest_features \<times> string) list" where
  "features_names =
     [(features_cancel, ''cancellation''),
      (features_workload_account, ''workload accounts''),
      (features_exec_cgroup, ''workload containment''),
      (features_exec_environment, ''per-execution environments''),
      (features_exec_cwd, ''working directories''),
      (features_host_mapping_table, ''host path mapping tables'')]"

definition features_contains :: "guest_features \<Rightarrow> guest_features \<Rightarrow> bool" where
  "features_contains s other \<longleftrightarrow> features_bits s AND features_bits other = features_bits other"

definition features_decode :: "bytes \<Rightarrow> (protocol_error, guest_features) result" where
  "features_decode payload =
     and_then (ok_or (protocol_violation ''the guest agent returned a truncated features response'')
                 (get_range payload 0 4))
       (\<lambda>bits. Inr (GuestFeatures (from_le_bytes bits)))"

definition features_encode :: "guest_features \<Rightarrow> bytes" where
  "features_encode s = to_le_bytes (features_bits s)"

definition features_missing :: "guest_features \<Rightarrow> guest_features \<Rightarrow> string list" where
  "features_missing s required =
     map snd (filter (\<lambda>(feature, _). features_bits required AND features_bits feature \<noteq> 0 \<and>
                                     features_bits s AND features_bits feature = 0) features_names)"

section \<open>Facts of frames\<close>

lemma length_app_magic [wire_simps]: "length app_magic = 4"
  by (simp add: app_magic_def)

lemma try_from_or_max_small: "n < 2 ^ LENGTH('a) \<Longrightarrow> unat (try_from_or_max n :: 'a::len word) = n"
  by (simp add: try_from_or_max_def unat_of_nat)

lemma encode_app_fields:
  fixes k :: u8 and rid :: u64 and st :: i32 and pl :: bytes
  defines "f \<equiv> encode_app k rid st pl"
  shows "take 4 f = app_magic" "f ! 4 = app_version" "f ! 5 = k" "f ! 6 = 0" "f ! 7 = 0"
    "slice_at f 8 16 = to_le_bytes rid" "slice_at f 16 20 = to_le_bytes st"
    "slice_at f 20 24 = to_le_bytes (try_from_or_max (length pl) :: u32)"
    "drop 24 f = pl" "length f = 24 + length pl"
proof -
  have z: "to_le_bytes (0 :: u16) = [0, 0]" by code_simp
  show "take 4 f = app_magic" "f ! 4 = app_version" "f ! 5 = k" "f ! 6 = 0" "f ! 7 = 0"
    "slice_at f 8 16 = to_le_bytes rid" "slice_at f 16 20 = to_le_bytes st"
    "slice_at f 20 24 = to_le_bytes (try_from_or_max (length pl) :: u32)"
    "drop 24 f = pl" "length f = 24 + length pl"
    by (simp_all add: f_def encode_app_def z slice_at_def nth_append wire_simps)
qed

text \<open>A frame is made of its fields.\<close>

lemma frame_of_fields:
  assumes "24 \<le> length f" and "take 4 f = app_magic" and "f ! 4 = app_version"
    and "(from_le_bytes [f ! 6, f ! 7] :: u16) = 0"
    and "unat (from_le_bytes (slice_at f 20 24) :: u32) = length (drop 24 f)"
  shows "f = encode_app (f ! 5) (from_le_bytes (slice_at f 8 16)) (from_le_bytes (slice_at f 16 20)) (drop 24 f)"
    and "length (drop 24 f) < 2 ^ 32"
proof -
  show l: "length (drop 24 f) < 2 ^ 32" unfolding assms(5) [symmetric]
    using unat_bound [of "from_le_bytes (slice_at f 20 24) :: u32"] by simp
  have "to_le_bytes (0 :: u16) = [f ! 6, f ! 7]"
    using to_le_from_le [where 'a = 16, of "[f ! 6, f ! 7]"] assms(4) by simp
  moreover have "slice_at f 6 8 = [f ! 6, f ! 7]"
    using assms(1) slice_at_Suc [of 6 f] slice_at_Suc [of 7 f] slice_at_join [of 6 7 8 f] by simp
  moreover have "slice_at f 4 5 = [app_version]" "slice_at f 5 6 = [f ! 5]"
    using assms(1,3) slice_at_Suc [of 4 f] slice_at_Suc [of 5 f] by simp_all
  moreover have "try_from_or_max (length (drop 24 f)) = (from_le_bytes (slice_at f 20 24) :: u32)"
    using l unfolding assms(5) [symmetric] by (simp add: try_from_or_max_def)
  moreover have "to_le_bytes (from_le_bytes (slice_at f 8 16) :: u64) = slice_at f 8 16"
    "to_le_bytes (from_le_bytes (slice_at f 16 20) :: u32) = slice_at f 16 20"
    "to_le_bytes (from_le_bytes (slice_at f 20 24) :: u32) = slice_at f 20 24"
    using assms(1) by (simp_all add: to_le_from_le)
  moreover have "slice_at f 0 24 = slice_at f 0 4 @ slice_at f 4 5 @ slice_at f 5 6 @ slice_at f 6 8 @
      slice_at f 8 16 @ slice_at f 16 20 @ slice_at f 20 24"
    by (simp add: slice_at_join)
  moreover have "f = slice_at f 0 24 @ drop 24 f" by (simp add: slice_at_def)
  ultimately show "f = encode_app (f ! 5) (from_le_bytes (slice_at f 8 16))
      (from_le_bytes (slice_at f 16 20)) (drop 24 f)"
    using assms(2) slice_at_def [of f 0 4] by (simp add: encode_app_def)
qed

text \<open>
  The decoder of application frames accepts exactly the frames that the encoder writes, with
  payloads whose length the header can hold, and returns the fields that were encoded.
\<close>

lemma app_frame_roundtrip:
  "decode_app f = Inr x \<longleftrightarrow>
     f = encode_app (af_kind x) (af_request_id x) (af_status x) (af_payload x) \<and>
     length (af_payload x) < 2 ^ 32"
proof
  assume d: "decode_app f = Inr x"
  then have le: "24 \<le> length f" by (simp add: decode_app_def app_header_len_def split: if_splits)
  with d have h: "take 4 f = app_magic" "f ! 4 = app_version" "(from_le_bytes [f ! 6, f ! 7] :: u16) = 0"
      "unat (from_le_bytes (slice_at f 20 24) :: u32) = length (drop 24 f)"
    and x: "x = \<lparr>af_kind = f ! 5, af_request_id = from_le_bytes (slice_at f 8 16),
      af_status = from_le_bytes (slice_at f 16 20), af_payload = drop 24 f\<rparr>"
    by (auto simp: decode_app_def app_header_len_def Let_def split: if_splits)
  from frame_of_fields [OF le h]
  show "f = encode_app (af_kind x) (af_request_id x) (af_status x) (af_payload x) \<and>
      length (af_payload x) < 2 ^ 32" by (simp add: x)
next
  assume a: "f = encode_app (af_kind x) (af_request_id x) (af_status x) (af_payload x) \<and>
      length (af_payload x) < 2 ^ 32"
  have "(from_le_bytes [0, 0] :: u16) = 0" by code_simp
  then show "decode_app f = Inr x"
    using a by (simp add: decode_app_def Let_def encode_app_fields app_header_len_def try_from_or_max_small)
qed

text \<open>
  The exit categories and the payloads that name them correspond one to one: a payload parses to
  a category exactly when it is the text of that category.
\<close>

lemma exit_category_roundtrip:
  "exit_category_parse payload = Inr c \<longleftrightarrow> payload = exit_category_as_str c"
proof -
  have d: "exit_category_parse (exit_category_as_str c) = Inr c" for c
    by (induction c; code_simp)
  have "payload = exit_category_as_str c" if "exit_category_parse payload = Inr c"
    using that by (auto simp: exit_category_parse_def split: if_splits)
  with d show ?thesis by blast
qed

section \<open>Facts of features\<close>

lemma contains_bits:
  "features_contains s r \<longleftrightarrow> (\<forall>n. bit (features_bits r) n \<longrightarrow> bit (features_bits s) n)"
  unfolding features_contains_def bit_eq_iff bit_and_iff by (meson bit_imp_possible_bit)

lemma bit_direct_agent:
  "bit (features_bits direct_agent) n \<longleftrightarrow> n \<in> {0, 2, 3, 4, 5, 6}"
proof (cases "n < 32")
  case True
  have "list_all (\<lambda>n. bit (features_bits direct_agent) n = (n \<in> {0, 2, 3, 4, 5, 6})) [0..<32]"
    by code_simp
  with True show ?thesis by (simp only: list_all_iff set_upt) simp
next
  case False
  then show ?thesis using bit_imp_le_length [of "features_bits direct_agent" n] by auto
qed

text \<open>
  For a requirement that consists of features that have names, as those of the host and of the
  sandbox do, no name is missing exactly when the guest provides every required feature.
\<close>

lemma missing_iff_not_contained:
  assumes "features_contains direct_agent required"
  shows "features_missing s required = [] \<longleftrightarrow> features_contains s required"
proof -
  have r: "bit (features_bits required) n \<Longrightarrow> n \<in> {0, 2, 3, 4, 5, 6}" for n
    using assms unfolding contains_bits bit_direct_agent by blast
  have "fst ` set features_names = (\<lambda>k. GuestFeatures (push_bit k 1)) ` {0, 2, 3, 4, 5, 6}"
    by (simp add: features_names_def features_cancel_def features_workload_account_def
        features_exec_cgroup_def features_exec_environment_def features_exec_cwd_def
        features_host_mapping_table_def)
  moreover have "features_missing s required = [] \<longleftrightarrow> (\<forall>f \<in> fst ` set features_names.
      features_bits required AND features_bits f \<noteq> 0 \<longrightarrow> features_bits s AND features_bits f \<noteq> 0)"
    by (auto simp: features_missing_def filter_empty_conv)
  ultimately have m: "features_missing s required = [] \<longleftrightarrow>
      (\<forall>n \<in> {0, 2, 3, 4, 5, 6}. bit (features_bits required) n \<longrightarrow> bit (features_bits s) n)"
    unfolding bit_iff_and_push_bit_not_eq_0 by (simp only: ball_simps guest_features.sel)
  show ?thesis unfolding m contains_bits using r by blast
qed

end
