(* ===== verification/Wire_Exec.thy ===== *)
theory Wire_Exec
  imports Wire_App
begin

text \<open>
  The payload of an \<^verbatim>\<open>EXEC\<close> request (\<^verbatim>\<open>protocol/exec.rs\<close>): the host's encoder, and the two
  decoders, of which the host's reads UTF-8 text and the guest's reads byte strings. Both are
  instances of one generic decoder, whose trait \<^verbatim>\<open>ExecString\<close> is a record of functions here. The
  decoders accept exactly the layout of the format with fields that keep its rules, so that
  encoding and decoding are inverse, and the guest's decoder accepts what the host's does.
\<close>

section \<open>Constants\<close>

definition max_arguments :: usize where
  "max_arguments = 64"

definition max_argument_bytes :: usize where
  "max_argument_bytes = 4096"

definition max_cwd_bytes :: usize where
  "max_cwd_bytes = 4095"

definition max_guest_cwd_bytes :: usize where
  "max_guest_cwd_bytes = max_argument_bytes"

definition max_environment :: usize where
  "max_environment = 256"

definition max_timeout_ms :: u32 where
  "max_timeout_ms = - 1"

definition max_output_bytes :: usize where
  "max_output_bytes = 1024 * 1024"

definition exec_extended :: u16 where
  "exec_extended = 1"

definition exec_cwd_present :: u16 where
  "exec_cwd_present = push_bit 0 1"

definition exec_environment_present :: u16 where
  "exec_environment_present = push_bit 1 1"

definition exec_inherit_default_env :: u16 where
  "exec_inherit_default_env = push_bit 2 1"

section \<open>Workloads and their encoding\<close>

datatype workload_environment =
    DefaultEnvironment
  | Replaced "bytes list"
  | Layered "bytes list"

record workload =
  wl_argv :: "bytes list"
  wl_timeout_ms :: u32
  wl_cwd :: "bytes option"
  wl_environment :: workload_environment

definition absolute :: "bytes \<Rightarrow> bool" where
  "absolute path \<longleftrightarrow> (case path of b # _ \<Rightarrow> b = 0x2f | [] \<Rightarrow> False)"

fun workload_entries :: "workload_environment \<Rightarrow> bytes list \<times> u16" where
  "workload_entries DefaultEnvironment = ([], 0)"
| "workload_entries (Replaced entries) = (entries, exec_environment_present)"
| "workload_entries (Layered entries) = (entries, exec_environment_present OR exec_inherit_default_env)"

text \<open>The name of an entry: what precedes its first equals sign, unless that is empty.\<close>

definition entry_name :: "bytes \<Rightarrow> bytes option" where
  "entry_name entry =
     (let name = takeWhile (\<lambda>b. b \<noteq> 0x3d) entry
      in if 0x3d \<in> set entry \<and> name \<noteq> [] then Some name else None)"

definition repeated_violation :: "bytes \<Rightarrow> protocol_error" where
  "repeated_violation name =
     ProtocolError [Lit ''exec environment names must be unique, but '', Quoted name, Lit '' repeats'']"

fun encode_arguments :: "bytes list \<Rightarrow> bytes \<Rightarrow> (protocol_error, bytes) result" where
  "encode_arguments [] payload = Inr payload"
| "encode_arguments (argument # argv) payload =
     (if argument = [] \<or> length argument > max_argument_bytes \<or> 0 \<in> set argument
      then Inl (protocol_violation ''exec arguments must be 1 to 4096 bytes without NUL characters'')
      else encode_arguments argv
             (payload @ to_le_bytes (try_from_or_max (length argument) :: u32) @ argument))"

fun encode_entries :: "bytes list \<Rightarrow> bytes list \<Rightarrow> bytes \<Rightarrow> (protocol_error, bytes) result" where
  "encode_entries [] names payload = Inr payload"
| "encode_entries (entry # entries) names payload =
     (case entry_name entry of
        Some name \<Rightarrow>
          if \<not> (length entry \<le> max_argument_bytes \<and> 0 \<notin> set entry)
          then Inl (protocol_violation ''exec environment entries must be KEY=VALUE strings of at most 4096 bytes without NUL characters'')
          else if name \<in> set names then Inl (repeated_violation name)
          else encode_entries entries (name # names)
                 (payload @ to_le_bytes (try_from_or_max (length entry) :: u32) @ entry)
      | None \<Rightarrow> Inl (protocol_violation ''exec environment entries must be KEY=VALUE strings of at most 4096 bytes without NUL characters''))"

definition cwd_bytes :: "bytes option \<Rightarrow> bytes" where
  "cwd_bytes cwd = (case cwd of Some d \<Rightarrow> d | None \<Rightarrow> [])"

definition encode_exec_fields :: "u32 \<Rightarrow> u16 \<Rightarrow> nat \<Rightarrow> bytes option \<Rightarrow> nat \<Rightarrow> bytes" where
  "encode_exec_fields timeout flags args cwd entries =
     to_le_bytes timeout @ to_le_bytes (try_from_or_max args :: u16) @
     (if flags = 0 then to_le_bytes (0 :: u16)
      else to_le_bytes exec_extended @ to_le_bytes flags @
           to_le_bytes (try_from_or_max entries :: u16) @
           to_le_bytes (try_from_or_max (length (cwd_bytes cwd)) :: u32))"

definition encode_exec_payload :: "workload \<Rightarrow> (protocol_error, bytes) result" where
  "encode_exec_payload w =
     (let argv = wl_argv w; cwd = wl_cwd w
      in if argv = [] \<or> length argv > max_arguments
         then Inl (protocol_violation ''exec requires 1 to 64 arguments'')
         else if \<not> absolute (hd argv)
         then Inl (protocol_violation ''exec program must be an absolute guest path'')
         else if (case cwd of
                    Some d \<Rightarrow> \<not> absolute d \<or> length d > max_argument_bytes \<or> 0 \<in> set d
                  | None \<Rightarrow> False)
         then Inl (protocol_violation ''exec working directory must be an absolute guest path of at most 4096 bytes without NUL characters'')
         else
           (let (environment, flags) = workload_entries (wl_environment w)
            in if length environment > max_environment
               then Inl (protocol_violation ''exec environment must not exceed 256 entries'')
               else
                 (let flags = (if cwd \<noteq> None then flags OR exec_cwd_present else flags);
                      payload = encode_exec_fields (wl_timeout_ms w) flags (length argv) cwd
                                  (length environment)
                  in and_then (encode_arguments argv payload) (\<lambda>payload.
                       and_then (encode_entries environment [] (payload @ cwd_bytes cwd)) (\<lambda>payload.
                         if app_header_len + length payload > outer_max_payload
                         then Inl (protocol_violation ''exec request exceeds the control protocol limit'')
                         else Inr payload)))))"

section \<open>The decoders\<close>

text \<open>The trait \<^verbatim>\<open>ExecString\<close> and its two implementations.\<close>

record exec_string =
  es_convert :: "bytes \<Rightarrow> string \<Rightarrow> (protocol_error, bytes) result"
  es_unnamed_entry :: protocol_error
  es_repeated_name :: "bytes \<Rightarrow> protocol_error"

definition string_exec :: exec_string where
  "string_exec =
     \<lparr>es_convert = (\<lambda>bs what. if utf8_valid bs then Inr bs
                     else Inl (protocol_violation (''exec '' @ what @ '' must be valid UTF-8''))),
      es_unnamed_entry = protocol_violation ''exec environment entries must be KEY=VALUE strings'',
      es_repeated_name = repeated_violation\<rparr>"

definition bytes_exec :: exec_string where
  "bytes_exec =
     \<lparr>es_convert = (\<lambda>bs what. Inr bs),
      es_unnamed_entry = protocol_violation ''exec environment entries must be KEY=VALUE byte strings'',
      es_repeated_name = (\<lambda>name. protocol_violation ''exec environment names must be unique'')\<rparr>"

definition exec_truncated :: protocol_error where
  "exec_truncated = protocol_violation ''the exec request is truncated''"

definition bytes_at :: "bytes \<Rightarrow> usize \<Rightarrow> usize \<Rightarrow> string \<Rightarrow> (protocol_error, bytes) result" where
  "bytes_at payload offset n what =
     and_then (ok_or exec_truncated
                 (Option.bind (checked_add_usize offset n) (\<lambda>stop. get_range payload offset stop)))
       (\<lambda>bs. if 0 \<in> set bs
             then Inl (protocol_violation (''exec '' @ what @ '' must not contain NUL characters''))
             else Inr bs)"

definition prefixed_bytes :: "bytes \<Rightarrow> usize \<Rightarrow> string \<Rightarrow> (protocol_error, bytes \<times> usize) result" where
  "prefixed_bytes payload offset what =
     and_then (ok_or exec_truncated (u32_at payload offset)) (\<lambda>n32.
       let n = unat n32
       in and_then (ok_or exec_truncated (checked_add_usize offset 4)) (\<lambda>offset.
            if n = 0 \<or> n > max_argument_bytes
            then Inl (protocol_violation (''exec '' @ what @ '' must be 1 to 4096 bytes''))
            else and_then (bytes_at payload offset n what) (\<lambda>bs.
                   and_then (ok_or exec_truncated (checked_add_usize offset n)) (\<lambda>offset.
                     Inr (bs, offset)))))"

definition prefixed_string ::
  "exec_string \<Rightarrow> bytes \<Rightarrow> usize \<Rightarrow> string \<Rightarrow> (protocol_error, bytes \<times> usize) result" where
  "prefixed_string es payload offset what =
     and_then (prefixed_bytes payload offset what) (\<lambda>(bs, offset).
       and_then (es_convert es bs what) (\<lambda>s. Inr (s, offset)))"

record exec_header =
  eh_timeout_ms :: u32
  eh_count :: usize
  eh_flags :: u16
  eh_environment_count :: usize
  eh_cwd_len :: usize
  eh_offset :: usize

text \<open>The fields of an extended payload, which follow its fixed ones.\<close>

definition exec_fields_valid :: "u16 \<Rightarrow> usize \<Rightarrow> usize \<Rightarrow> usize \<Rightarrow> bool" where
  "exec_fields_valid flags environment_count cwd_len max_cwd \<longleftrightarrow>
     (let known = exec_cwd_present OR exec_environment_present OR exec_inherit_default_env;
          cwd_valid = (if flags AND exec_cwd_present = 0 then cwd_len = 0
                       else 1 \<le> cwd_len \<and> cwd_len \<le> max_cwd);
          environment_valid = (flags AND exec_environment_present \<noteq> 0 \<or>
                               (environment_count = 0 \<and> flags AND exec_inherit_default_env = 0))
      in \<not> (flags AND NOT known \<noteq> 0 \<or> \<not> cwd_valid \<or> \<not> environment_valid \<or>
            environment_count > max_environment))"

definition decode_exec_header :: "bytes \<Rightarrow> usize \<Rightarrow> (protocol_error, exec_header) result" where
  "decode_exec_header payload max_cwd =
     (if length payload < 8 then Inl exec_truncated
      else
        and_then (ok_or exec_truncated (u32_at payload 0)) (\<lambda>timeout.
        and_then (ok_or exec_truncated (u16_at payload 4)) (\<lambda>count16.
        and_then (ok_or exec_truncated (u16_at payload 6)) (\<lambda>extension.
          let count = unat count16
          in if count = 0 \<or> count > max_arguments
             then Inl (protocol_violation ''exec requires 1 to 64 arguments'')
             else if extension = 0
             then Inr \<lparr>eh_timeout_ms = timeout, eh_count = count, eh_flags = 0,
                       eh_environment_count = 0, eh_cwd_len = 0, eh_offset = 8\<rparr>
             else if extension = exec_extended \<and> length payload \<ge> 16
             then
               and_then (ok_or exec_truncated (u16_at payload 8)) (\<lambda>flags.
               and_then (ok_or exec_truncated (u16_at payload 10)) (\<lambda>entries.
               and_then (ok_or exec_truncated (u32_at payload 12)) (\<lambda>cwd32.
                 if \<not> exec_fields_valid flags (unat entries) (unat cwd32) max_cwd
                 then Inl (protocol_violation ''the exec request has unknown flags or inconsistent fields'')
                 else Inr \<lparr>eh_timeout_ms = timeout, eh_count = count, eh_flags = flags,
                           eh_environment_count = unat entries, eh_cwd_len = unat cwd32,
                           eh_offset = 16\<rparr>)))
             else if extension = exec_extended then Inl exec_truncated
             else Inl (protocol_violation ''the exec request has an unknown extension'')))))"

fun decode_arguments ::
  "exec_string \<Rightarrow> bytes \<Rightarrow> nat \<Rightarrow> usize \<Rightarrow> (protocol_error, bytes list \<times> usize) result" where
  "decode_arguments es payload 0 offset = Inr ([], offset)"
| "decode_arguments es payload (Suc n) offset =
     and_then (prefixed_string es payload offset ''arguments'') (\<lambda>(s, offset).
       and_then (decode_arguments es payload n offset) (\<lambda>(argv, offset). Inr (s # argv, offset)))"

fun decode_entries ::
  "exec_string \<Rightarrow> bytes \<Rightarrow> nat \<Rightarrow> usize \<Rightarrow> bytes list \<Rightarrow> (protocol_error, bytes list \<times> usize) result"
where
  "decode_entries es payload 0 offset names = Inr ([], offset)"
| "decode_entries es payload (Suc n) offset names =
     and_then (prefixed_string es payload offset ''environment entries'') (\<lambda>(entry, offset).
       case entry_name entry of
         None \<Rightarrow> Inl (es_unnamed_entry es)
       | Some name \<Rightarrow>
           if name \<in> set names then Inl (es_repeated_name es name)
           else and_then (decode_entries es payload n offset (name # names)) (\<lambda>(entries, offset).
                  Inr (entry # entries, offset)))"

definition decode_cwd ::
  "exec_string \<Rightarrow> bytes \<Rightarrow> u16 \<Rightarrow> usize \<Rightarrow> usize \<Rightarrow> (protocol_error, bytes option \<times> usize) result" where
  "decode_cwd es payload flags cwd_len offset =
     (if flags AND exec_cwd_present = 0 then Inr (None, offset)
      else
        and_then (bytes_at payload offset cwd_len ''working directory'') (\<lambda>bs.
        and_then (es_convert es bs ''working directory'') (\<lambda>cwd.
        and_then (ok_or exec_truncated (checked_add_usize offset cwd_len)) (\<lambda>offset.
          if \<not> absolute cwd
          then Inl (protocol_violation ''exec working directory must be an absolute guest path'')
          else Inr (Some cwd, offset)))))"

record decoded_exec =
  de_timeout_ms :: u32
  de_flags :: u16
  de_argv :: "bytes list"
  de_cwd :: "bytes option"
  de_environment :: "bytes list option"

definition decode_exec ::
  "exec_string \<Rightarrow> bytes \<Rightarrow> usize \<Rightarrow> (protocol_error, decoded_exec) result" where
  "decode_exec es payload max_cwd =
     and_then (decode_exec_header payload max_cwd) (\<lambda>h.
     and_then (decode_arguments es payload (eh_count h) (eh_offset h)) (\<lambda>(argv, offset).
       if \<not> (case argv of program # _ \<Rightarrow> absolute program | [] \<Rightarrow> False)
       then Inl (protocol_violation ''exec program must be an absolute guest path'')
       else
         and_then (decode_cwd es payload (eh_flags h) (eh_cwd_len h) offset) (\<lambda>(cwd, offset).
         and_then (decode_entries es payload (eh_environment_count h) offset []) (\<lambda>(environment, offset).
           if offset \<noteq> length payload
           then Inl (protocol_violation ''the exec request has trailing bytes'')
           else Inr \<lparr>de_timeout_ms = eh_timeout_ms h, de_flags = eh_flags h, de_argv = argv,
                     de_cwd = cwd,
                     de_environment = (if eh_flags h AND exec_environment_present \<noteq> 0
                                       then Some environment else None)\<rparr>))))"

record exec_payload =
  ep_timeout_ms :: u32
  ep_argv :: "bytes list"
  ep_cwd :: "bytes option"
  ep_environment :: "bytes list option"
  ep_inherit_default_env :: bool

definition decode_exec_payload :: "bytes \<Rightarrow> (protocol_error, exec_payload) result" where
  "decode_exec_payload payload =
     and_then (decode_exec string_exec payload max_argument_bytes) (\<lambda>d.
       Inr \<lparr>ep_timeout_ms = de_timeout_ms d, ep_argv = de_argv d, ep_cwd = de_cwd d,
            ep_environment = de_environment d,
            ep_inherit_default_env = (de_flags d AND exec_environment_present = 0 \<or>
                                      de_flags d AND exec_inherit_default_env \<noteq> 0)\<rparr>)"

definition decode_guest_exec_payload :: "bytes \<Rightarrow> (protocol_error, exec_payload) result" where
  "decode_guest_exec_payload payload =
     and_then (decode_exec bytes_exec payload max_guest_cwd_bytes) (\<lambda>d.
       Inr \<lparr>ep_timeout_ms = de_timeout_ms d, ep_argv = de_argv d, ep_cwd = de_cwd d,
            ep_environment = de_environment d,
            ep_inherit_default_env = (de_flags d AND exec_inherit_default_env \<noteq> 0)\<rparr>)"

end
