(* ===== verification/Wire_Exec_Layout.thy ===== *)
theory Wire_Exec_Layout
  imports Wire_Exec
begin

text \<open>
  The format of \<^verbatim>\<open>EXEC\<close> payloads as a specification, the layout of the fields and the rules that
  they keep, and that the encoder and both decoders of \<^verbatim>\<open>protocol/exec.rs\<close> implement it exactly.
\<close>

section \<open>The format\<close>

definition string_ok :: "bytes \<Rightarrow> bool" where
  "string_ok b \<longleftrightarrow> 0 < length b \<and> length b \<le> max_argument_bytes \<and> 0 \<notin> set b"

definition prefixed :: "bytes \<Rightarrow> bytes" where
  "prefixed b = to_le_bytes (word_of_nat (length b) :: u32) @ b"

definition prefixed_all :: "bytes list \<Rightarrow> bytes" where
  "prefixed_all bs = concat (map prefixed bs)"

text \<open>Every entry has a name, and no name repeats, nor is one of those given.\<close>

fun names_ok :: "bytes list \<Rightarrow> bytes list \<Rightarrow> bool" where
  "names_ok names [] = True"
| "names_ok names (entry # entries) =
     (case entry_name entry of
        None \<Rightarrow> False
      | Some name \<Rightarrow> name \<notin> set names \<and> names_ok (name # names) entries)"

definition entries_of :: "bytes list option \<Rightarrow> bytes list" where
  "entries_of environment = (case environment of None \<Rightarrow> [] | Some entries \<Rightarrow> entries)"

definition exec_head :: "bool \<Rightarrow> u32 \<Rightarrow> nat \<Rightarrow> u16 \<Rightarrow> nat \<Rightarrow> nat \<Rightarrow> bytes" where
  "exec_head extended timeout args flags entries cwd_len =
     to_le_bytes timeout @ to_le_bytes (word_of_nat args :: u16) @
     (if extended
      then to_le_bytes exec_extended @ to_le_bytes flags @ to_le_bytes (word_of_nat entries :: u16) @
           to_le_bytes (word_of_nat cwd_len :: u32)
      else to_le_bytes (0 :: u16))"

definition exec_layout :: "bool \<Rightarrow> decoded_exec \<Rightarrow> bytes" where
  "exec_layout extended d =
     exec_head extended (de_timeout_ms d) (length (de_argv d)) (de_flags d)
       (length (entries_of (de_environment d))) (length (cwd_bytes (de_cwd d))) @
     prefixed_all (de_argv d) @ cwd_bytes (de_cwd d) @ prefixed_all (entries_of (de_environment d))"

definition exec_rules :: "(bytes \<Rightarrow> bool) \<Rightarrow> nat \<Rightarrow> decoded_exec \<Rightarrow> bool" where
  "exec_rules accepts max_cwd d \<longleftrightarrow>
     0 < length (de_argv d) \<and> length (de_argv d) \<le> max_arguments \<and> absolute (hd (de_argv d)) \<and>
     (\<forall>a \<in> set (de_argv d). string_ok a \<and> accepts a) \<and>
     de_flags d AND NOT (exec_cwd_present OR exec_environment_present OR exec_inherit_default_env) = 0 \<and>
     (case de_cwd d of
        None \<Rightarrow> de_flags d AND exec_cwd_present = 0
      | Some c \<Rightarrow> de_flags d AND exec_cwd_present \<noteq> 0 \<and> length c \<le> max_cwd \<and> 0 \<notin> set c \<and>
                  accepts c \<and> absolute c) \<and>
     (case de_environment d of
        None \<Rightarrow> de_flags d AND exec_environment_present = 0 \<and> de_flags d AND exec_inherit_default_env = 0
      | Some es \<Rightarrow> de_flags d AND exec_environment_present \<noteq> 0 \<and> length es \<le> max_environment \<and>
                   (\<forall>e \<in> set es. string_ok e \<and> accepts e) \<and> names_ok [] es)"

section \<open>Strings of a payload\<close>

lemma length_prefixed [simp]: "length (prefixed b) = 4 + length b"
  by (simp add: prefixed_def)

lemma prefixed_all_simps [simp]:
  "prefixed_all [] = []" "prefixed_all (b # bs) = prefixed b @ prefixed_all bs"
  by (simp_all add: prefixed_all_def)

lemma string_ok_u32: "string_ok b \<Longrightarrow> unat (word_of_nat (length b) :: u32) = length b"
  by (simp add: string_ok_def max_argument_bytes_def unat_of_nat)

lemma bytes_at_drop:
  assumes "length p \<le> usize_max" and "0 < n \<or> k \<le> length p"
  shows "bytes_at p k n what = Inr b \<longleftrightarrow>
    k \<le> length p \<and> length b = n \<and> 0 \<notin> set b \<and> (\<exists>post. drop k p = b @ post)"
proof -
  have "Option.bind (checked_add_usize k n) (\<lambda>stop. get_range p k stop) = get_range p k (k + n)"
    using assms(1) by (auto simp: checked_add_usize_def get_range_def)
  then show ?thesis using get_range_drop [OF assms(2)] by (auto simp: bytes_at_def)
qed

lemma prefixed_bytes_drop:
  assumes p: "length p \<le> usize_max"
  shows "prefixed_bytes p k what = Inr (b, j) \<longleftrightarrow>
    string_ok b \<and> (\<exists>post. drop k p = prefixed b @ post) \<and> j = k + length (prefixed b)"
proof
  assume "prefixed_bytes p k what = Inr (b, j)"
  then obtain n where n: "u32_at p k = Some n" "0 < unat n" "unat n \<le> max_argument_bytes"
    "bytes_at p (k + 4) (unat n) what = Inr b" "j = k + 4 + unat n"
    by (auto simp: prefixed_bytes_def Let_def checked_add_usize_def split: if_splits)
  have b: "length b = unat n" "0 \<notin> set b" "\<exists>post. drop (k + 4) p = b @ post"
    using n(2,4) bytes_at_drop [OF p, of "unat n" "k + 4" what b] by simp_all
  have "\<exists>post. drop k p = to_le_bytes n @ post" using n(1) u32_at_drop [OF p] by blast
  with b(3) drop_then [of "k + 4" k "to_le_bytes n" p b]
  have "\<exists>post. drop k p = to_le_bytes n @ b @ post" by simp
  moreover have "word_of_nat (length b) = n" using b(1) by simp
  ultimately show "string_ok b \<and> (\<exists>post. drop k p = prefixed b @ post) \<and> j = k + length (prefixed b)"
    using n(2,3,5) b(1,2) by (simp add: prefixed_def string_ok_def)
next
  assume "string_ok b \<and> (\<exists>post. drop k p = prefixed b @ post) \<and> j = k + length (prefixed b)"
  then obtain post where h: "string_ok b" "j = k + length (prefixed b)"
    and d: "drop k p = to_le_bytes (word_of_nat (length b) :: u32) @ b @ post" by (auto simp: prefixed_def)
  note n = string_ok_u32 [OF h(1)]
  have d4: "drop (k + 4) p = b @ post" using drop_past [OF d, of "k + 4"] by simp
  have "length (drop k p) = 4 + length b + length post" using d by simp
  then have le: "k + 4 + length b \<le> length p" using h(1) by (simp add: string_ok_def)
  have "u32_at p k = Some (word_of_nat (length b))" using u32_at_drop [OF p] d by blast
  moreover have "bytes_at p (k + 4) (length b) what = Inr b"
    using bytes_at_drop [OF p, of "length b" "k + 4" what b] h(1) d4 le by (simp add: string_ok_def)
  ultimately show "prefixed_bytes p k what = Inr (b, j)"
    using h n le p by (simp add: prefixed_bytes_def checked_add_usize_def string_ok_def)
qed

section \<open>The header\<close>

lemma length_exec_head [simp]:
  "length (exec_head ext t n f e c) = (if ext then 16 else 8)"
  by (simp add: exec_head_def)

lemma u16_small: "n \<le> max_environment \<Longrightarrow> unat (word_of_nat n :: u16) = n"
  "n \<le> max_arguments \<Longrightarrow> unat (word_of_nat n :: u16) = n"
  by (simp_all add: unat_of_nat max_environment_def max_arguments_def)

lemma fields_valid_bounds:
  "exec_fields_valid f e c m \<Longrightarrow> e \<le> max_environment \<and> c \<le> m"
  by (auto simp: exec_fields_valid_def Let_def split: if_splits)

lemma fields_valid_none [simp]: "exec_fields_valid 0 0 0 m"
  by (simp add: exec_fields_valid_def)

text \<open>The fixed fields of a payload, and those of an extended one.\<close>

lemma head_fixed:
  assumes "length p \<le> usize_max"
  shows "u32_at p 0 = Some t \<and> u16_at p 4 = Some n \<and> u16_at p 6 = Some x \<longleftrightarrow>
    (\<exists>post. p = to_le_bytes t @ to_le_bytes n @ to_le_bytes x @ post)"
  unfolding u32_at_drop [OF assms] u16_at_drop [OF assms]
  using drop_then [of 6 4 "to_le_bytes n" p "to_le_bytes x"]
    drop_then [of 4 0 "to_le_bytes t" p "to_le_bytes n @ to_le_bytes x"] by auto

lemma head_extended:
  assumes "length p \<le> usize_max" and "p = pre @ rest" and "length pre = 8"
  shows "u16_at p 8 = Some f \<and> u16_at p 10 = Some e \<and> u32_at p 12 = Some c \<longleftrightarrow>
    (\<exists>post. rest = to_le_bytes f @ to_le_bytes e @ to_le_bytes c @ post)"
proof -
  have "drop 8 p = rest" using assms(2,3) by simp
  then show ?thesis
    unfolding u32_at_drop [OF assms(1)] u16_at_drop [OF assms(1)]
    using drop_then [of 12 10 "to_le_bytes e" p "to_le_bytes c"]
      drop_then [of 10 8 "to_le_bytes f" p "to_le_bytes e @ to_le_bytes c"] by auto
qed

lemma decode_exec_header_Inr:
  assumes "decode_exec_header p m = Inr h" and p: "length p \<le> usize_max"
  obtains ext post where
    "p = exec_head ext (eh_timeout_ms h) (eh_count h) (eh_flags h) (eh_environment_count h) (eh_cwd_len h) @ post"
    "eh_offset h = (if ext then 16 else 8)" "0 < eh_count h" "eh_count h \<le> max_arguments"
    "exec_fields_valid (eh_flags h) (eh_environment_count h) (eh_cwd_len h) m" "\<not> ext \<Longrightarrow> eh_flags h = 0"
proof -
  from assms(1) obtain t n x where f: "u32_at p 0 = Some t" "u16_at p 4 = Some n" "u16_at p 6 = Some x"
    "0 < unat n" "unat n \<le> max_arguments"
    and x: "x = 0 \<and> h = \<lparr>eh_timeout_ms = t, eh_count = unat n, eh_flags = 0,
        eh_environment_count = 0, eh_cwd_len = 0, eh_offset = 8\<rparr> \<or>
      x = exec_extended \<and> (\<exists>f e c. u16_at p 8 = Some f \<and> u16_at p 10 = Some e \<and> u32_at p 12 = Some c \<and>
        exec_fields_valid f (unat e) (unat c) m \<and>
        h = \<lparr>eh_timeout_ms = t, eh_count = unat n, eh_flags = f, eh_environment_count = unat e,
             eh_cwd_len = unat c, eh_offset = 16\<rparr>)"
    by (auto simp: decode_exec_header_def Let_def split: if_splits)
  from f(1-3) head_fixed [OF p] obtain rest where
    rest: "p = to_le_bytes t @ to_le_bytes n @ to_le_bytes x @ rest" by blast
  from x show ?thesis
  proof
    assume "x = 0 \<and> h = \<lparr>eh_timeout_ms = t, eh_count = unat n, eh_flags = 0,
        eh_environment_count = 0, eh_cwd_len = 0, eh_offset = 8\<rparr>"
    with that [of False rest] rest f(4,5) show ?thesis by (simp add: exec_head_def)
  next
    assume "x = exec_extended \<and> (\<exists>f e c. u16_at p 8 = Some f \<and> u16_at p 10 = Some e \<and>
        u32_at p 12 = Some c \<and> exec_fields_valid f (unat e) (unat c) m \<and>
        h = \<lparr>eh_timeout_ms = t, eh_count = unat n, eh_flags = f, eh_environment_count = unat e,
             eh_cwd_len = unat c, eh_offset = 16\<rparr>)"
    then obtain fl e c where y: "x = exec_extended" "u16_at p 8 = Some fl" "u16_at p 10 = Some e"
      "u32_at p 12 = Some c" "exec_fields_valid fl (unat e) (unat c) m"
      "h = \<lparr>eh_timeout_ms = t, eh_count = unat n, eh_flags = fl, eh_environment_count = unat e,
             eh_cwd_len = unat c, eh_offset = 16\<rparr>" by blast
    with head_extended [OF p, of "to_le_bytes t @ to_le_bytes n @ to_le_bytes x" rest fl e c] rest
    obtain post where "rest = to_le_bytes fl @ to_le_bytes e @ to_le_bytes c @ post" by auto
    with that [of True post] rest y f(4,5) show ?thesis by (simp add: exec_head_def)
  qed
qed

lemma decode_exec_header_head:
  assumes p: "p = exec_head ext t n f e c @ post" and len: "length p \<le> usize_max"
    and n: "0 < n" "n \<le> max_arguments" and v: "exec_fields_valid f e c m" "c < 2 ^ 32"
    and legacy: "\<not> ext \<Longrightarrow> f = 0 \<and> e = 0 \<and> c = 0"
  shows "decode_exec_header p m = Inr \<lparr>eh_timeout_ms = t, eh_count = n, eh_flags = f,
    eh_environment_count = e, eh_cwd_len = c, eh_offset = (if ext then 16 else 8)\<rparr>"
proof -
  note u = u16_small(2) [OF n(2)] u16_small(1) [of e] fields_valid_bounds [OF v(1)]
  have c: "unat (word_of_nat c :: u32) = c" using v(2) by (simp add: unat_of_nat)
  show ?thesis
  proof (cases ext)
    case False
    with p have q: "p = to_le_bytes t @ to_le_bytes (word_of_nat n :: u16) @ to_le_bytes (0 :: u16) @ post"
      by (simp add: exec_head_def)
    then have "u32_at p 0 = Some t" "u16_at p 4 = Some (word_of_nat n)" "u16_at p 6 = Some 0"
      using head_fixed [OF len, of t "word_of_nat n" 0] by blast+
    moreover have "8 \<le> length p" using q by simp
    ultimately show ?thesis using n u legacy [OF False] False by (simp add: decode_exec_header_def)
  next
    case True
    let ?x = "to_le_bytes t @ to_le_bytes (word_of_nat n :: u16) @ to_le_bytes exec_extended"
    let ?y = "to_le_bytes f @ to_le_bytes (word_of_nat e :: u16) @ to_le_bytes (word_of_nat c :: u32) @ post"
    from True p have q: "p = ?x @ ?y" by (simp add: exec_head_def)
    have "u32_at p 0 = Some t" "u16_at p 4 = Some (word_of_nat n)" "u16_at p 6 = Some exec_extended"
      using head_fixed [OF len, of t "word_of_nat n" exec_extended] q by auto
    moreover have "u16_at p 8 = Some f" "u16_at p 10 = Some (word_of_nat e)" "u32_at p 12 = Some (word_of_nat c)"
      using head_extended [OF len q, of f "word_of_nat e" "word_of_nat c"] by auto
    moreover have "16 \<le> length p" "exec_extended \<noteq> 0" using q by (simp_all add: exec_extended_def)
    ultimately show ?thesis using n u c v(1) True by (simp add: decode_exec_header_def)
  qed
qed

section \<open>The generic decoder\<close>

text \<open>What the decoder needs of an implementation of the trait: a string that it accepts is kept.\<close>

locale exec_reader =
  fixes es :: exec_string and accepts :: "bytes \<Rightarrow> bool"
  assumes convert: "es_convert es b what = Inr c \<longleftrightarrow> accepts b \<and> c = b"
begin

lemma prefixed_string_drop:
  assumes "length p \<le> usize_max"
  shows "prefixed_string es p k what = Inr (b, j) \<longleftrightarrow>
    string_ok b \<and> accepts b \<and> (\<exists>post. drop k p = prefixed b @ post) \<and> j = k + length (prefixed b)"
  using prefixed_bytes_drop [OF assms] by (fastforce simp: prefixed_string_def convert)

lemma decode_arguments_drop:
  assumes p: "length p \<le> usize_max"
  shows "decode_arguments es p n k = Inr (bs, j) \<longleftrightarrow>
    length bs = n \<and> (\<forall>b \<in> set bs. string_ok b \<and> accepts b) \<and>
    (\<exists>post. drop k p = prefixed_all bs @ post) \<and> j = k + length (prefixed_all bs)"
proof (induction n arbitrary: k bs)
  case (Suc n)
  show ?case
  proof (cases bs)
    case Nil
    then show ?thesis by auto
  next
    case (Cons b bs')
    have "decode_arguments es p (Suc n) k = Inr (bs, j) \<longleftrightarrow>
        (\<exists>i. prefixed_string es p k ''arguments'' = Inr (b, i) \<and> decode_arguments es p n i = Inr (bs', j))"
      unfolding Cons by (force split: prod.splits)
    also have "\<dots> \<longleftrightarrow> string_ok b \<and> accepts b \<and> (\<exists>post. drop k p = prefixed b @ post) \<and>
        length bs' = n \<and> (\<forall>b \<in> set bs'. string_ok b \<and> accepts b) \<and>
        (\<exists>post. drop (k + length (prefixed b)) p = prefixed_all bs' @ post) \<and>
        j = k + length (prefixed b) + length (prefixed_all bs')"
      using prefixed_string_drop [OF p] Suc.IH by auto
    finally show ?thesis
      using drop_then [OF refl, of k p "prefixed b" "prefixed_all bs'"] by (auto simp: Cons)
  qed
qed auto

lemma decode_entries_drop:
  assumes p: "length p \<le> usize_max"
  shows "decode_entries es p n k names = Inr (bs, j) \<longleftrightarrow>
    length bs = n \<and> (\<forall>b \<in> set bs. string_ok b \<and> accepts b) \<and> names_ok names bs \<and>
    (\<exists>post. drop k p = prefixed_all bs @ post) \<and> j = k + length (prefixed_all bs)"
proof (induction n arbitrary: k bs names)
  case (Suc n)
  show ?case
  proof (cases bs)
    case Nil
    then show ?thesis by (auto split: option.splits if_splits)
  next
    case (Cons b bs')
    have "decode_entries es p (Suc n) k names = Inr (bs, j) \<longleftrightarrow>
        (\<exists>i name. prefixed_string es p k ''environment entries'' = Inr (b, i) \<and>
           entry_name b = Some name \<and> name \<notin> set names \<and>
           decode_entries es p n i (name # names) = Inr (bs', j))"
      unfolding Cons by (force split: prod.splits option.splits)
    also have "\<dots> \<longleftrightarrow> string_ok b \<and> accepts b \<and> (\<exists>post. drop k p = prefixed b @ post) \<and>
        length bs' = n \<and> (\<forall>b \<in> set bs'. string_ok b \<and> accepts b) \<and>
        (\<exists>name. entry_name b = Some name \<and> name \<notin> set names \<and> names_ok (name # names) bs') \<and>
        (\<exists>post. drop (k + length (prefixed b)) p = prefixed_all bs' @ post) \<and>
        j = k + length (prefixed b) + length (prefixed_all bs')"
      using prefixed_string_drop [OF p] Suc.IH by auto
    finally show ?thesis
      using drop_then [OF refl, of k p "prefixed b" "prefixed_all bs'"]
      by (auto simp: Cons split: option.splits)
  qed
qed auto

lemma decode_cwd_drop:
  assumes "length p \<le> usize_max" and "k \<le> length p"
  shows "decode_cwd es p f c k = Inr (cwd, j) \<longleftrightarrow>
    (\<exists>post. drop k p = cwd_bytes cwd @ post) \<and> j = k + length (cwd_bytes cwd) \<and>
    (case cwd of
       None \<Rightarrow> f AND exec_cwd_present = 0
     | Some b \<Rightarrow> f AND exec_cwd_present \<noteq> 0 \<and> length b = c \<and> 0 \<notin> set b \<and> accepts b \<and> absolute b)"
proof -
  have add: "checked_add_usize k c = Some (k + c)" if "drop k p = b @ post" "length b = c" for b post
  proof -
    have "length p - k = c + length post" using that by (metis length_append length_drop)
    with assms show ?thesis by (simp add: checked_add_usize_def)
  qed
  show ?thesis
    using bytes_at_drop [OF assms(1), of c k] assms(2) add
    by (cases cwd) (auto simp: decode_cwd_def convert cwd_bytes_def)
qed

text \<open>What the decoder read, part by part.\<close>

lemma decode_exec_parts:
  assumes d: "decode_exec es p m = Inr d" and p: "length p \<le> usize_max"
  obtains ext argv cwd env and h :: exec_header where
    "p = exec_head ext (eh_timeout_ms h) (eh_count h) (eh_flags h) (eh_environment_count h) (eh_cwd_len h) @
       prefixed_all argv @ cwd_bytes cwd @ prefixed_all env"
    "length argv = eh_count h" "length env = eh_environment_count h" "\<not> ext \<longrightarrow> eh_flags h = 0"
    "0 < eh_count h" "eh_count h \<le> max_arguments"
    "exec_fields_valid (eh_flags h) (eh_environment_count h) (eh_cwd_len h) m"
    "\<forall>b \<in> set (argv @ env). string_ok b \<and> accepts b" "absolute (hd argv)" "names_ok [] env"
    "case cwd of None \<Rightarrow> eh_flags h AND exec_cwd_present = 0
     | Some b \<Rightarrow> eh_flags h AND exec_cwd_present \<noteq> 0 \<and> length b = eh_cwd_len h \<and> 0 \<notin> set b \<and> accepts b \<and> absolute b"
    "d = \<lparr>de_timeout_ms = eh_timeout_ms h, de_flags = eh_flags h, de_argv = argv, de_cwd = cwd,
      de_environment = (if eh_flags h AND exec_environment_present \<noteq> 0 then Some env else None)\<rparr>"
proof -
  from d obtain h argv i cwd j env where st: "decode_exec_header p m = Inr h"
    "decode_arguments es p (eh_count h) (eh_offset h) = Inr (argv, i)"
    "case argv of program # _ \<Rightarrow> absolute program | [] \<Rightarrow> False"
    "decode_cwd es p (eh_flags h) (eh_cwd_len h) i = Inr (cwd, j)"
    "decode_entries es p (eh_environment_count h) j [] = Inr (env, length p)"
    "d = \<lparr>de_timeout_ms = eh_timeout_ms h, de_flags = eh_flags h, de_argv = argv, de_cwd = cwd,
      de_environment = (if eh_flags h AND exec_environment_present \<noteq> 0 then Some env else None)\<rparr>"
    by (auto simp: decode_exec_def split: if_splits)
  from decode_exec_header_Inr [OF st(1) p] obtain ext r0 where h:
    "p = exec_head ext (eh_timeout_ms h) (eh_count h) (eh_flags h) (eh_environment_count h) (eh_cwd_len h) @ r0"
    "eh_offset h = (if ext then 16 else 8)" "0 < eh_count h" "eh_count h \<le> max_arguments"
    "exec_fields_valid (eh_flags h) (eh_environment_count h) (eh_cwd_len h) m" "\<not> ext \<Longrightarrow> eh_flags h = 0"
    by metis
  have o0: "drop (eh_offset h) p = r0" unfolding h(2) by (subst h(1)) simp
  from st(2) [unfolded decode_arguments_drop [OF p]] obtain r1 where a: "length argv = eh_count h"
    "\<forall>b \<in> set argv. string_ok b \<and> accepts b" "r0 = prefixed_all argv @ r1"
    "i = eh_offset h + length (prefixed_all argv)" using o0 by blast
  have o1: "drop i p = r1" using drop_past [of "eh_offset h" p "prefixed_all argv" r1 i] o0 a(3,4) by simp
  have "eh_offset h + length r0 = length p" using arg_cong [OF h(1), of length] h(2) by simp
  then have i: "i \<le> length p" using a(3,4) by simp
  note cwd = st(4) [unfolded decode_cwd_drop [OF p i]]
  then obtain r2 where c: "r1 = cwd_bytes cwd @ r2" "j = i + length (cwd_bytes cwd)" using o1 by blast
  have o2: "drop j p = r2" using drop_past [of i p "cwd_bytes cwd" r2 j] o1 c by simp
  from st(5) [unfolded decode_entries_drop [OF p]] obtain r3 where e: "length env = eh_environment_count h"
    "\<forall>b \<in> set env. string_ok b \<and> accepts b" "names_ok [] env" "r2 = prefixed_all env @ r3"
    "length p = j + length (prefixed_all env)" using o2 by blast
  have "r3 = []" using drop_past [of j p "prefixed_all env" r3 "length p"] o2 e(4,5) by simp
  with h(1) a(3) c(1) e(4) have whole: "p = exec_head ext (eh_timeout_ms h) (eh_count h) (eh_flags h)
      (eh_environment_count h) (eh_cwd_len h) @ prefixed_all argv @ cwd_bytes cwd @ prefixed_all env" by simp
  have "absolute (hd argv)" using st(3) by (cases argv) simp_all
  then show ?thesis
    by (intro that [OF whole a(1) e(1) _ h(3-5) _ _ e(3) _ st(6)]) (use h(6) a(2) e(2) cwd in auto)
qed

lemma decode_exec_sound:
  assumes d: "decode_exec es p m = Inr d" and p: "length p \<le> usize_max"
  shows "(\<exists>ext. p = exec_layout ext d \<and> (\<not> ext \<longrightarrow> de_flags d = 0)) \<and> exec_rules accepts m d"
proof -
  obtain ext argv cwd env and h :: exec_header where q:
    "p = exec_head ext (eh_timeout_ms h) (eh_count h) (eh_flags h) (eh_environment_count h) (eh_cwd_len h) @
       prefixed_all argv @ cwd_bytes cwd @ prefixed_all env"
    "length argv = eh_count h" "length env = eh_environment_count h" "\<not> ext \<longrightarrow> eh_flags h = 0"
    "0 < eh_count h" "eh_count h \<le> max_arguments"
    "exec_fields_valid (eh_flags h) (eh_environment_count h) (eh_cwd_len h) m"
    "\<forall>b \<in> set (argv @ env). string_ok b \<and> accepts b" "absolute (hd argv)" "names_ok [] env"
    "case cwd of None \<Rightarrow> eh_flags h AND exec_cwd_present = 0
     | Some b \<Rightarrow> eh_flags h AND exec_cwd_present \<noteq> 0 \<and> length b = eh_cwd_len h \<and> 0 \<notin> set b \<and> accepts b \<and> absolute b"
    "d = \<lparr>de_timeout_ms = eh_timeout_ms h, de_flags = eh_flags h, de_argv = argv, de_cwd = cwd,
      de_environment = (if eh_flags h AND exec_environment_present \<noteq> 0 then Some env else None)\<rparr>"
    by (rule decode_exec_parts [OF d p])
  have ev: "entries_of (de_environment d) = env"
    using q(3,7,12) by (auto simp: entries_of_def exec_fields_valid_def Let_def)
  have "length (cwd_bytes cwd) = eh_cwd_len h"
    using q(7,11) by (auto simp: cwd_bytes_def exec_fields_valid_def Let_def split: option.splits)
  then have "p = exec_layout ext d" using q(1-3,12) ev by (simp add: exec_layout_def)
  moreover have "exec_rules accepts m d"
    using q(2,3,5-12)
    by (auto simp: exec_rules_def exec_fields_valid_def Let_def split: option.splits if_splits)
  ultimately show ?thesis using q(4,12) by auto
qed

lemma rules_fields_valid:
  "exec_rules accepts m d \<Longrightarrow>
     exec_fields_valid (de_flags d) (length (entries_of (de_environment d))) (length (cwd_bytes (de_cwd d))) m"
  by (cases "de_cwd d"; cases "de_environment d")
    (auto simp: exec_rules_def exec_fields_valid_def entries_of_def cwd_bytes_def Let_def absolute_def
      Suc_le_eq split: list.splits)

lemma decode_exec_complete:
  assumes q: "p = exec_layout ext d" and p: "length p \<le> usize_max" and m: "m < 2 ^ 32"
    and legacy: "\<not> ext \<Longrightarrow> de_flags d = 0" and rules: "exec_rules accepts m d"
  shows "decode_exec es p m = Inr d"
proof -
  let ?env = "entries_of (de_environment d)" and ?cwd = "cwd_bytes (de_cwd d)"
  let ?h = "\<lparr>eh_timeout_ms = de_timeout_ms d, eh_count = length (de_argv d), eh_flags = de_flags d,
    eh_environment_count = length ?env, eh_cwd_len = length ?cwd, eh_offset = (if ext then 16 else 8)\<rparr>"
  let ?i = "eh_offset ?h + length (prefixed_all (de_argv d))" and ?j = "length p - length (prefixed_all ?env)"
  note valid = rules_fields_valid [OF rules]
  have l: "\<not> ext \<Longrightarrow> de_flags d = 0 \<and> length ?env = 0 \<and> length ?cwd = 0"
    using legacy rules by (auto simp: exec_rules_def entries_of_def cwd_bytes_def split: option.splits)
  have "decode_exec_header p m = Inr ?h"
    by (rule decode_exec_header_head [OF _ p _ _ valid])
      (use q rules l m fields_valid_bounds [OF valid] in \<open>auto simp: exec_layout_def exec_rules_def\<close>)
  moreover have d0: "drop (eh_offset ?h) p = prefixed_all (de_argv d) @ ?cwd @ prefixed_all ?env"
    by (simp add: q exec_layout_def)
  then have "decode_arguments es p (length (de_argv d)) (eh_offset ?h) = Inr (de_argv d, ?i)"
    using rules by (auto simp: decode_arguments_drop [OF p] exec_rules_def)
  moreover have d1: "drop ?i p = ?cwd @ prefixed_all ?env" using drop_past [OF d0, of ?i] by simp
  have i: "?i \<le> length p" and j: "?j = ?i + length ?cwd" by (simp_all add: q exec_layout_def)
  have "decode_cwd es p (de_flags d) (length ?cwd) ?i = Inr (de_cwd d, ?j)"
    unfolding decode_cwd_drop [OF p i] j using d1 rules
    by (auto simp: exec_rules_def cwd_bytes_def split: option.splits)
  moreover have "drop ?j p = prefixed_all ?env" using drop_past [OF d1, of ?j] j by simp
  then have "decode_entries es p (length ?env) ?j [] = Inr (?env, length p)"
    unfolding decode_entries_drop [OF p] using rules i j
    by (auto simp: exec_rules_def entries_of_def q exec_layout_def split: option.splits)
  moreover have "(if de_flags d AND exec_environment_present \<noteq> 0 then Some ?env else None) = de_environment d"
    using rules by (auto simp: exec_rules_def entries_of_def split: option.splits)
  ultimately show ?thesis
    using rules by (auto simp: decode_exec_def exec_rules_def neq_Nil_conv)
qed

lemma decode_exec_exact:
  assumes "length p \<le> usize_max" and "m < 2 ^ 32"
  shows "decode_exec es p m = Inr d \<longleftrightarrow>
    (\<exists>ext. p = exec_layout ext d \<and> (\<not> ext \<longrightarrow> de_flags d = 0)) \<and> exec_rules accepts m d"
  using decode_exec_sound [OF _ assms(1)] decode_exec_complete [OF _ assms] by blast

end

interpretation host_reader: exec_reader string_exec utf8_valid
  by unfold_locales (auto simp: string_exec_def)

interpretation guest_reader: exec_reader bytes_exec "\<lambda>_. True"
  by unfold_locales (auto simp: bytes_exec_def)

section \<open>The encoder\<close>

lemma prefixed_max: "string_ok b \<Longrightarrow> to_le_bytes (try_from_or_max (length b) :: u32) @ b = prefixed b"
  by (simp add: prefixed_def try_from_or_max_def string_ok_def max_argument_bytes_def)

lemma encode_arguments_Inr:
  "encode_arguments argv p = Inr q \<longleftrightarrow> (\<forall>a \<in> set argv. string_ok a) \<and> q = p @ prefixed_all argv"
proof (induction argv arbitrary: p)
  case (Cons a argv)
  have "string_ok a \<longleftrightarrow> \<not> (a = [] \<or> length a > max_argument_bytes \<or> 0 \<in> set a)"
    by (auto simp: string_ok_def)
  with Cons show ?case by (cases "string_ok a") (auto simp: prefixed_max)
qed auto

lemma entry_name_nonempty: "entry_name e = Some n \<Longrightarrow> e \<noteq> []"
  by (auto simp: entry_name_def)

lemma encode_entries_Inr:
  "encode_entries es names p = Inr q \<longleftrightarrow>
     (\<forall>e \<in> set es. string_ok e) \<and> names_ok names es \<and> q = p @ prefixed_all es"
proof (induction es arbitrary: names p)
  case (Cons e es)
  show ?case
  proof (cases "entry_name e")
    case (Some n)
    then have "string_ok e \<longleftrightarrow> length e \<le> max_argument_bytes \<and> 0 \<notin> set e"
      using entry_name_nonempty by (auto simp: string_ok_def)
    with Cons Some show ?thesis by (cases "string_ok e") (auto simp: prefixed_max)
  qed simp
qed auto

text \<open>What a payload says of a workload.\<close>

definition workload_flags :: "workload \<Rightarrow> u16" where
  "workload_flags w =
     (if wl_cwd w \<noteq> None then snd (workload_entries (wl_environment w)) OR exec_cwd_present
      else snd (workload_entries (wl_environment w)))"

definition workload_decoded :: "workload \<Rightarrow> decoded_exec" where
  "workload_decoded w =
     \<lparr>de_timeout_ms = wl_timeout_ms w, de_flags = workload_flags w, de_argv = wl_argv w, de_cwd = wl_cwd w,
      de_environment = (case wl_environment w of
                          DefaultEnvironment \<Rightarrow> None | Replaced es \<Rightarrow> Some es | Layered es \<Rightarrow> Some es)\<rparr>"

lemma workload_flags_bits:
  "workload_flags w AND NOT (exec_cwd_present OR exec_environment_present OR exec_inherit_default_env) = 0"
  "workload_flags w AND exec_cwd_present = 0 \<longleftrightarrow> wl_cwd w = None"
  "workload_flags w AND exec_environment_present = 0 \<longleftrightarrow> wl_environment w = DefaultEnvironment"
  "workload_flags w AND exec_inherit_default_env = 0 \<longleftrightarrow> (\<nexists>es. wl_environment w = Layered es)"
  by (cases "wl_environment w"; cases "wl_cwd w"; simp add: workload_flags_def exec_cwd_present_def
      exec_environment_present_def exec_inherit_default_env_def)+

lemma workload_entries_decoded:
  "fst (workload_entries (wl_environment w)) = entries_of (de_environment (workload_decoded w))"
  by (cases "wl_environment w") (simp_all add: workload_decoded_def entries_of_def)

lemma encode_head:
  assumes "length (wl_argv w) \<le> max_arguments" and "n \<le> max_environment"
    and "length (cwd_bytes (wl_cwd w)) \<le> max_argument_bytes"
  shows "encode_exec_fields t f (length (wl_argv w)) (wl_cwd w) n =
    exec_head (f \<noteq> 0) t (length (wl_argv w)) f n (length (cwd_bytes (wl_cwd w)))"
  using assms
  by (simp add: encode_exec_fields_def exec_head_def try_from_or_max_def max_arguments_def
      max_environment_def max_argument_bytes_def)

lemma encode_exec_payload_Inr:
  assumes "encode_exec_payload w = Inr p"
  shows "p = exec_layout (workload_flags w \<noteq> 0) (workload_decoded w)"
    "exec_rules (\<lambda>_. True) max_argument_bytes (workload_decoded w)"
    "app_header_len + length p \<le> outer_max_payload"
proof -
  let ?es = "entries_of (de_environment (workload_decoded w))" and ?f = "workload_flags w"
  obtain es f where ef: "workload_entries (wl_environment w) = (es, f)"
    by (cases "workload_entries (wl_environment w)")
  have es: "es = ?es" using workload_entries_decoded [of w] ef by simp
  have f: "(if wl_cwd w \<noteq> None then f OR exec_cwd_present else f) = ?f"
    using ef by (simp add: workload_flags_def)
  have cwd: "case wl_cwd w of Some d \<Rightarrow> absolute d \<and> length d \<le> max_argument_bytes \<and> 0 \<notin> set d | None \<Rightarrow> True"
    using assms by (auto simp: encode_exec_payload_def Let_def split: if_splits option.splits)
  obtain q where g: "0 < length (wl_argv w)" "length (wl_argv w) \<le> max_arguments" "absolute (hd (wl_argv w))"
    "length ?es \<le> max_environment" "app_header_len + length p \<le> outer_max_payload"
    "encode_arguments (wl_argv w) (encode_exec_fields (wl_timeout_ms w) ?f (length (wl_argv w)) (wl_cwd w)
       (length ?es)) = Inr q" "encode_entries ?es [] (q @ cwd_bytes (wl_cwd w)) = Inr p"
    using assms unfolding encode_exec_payload_def Let_def ef prod.case f es
    by (auto split: if_splits)
  have "length (cwd_bytes (wl_cwd w)) \<le> max_argument_bytes"
    using cwd by (auto simp: cwd_bytes_def max_argument_bytes_def split: option.splits)
  note head = encode_head [OF g(2,4) this]
  show "p = exec_layout (?f \<noteq> 0) (workload_decoded w)"
    using g(6,7) unfolding head
    by (simp add: encode_arguments_Inr encode_entries_Inr exec_layout_def) (simp add: workload_decoded_def)
  show "app_header_len + length p \<le> outer_max_payload" by (rule g(5))
  have a: "\<forall>a \<in> set (wl_argv w). string_ok a" "\<forall>e \<in> set ?es. string_ok e" "names_ok [] ?es"
    using g(6,7) by (simp_all add: encode_arguments_Inr encode_entries_Inr)
  then show "exec_rules (\<lambda>_. True) max_argument_bytes (workload_decoded w)"
    using g(1-4) cwd
    by (cases "wl_environment w")
      (auto simp: exec_rules_def workload_decoded_def workload_flags_bits workload_flags_bits(1) [simplified]
        entries_of_def split: option.splits)
qed

lemma payload_usize: "app_header_len + length p \<le> outer_max_payload \<Longrightarrow> length p \<le> usize_max"
  by (simp add: outer_max_payload_def usize_max_def)

section \<open>The codec\<close>

text \<open>The strings of a workload.\<close>

definition workload_strings :: "workload \<Rightarrow> bytes list" where
  "workload_strings w =
     wl_argv w @ cwd_bytes (wl_cwd w) # fst (workload_entries (wl_environment w))"

text \<open>
  C35. A workload that the host encodes comes out of the guest's decoder as it went in: the timeout, the
  arguments, the working directory, the environment, and whether it layers over the default one. The
  host's own decoder, which reads text, returns the same, and tells that a default environment is
  inherited.
\<close>

theorem exec_payload_roundtrip:
  assumes "encode_exec_payload w = Inr p"
  shows "decode_guest_exec_payload p = Inr \<lparr>ep_timeout_ms = wl_timeout_ms w, ep_argv = wl_argv w,
      ep_cwd = wl_cwd w, ep_environment = de_environment (workload_decoded w),
      ep_inherit_default_env = (\<exists>es. wl_environment w = Layered es)\<rparr> \<and>
    ((\<forall>s \<in> set (workload_strings w). utf8_valid s) \<longrightarrow>
      decode_exec_payload p = Inr \<lparr>ep_timeout_ms = wl_timeout_ms w, ep_argv = wl_argv w,
        ep_cwd = wl_cwd w, ep_environment = de_environment (workload_decoded w),
        ep_inherit_default_env = (\<nexists>es. wl_environment w = Replaced es)\<rparr>)"
proof -
  let ?d = "workload_decoded w"
  note e = encode_exec_payload_Inr [OF assms]
  note len = payload_usize [OF e(3)]
  have m: "max_guest_cwd_bytes = max_argument_bytes" "max_argument_bytes < 2 ^ 32"
    by (simp_all add: max_guest_cwd_bytes_def max_argument_bytes_def)
  have fl: "de_flags ?d = workload_flags w" by (simp add: workload_decoded_def)
  have "decode_exec bytes_exec p max_argument_bytes = Inr ?d"
    using guest_reader.decode_exec_complete [OF e(1) len m(2) _ e(2)] fl by simp
  moreover have "decode_exec string_exec p max_argument_bytes = Inr ?d"
    if "\<forall>s \<in> set (workload_strings w). utf8_valid s"
  proof -
    have "exec_rules utf8_valid max_argument_bytes ?d"
      using e(2) that
      by (cases "wl_environment w")
        (auto simp: exec_rules_def workload_decoded_def workload_strings_def cwd_bytes_def split: option.splits)
    then show ?thesis using host_reader.decode_exec_complete [OF e(1) len m(2)] fl by simp
  qed
  ultimately show ?thesis
    by (cases "wl_environment w")
      (auto simp: decode_guest_exec_payload_def decode_exec_payload_def m(1) workload_decoded_def
        workload_flags_bits)
qed

definition demo_workload :: workload where
  "demo_workload = \<lparr>wl_argv = [ascii ''/bin/echo'', ascii ''hi''], wl_timeout_ms = 500,
     wl_cwd = Some (ascii ''/tmp''), wl_environment = Layered [ascii ''A=1'', ascii ''B=2'']\<rparr>"

theorem exec_payload_roundtrip_witness:
  "\<exists>p. encode_exec_payload demo_workload = Inr p \<and>
     decode_guest_exec_payload p = Inr \<lparr>ep_timeout_ms = 500, ep_argv = [ascii ''/bin/echo'', ascii ''hi''],
       ep_cwd = Some (ascii ''/tmp''), ep_environment = Some [ascii ''A=1'', ascii ''B=2''],
       ep_inherit_default_env = True\<rparr>"
proof -
  have "isl (encode_exec_payload demo_workload) = False" by code_simp
  then obtain p where p: "encode_exec_payload demo_workload = Inr p"
    by (cases "encode_exec_payload demo_workload") simp_all
  from exec_payload_roundtrip [OF this] p show ?thesis
    by (simp add: demo_workload_def workload_decoded_def)
qed

text \<open>The strings of a decoded payload.\<close>

definition payload_strings :: "exec_payload \<Rightarrow> bytes list" where
  "payload_strings x = ep_argv x @ cwd_bytes (ep_cwd x) # entries_of (ep_environment x)"

lemma exec_rules_split:
  "exec_rules accepts m d \<longleftrightarrow> exec_rules (\<lambda>_. True) m d \<and>
     (\<forall>s \<in> set (de_argv d @ entries_of (de_environment d)). accepts s) \<and>
     (\<forall>c. de_cwd d = Some c \<longrightarrow> accepts c)"
  by (cases "de_cwd d"; cases "de_environment d") (auto simp: exec_rules_def entries_of_def)

text \<open>
  C36. The guest's decoder accepts exactly the payloads that the host's accepts and those that differ
  only in strings that are not UTF-8, and it reads the same fields; the two differ only in what they
  tell of a default environment.
\<close>

theorem exec_decoders_agree:
  assumes "length p \<le> usize_max"
  shows "decode_exec_payload p = Inr x \<longleftrightarrow>
    (\<exists>y. decode_guest_exec_payload p = Inr y \<and> (\<forall>s \<in> set (payload_strings y). utf8_valid s) \<and>
       x = y\<lparr>ep_inherit_default_env := ep_environment y = None \<or> ep_inherit_default_env y\<rparr>)"
proof -
  have m: "max_guest_cwd_bytes = max_argument_bytes" "max_argument_bytes < 2 ^ 32"
    by (simp_all add: max_guest_cwd_bytes_def max_argument_bytes_def)
  have d: "decode_exec string_exec p max_argument_bytes = Inr d \<longleftrightarrow>
      decode_exec bytes_exec p max_argument_bytes = Inr d \<and>
      (\<forall>s \<in> set (de_argv d @ entries_of (de_environment d)). utf8_valid s) \<and>
      (\<forall>c. de_cwd d = Some c \<longrightarrow> utf8_valid c)" for d
    unfolding host_reader.decode_exec_exact [OF assms m(2)] guest_reader.decode_exec_exact [OF assms m(2)]
    by (subst exec_rules_split) blast
  have env: "de_flags d AND exec_environment_present = 0 \<longleftrightarrow> de_environment d = None"
    if "decode_exec bytes_exec p max_argument_bytes = Inr d" for d
    using that unfolding guest_reader.decode_exec_exact [OF assms m(2)]
    by (auto simp: exec_rules_def split: option.splits)
  have c: "(\<forall>c. z = Some c \<longrightarrow> utf8_valid c) \<longleftrightarrow> utf8_valid (cwd_bytes z)" for z
    by (cases z) (simp_all add: cwd_bytes_def)
  show ?thesis
    using d env
    by (auto simp: decode_exec_payload_def decode_guest_exec_payload_def m(1) payload_strings_def c)
qed

theorem exec_decoders_agree_witness:
  "\<exists>p y. encode_exec_payload demo_workload = Inr p \<and> decode_exec_payload p = Inr y \<and>
     ep_argv y = [ascii ''/bin/echo'', ascii ''hi'']"
proof -
  let ?p = "projr (encode_exec_payload demo_workload)"
  have p: "encode_exec_payload demo_workload = Inr ?p" "length ?p = 53" by code_simp+
  then have len: "length ?p \<le> usize_max" by (simp add: usize_max_def)
  let ?y = "projr (decode_guest_exec_payload ?p)"
  have y: "decode_guest_exec_payload ?p = Inr ?y" "list_all utf8_valid (payload_strings ?y)"
    "ep_argv ?y = [ascii ''/bin/echo'', ascii ''hi'']" by code_simp+
  let ?x = "?y\<lparr>ep_inherit_default_env := ep_environment ?y = None \<or> ep_inherit_default_env ?y\<rparr>"
  have "decode_exec_payload ?p = Inr ?x"
    unfolding exec_decoders_agree [OF len] using y(1,2) by (intro exI [of _ ?y]) (simp add: list_all_iff)
  moreover have "ep_argv ?x = [ascii ''/bin/echo'', ascii ''hi'']" using y(3) by simp
  ultimately show ?thesis using p(1) by blast
qed

end
