(* ===== verification/Wire_Maps.thy ===== *)
theory Wire_Maps
  imports Wire_App
begin

text \<open>
  The payloads of \<^verbatim>\<open>MAPS\<close> requests (\<^verbatim>\<open>protocol/maps.rs\<close>): the host cuts its table of mappings into
  payloads of a limited size, and the guest decodes each. The payloads carry the table whole and in
  order, each with the index at which its entries continue, and the decoders accept exactly the
  layout of the format with paths that keep its rules.
\<close>

section \<open>Constants and mappings\<close>

definition max_host_mappings :: usize where
  "max_host_mappings = 4096"

definition max_map_path_bytes :: usize where
  "max_map_path_bytes = 4095"

definition maps_header_len :: usize where
  "maps_header_len = 8"

definition map_entry_header_len :: usize where
  "map_entry_header_len = 6"

definition map_read_only :: u16 where
  "map_read_only = push_bit 0 1"

record host_map =
  hm_source :: bytes
  hm_target :: bytes
  hm_read_only :: bool

definition normal_components :: "bytes \<Rightarrow> bool" where
  "normal_components components \<longleftrightarrow>
     components \<noteq> [] \<and>
     list_all (\<lambda>c. c \<noteq> [] \<and> c \<noteq> ascii ''.'' \<and> c \<noteq> ascii ''..'') (split_on 0x2f components)"

definition strip_prefix :: "'a list \<Rightarrow> 'a list \<Rightarrow> 'a list option" where
  "strip_prefix prefix s = (if take (length prefix) s = prefix then Some (drop (length prefix) s) else None)"

definition acceptable :: "bytes \<Rightarrow> bytes \<Rightarrow> bool" where
  "acceptable source target \<longleftrightarrow>
     list_all (\<lambda>path. length path \<le> max_map_path_bytes \<and> 0 \<notin> set path) [source, target] \<and>
     (source = [] \<or> normal_components source) \<and>
     (case strip_prefix [0x2f] target of Some rest \<Rightarrow> normal_components rest | None \<Rightarrow> False)"

section \<open>The encoder\<close>

text \<open>\<^verbatim>\<open>payload[4..8].copy_from_slice(&count.to_le_bytes())\<close>.\<close>

definition put_count :: "bytes \<Rightarrow> u32 \<Rightarrow> bytes" where
  "put_count payload count = take 4 payload @ to_le_bytes count @ drop 8 payload"

definition encode_map_entry :: "host_map \<Rightarrow> bytes" where
  "encode_map_entry m =
     to_le_bytes (if hm_read_only m then map_read_only else 0) @
     to_le_bytes (try_from_or_max (length (hm_source m)) :: u16) @
     to_le_bytes (try_from_or_max (length (hm_target m)) :: u16) @ hm_source m @ hm_target m"

fun encode_maps_loop ::
  "usize \<Rightarrow> host_map list \<Rightarrow> usize \<Rightarrow> bytes list \<Rightarrow> bytes \<Rightarrow> u32 \<Rightarrow> (protocol_error, bytes list) result"
where
  "encode_maps_loop limit [] index payloads payload count = Inr (payloads @ [put_count payload count])"
| "encode_maps_loop limit (m # maps) index payloads payload count =
     (if \<not> acceptable (hm_source m) (hm_target m)
      then Inl (protocol_violation ''a host mapping needs a source that is empty, for the export's root, or relative, and an absolute target, each of at most 4095 bytes without NUL characters or empty, `.`, or `..` components'')
      else
        (let entry_len = map_entry_header_len + length (hm_source m) + length (hm_target m)
         in if maps_header_len + entry_len > limit
            then Inl (protocol_violation ''a host mapping exceeds the control protocol limit'')
            else
              (let (payloads, payload, count) =
                     (if count > 0 \<and> length payload + entry_len > limit
                      then (payloads @ [put_count payload count], [], 0)
                      else (payloads, payload, count));
                   payload = (if count = 0
                              then payload @ to_le_bytes (try_from_or_max index :: u32) @ to_le_bytes (0 :: u32)
                              else payload)
               in encode_maps_loop limit maps (Suc index) payloads (payload @ encode_map_entry m)
                    (count + 1))))"

definition encode_maps_payloads :: "host_map list \<Rightarrow> usize \<Rightarrow> (protocol_error, bytes list) result" where
  "encode_maps_payloads maps limit =
     (if maps = [] \<or> length maps > max_host_mappings
      then Inl (protocol_violation ''a host mapping table holds 1 to 4096 entries'')
      else encode_maps_loop limit maps 0 [] [] 0)"

section \<open>The decoders\<close>

record maps_payload =
  mp_first :: u32
  mp_maps :: "host_map list"

definition maps_truncated :: protocol_error where
  "maps_truncated = protocol_violation ''the host mapping request is truncated''"

definition take_path ::
  "(bytes \<Rightarrow> (protocol_error, bytes) result) \<Rightarrow> bytes \<Rightarrow> usize \<Rightarrow> u16 \<Rightarrow>
     (protocol_error, bytes \<times> usize) result" where
  "take_path path payload offset n =
     and_then (ok_or maps_truncated (checked_add_usize offset (unat n))) (\<lambda>stop.
     and_then (ok_or maps_truncated (get_range payload offset stop)) (\<lambda>bs.
     and_then (path bs) (\<lambda>p. Inr (p, stop))))"

definition decode_map_entry ::
  "(bytes \<Rightarrow> (protocol_error, bytes) result) \<Rightarrow> bytes \<Rightarrow> usize \<Rightarrow> (protocol_error, host_map \<times> usize) result"
where
  "decode_map_entry path payload offset =
     (case (u16_at payload offset, u16_at payload (saturating_add offset 2),
            u16_at payload (saturating_add offset 4)) of
        (Some flags, Some source_len, Some target_len) \<Rightarrow>
          and_then (ok_or maps_truncated (checked_add_usize offset map_entry_header_len)) (\<lambda>offset.
          and_then (take_path path payload offset source_len) (\<lambda>(source, offset).
          and_then (take_path path payload offset target_len) (\<lambda>(target, offset).
            if flags AND NOT map_read_only \<noteq> 0 \<or> \<not> acceptable source target
            then Inl (protocol_violation ''a host mapping has unknown flags or a source or target that the guest agent refuses'')
            else Inr (\<lparr>hm_source = source, hm_target = target,
                       hm_read_only = (flags AND map_read_only \<noteq> 0)\<rparr>, offset))))
      | _ \<Rightarrow> Inl maps_truncated)"

fun decode_maps_loop ::
  "(bytes \<Rightarrow> (protocol_error, bytes) result) \<Rightarrow> bytes \<Rightarrow> nat \<Rightarrow> usize \<Rightarrow>
     (protocol_error, host_map list \<times> usize) result" where
  "decode_maps_loop path payload 0 offset = Inr ([], offset)"
| "decode_maps_loop path payload (Suc n) offset =
     and_then (decode_map_entry path payload offset) (\<lambda>(m, offset).
       and_then (decode_maps_loop path payload n offset) (\<lambda>(maps, offset). Inr (m # maps, offset)))"

definition decode_maps_entries ::
  "(bytes \<Rightarrow> (protocol_error, bytes) result) \<Rightarrow> bytes \<Rightarrow> u32 \<Rightarrow> (protocol_error, host_map list) result" where
  "decode_maps_entries path payload count =
     and_then (decode_maps_loop path payload (unat count) maps_header_len) (\<lambda>(maps, offset).
       if offset \<noteq> length payload
       then Inl (protocol_violation ''the host mapping request has trailing bytes'')
       else Inr maps)"

definition utf8_path :: "bytes \<Rightarrow> (protocol_error, bytes) result" where
  "utf8_path bs = (if utf8_valid bs then Inr bs else Inl (protocol_violation ''a host mapping is not valid UTF-8''))"

definition decode_maps_payload :: "bytes \<Rightarrow> (protocol_error, maps_payload) result" where
  "decode_maps_payload payload =
     and_then (ok_or maps_truncated (u32_at payload 0)) (\<lambda>first.
     and_then (ok_or maps_truncated (u32_at payload 4)) (\<lambda>count.
     and_then (decode_maps_entries utf8_path payload count) (\<lambda>maps.
       Inr \<lparr>mp_first = first, mp_maps = maps\<rparr>)))"

definition decode_guest_maps_payload :: "bytes \<Rightarrow> (protocol_error, maps_payload) result" where
  "decode_guest_maps_payload payload =
     and_then (ok_or maps_truncated (u32_at payload 0)) (\<lambda>first.
     and_then (ok_or maps_truncated (u32_at payload 4)) (\<lambda>count.
       if unat count > max_host_mappings
       then Inl (protocol_violation ''the host mapping request has too many entries'')
       else and_then (decode_maps_entries Inr payload count) (\<lambda>maps.
              Inr \<lparr>mp_first = first, mp_maps = maps\<rparr>)))"

end
