(* ===== verification/Wire_Maps_Layout.thy ===== *)
theory Wire_Maps_Layout
  imports Wire_Maps
begin

text \<open>
  The format of \<^verbatim>\<open>MAPS\<close> payloads as a specification, that the decoders of \<^verbatim>\<open>protocol/maps.rs\<close>
  implement it exactly, and that the payloads of an encoded table carry it whole and in order.
\<close>

section \<open>The format\<close>

definition map_flags :: "host_map \<Rightarrow> u16" where
  "map_flags m = (if hm_read_only m then map_read_only else 0)"

definition map_layout :: "host_map \<Rightarrow> bytes" where
  "map_layout m =
     to_le_bytes (map_flags m) @ to_le_bytes (word_of_nat (length (hm_source m)) :: u16) @
     to_le_bytes (word_of_nat (length (hm_target m)) :: u16) @ hm_source m @ hm_target m"

definition maps_layout :: "host_map list \<Rightarrow> bytes" where
  "maps_layout ms = concat (map map_layout ms)"

definition payload_layout :: "nat \<Rightarrow> host_map list \<Rightarrow> bytes" where
  "payload_layout first ms =
     to_le_bytes (word_of_nat first :: u32) @ to_le_bytes (word_of_nat (length ms) :: u32) @ maps_layout ms"

definition map_ok :: "host_map \<Rightarrow> bool" where
  "map_ok m \<longleftrightarrow> acceptable (hm_source m) (hm_target m)"

lemma maps_layout_simps [simp]:
  "maps_layout [] = []" "maps_layout (m # ms) = map_layout m @ maps_layout ms"
  "maps_layout (ms @ ms') = maps_layout ms @ maps_layout ms'"
  by (simp_all add: maps_layout_def)

lemma length_map_layout [simp]:
  "length (map_layout m) = map_entry_header_len + length (hm_source m) + length (hm_target m)"
  by (simp add: map_layout_def map_entry_header_len_def)

lemma map_ok_lengths:
  "map_ok m \<Longrightarrow> length (hm_source m) \<le> max_map_path_bytes \<and> length (hm_target m) \<le> max_map_path_bytes"
  by (simp add: map_ok_def acceptable_def)

lemma u16_path: "n \<le> max_map_path_bytes \<Longrightarrow> unat (word_of_nat n :: u16) = n"
  by (simp add: max_map_path_bytes_def unat_of_nat)

lemma encode_map_entry_layout: "map_ok m \<Longrightarrow> encode_map_entry m = map_layout m"
  using map_ok_lengths [of m]
  by (simp add: encode_map_entry_def map_layout_def map_flags_def try_from_or_max_def max_map_path_bytes_def)

lemma map_flags_known:
  "f AND NOT map_read_only = 0 \<longleftrightarrow> f = (if f AND map_read_only \<noteq> 0 then map_read_only else 0)"
proof -
  have n: "bit (NOT map_read_only) n \<longleftrightarrow> n < 16 \<and> n \<noteq> 0" and m: "bit map_read_only n \<longleftrightarrow> n = 0" for n
    by (auto simp: map_read_only_def bit_simps)
  have f: "f AND map_read_only \<noteq> 0 \<longleftrightarrow> bit f 0"
    unfolding map_read_only_def bit_iff_and_push_bit_not_eq_0 ..
  have "f AND NOT map_read_only = 0 \<longleftrightarrow> (\<forall>n. n \<noteq> 0 \<longrightarrow> \<not> bit f n)"
    using bit_imp_le_length [of f] by (auto simp: bit_eq_iff bit_and_iff n)
  also have "\<dots> \<longleftrightarrow> f = (if bit f 0 then map_read_only else 0)"
  proof
    show "f = (if bit f 0 then map_read_only else 0)" if "\<forall>n. n \<noteq> 0 \<longrightarrow> \<not> bit f n"
    proof (rule bit_word_eqI)
      fix n
      have e: "bit (if bit f 0 then map_read_only else 0) n \<longleftrightarrow> bit f 0 \<and> n = 0" using m by simp
      show "bit f n = bit (if bit f 0 then map_read_only else 0) n"
        unfolding e using that by (cases "n = 0") blast+
    qed
    assume eq: "f = (if bit f 0 then map_read_only else 0)"
    show "\<forall>n. n \<noteq> 0 \<longrightarrow> \<not> bit f n"
      by (subst eq) (simp add: m)
  qed
  finally show ?thesis by (simp only: f)
qed

section \<open>The decoders\<close>

locale path_reader =
  fixes path :: "bytes \<Rightarrow> (protocol_error, bytes) result" and accepts :: "bytes \<Rightarrow> bool"
  assumes path: "path b = Inr c \<longleftrightarrow> accepts b \<and> c = b"
begin

lemma take_path_drop:
  assumes "length p \<le> usize_max" and "k \<le> length p"
  shows "take_path path p k n = Inr (b, j) \<longleftrightarrow>
    accepts b \<and> length b = unat n \<and> (\<exists>post. drop k p = b @ post) \<and> j = k + unat n \<and> j \<le> length p"
proof -
  have "take_path path p k n = Inr (b, j) \<longleftrightarrow>
      get_range p k (k + unat n) = Some b \<and> accepts b \<and> j = k + unat n \<and> k + unat n \<le> length p"
    using assms(1) by (auto simp: take_path_def checked_add_usize_def get_range_def path)
  then show ?thesis using get_range_drop [of "unat n" k p b] assms(2) by auto
qed

lemma entry_fields:
  assumes p: "length p \<le> usize_max"
  shows "u16_at p k = Some f \<and> u16_at p (saturating_add k 2) = Some s \<and> u16_at p (saturating_add k 4) = Some t \<longleftrightarrow>
    (\<exists>post. drop k p = to_le_bytes f @ to_le_bytes s @ to_le_bytes t @ post)"
proof (cases "k + 4 \<le> usize_max")
  case True
  then have "saturating_add k 2 = k + 2" "saturating_add k 4 = k + 4" by (simp_all add: saturating_add_def)
  then show ?thesis
    unfolding u16_at_drop [OF p]
    using drop_then [of "k + 4" "k + 2" "to_le_bytes s" p "to_le_bytes t"]
      drop_then [of "k + 2" k "to_le_bytes f" p "to_le_bytes s @ to_le_bytes t"] by auto
next
  case False
  with p have "length (drop k p) < 4" by simp
  moreover have "u16_at p (saturating_add k 4) = Some t \<longleftrightarrow> False"
    using False p unfolding u16_at_drop [OF p] saturating_add_def by (auto dest: arg_cong [of _ _ length])
  ultimately show ?thesis by (auto dest: arg_cong [of _ _ length])
qed

definition entry_ok :: "host_map \<Rightarrow> bool" where
  "entry_ok m \<longleftrightarrow> map_ok m \<and> accepts (hm_source m) \<and> accepts (hm_target m)"

lemma decode_map_entry_sound:
  assumes "decode_map_entry path p k = Inr (m, j)" and p: "length p \<le> usize_max"
  shows "entry_ok m \<and> (\<exists>post. drop k p = map_layout m @ post) \<and> j = k + length (map_layout m)"
proof -
  from assms(1) obtain f s t i where d: "u16_at p k = Some f" "u16_at p (saturating_add k 2) = Some s"
    "u16_at p (saturating_add k 4) = Some t"
    "take_path path p (k + 6) s = Inr (hm_source m, i)" "take_path path p i t = Inr (hm_target m, j)"
    "f AND NOT map_read_only = 0" "map_ok m" "hm_read_only m = (f AND map_read_only \<noteq> 0)"
    by (auto simp: decode_map_entry_def checked_add_usize_def map_entry_header_len_def map_ok_def
        split: option.splits if_splits)
  from d(1-3) entry_fields [OF p, of k f s t] obtain r0 where
    r0: "drop k p = to_le_bytes f @ to_le_bytes s @ to_le_bytes t @ r0" by blast
  have "length (drop k p) = 6 + length r0" using r0 by simp
  then have k: "k + 6 \<le> length p" by simp
  have d6: "drop (k + 6) p = r0"
    using drop_past [of k p "to_le_bytes f @ to_le_bytes s @ to_le_bytes t" r0 "k + 6"] r0 by simp
  from d(4) [unfolded take_path_drop [OF p k]] obtain r1 where s: "accepts (hm_source m)"
    "length (hm_source m) = unat s" "r0 = hm_source m @ r1" "i = k + 6 + unat s" "i \<le> length p"
    using d6 by auto
  have di: "drop i p = r1" using drop_past [of "k + 6" p "hm_source m" r1 i] d6 s by simp
  from d(5) [unfolded take_path_drop [OF p s(5)]] obtain r2 where t: "accepts (hm_target m)"
    "length (hm_target m) = unat t" "r1 = hm_target m @ r2" "j = i + unat t" using di by auto
  have "f = map_flags m" using d(6,8) map_flags_known [of f] by (simp add: map_flags_def)
  moreover have "word_of_nat (length (hm_source m)) = s" "word_of_nat (length (hm_target m)) = t"
    using s(2) t(2) by simp_all
  ultimately show ?thesis using d(7) s t r0 by (simp add: map_layout_def entry_ok_def)
qed

lemma decode_map_entry_complete:
  assumes a: "entry_ok m \<and> (\<exists>post. drop k p = map_layout m @ post) \<and> j = k + length (map_layout m)"
    and p: "length p \<le> usize_max"
  shows "decode_map_entry path p k = Inr (m, j)"
proof -
  let ?s = "word_of_nat (length (hm_source m)) :: u16" and ?t = "word_of_nat (length (hm_target m)) :: u16"
  from a obtain post where q: "drop k p = to_le_bytes (map_flags m) @ to_le_bytes ?s @ to_le_bytes ?t @
      hm_source m @ hm_target m @ post" by (auto simp: map_layout_def)
  have ok: "map_ok m" "accepts (hm_source m)" "accepts (hm_target m)" using a by (simp_all add: entry_ok_def)
  note u = u16_path [of "length (hm_source m)"] u16_path [of "length (hm_target m)"] map_ok_lengths [OF ok(1)]
  have "length (drop k p) = 6 + length (hm_source m) + length (hm_target m) + length post" using q by simp
  then have k: "k + 6 + length (hm_source m) + length (hm_target m) \<le> length p" by simp
  have d6: "drop (k + 6) p = hm_source m @ hm_target m @ post"
    using drop_past [of k p "to_le_bytes (map_flags m) @ to_le_bytes ?s @ to_le_bytes ?t" _ "k + 6"] q by simp
  have di: "drop (k + 6 + length (hm_source m)) p = hm_target m @ post" using drop_past [OF d6] by simp
  have f: "u16_at p k = Some (map_flags m)" "u16_at p (saturating_add k 2) = Some ?s"
    "u16_at p (saturating_add k 4) = Some ?t" using entry_fields [OF p, of k "map_flags m" ?s ?t] q by blast+
  have "take_path path p (k + 6) ?s = Inr (hm_source m, k + 6 + length (hm_source m))"
    using take_path_drop [OF p, of "k + 6" ?s] k d6 ok u by simp
  moreover have "take_path path p (k + 6 + length (hm_source m)) ?t =
      Inr (hm_target m, k + 6 + length (hm_source m) + length (hm_target m))"
    using take_path_drop [OF p, of "k + 6 + length (hm_source m)" ?t] k di ok u by simp
  moreover have "map_flags m AND NOT map_read_only = 0" "map_flags m AND map_read_only \<noteq> 0 \<longleftrightarrow> hm_read_only m"
    by (simp_all add: map_flags_def map_read_only_def)
  ultimately show ?thesis
    using a ok f k p by (simp add: decode_map_entry_def checked_add_usize_def map_entry_header_len_def map_ok_def)
qed

lemmas decode_map_entry_drop = decode_map_entry_sound decode_map_entry_complete

lemma decode_maps_loop_drop:
  assumes p: "length p \<le> usize_max"
  shows "decode_maps_loop path p n k = Inr (ms, j) \<longleftrightarrow>
    length ms = n \<and> (\<forall>m \<in> set ms. entry_ok m) \<and>
    (\<exists>post. drop k p = maps_layout ms @ post) \<and> j = k + length (maps_layout ms)"
proof (induction n arbitrary: k ms)
  case (Suc n)
  show ?case
  proof (cases ms)
    case (Cons m ms')
    have "decode_maps_loop path p (Suc n) k = Inr (ms, j) \<longleftrightarrow>
        (\<exists>i. decode_map_entry path p k = Inr (m, i) \<and> decode_maps_loop path p n i = Inr (ms', j))"
      unfolding Cons by (force split: prod.splits)
    also have "\<dots> \<longleftrightarrow> entry_ok m \<and> (\<exists>post. drop k p = map_layout m @ post) \<and>
        length ms' = n \<and> (\<forall>m \<in> set ms'. entry_ok m) \<and>
        (\<exists>post. drop (k + length (map_layout m)) p = maps_layout ms' @ post) \<and>
        j = k + length (map_layout m) + length (maps_layout ms')"
      using decode_map_entry_drop [OF _ p] unfolding Suc.IH by blast
    finally show ?thesis
      using drop_then [OF refl, of k p "map_layout m" "maps_layout ms'"] by (auto simp: Cons)
  qed auto
qed auto

lemma decode_maps_entries_exact:
  assumes p: "length p \<le> usize_max" and k: "8 \<le> length p"
  shows "decode_maps_entries path p count = Inr ms \<longleftrightarrow>
    length ms = unat count \<and> (\<forall>m \<in> set ms. entry_ok m) \<and> drop 8 p = maps_layout ms"
proof -
  have "decode_maps_entries path p count = Inr ms \<longleftrightarrow>
      decode_maps_loop path p (unat count) 8 = Inr (ms, length p)"
    by (auto simp: decode_maps_entries_def maps_header_len_def)
  also have "\<dots> \<longleftrightarrow> length ms = unat count \<and> (\<forall>m \<in> set ms. entry_ok m) \<and>
      (\<exists>post. drop 8 p = maps_layout ms @ post) \<and> length p = 8 + length (maps_layout ms)"
    by (rule decode_maps_loop_drop [OF p])
  also have "(\<exists>post. drop 8 p = maps_layout ms @ post) \<and> length p = 8 + length (maps_layout ms) \<longleftrightarrow>
      drop 8 p = maps_layout ms"
  proof -
    have "length p - 8 = length (maps_layout ms) + length post" if "drop 8 p = maps_layout ms @ post" for post
      using that by (metis length_append length_drop)
    moreover have "length p - 8 = length (maps_layout ms)" if "drop 8 p = maps_layout ms"
      using that by (metis length_drop)
    ultimately show ?thesis using k by fastforce
  qed
  finally show ?thesis .
qed

text \<open>The fields before the entries.\<close>

lemma maps_head:
  assumes p: "length p \<le> usize_max"
  shows "u32_at p 0 = Some f \<and> u32_at p 4 = Some c \<and> decode_maps_entries path p c = Inr ms \<longleftrightarrow>
    (\<forall>m \<in> set ms. entry_ok m) \<and> length ms < 2 ^ 32 \<and> c = word_of_nat (length ms) \<and>
    p = payload_layout (unat f) ms"
proof -
  have h: "u32_at p 0 = Some f \<and> u32_at p 4 = Some c \<longleftrightarrow> (\<exists>post. p = to_le_bytes f @ to_le_bytes c @ post)"
    unfolding u32_at_drop [OF p] using drop_then [of 4 0 "to_le_bytes f" p "to_le_bytes c"] by auto
  have "decode_maps_entries path p c = Inr ms \<longleftrightarrow>
      length ms = unat c \<and> (\<forall>m \<in> set ms. entry_ok m) \<and> post = maps_layout ms"
    if "p = to_le_bytes f @ to_le_bytes c @ post" for post
    using decode_maps_entries_exact [OF p, of c ms] that by simp
  moreover have "length ms = unat c \<longleftrightarrow> length ms < 2 ^ 32 \<and> c = word_of_nat (length ms)"
    using unat_bound [of c] by (auto simp: unat_of_nat)
  ultimately show ?thesis unfolding conj_assoc [symmetric] h by (auto simp: payload_layout_def)
qed

end

interpretation host_paths: path_reader utf8_path utf8_valid
  by unfold_locales (auto simp: utf8_path_def)

interpretation guest_paths: path_reader Inr "\<lambda>_. True"
  by unfold_locales auto

lemma guest_entry_ok [simp]: "guest_paths.entry_ok m = map_ok m"
  by (simp add: guest_paths.entry_ok_def)

text \<open>
  C38. The guest's decoder of mappings accepts exactly the payloads of the format, with at most the
  greatest number of entries and paths that keep the rules: sources that are empty or relative and
  targets that are absolute, without NUL bytes and without components that are empty, a dot or two dots; and it
  returns the entries of the layout.
\<close>

theorem maps_decoder_exact:
  assumes "length p \<le> usize_max"
  shows "decode_guest_maps_payload p = Inr x \<longleftrightarrow>
    p = payload_layout (unat (mp_first x)) (mp_maps x) \<and> length (mp_maps x) \<le> max_host_mappings \<and>
    (\<forall>m \<in> set (mp_maps x). acceptable (hm_source m) (hm_target m))"
proof -
  have "decode_guest_maps_payload p = Inr x \<longleftrightarrow>
      (\<exists>c. (u32_at p 0 = Some (mp_first x) \<and> u32_at p 4 = Some c \<and>
        decode_maps_entries Inr p c = Inr (mp_maps x)) \<and> unat c \<le> max_host_mappings)"
    by (cases x) (auto simp: decode_guest_maps_payload_def not_less split: if_splits)
  also have "\<dots> \<longleftrightarrow> (\<forall>m \<in> set (mp_maps x). map_ok m) \<and> length (mp_maps x) \<le> max_host_mappings \<and>
      p = payload_layout (unat (mp_first x)) (mp_maps x)"
    unfolding guest_paths.maps_head [OF assms] by (auto simp: max_host_mappings_def unat_of_nat)
  finally show ?thesis by (auto simp: map_ok_def)
qed

theorem maps_decoder_exact_witness:
  "\<exists>x. decode_guest_maps_payload (payload_layout 3 [\<lparr>hm_source = ascii ''a/b'', hm_target = ascii ''/mnt'',
     hm_read_only = True\<rparr>]) = Inr x \<and> mp_first x = 3"
proof -
  let ?m = "\<lparr>hm_source = ascii ''a/b'', hm_target = ascii ''/mnt'', hm_read_only = True\<rparr>"
  let ?x = "\<lparr>mp_first = 3, mp_maps = [?m]\<rparr>"
  have a: "acceptable (hm_source ?m) (hm_target ?m)" by code_simp
  have "length (payload_layout 3 [?m]) = 21" by code_simp
  then have len: "length (payload_layout 3 [?m]) \<le> usize_max" by (simp add: usize_max_def)
  have "decode_guest_maps_payload (payload_layout 3 [?m]) = Inr ?x"
    unfolding maps_decoder_exact [OF len] using a by (simp add: max_host_mappings_def)
  then show ?thesis by (intro exI [of _ ?x]) simp
qed

section \<open>The encoder\<close>

text \<open>The payloads of a table that is cut into chunks, the first of which starts at an index.\<close>

fun chunk_layouts :: "nat \<Rightarrow> host_map list list \<Rightarrow> bytes list" where
  "chunk_layouts first [] = []"
| "chunk_layouts first (ms # chunks) = payload_layout first ms # chunk_layouts (first + length ms) chunks"

text \<open>A payload in progress, whose count is still zero.\<close>

definition open_layout :: "nat \<Rightarrow> host_map list \<Rightarrow> bytes" where
  "open_layout first ms =
     (if ms = [] then []
      else to_le_bytes (word_of_nat first :: u32) @ to_le_bytes (0 :: u32) @ maps_layout ms)"

lemma put_count_open:
  "ms \<noteq> [] \<Longrightarrow> put_count (open_layout first ms) (word_of_nat (length ms)) = payload_layout first ms"
  by (simp add: put_count_def open_layout_def payload_layout_def)

lemma length_open_layout: "length (open_layout first ms) = (if ms = [] then 0 else 8 + length (maps_layout ms))"
  by (simp add: open_layout_def)

lemma length_payload_layout: "length (payload_layout first ms) = 8 + length (maps_layout ms)"
  by (simp add: payload_layout_def)

lemma count_zero: "n < 2 ^ 32 \<Longrightarrow> (word_of_nat n :: u32) = 0 \<longleftrightarrow> n = 0"
  by (auto simp: word_of_nat_eq_0_iff dest: dvd_imp_le)

text \<open>One turn of the encoder's loop, on a payload in progress.\<close>

lemma encode_maps_step:
  assumes ok: "map_ok m" and fits: "8 + length (map_layout m) \<le> limit"
    and n: "first + length cur + length (m # maps) \<le> max_host_mappings"
  shows "encode_maps_loop limit (m # maps) (first + length cur) payloads (open_layout first cur)
      (word_of_nat (length cur)) =
    (if cur \<noteq> [] \<and> length (open_layout first cur) + length (map_layout m) > limit
     then encode_maps_loop limit maps (Suc (first + length cur)) (payloads @ [payload_layout first cur])
            (open_layout (first + length cur) [m]) 1
     else encode_maps_loop limit maps (Suc (first + length cur)) payloads (open_layout first (cur @ [m]))
            (1 + word_of_nat (length cur)))"
proof -
  let ?c = "word_of_nat (length cur) :: u32" and ?k = "first + length cur"
  have small: "first + length cur < 2 ^ 32" using n by (simp add: max_host_mappings_def)
  have c: "?c = 0 \<longleftrightarrow> cur = []" "0 < ?c \<longleftrightarrow> cur \<noteq> []"
    using count_zero [of "length cur"] small by (simp_all add: word_gt_0)
  have k: "try_from_or_max ?k = (word_of_nat ?k :: u32)" "try_from_or_max first = (word_of_nat first :: u32)"
    using small by (simp_all add: try_from_or_max_def)
  have e: "encode_map_entry m = map_layout m" by (rule encode_map_entry_layout [OF ok])
  have "cur = [] \<Longrightarrow> to_le_bytes (word_of_nat ?k :: u32) @ to_le_bytes (0 :: u32) @ map_layout m =
      open_layout first (cur @ [m])" by (simp add: open_layout_def)
  moreover have "cur \<noteq> [] \<Longrightarrow> open_layout first cur @ map_layout m = open_layout first (cur @ [m])"
    by (simp add: open_layout_def)
  moreover have "cur \<noteq> [] \<Longrightarrow> put_count (open_layout first cur) ?c = payload_layout first cur"
    by (rule put_count_open)
  moreover have "open_layout ?k [m] = to_le_bytes (word_of_nat ?k :: u32) @ to_le_bytes (0 :: u32) @ map_layout m"
    by (simp add: open_layout_def)
  moreover have "cur = [] \<Longrightarrow> open_layout first cur = []" by (simp add: open_layout_def)
  ultimately show ?thesis
    using ok fits by (auto simp: Let_def c k e map_ok_def maps_header_len_def add.commute add.left_commute)
qed

lemma encode_maps_loop_chunks:
  assumes "encode_maps_loop limit maps (first + length cur) payloads (open_layout first cur)
      (word_of_nat (length cur)) = Inr ps"
    and "first + length cur + length maps \<le> max_host_mappings" and "cur @ maps \<noteq> []"
    and "length (open_layout first cur) \<le> limit" and "\<forall>m \<in> set cur. map_ok m"
  shows "\<exists>chunks. concat chunks = cur @ maps \<and> [] \<notin> set chunks \<and> ps = payloads @ chunk_layouts first chunks \<and>
    (\<forall>p \<in> set (chunk_layouts first chunks). length p \<le> limit) \<and> (\<forall>m \<in> set (cur @ maps). map_ok m)"
  using assms
proof (induction maps arbitrary: first cur payloads)
  case Nil
  then have "ps = payloads @ chunk_layouts first [cur]" by (simp add: put_count_open)
  with Nil(3-5) show ?case
    by (intro exI [of _ "[cur]"]) (simp add: length_open_layout length_payload_layout)
next
  case (Cons m maps)
  let ?k = "first + length cur" and ?n = "length (map_layout m)"
  have ok: "map_ok m" and fits: "8 + ?n \<le> limit"
    using Cons.prems(1) by (auto simp: Let_def map_ok_def maps_header_len_def split: if_splits)
  note loop = Cons.prems(1) [unfolded encode_maps_step [OF ok fits Cons.prems(2)]]
  show ?case
  proof (cases "cur \<noteq> [] \<and> length (open_layout first cur) + ?n > limit")
    case True
    with loop have "encode_maps_loop limit maps (?k + length [m]) (payloads @ [payload_layout first cur])
        (open_layout ?k [m]) (word_of_nat (length [m])) = Inr ps" by simp
    from Cons.IH [OF this] Cons.prems(2) fits ok obtain chunks where "concat chunks = [m] @ maps"
      "[] \<notin> set chunks" "ps = (payloads @ [payload_layout first cur]) @ chunk_layouts ?k chunks"
      "\<forall>p \<in> set (chunk_layouts ?k chunks). length p \<le> limit" "\<forall>m \<in> set ([m] @ maps). map_ok m"
      by (auto simp: length_open_layout)
    with True Cons.prems(4,5) show ?thesis
      by (intro exI [of _ "cur # chunks"]) (auto simp: length_open_layout length_payload_layout)
  next
    case False
    with loop have "encode_maps_loop limit maps (first + length (cur @ [m])) payloads
        (open_layout first (cur @ [m])) (word_of_nat (length (cur @ [m]))) = Inr ps"
      by (auto split: if_splits)
    from Cons.IH [OF this] Cons.prems(2,5) fits ok False show ?thesis
      by (auto simp: length_open_layout split: if_splits)
  qed
qed

text \<open>The host's strings are text.\<close>

definition map_utf8 :: "host_map \<Rightarrow> bool" where
  "map_utf8 m \<longleftrightarrow> utf8_valid (hm_source m) \<and> utf8_valid (hm_target m)"

lemma decode_layout:
  assumes "\<forall>m \<in> set ms. map_ok m" and "first + length ms \<le> max_host_mappings"
    and len: "length (payload_layout first ms) \<le> usize_max"
  shows "decode_guest_maps_payload (payload_layout first ms) = Inr \<lparr>mp_first = word_of_nat first, mp_maps = ms\<rparr>"
    and "\<forall>m \<in> set ms. map_utf8 m \<Longrightarrow>
      decode_maps_payload (payload_layout first ms) = Inr \<lparr>mp_first = word_of_nat first, mp_maps = ms\<rparr>"
proof -
  have f: "unat (word_of_nat first :: u32) = first" and n: "length ms < 2 ^ 32" "length ms \<le> max_host_mappings"
    using assms(2) by (simp_all add: max_host_mappings_def unat_of_nat)
  let ?p = "payload_layout first ms" and ?n = "word_of_nat (length ms) :: u32"
  have "u32_at ?p 0 = Some (word_of_nat first) \<and> u32_at ?p 4 = Some ?n \<and> decode_maps_entries Inr ?p ?n = Inr ms"
    using assms(1) n(1) by (subst guest_paths.maps_head [OF len]) (simp add: f)
  moreover have "unat ?n \<le> max_host_mappings" using n by (simp add: unat_of_nat)
  ultimately show "decode_guest_maps_payload ?p = Inr \<lparr>mp_first = word_of_nat first, mp_maps = ms\<rparr>"
    by (simp add: decode_guest_maps_payload_def)
  assume "\<forall>m \<in> set ms. map_utf8 m"
  then have "u32_at ?p 0 = Some (word_of_nat first) \<and> u32_at ?p 4 = Some ?n \<and>
      decode_maps_entries utf8_path ?p ?n = Inr ms"
    using assms(1) n(1) by (subst host_paths.maps_head [OF len]) (simp add: f host_paths.entry_ok_def map_utf8_def)
  then show "decode_maps_payload ?p = Inr \<lparr>mp_first = word_of_nat first, mp_maps = ms\<rparr>"
    by (simp add: decode_maps_payload_def)
qed

fun chunk_payloads :: "nat \<Rightarrow> host_map list list \<Rightarrow> maps_payload list" where
  "chunk_payloads first [] = []"
| "chunk_payloads first (ms # chunks) =
     \<lparr>mp_first = word_of_nat first, mp_maps = ms\<rparr> # chunk_payloads (first + length ms) chunks"

lemma decode_chunks:
  assumes "\<forall>m \<in> set (concat chunks). map_ok m" and "first + length (concat chunks) \<le> max_host_mappings"
    and "\<forall>p \<in> set (chunk_layouts first chunks). length p \<le> usize_max"
  shows "map decode_guest_maps_payload (chunk_layouts first chunks) = map Inr (chunk_payloads first chunks)"
    and "\<forall>m \<in> set (concat chunks). map_utf8 m \<Longrightarrow>
      map decode_maps_payload (chunk_layouts first chunks) = map Inr (chunk_payloads first chunks)"
  using assms by (induction chunks arbitrary: first) (auto simp: decode_layout add.assoc)

lemma chunk_payloads_maps: "map mp_maps (chunk_payloads first chunks) = chunks"
  by (induction chunks arbitrary: first) simp_all

lemma chunk_payloads_first:
  assumes "k < length chunks"
  shows "mp_first (chunk_payloads first chunks ! k) = word_of_nat (first + length (concat (take k chunks)))"
  using assms
proof (induction chunks arbitrary: first k)
  case (Cons ms chunks)
  then show ?case by (cases k) (simp_all add: add.assoc)
qed simp

text \<open>
  C37. The payloads that the host makes of its table of mappings carry the table whole and in order:
  the guest decodes each of them, each tells the index at which its entries continue the table, the
  entries make up the table, and none is longer than the limit. The decoder of text returns the same.
\<close>

theorem maps_table_arrives:
  assumes "encode_maps_payloads maps limit = Inr ps" and "limit \<le> usize_max"
  shows "\<exists>xs. map decode_guest_maps_payload ps = map Inr xs \<and> concat (map mp_maps xs) = maps \<and>
    (\<forall>k < length xs. unat (mp_first (xs ! k)) = length (concat (map mp_maps (take k xs)))) \<and>
    (\<forall>p \<in> set ps. length p \<le> limit) \<and>
    ((\<forall>m \<in> set maps. map_utf8 m) \<longrightarrow> map decode_maps_payload ps = map Inr xs)"
proof -
  from assms(1) have n: "maps \<noteq> []" "length maps \<le> max_host_mappings" "encode_maps_loop limit maps 0 [] [] 0 = Inr ps"
    by (auto simp: encode_maps_payloads_def split: if_splits)
  then obtain chunks where c: "concat chunks = maps" "ps = chunk_layouts 0 chunks"
    "\<forall>p \<in> set (chunk_layouts 0 chunks). length p \<le> limit" "\<forall>m \<in> set maps. map_ok m"
    using encode_maps_loop_chunks [of limit maps 0 "[]" "[]" ps] by (auto simp: open_layout_def)
  let ?xs = "chunk_payloads 0 chunks"
  have u: "\<forall>p \<in> set (chunk_layouts 0 chunks). length p \<le> usize_max" using c(3) assms(2) by auto
  note d = decode_chunks [of chunks 0, OF _ _ u]
  have "unat (mp_first (?xs ! k)) = length (concat (map mp_maps (take k ?xs)))" if "k < length ?xs" for k
  proof -
    have k: "k < length chunks" using that arg_cong [OF chunk_payloads_maps, of length 0 chunks] by simp
    have "length (concat (take k chunks)) \<le> length (concat chunks)"
      by (metis append_take_drop_id concat_append le_add1 length_append)
    then have "length (concat (take k chunks)) < 2 ^ 32" using c(1) n(2) by (simp add: max_host_mappings_def)
    then show ?thesis
      using chunk_payloads_first [OF k, of 0] by (simp add: take_map [symmetric] chunk_payloads_maps unat_of_nat)
  qed
  then show ?thesis
    using c d n(2) by (intro exI [of _ ?xs]) (simp add: chunk_payloads_maps)
qed

definition demo_maps :: "host_map list" where
  "demo_maps = [\<lparr>hm_source = [], hm_target = ascii ''/mnt'', hm_read_only = True\<rparr>,
     \<lparr>hm_source = ascii ''a/b'', hm_target = ascii ''/srv/b'', hm_read_only = False\<rparr>]"

theorem maps_table_arrives_witness:
  "\<exists>ps xs. encode_maps_payloads demo_maps 24 = Inr ps \<and> length ps = 2 \<and>
     map decode_guest_maps_payload ps = map Inr xs \<and> concat (map mp_maps xs) = demo_maps"
proof -
  let ?ps = "projr (encode_maps_payloads demo_maps 24)"
  have p: "encode_maps_payloads demo_maps 24 = Inr ?ps" "length ?ps = 2" by code_simp+
  have "(24 :: nat) \<le> usize_max" by (simp add: usize_max_def)
  from maps_table_arrives [OF p(1) this] p show ?thesis by blast
qed

end
