(* ===== verification/Net_Cidr.thy ===== *)
theory Net_Cidr
  imports Nvx_Prelude
begin

text \<open>
  IP networks (\<^verbatim>\<open>net/cidr.rs\<close>), as egress rules use them: containment, overlap, and the networks
  that cover a network except others. An address is the number of its bits, and its order is the
  derived one: IPv4 before IPv6, then by the number. An operation that would overflow, which
  panics, is the value \<^term>\<open>None\<close>; that none does is part of the theorems.
\<close>

unbundle bit_operations_syntax

type_synonym u128 = "128 word"

section \<open>Addresses and networks\<close>

datatype ip_addr = V4 u32 | V6 u128

datatype cidr = Cidr (cidr_address: ip_addr) (cidr_prefix: u8)

fun addr_key :: "ip_addr \<Rightarrow> nat \<times> nat" where
  "addr_key (V4 a) = (0, unat a)"
| "addr_key (V6 a) = (1, unat a)"

lemma addr_key_inj: "addr_key a = addr_key b \<longleftrightarrow> a = b"
  by (cases a; cases b) (auto intro: unsigned_word_eqI)

instantiation ip_addr :: linorder
begin

definition less_eq_ip_addr :: "ip_addr \<Rightarrow> ip_addr \<Rightarrow> bool" where
  "a \<le> b \<longleftrightarrow> fst (addr_key a) < fst (addr_key b) \<or>
     fst (addr_key a) = fst (addr_key b) \<and> snd (addr_key a) \<le> snd (addr_key b)"

definition less_ip_addr :: "ip_addr \<Rightarrow> ip_addr \<Rightarrow> bool" where
  "a < b \<longleftrightarrow> fst (addr_key a) < fst (addr_key b) \<or>
     fst (addr_key a) = fst (addr_key b) \<and> snd (addr_key a) < snd (addr_key b)"

instance
proof
  fix a b c :: ip_addr
  show "a < b \<longleftrightarrow> a \<le> b \<and> \<not> b \<le> a" by (auto simp: less_eq_ip_addr_def less_ip_addr_def)
  show "a \<le> a" by (simp add: less_eq_ip_addr_def)
  show "a \<le> b \<Longrightarrow> b \<le> c \<Longrightarrow> a \<le> c" by (auto simp: less_eq_ip_addr_def)
  show "a \<le> b \<Longrightarrow> b \<le> a \<Longrightarrow> a = b"
    using addr_key_inj [of a b] by (auto simp: less_eq_ip_addr_def prod_eq_iff)
  show "a \<le> b \<or> b \<le> a" by (auto simp: less_eq_ip_addr_def)
qed

end

instantiation cidr :: linorder
begin

definition less_eq_cidr :: "cidr \<Rightarrow> cidr \<Rightarrow> bool" where
  "c \<le> d \<longleftrightarrow> cidr_address c < cidr_address d \<or>
     cidr_address c = cidr_address d \<and> cidr_prefix c \<le> cidr_prefix d"

definition less_cidr :: "cidr \<Rightarrow> cidr \<Rightarrow> bool" where
  "c < d \<longleftrightarrow> cidr_address c < cidr_address d \<or>
     cidr_address c = cidr_address d \<and> cidr_prefix c < cidr_prefix d"

instance
proof
  fix a b c :: cidr
  show "a < b \<longleftrightarrow> a \<le> b \<and> \<not> b \<le> a" by (auto simp: less_eq_cidr_def less_cidr_def)
  show "a \<le> a" by (simp add: less_eq_cidr_def)
  show "a \<le> b \<Longrightarrow> b \<le> c \<Longrightarrow> a \<le> c" by (auto simp: less_eq_cidr_def)
  show "a \<le> b \<Longrightarrow> b \<le> a \<Longrightarrow> a = b" by (auto simp: less_eq_cidr_def cidr.expand)
  show "a \<le> b \<or> b \<le> a" by (auto simp: less_eq_cidr_def)
qed

end

section \<open>Operations\<close>

definition is_ipv6 :: "cidr \<Rightarrow> bool" where
  "is_ipv6 c = (case cidr_address c of V4 _ \<Rightarrow> False | V6 _ \<Rightarrow> True)"

definition cidr_width :: "cidr \<Rightarrow> u8" where
  "cidr_width c = (if is_ipv6 c then 128 else 32)"

definition cidr_bits :: "cidr \<Rightarrow> u128" where
  "cidr_bits c = (case cidr_address c of V4 a \<Rightarrow> ucast a | V6 a \<Rightarrow> a)"

definition cidr_mask :: "u128 \<Rightarrow> u8 \<Rightarrow> u8 \<Rightarrow> u128" where
  "cidr_mask address prefix width =
     (if prefix = 0 then 0 else address AND NOT (push_bit (unat (width - prefix)) 1 - 1))"

definition with_bits :: "cidr \<Rightarrow> u128 \<Rightarrow> u8 \<Rightarrow> cidr" where
  "with_bits c bits prefix =
     Cidr (case cidr_address c of V4 _ \<Rightarrow> V4 (ucast bits) | V6 _ \<Rightarrow> V6 bits) prefix"

definition cidr_network :: "cidr \<Rightarrow> ip_addr" where
  "cidr_network c = cidr_address
     (with_bits c (cidr_mask (cidr_bits c) (cidr_prefix c) (cidr_width c)) (cidr_prefix c))"

definition everything :: "bool \<Rightarrow> cidr" where
  "everything ipv6 = Cidr (if ipv6 then V6 0 else V4 0) 0"

definition cidr_contains :: "cidr \<Rightarrow> cidr \<Rightarrow> bool" where
  "cidr_contains c other \<longleftrightarrow>
     is_ipv6 c = is_ipv6 other \<and> cidr_prefix c \<le> cidr_prefix other \<and>
     cidr_mask (cidr_bits other) (cidr_prefix c) (cidr_width c) = cidr_bits c"

definition cidr_overlaps :: "cidr \<Rightarrow> cidr \<Rightarrow> bool" where
  "cidr_overlaps c other \<longleftrightarrow> cidr_contains c other \<or> cidr_contains other c"

text \<open>The halves of a network, unless it is a single address.\<close>

definition halves :: "cidr \<Rightarrow> (cidr \<times> cidr) option" where
  "halves c =
     (if cidr_prefix c < cidr_width c
      then (let prefix = cidr_prefix c + 1
            in Some (with_bits c (cidr_bits c) prefix,
                     with_bits c (cidr_bits c OR push_bit (unat (cidr_width c - prefix)) 1) prefix))
      else None)"

lemma halves_prefix:
  assumes "halves c = Some (low, high)"
  shows "unat (cidr_prefix low) = Suc (unat (cidr_prefix c))" "unat (cidr_prefix high) = Suc (unat (cidr_prefix c))"
    "is_ipv6 low = is_ipv6 c" "is_ipv6 high = is_ipv6 c" "cidr_prefix c < cidr_width c"
proof -
  have lt: "cidr_prefix c < cidr_width c" and p: "cidr_prefix low = cidr_prefix c + 1"
    "cidr_prefix high = cidr_prefix c + 1" and f: "is_ipv6 low = is_ipv6 c" "is_ipv6 high = is_ipv6 c"
    using assms by (auto simp: halves_def with_bits_def is_ipv6_def Let_def split: if_splits ip_addr.splits)
  have "unat (cidr_prefix c) + 1 < 2 ^ 8"
    using lt unat_bound [of "cidr_width c"] by (simp add: word_less_nat_alt)
  then show "unat (cidr_prefix low) = Suc (unat (cidr_prefix c))" "unat (cidr_prefix high) = Suc (unat (cidr_prefix c))"
    using unat_add_no_wrap [of "cidr_prefix c" 1] p by simp_all
  show "is_ipv6 low = is_ipv6 c" "is_ipv6 high = is_ipv6 c" "cidr_prefix c < cidr_width c" by fact+
qed

text \<open>
  \<^verbatim>\<open>partition_point\<close> of a sorted list: the number of elements before the first that fails the test.
\<close>

definition partition_point :: "('a \<Rightarrow> bool) \<Rightarrow> 'a list \<Rightarrow> usize" where
  "partition_point p xs = length (takeWhile p xs)"

function subtract_sorted :: "cidr \<Rightarrow> cidr list \<Rightarrow> usize \<Rightarrow> cidr list \<Rightarrow> (bool \<times> cidr list) option" where
  "subtract_sorted c excluded limit remainder =
     (if excluded = [] then Some (length (remainder @ [c]) \<le> limit, remainder @ [c])
      else if list_ex (\<lambda>e. cidr_contains e c) excluded then Some (True, remainder)
      else
        (case halves c of
           None \<Rightarrow> None
         | Some (low, high) \<Rightarrow>
             (let split = partition_point (\<lambda>e. cidr_address e < cidr_address high) excluded
              in case subtract_sorted low (take split excluded) limit remainder of
                   None \<Rightarrow> None
                 | Some (False, remainder) \<Rightarrow> Some (False, remainder)
                 | Some (True, remainder) \<Rightarrow> subtract_sorted high (drop split excluded) limit remainder)))"
  by pat_completeness auto
termination
proof (relation "measure (\<lambda>(c, _). unat (cidr_width c) - unat (cidr_prefix c))", goal_cases)
  case (2 c excluded limit remainder p low high split)
  then show ?case using halves_prefix [of c low high] by (simp add: cidr_width_def word_less_nat_alt)
next
  case (3 c excluded limit remainder p low high split q b r)
  then show ?case using halves_prefix [of c low high] by (simp add: cidr_width_def word_less_nat_alt)
qed simp

declare subtract_sorted.simps [simp del]

definition cidr_subtract :: "cidr \<Rightarrow> cidr list \<Rightarrow> usize \<Rightarrow> cidr list option option" where
  "cidr_subtract c excluded limit =
     (case subtract_sorted c (sort (filter (\<lambda>e. cidr_overlaps e c) excluded)) limit [] of
        None \<Rightarrow> None
      | Some (ok, remainder) \<Rightarrow> Some (if ok then Some remainder else None))"

end
