(* ===== verification/Net_Cidr_Cover.thy ===== *)
theory Net_Cidr_Cover
  imports Net_Cidr
begin

text \<open>
  What the operations of \<^verbatim>\<open>net/cidr.rs\<close> mean for the addresses of a network: containment is
  inclusion, overlap is a common address, and subtraction returns the networks that cover exactly
  the addresses that remain, disjoint and as few as possible, or nothing when they are too many.
\<close>

section \<open>The addresses of a network\<close>

definition net_width :: "cidr \<Rightarrow> nat" where
  "net_width c = (if is_ipv6 c then 128 else 32)"

definition net_base :: "cidr \<Rightarrow> nat" where
  "net_base c = unat (cidr_bits c)"

definition net_size :: "cidr \<Rightarrow> nat" where
  "net_size c = 2 ^ (net_width c - unat (cidr_prefix c))"

definition cidr_wf :: "cidr \<Rightarrow> bool" where
  "cidr_wf c \<longleftrightarrow> unat (cidr_prefix c) \<le> net_width c \<and> net_size c dvd net_base c"

definition members :: "cidr \<Rightarrow> (bool \<times> nat) set" where
  "members c = {is_ipv6 c} \<times> {net_base c ..< net_base c + net_size c}"

lemma unat_width: "unat (cidr_width c) = net_width c"
  by (simp add: cidr_width_def net_width_def)

lemma net_size_pos [simp]: "0 < net_size c"
  by (simp add: net_size_def)

lemma base_in_members: "(is_ipv6 c, net_base c) \<in> members c"
  by (simp add: members_def)

lemma unat_ucast_u128 [simp]: "unat (ucast (a :: u32) :: u128) = unat a"
  using unat_bound [of a] by (simp add: unsigned_ucast_eq take_bit_nat_eq_self)

lemma net_base_bound: "net_base c < 2 ^ net_width c"
proof (cases "cidr_address c")
  case (V4 a)
  then show ?thesis using unat_bound [of a] by (simp add: net_base_def net_width_def cidr_bits_def is_ipv6_def)
next
  case (V6 a)
  then show ?thesis using unat_bound [of a] by (simp add: net_base_def net_width_def cidr_bits_def is_ipv6_def)
qed

lemma cidr_key: "addr_key (cidr_address c) = (if is_ipv6 c then 1 else 0, net_base c)"
  by (cases "cidr_address c") (simp_all add: is_ipv6_def net_base_def cidr_bits_def)

lemma and_not_mask: "unat (a AND NOT (mask n)) = 2 ^ n * (unat a div 2 ^ n)" for a :: "'a::len word"
proof -
  have "a AND NOT (mask n) = push_bit n (drop_bit n a)"
    by (rule bit_word_eqI) (auto simp: bit_simps)
  moreover have "2 ^ n * (unat a div 2 ^ n) < 2 ^ LENGTH('a)"
    using unat_bound [of a] by (meson le_less_trans times_div_less_eq_dividend)
  ultimately show ?thesis
    unfolding \<open>a AND NOT (mask n) = push_bit n (drop_bit n a)\<close> unsigned_push_bit_eq unsigned_drop_bit_eq
    by (simp only: push_bit_eq_mult drop_bit_eq_div take_bit_nat_eq_self unat_bound mult.commute)
qed

lemma unat_mask:
  assumes "unat p \<le> unat w" and "unat a < 2 ^ unat w"
  shows "unat (cidr_mask a p w) = 2 ^ (unat w - unat p) * (unat a div 2 ^ (unat w - unat p))"
proof (cases "p = 0")
  case False
  have "push_bit (unat (w - p)) 1 - 1 = (mask (unat w - unat p) :: u128)"
    using assms(1) by (simp add: unat_sub_no_wrap mask_eq_exp_minus_1)
  with False show ?thesis by (simp add: cidr_mask_def and_not_mask)
qed (use assms in \<open>simp add: cidr_mask_def\<close>)

section \<open>Containment and overlap\<close>

lemma aligned_less: "a + m \<le> b" if "m dvd a" "m dvd b" "a < b" for a b m :: nat
proof -
  from that obtain k l where "a = m * k" "b = m * l" by (auto elim!: dvdE)
  with that(3) have "k + 1 \<le> l" by simp
  then have "m * (k + 1) \<le> m * l" by (rule mult_le_mono2)
  with \<open>a = m * k\<close> \<open>b = m * l\<close> show ?thesis by simp
qed

lemma div_block: "m * (a div m) = b \<longleftrightarrow> b \<le> a \<and> a < b + m" if "m dvd b" "0 < m" for a b m :: nat
proof
  assume "m * (a div m) = b"
  then have "a = b + a mod m" by (metis mult_div_mod_eq)
  with mod_less_divisor [OF that(2), of a] show "b \<le> a \<and> a < b + m" by linarith
next
  assume h: "b \<le> a \<and> a < b + m"
  from that(1) obtain k where "b = m * k" by (auto elim: dvdE)
  with h have "a div m = k" by (intro div_nat_eqI) (simp_all add: mult.commute)
  with \<open>b = m * k\<close> show "m * (a div m) = b" by simp
qed

lemma contains_block:
  assumes "cidr_wf c" and "cidr_wf d"
  shows "cidr_contains c d \<longleftrightarrow> is_ipv6 c = is_ipv6 d \<and> unat (cidr_prefix c) \<le> unat (cidr_prefix d) \<and>
    net_base c \<le> net_base d \<and> net_base d < net_base c + net_size c"
proof -
  have "cidr_mask (cidr_bits d) (cidr_prefix c) (cidr_width c) = cidr_bits c \<longleftrightarrow>
      net_base c \<le> net_base d \<and> net_base d < net_base c + net_size c" if f: "is_ipv6 c = is_ipv6 d"
  proof -
    have "unat (cidr_mask (cidr_bits d) (cidr_prefix c) (cidr_width c)) =
        net_size c * (net_base d div net_size c)"
      using unat_mask [of "cidr_prefix c" "cidr_width c" "cidr_bits d"] assms(1) f net_base_bound [of d]
      by (simp add: unat_width net_size_def net_base_def cidr_wf_def net_width_def)
    moreover have "net_size c dvd net_base c" using assms(1) by (simp add: cidr_wf_def)
    ultimately show ?thesis
      unfolding word_unat_eq_iff net_base_def [symmetric] by (simp only: div_block net_size_pos)
  qed
  then show ?thesis by (auto simp: cidr_contains_def word_le_nat_alt)
qed

lemma size_mono:
  "is_ipv6 c = is_ipv6 d \<Longrightarrow> cidr_wf c \<Longrightarrow> cidr_wf d \<Longrightarrow>
     unat (cidr_prefix c) \<le> unat (cidr_prefix d) \<longleftrightarrow> net_size d \<le> net_size c"
  "is_ipv6 c = is_ipv6 d \<Longrightarrow> unat (cidr_prefix c) \<le> unat (cidr_prefix d) \<Longrightarrow> net_size d dvd net_size c"
  by (auto simp: net_size_def net_width_def cidr_wf_def intro!: le_imp_power_dvd)

lemma contains_members:
  assumes "cidr_wf c" and "cidr_wf d"
  shows "cidr_contains c d \<longleftrightarrow> members d \<subseteq> members c"
proof
  assume "cidr_contains c d"
  then have h: "is_ipv6 c = is_ipv6 d" "unat (cidr_prefix c) \<le> unat (cidr_prefix d)"
    "net_base c \<le> net_base d" "net_base d < net_base c + net_size c"
    unfolding contains_block [OF assms] by blast+
  have "net_size d dvd net_base c + net_size c" "net_size d dvd net_base d"
    using size_mono(2) [OF h(1,2)] assms by (auto simp: cidr_wf_def intro: dvd_trans dvd_add)
  from aligned_less [OF this(2,1) h(4)] h(1,3) show "members d \<subseteq> members c"
    by (auto simp: members_def)
next
  assume s: "members d \<subseteq> members c"
  then have "(is_ipv6 d, net_base d) \<in> members c" using base_in_members by blast
  then have f: "is_ipv6 c = is_ipv6 d" "net_base c \<le> net_base d" "net_base d < net_base c + net_size c"
    by (simp_all add: members_def)
  have "{net_base d ..< net_base d + net_size d} \<subseteq> {net_base c ..< net_base c + net_size c}"
    using s unfolding members_def f(1) by blast
  from atLeastLessThan_subset_iff [OF this] net_size_pos [of d] have "net_size d \<le> net_size c" by linarith
  with f show "cidr_contains c d" unfolding contains_block [OF assms] using size_mono(1) [OF f(1) assms] by simp
qed

lemma overlap_larger:
  assumes "cidr_wf c" and "cidr_wf d" and "unat (cidr_prefix c) \<le> unat (cidr_prefix d)"
    and "x \<in> members c" and "x \<in> members d"
  shows "cidr_contains c d"
proof -
  obtain a where x: "x = (is_ipv6 c, a)" and f: "is_ipv6 c = is_ipv6 d" "net_base c \<le> a"
    "a < net_base c + net_size c" "net_base d \<le> a" "a < net_base d + net_size d"
    using assms(4,5) by (auto simp: members_def)
  have "net_size d dvd net_base c" "net_size d dvd net_base d"
    using size_mono(2) [OF f(1) assms(3)] assms by (auto simp: cidr_wf_def intro: dvd_trans)
  then have "net_base c \<le> net_base d"
    using aligned_less [of "net_size d" "net_base d" "net_base c"] f by (cases "net_base d < net_base c") simp_all
  with f assms(3) show ?thesis unfolding contains_block [OF assms(1,2)] by simp
qed

lemma overlaps_members:
  assumes "cidr_wf c" and "cidr_wf d"
  shows "cidr_overlaps c d \<longleftrightarrow> members c \<inter> members d \<noteq> {}"
proof
  assume "cidr_overlaps c d"
  then show "members c \<inter> members d \<noteq> {}"
    unfolding cidr_overlaps_def contains_members [OF assms] contains_members [OF assms(2,1)]
    using base_in_members [of c] base_in_members [of d] by blast
next
  assume "members c \<inter> members d \<noteq> {}"
  then obtain x where "x \<in> members c" "x \<in> members d" by blast
  with overlap_larger [OF assms] overlap_larger [OF assms(2,1)] show "cidr_overlaps c d"
    by (cases "unat (cidr_prefix c) \<le> unat (cidr_prefix d)") (auto simp: cidr_overlaps_def)
qed

section \<open>Halves\<close>

lemma unat_or_bit:
  fixes a :: u128
  assumes "2 ^ Suc n dvd unat a" and "n < 128"
  shows "unat (a OR push_bit n 1) = unat a + 2 ^ n"
proof -
  have "\<not> bit a n"
  proof -
    from assms(1) obtain k where "unat a = 2 ^ Suc n * k" by (auto elim: dvdE)
    then have "unat a div 2 ^ n = 2 * k" by simp
    then have "\<not> bit (unat a) n" by (simp add: bit_iff_odd)
    then show ?thesis by (simp add: bit_unsigned_iff)
  qed
  then have "a OR push_bit n 1 = a + push_bit n 1"
    by (intro disjunctive_add [symmetric]) (auto simp: bit_simps)
  moreover have "unat (push_bit n (1 :: u128)) = 2 ^ n"
    using assms(2) by (subst unsigned_push_bit_eq) (simp add: take_bit_nat_eq_self)
  moreover have "unat a + 2 ^ n < 2 ^ 128"
  proof -
    have "2 ^ Suc n dvd (2 ^ 128 :: nat)" using assms(2) by (intro le_imp_power_dvd) simp
    from aligned_less [OF assms(1) this] unat_bound [of a] have "unat a + 2 ^ Suc n \<le> 2 ^ 128" by simp
    moreover have "(0 :: nat) < 2 ^ n" by simp
    ultimately show ?thesis unfolding power_Suc by linarith
  qed
  ultimately show ?thesis using unat_add_no_wrap [of a "push_bit n 1"] by simp
qed

lemma net_base_with_bits:
  assumes "unat bits < 2 ^ net_width c"
  shows "net_base (with_bits c bits q) = unat bits"
  using assms
  by (cases "cidr_address c")
    (simp_all add: net_base_def with_bits_def cidr_bits_def net_width_def is_ipv6_def unsigned_ucast_eq
      unsigned_take_bit_eq take_bit_nat_eq_self)

lemma halves_blocks:
  assumes wf: "cidr_wf c" and h: "halves c = Some (low, high)"
  shows "net_size c = 2 * net_size low" "net_size high = net_size low" "net_base low = net_base c"
    "net_base high = net_base c + net_size low" "cidr_wf low" "cidr_wf high"
proof -
  note p = halves_prefix [OF h]
  let ?n = "net_width c - Suc (unat (cidr_prefix c))"
  have lt: "unat (cidr_prefix c) < net_width c" using p(5) by (simp add: word_less_nat_alt unat_width)
  have w: "net_width low = net_width c" "net_width high = net_width c"
    using p(3,4) by (simp_all add: net_width_def)
  then have s: "net_size low = 2 ^ ?n" "net_size high = 2 ^ ?n" using p(1,2) by (simp_all add: net_size_def)
  have sc: "net_size c = 2 ^ Suc ?n" using lt by (simp add: net_size_def Suc_diff_Suc)
  have al: "2 ^ Suc ?n dvd unat (cidr_bits c)" using wf sc by (simp add: cidr_wf_def net_base_def)
  have "unat (cidr_prefix c + 1) = Suc (unat (cidr_prefix c))"
    using p(1) h by (auto simp: halves_def Let_def with_bits_def split: if_splits)
  then have n: "unat (cidr_width c - (cidr_prefix c + 1)) = ?n"
    using lt by (simp add: unat_sub_no_wrap unat_width)
  have "?n < 128" using lt by (simp add: net_width_def split: if_splits)
  note or = unat_or_bit [OF al this]
  have "2 ^ Suc ?n dvd (2 ^ net_width c :: nat)" by (intro le_imp_power_dvd) (use lt in simp)
  from aligned_less [OF al this] net_base_bound [of c]
  have "unat (cidr_bits c) + 2 ^ Suc ?n \<le> 2 ^ net_width c" by (simp add: net_base_def)
  moreover have "(0 :: nat) < 2 ^ ?n" by simp
  ultimately have top: "unat (cidr_bits c) + 2 ^ ?n < 2 ^ net_width c" unfolding power_Suc by linarith
  have lh: "low = with_bits c (cidr_bits c) (cidr_prefix c + 1)"
    "high = with_bits c (cidr_bits c OR push_bit ?n 1) (cidr_prefix c + 1)"
    using h n by (auto simp: halves_def Let_def split: if_splits)
  show bl: "net_base low = net_base c" unfolding lh(1)
    using top by (subst net_base_with_bits) (simp_all add: net_base_def)
  show bh: "net_base high = net_base c + net_size low" unfolding lh(2) s(1)
    by (subst net_base_with_bits) (simp_all only: or top net_base_def)
  have dl: "2 ^ ?n dvd net_base c" using al unfolding power_Suc net_base_def by (rule dvd_mult_right)
  show "cidr_wf low" unfolding cidr_wf_def s(1) bl p(1) w using lt dl by simp
  show "cidr_wf high" unfolding cidr_wf_def s bh p(2) w using lt dl by simp
  show "net_size c = 2 * net_size low" "net_size high = net_size low" using s sc by simp_all
qed

lemma halves_members:
  assumes "cidr_wf c" and "halves c = Some (low, high)"
  shows "members c = members low \<union> members high" "members low \<inter> members high = {}"
proof -
  note h = halves_blocks [OF assms] and f = halves_prefix(3,4) [OF assms(2)]
  show "members c = members low \<union> members high" unfolding members_def f h(1-4) by auto
  show "members low \<inter> members high = {}" unfolding members_def f h(1-4) by auto
qed

lemma strictly_inside:
  assumes "cidr_wf c" and "cidr_wf e" and "members e \<subseteq> members c" and "\<not> cidr_contains e c"
  shows "unat (cidr_prefix c) < unat (cidr_prefix e)" "unat (cidr_prefix e) \<le> net_width c"
proof -
  have x: "(is_ipv6 e, net_base e) \<in> members c" using assms(3) base_in_members by blast
  show "unat (cidr_prefix c) < unat (cidr_prefix e)"
    using overlap_larger [OF assms(2,1) _ base_in_members x] assms(4) by (meson not_less)
  show "unat (cidr_prefix e) \<le> net_width c"
    using x assms(2) by (simp add: members_def cidr_wf_def net_width_def)
qed

lemma halves_order:
  assumes "cidr_wf c" and "halves c = Some (low, high)" and "cidr_wf e" and "members e \<subseteq> members c"
    and "\<not> cidr_contains e c"
  shows "cidr_address e < cidr_address high \<Longrightarrow> members e \<subseteq> members low"
    and "\<not> cidr_address e < cidr_address high \<Longrightarrow> members e \<subseteq> members high"
proof -
  note h = halves_blocks [OF assms(1,2)] and f = halves_prefix [OF assms(2)]
  have ce: "cidr_contains c e" using contains_members [OF assms(1,3)] assms(4) by blast
  note c = ce [unfolded contains_block [OF assms(1,3)]]
  from strictly_inside(1) [OF assms(1,3-5)] have p: "unat (cidr_prefix low) \<le> unat (cidr_prefix e)" "unat (cidr_prefix high) \<le> unat (cidr_prefix e)"
    using f(1,2) by simp_all
  have lt: "cidr_address e < cidr_address high \<longleftrightarrow> net_base e < net_base high"
    using c f(4) by (simp add: less_ip_addr_def cidr_key)
  show "members e \<subseteq> members low" if "cidr_address e < cidr_address high"
  proof -
    have "cidr_contains low e"
      unfolding contains_block [OF h(5) assms(3)] using that lt c f(3) h p by simp
    then show ?thesis using contains_members [OF h(5) assms(3)] by blast
  qed
  show "members e \<subseteq> members high" if "\<not> cidr_address e < cidr_address high"
  proof -
    have "cidr_contains high e"
      unfolding contains_block [OF h(6) assms(3)] using that lt c f(4) h p by simp
    then show ?thesis using contains_members [OF h(6) assms(3)] by blast
  qed
qed

section \<open>Subtraction\<close>

definition union_of :: "cidr list \<Rightarrow> (bool \<times> nat) set" where
  "union_of cs = (\<Union>c \<in> set cs. members c)"

lemma union_of_simps [simp]:
  "union_of [] = {}" "union_of (c # cs) = members c \<union> union_of cs" "union_of (cs @ ds) = union_of cs \<union> union_of ds"
  by (auto simp: union_of_def)

fun disjoint_nets :: "cidr list \<Rightarrow> bool" where
  "disjoint_nets [] = True"
| "disjoint_nets (c # cs) \<longleftrightarrow> members c \<inter> union_of cs = {} \<and> disjoint_nets cs"

text \<open>
  The networks that are left of a network: they cover what is left, are disjoint, and each is as
  large as it can be.
\<close>

definition cover_ok :: "cidr \<Rightarrow> cidr list \<Rightarrow> cidr list \<Rightarrow> bool" where
  "cover_ok c ex rs \<longleftrightarrow>
     union_of rs = members c - union_of ex \<and> (\<forall>r \<in> set rs. cidr_wf r) \<and> disjoint_nets rs \<and>
     (\<forall>r \<in> set rs. \<forall>t. cidr_wf t \<and> members t \<subseteq> members c - union_of ex \<and> members t \<inter> members r \<noteq> {} \<longrightarrow>
        members t \<subseteq> members r)"

lemma cover_ok_whole: "cidr_wf c \<Longrightarrow> cover_ok c [] [c]"
  by (simp add: cover_ok_def)

lemma cover_ok_none: "members c \<subseteq> union_of ex \<Longrightarrow> cover_ok c ex []"
  by (auto simp: cover_ok_def)

lemma disjoint_nets_append:
  "disjoint_nets rs \<Longrightarrow> disjoint_nets ss \<Longrightarrow> union_of rs \<inter> union_of ss = {} \<Longrightarrow> disjoint_nets (rs @ ss)"
  by (induction rs) auto

lemma cover_ok_half:
  assumes wf: "cidr_wf c" "cidr_wf h" and sub: "members h \<subseteq> members c"
    and pre: "unat (cidr_prefix h) = Suc (unat (cidr_prefix c))"
    and e: "e \<in> set ex" "members e \<subseteq> members c"
    and eq: "members h - union_of ex = members h - union_of exh" and ok: "cover_ok h exh rs"
    and t: "cidr_wf t" "members t \<subseteq> members c - union_of ex" "members t \<inter> members r \<noteq> {}" and r: "r \<in> set rs"
  shows "members t \<subseteq> members r"
proof -
  have "members r \<subseteq> members h" using ok r by (auto simp: cover_ok_def union_of_def)
  then obtain x where x: "x \<in> members t" "x \<in> members h" using t(3) by blast
  have "\<not> cidr_contains t c"
  proof
    assume "cidr_contains t c"
    then have "members c \<subseteq> members c - union_of ex" using contains_members [OF t(1) wf(1)] t(2) by blast
    then show False using e base_in_members [of e] by (auto simp: union_of_def)
  qed
  moreover have "x \<in> members c" using x(2) sub by blast
  ultimately have "\<not> unat (cidr_prefix t) \<le> unat (cidr_prefix c)"
    using overlap_larger [OF t(1) wf(1) _ x(1)] by blast
  then have "unat (cidr_prefix h) \<le> unat (cidr_prefix t)" using pre by simp
  then have "members t \<subseteq> members h"
    using overlap_larger [OF wf(2) t(1) _ x(2,1)] contains_members [OF wf(2) t(1)] by blast
  then have "members t \<subseteq> members h - union_of exh" using t(2) eq by blast
  then show ?thesis using ok r t(1,3) by (simp add: cover_ok_def)
qed

lemma cover_ok_halves:
  assumes wf: "cidr_wf c" and h: "halves c = Some (low, high)" and ne: "exl @ exh \<noteq> []"
    and l: "\<forall>e \<in> set exl. members e \<subseteq> members low" and g: "\<forall>e \<in> set exh. members e \<subseteq> members high"
    and cl: "cover_ok low exl rl" and ch: "cover_ok high exh rh"
  shows "cover_ok c (exl @ exh) (rl @ rh)"
proof -
  note m = halves_members [OF wf h] and b = halves_blocks [OF wf h] and p = halves_prefix [OF h]
  have u: "union_of exl \<subseteq> members low" "union_of exh \<subseteq> members high" using l g by (auto simp: union_of_def)
  from ne obtain e where e: "e \<in> set (exl @ exh)" by (cases "exl @ exh") auto
  then have ec: "members e \<subseteq> members c" using l g m(1) by auto
  have rl: "union_of rl = members low - union_of exl" and rh: "union_of rh = members high - union_of exh"
    using cl ch by (simp_all add: cover_ok_def)
  then have "union_of (rl @ rh) = members c - union_of (exl @ exh)" using u m by auto
  moreover have "disjoint_nets (rl @ rh)"
    using cl ch rl rh m(2) by (intro disjoint_nets_append) (auto simp: cover_ok_def)
  moreover have "members t \<subseteq> members r" if "r \<in> set (rl @ rh)" and t: "cidr_wf t"
    "members t \<subseteq> members c - union_of (exl @ exh)" "members t \<inter> members r \<noteq> {}" for r t
  proof (cases "r \<in> set rl")
    case True
    have "members low \<subseteq> members c" "members low - union_of (exl @ exh) = members low - union_of exl"
      using u m by auto
    from cover_ok_half [OF wf b(5) this(1) p(1) e ec this(2) cl t True] show ?thesis .
  next
    case False
    with that(1) have "r \<in> set rh" by simp
    have "members high \<subseteq> members c" "members high - union_of (exl @ exh) = members high - union_of exh"
      using u m by auto
    from cover_ok_half [OF wf b(6) this(1) p(2) e ec this(2) ch t \<open>r \<in> set rh\<close>] show ?thesis .
  qed
  moreover have "\<forall>r \<in> set (rl @ rh). cidr_wf r" using cl ch by (auto simp: cover_ok_def)
  ultimately show ?thesis by (simp only: cover_ok_def) blast
qed

lemma cover_ok_minimal:
  assumes ok: "cover_ok c ex rs" and ts: "\<forall>t \<in> set ts. cidr_wf t" "union_of ts = members c - union_of ex"
  shows "length rs \<le> length ts"
proof -
  have "\<exists>t \<in> set ts. (is_ipv6 r, net_base r) \<in> members t \<and> members t \<subseteq> members r" if r: "r \<in> set rs" for r
  proof -
    have "(is_ipv6 r, net_base r) \<in> union_of ts"
      using ok r base_in_members [of r] ts(2) by (auto simp: cover_ok_def union_of_def)
    then obtain t where t: "t \<in> set ts" "(is_ipv6 r, net_base r) \<in> members t" by (auto simp: union_of_def)
    moreover have "members t \<subseteq> members c - union_of ex" using t(1) ts(2) by (auto simp: union_of_def)
    ultimately have "members t \<subseteq> members r"
      using ok r ts(1) base_in_members [of r] unfolding cover_ok_def by blast
    with t show ?thesis by blast
  qed
  then obtain f where f: "\<And>r. r \<in> set rs \<Longrightarrow> f r \<in> set ts \<and> members (f r) \<subseteq> members r" by metis
  have d: "disjoint_nets rs" using ok by (simp add: cover_ok_def)
  have "inj_on f (set rs) \<and> distinct rs" using f d
  proof (induction rs)
    case (Cons r rs)
    have "f s \<noteq> f r" if "s \<in> set rs" for s
    proof
      assume "f s = f r"
      then have "(is_ipv6 (f r), net_base (f r)) \<in> members r \<inter> members s"
        using Cons.prems(1) [of r] Cons.prems(1) [of s] that base_in_members [of "f r"] by auto
      with that Cons.prems(2) show False by (auto simp: union_of_def)
    qed
    with Cons show ?case by (fastforce simp: inj_on_def)
  qed simp
  then have "length rs = card (f ` set rs)" by (simp add: card_image distinct_card)
  also have "\<dots> \<le> card (set ts)" using f by (intro card_mono) auto
  also have "\<dots> \<le> length ts" by (rule card_length)
  finally show ?thesis .
qed

text \<open>What the recursion returns for any limit, given the networks that are left.\<close>

definition subtracts :: "cidr \<Rightarrow> cidr list \<Rightarrow> cidr list \<Rightarrow> bool" where
  "subtracts c ex rs \<longleftrightarrow>
     (\<forall>limit rem. length rem \<le> limit \<longrightarrow>
        (if length (rem @ rs) \<le> limit then subtract_sorted c ex limit rem = Some (True, rem @ rs)
         else \<exists>r. subtract_sorted c ex limit rem = Some (False, r)))"

lemma subtracts_halves:
  assumes "ex \<noteq> []" and "\<not> list_ex (\<lambda>e. cidr_contains e c) ex" and h: "halves c = Some (low, high)"
    and n: "n = partition_point (\<lambda>e. cidr_address e < cidr_address high) ex"
    and l: "subtracts low (take n ex) rl" and g: "subtracts high (drop n ex) rh"
  shows "subtracts c ex (rl @ rh)"
  unfolding subtracts_def
proof (intro allI impI)
  fix limit and rem :: "cidr list"
  assume rem: "length rem \<le> limit"
  have step: "subtract_sorted c ex limit rem =
      (case subtract_sorted low (take n ex) limit rem of
         None \<Rightarrow> None
       | Some (False, remainder) \<Rightarrow> Some (False, remainder)
       | Some (True, remainder) \<Rightarrow> subtract_sorted high (drop n ex) limit remainder)"
    using assms(1-3) unfolding n by (subst subtract_sorted.simps) (simp add: Let_def)
  show "if length (rem @ rl @ rh) \<le> limit then subtract_sorted c ex limit rem = Some (True, rem @ rl @ rh)
      else \<exists>r. subtract_sorted c ex limit rem = Some (False, r)"
  proof (cases "length (rem @ rl) \<le> limit")
    case True
    then have "subtract_sorted low (take n ex) limit rem = Some (True, rem @ rl)"
      using l rem by (simp add: subtracts_def)
    with g [unfolded subtracts_def, rule_format, OF True] show ?thesis by (simp add: step)
  next
    case False
    then have "\<exists>r. subtract_sorted low (take n ex) limit rem = Some (False, r)"
      using l rem by (simp add: subtracts_def)
    with False show ?thesis by (auto simp: step)
  qed
qed

lemma partition_sorted:
  assumes "sorted ex" and "n = partition_point (\<lambda>e. cidr_address e < a) ex"
  shows "\<forall>e \<in> set (take n ex). cidr_address e < a" "\<forall>e \<in> set (drop n ex). \<not> cidr_address e < a"
proof -
  let ?P = "\<lambda>e. cidr_address e < a"
  have t: "take n ex = takeWhile ?P ex" and d: "drop n ex = dropWhile ?P ex"
    unfolding assms(2) partition_point_def by (metis takeWhile_eq_take, metis dropWhile_eq_drop)
  show "\<forall>e \<in> set (take n ex). ?P e" unfolding t by (auto dest: set_takeWhileD)
  show "\<forall>e \<in> set (drop n ex). \<not> ?P e"
  proof (cases "dropWhile ?P ex")
    case Nil
    show ?thesis unfolding d Nil by simp
  next
    case (Cons x xs)
    have "\<not> ?P x" using Cons by (simp add: dropWhile_eq_Cons_conv)
    moreover have "sorted (x # xs)" using assms(1) Cons by (metis sorted_wrt_drop dropWhile_eq_drop)
    ultimately show ?thesis unfolding d Cons by (auto simp: less_eq_cidr_def)
  qed
qed

lemma subtract_sorted_cover:
  assumes "cidr_wf c" and "sorted ex" and "\<forall>e \<in> set ex. cidr_wf e \<and> cidr_overlaps e c"
  shows "\<exists>rs. cover_ok c ex rs \<and> subtracts c ex rs"
  using assms
proof (induction "net_width c - unat (cidr_prefix c)" arbitrary: c ex rule: less_induct)
  case less
  consider (none) "ex = []" | (all) e where "e \<in> set ex" "cidr_contains e c"
    | (some) "ex \<noteq> []" "\<not> list_ex (\<lambda>e. cidr_contains e c) ex" by (auto simp: list_ex_iff)
  then show ?case
  proof cases
    case none
    then have "subtracts c ex [c]" by (auto simp: subtracts_def subtract_sorted.simps)
    with none cover_ok_whole [OF less.prems(1)] show ?thesis by blast
  next
    case all
    then have "members c \<subseteq> union_of ex" using contains_members less.prems by (auto simp: union_of_def)
    moreover have "subtracts c ex []"
      using all by (auto simp: subtracts_def subtract_sorted.simps list_ex_iff)
    ultimately show ?thesis using cover_ok_none by blast
  next
    case some
    have e: "members e \<subseteq> members c" "cidr_wf e" "\<not> cidr_contains e c" if "e \<in> set ex" for e
      using less.prems some(2) that contains_members [of c e]
      by (auto simp: list_ex_iff cidr_overlaps_def)
    obtain e0 where e0: "e0 \<in> set ex" using some(1) by (cases ex) auto
    from strictly_inside [OF less.prems(1) e(2,1,3) [OF e0]]
    have lt: "unat (cidr_prefix c) < net_width c" by simp
    then obtain low high where h: "halves c = Some (low, high)"
      by (auto simp: halves_def word_less_nat_alt unat_width Let_def)
    note b = halves_blocks [OF less.prems(1) h] and p = halves_prefix [OF h]
    define n where "n = partition_point (\<lambda>e. cidr_address e < cidr_address high) ex"
    note ps = partition_sorted [OF less.prems(2) n_def]
    have l: "\<forall>e \<in> set (take n ex). members e \<subseteq> members low"
      using ps(1) e halves_order(1) [OF less.prems(1) h] by (meson in_set_takeD)
    have g: "\<forall>e \<in> set (drop n ex). members e \<subseteq> members high"
      using ps(2) e halves_order(2) [OF less.prems(1) h] by (meson in_set_dropD)
    have ov: "cidr_overlaps e d" if "cidr_wf e" "cidr_wf d" "members e \<subseteq> members d" for e d
      using that base_in_members [of e] by (auto simp: overlaps_members)
    have "\<forall>e \<in> set (take n ex). cidr_wf e \<and> cidr_overlaps e low"
      using l e(2) ov b(5) by (meson in_set_takeD)
    then have "\<exists>rs. cover_ok low (take n ex) rs \<and> subtracts low (take n ex) rs"
      using b(5) lt p(1,3) less.prems(2) by (intro less.hyps) (auto simp: net_width_def sorted_wrt_take)
    moreover have "\<forall>e \<in> set (drop n ex). cidr_wf e \<and> cidr_overlaps e high"
      using g e(2) ov b(6) by (meson in_set_dropD)
    then have "\<exists>rs. cover_ok high (drop n ex) rs \<and> subtracts high (drop n ex) rs"
      using b(6) lt p(2,4) less.prems(2) by (intro less.hyps) (auto simp: net_width_def sorted_wrt_drop)
    ultimately obtain rl rh where r: "cover_ok low (take n ex) rl" "subtracts low (take n ex) rl"
      "cover_ok high (drop n ex) rh" "subtracts high (drop n ex) rh" by blast
    have "take n ex @ drop n ex \<noteq> []" using some(1) by simp
    from cover_ok_halves [OF less.prems(1) h this l g r(1,3)] subtracts_halves [OF some h n_def r(2,4)]
    show ?thesis by (intro exI [of _ "rl @ rh"]) simp
  qed
qed

text \<open>
  C39. Subtracting networks from a network never overflows, and it returns exactly what is left of it:
  networks that cover the addresses of the network that no excluded one has, pairwise disjoint, and
  no set of networks that covers those addresses is smaller. When they are more than the limit, it
  returns nothing instead.
\<close>

theorem cidr_subtract_exact:
  assumes "cidr_wf c" and "\<And>e. e \<in> set excluded \<Longrightarrow> cidr_wf e"
  shows "\<exists>rs. cidr_subtract c excluded limit = Some (if length rs \<le> limit then Some rs else None) \<and>
    union_of rs = members c - union_of excluded \<and> disjoint_nets rs \<and> (\<forall>r \<in> set rs. cidr_wf r) \<and>
    (\<forall>ts. (\<forall>t \<in> set ts. cidr_wf t) \<and> union_of ts = members c - union_of excluded \<longrightarrow> length rs \<le> length ts)"
proof -
  let ?ex = "sort (filter (\<lambda>e. cidr_overlaps e c) excluded)"
  have "\<forall>e \<in> set ?ex. cidr_wf e \<and> cidr_overlaps e c" using assms(2) by simp
  from subtract_sorted_cover [OF assms(1) sorted_sort this]
  obtain rs where rs: "cover_ok c ?ex rs" "subtracts c ?ex rs" by blast
  have "members c \<inter> members e = {}" if "e \<in> set excluded" "\<not> cidr_overlaps e c" for e
    using overlaps_members [OF assms(2) [OF that(1)] assms(1)] that(2) by blast
  then have eq: "members c - union_of ?ex = members c - union_of excluded"
    by (auto simp: union_of_def)
  have "cidr_subtract c excluded limit = Some (if length rs \<le> limit then Some rs else None)"
  proof (cases "length rs \<le> limit")
    case True
    with rs(2) have "subtract_sorted c ?ex limit [] = Some (True, rs)" by (auto simp: subtracts_def)
    with True show ?thesis by (simp add: cidr_subtract_def)
  next
    case False
    with rs(2) obtain r where "subtract_sorted c ?ex limit [] = Some (False, r)"
      unfolding subtracts_def by (metis append_Nil le0 list.size(3))
    with False show ?thesis by (simp add: cidr_subtract_def)
  qed
  moreover have "length rs \<le> length ts" if "\<forall>t \<in> set ts. cidr_wf t" "union_of ts = members c - union_of excluded" for ts
    using cover_ok_minimal [OF rs(1)] that eq by simp
  ultimately show ?thesis using rs(1) eq by (intro exI [of _ rs]) (auto simp: cover_ok_def)
qed

lemmas cidr_eval = cidr_contains_def cidr_overlaps_def cidr_mask_def cidr_bits_def cidr_width_def is_ipv6_def
  halves_def with_bits_def partition_point_def less_cidr_def less_eq_cidr_def less_ip_addr_def less_eq_ip_addr_def

lemma subtract_sorted_demo:
  "subtract_sorted (Cidr (V4 0x0a000000) 8) [Cidr (V4 0x0a000000) 10, Cidr (V4 0x0a800000) 9] 4 [] =
     Some (True, [Cidr (V4 0x0a400000) 10])"
  by (simp add: subtract_sorted.simps cidr_eval Let_def)

theorem cidr_subtract_exact_witness:
  "\<exists>rs. cidr_subtract (Cidr (V4 0x0a000000) 8) [Cidr (V4 0x0a800000) 9, Cidr (V4 0x0a000000) 10] 4 = Some (Some rs) \<and>
     rs = [Cidr (V4 0x0a400000) 10] \<and>
     union_of rs = members (Cidr (V4 0x0a000000) 8) -
       union_of [Cidr (V4 0x0a800000) 9, Cidr (V4 0x0a000000) 10]"
proof -
  let ?c = "Cidr (V4 0x0a000000) 8" and ?ex = "[Cidr (V4 0x0a800000) 9, Cidr (V4 0x0a000000) 10]"
  have wf: "cidr_wf ?c" "cidr_wf (Cidr (V4 0x0a800000) 9)" "cidr_wf (Cidr (V4 0x0a000000) 10)"
    by (simp_all add: cidr_wf_def net_size_def net_base_def net_width_def cidr_eval)
  have s: "cidr_subtract ?c ?ex 4 = Some (Some [Cidr (V4 0x0a400000) 10])"
    using subtract_sorted_demo by (simp add: cidr_subtract_def cidr_eval)
  have "\<And>e. e \<in> set ?ex \<Longrightarrow> cidr_wf e" using wf(2,3) by auto
  from cidr_subtract_exact [OF wf(1) this, where limit = 4] obtain rs where
    rs: "cidr_subtract ?c ?ex 4 = Some (if length rs \<le> 4 then Some rs else None)"
    "union_of rs = members ?c - union_of ?ex" by blast
  have "rs = [Cidr (V4 0x0a400000) 10]" using rs(1) unfolding s by (simp split: if_splits)
  then show ?thesis using s rs(2) by blast
qed

end
