(* ===== verification/Gpt_Crc.thy ===== *)
theory Gpt_Crc
  imports Nvx_Prelude
begin

text \<open>
  The CRC-32 of GPT headers and entry arrays (\<^verbatim>\<open>gpt/crc.rs\<close>), which is computed a byte at a time from a
  table. The reference is the register of IEEE 802.3 that shifts one bit of the message at a time.
\<close>

unbundle bit_operations_syntax

section \<open>Operations\<close>

definition polynomial :: u32 where
  "polynomial = 0xEDB88320"

definition crc_bit :: "u32 \<Rightarrow> u32" where
  "crc_bit crc = (if crc AND 1 = 0 then drop_bit 1 crc else drop_bit 1 crc XOR polynomial)"

definition crc_table :: "u32 list" where
  "crc_table = map (\<lambda>byte. (crc_bit ^^ 8) (word_of_nat byte)) [0..<256]"

record crc32_state =
  crc_register :: u32

definition crc_new :: crc32_state where
  "crc_new = \<lparr>crc_register = - 1\<rparr>"

fun crc_update :: "crc32_state \<Rightarrow> bytes \<Rightarrow> crc32_state" where
  "crc_update c [] = c"
| "crc_update c (byte # bs) =
     (let index = unat ((ucast (crc_register c) :: u8) XOR byte)
      in crc_update (c\<lparr>crc_register := drop_bit 8 (crc_register c) XOR crc_table ! index\<rparr>) bs)"

definition crc_finish :: "crc32_state \<Rightarrow> u32" where
  "crc_finish c = NOT (crc_register c)"

definition crc32 :: "bytes \<Rightarrow> u32" where
  "crc32 bs = crc_finish (crc_update crc_new bs)"

section \<open>The register that shifts bit by bit\<close>

definition shift_in :: "bool \<Rightarrow> u32 \<Rightarrow> u32" where
  "shift_in b r = drop_bit 1 r XOR (if bit r 0 \<noteq> b then polynomial else 0)"

definition bits_of :: "u8 \<Rightarrow> bool list" where
  "bits_of byte = map (bit byte) [0..<8]"

definition crc_reference :: "bytes \<Rightarrow> u32" where
  "crc_reference bs = NOT (fold shift_in (concat (map bits_of bs)) (- 1))"

section \<open>Linearity\<close>

lemma crc_bit_alt: "crc_bit r = drop_bit 1 r XOR (if bit r 0 then polynomial else 0)"
  by (simp add: crc_bit_def and_one_eq even_iff_mod_2_eq_zero [symmetric] bit_0)

lemma crc_bit_xor: "crc_bit (a XOR b) = crc_bit a XOR crc_bit b"
  by (rule bit_word_eqI) (auto simp: crc_bit_alt bit_simps)

lemma crc_bits_xor: "(crc_bit ^^ n) (a XOR b) = (crc_bit ^^ n) a XOR (crc_bit ^^ n) b"
  by (induction n) (simp_all add: crc_bit_xor)

lemma crc_bit_push:
  assumes "Suc n \<le> 32" and "take_bit (32 - Suc n) w = w"
  shows "crc_bit (push_bit (Suc n) w) = push_bit n w"
proof -
  have w: "m < 32 - Suc n" if "bit w m" for m
    using assms(2) that by (metis bit_take_bit_iff)
  show ?thesis
  proof (rule bit_word_eqI)
    fix m assume "m < LENGTH(32)"
    then show "bit (crc_bit (push_bit (Suc n) w)) m = bit (push_bit n w) m"
      using w [of "m - n"] by (auto simp: crc_bit_alt bit_simps simp del: push_bit_Suc)
  qed
qed

lemma crc_bits_push:
  "n \<le> 32 \<Longrightarrow> take_bit (32 - n) w = w \<Longrightarrow> (crc_bit ^^ n) (push_bit n w) = w"
proof (induction n)
  case 0
  then show ?case by simp
next
  case (Suc n)
  have "min (32 - n) (32 - Suc n) = 32 - Suc n" by simp
  then have "take_bit (32 - n) (take_bit (32 - Suc n) w) = take_bit (32 - Suc n) w"
    by (simp only: take_bit_take_bit)
  then have w: "take_bit (32 - n) w = w" unfolding Suc.prems(2) .
  have "(crc_bit ^^ Suc n) (push_bit (Suc n) w) = (crc_bit ^^ n) (crc_bit (push_bit (Suc n) w))"
    by (simp only: funpow_Suc_right comp_apply)
  also have "\<dots> = w" unfolding crc_bit_push [OF Suc.prems] using Suc.IH w Suc.prems(1) by simp
  finally show ?case .
qed

text \<open>A byte that is shifted in at once: eight steps of the register, or one entry of the table.\<close>

lemma crc_byte_table:
  "(crc_bit ^^ 8) r = drop_bit 8 r XOR crc_table ! unat (ucast r :: u8)"
proof -
  have r: "r = take_bit 8 r XOR push_bit 8 (drop_bit 8 r)"
    by (rule bit_word_eqI) (auto simp: bit_simps)
  have "take_bit (32 - 8) (drop_bit 8 r) = drop_bit 8 r"
    by (rule bit_word_eqI) (auto simp: bit_simps dest: bit_imp_le_length)
  then have h: "(crc_bit ^^ 8) (push_bit 8 (drop_bit 8 r)) = drop_bit 8 r"
    by (rule crc_bits_push [rotated]) simp
  have u: "unat (ucast r :: u8) < 256" using unat_bound [of "ucast r :: u8"] by simp
  have "word_of_nat (unat (ucast r :: u8)) = take_bit 8 r"
    using u unfolding word_unat_eq_iff
    by (simp add: unat_of_nat unsigned_take_bit_eq unsigned_ucast_eq)
  then have l: "crc_table ! unat (ucast r :: u8) = (crc_bit ^^ 8) (take_bit 8 r)"
    using u by (simp add: crc_table_def del: of_nat_unat)
  show ?thesis
    by (subst r) (simp add: crc_bits_xor h l ac_simps)
qed

lemma crc_update_byte:
  "crc_register (crc_update c (byte # bs)) =
     crc_register (crc_update \<lparr>crc_register = (crc_bit ^^ 8) (crc_register c XOR ucast byte)\<rparr> bs)"
proof -
  have "ucast (crc_register c XOR ucast byte) = (ucast (crc_register c) :: u8) XOR byte"
    by (rule bit_word_eqI) (auto simp: bit_simps)
  moreover have "drop_bit 8 (crc_register c XOR ucast byte) = drop_bit 8 (crc_register c)"
    by (rule bit_word_eqI) (auto simp: bit_simps dest: bit_imp_le_length)
  ultimately have "(crc_bit ^^ 8) (crc_register c XOR ucast byte) =
      drop_bit 8 (crc_register c) XOR crc_table ! unat ((ucast (crc_register c) :: u8) XOR byte)"
    by (simp add: crc_byte_table)
  then show ?thesis by (cases c) (simp add: Let_def)
qed

text \<open>The register after eight bits of a byte.\<close>

lemma shift_in_alt: "shift_in b r = crc_bit (r XOR of_bool b)"
  by (rule bit_word_eqI) (auto simp: shift_in_def crc_bit_alt bit_simps)

lemma shift_in_bits:
  "n \<le> 8 \<Longrightarrow> fold shift_in (map (bit byte) [0..<n]) r = (crc_bit ^^ n) (r XOR take_bit n (ucast byte))"
  for byte :: u8
proof (induction n)
  case 0
  then show ?case by simp
next
  case (Suc n)
  let ?b = "of_bool (bit byte n) :: u32"
  have "take_bit (Suc n) (ucast byte :: u32) = take_bit n (ucast byte) XOR push_bit n ?b"
    using Suc.prems by (intro bit_word_eqI) (auto simp: bit_simps less_Suc_eq)
  moreover have "(crc_bit ^^ n) (push_bit n ?b) = ?b"
    using Suc.prems by (intro crc_bits_push bit_word_eqI) (auto simp: bit_simps)
  ultimately have "(crc_bit ^^ n) (r XOR take_bit (Suc n) (ucast byte)) =
      (crc_bit ^^ n) (r XOR take_bit n (ucast byte)) XOR ?b"
    by (simp only: crc_bits_xor xor.assoc)
  then show ?case using Suc by (simp add: shift_in_alt)
qed

lemma crc_update_reference:
  "crc_register (crc_update c bs) = fold shift_in (concat (map bits_of bs)) (crc_register c)"
proof (induction bs arbitrary: c)
  case Nil
  then show ?case by simp
next
  case (Cons byte bs)
  have "take_bit 8 (ucast byte) = (ucast byte :: u32)"
    by (rule bit_word_eqI) (auto simp: bit_simps dest: bit_imp_le_length)
  then have "fold shift_in (bits_of byte) r = (crc_bit ^^ 8) (r XOR ucast byte)" for r
    using shift_in_bits [of 8 byte r] by (simp add: bits_of_def)
  then show ?case unfolding crc_update_byte using Cons.IH by simp
qed

text \<open>
  C33. The CRC that is computed a byte at a time from the table is the one that the register of the
  standard computes a bit at a time, whatever parts the bytes arrive in.
\<close>

theorem crc32_is_reference:
  "crc_finish (fold (\<lambda>part c. crc_update c part) parts crc_new) = crc_reference (concat parts)"
proof -
  have "crc_register (fold (\<lambda>part c. crc_update c part) parts c) =
      fold shift_in (concat (map bits_of (concat parts))) (crc_register c)" for c
    by (induction parts arbitrary: c) (simp_all add: crc_update_reference)
  then show ?thesis by (simp add: crc_finish_def crc_reference_def crc_new_def)
qed

section \<open>Errors that it detects\<close>

lemma crc_bit_zero: "crc_bit r = 0 \<Longrightarrow> r = 0"
proof -
  assume z: "crc_bit r = 0"
  have p: "bit polynomial 31" by (simp add: polynomial_def)
  have "bit (crc_bit r) 31 = bit r 0"
    using p by (auto simp: crc_bit_alt bit_simps dest: bit_imp_le_length)
  then have "\<not> bit r 0" using z by simp
  with z have d: "drop_bit 1 r = 0" by (simp add: crc_bit_alt)
  have "\<not> bit r m" for m
  proof (cases m)
    case (Suc k)
    have "\<not> bit (drop_bit 1 r) k" using d by simp
    then show ?thesis using Suc by (simp add: bit_drop_bit_eq)
  qed (use \<open>\<not> bit r 0\<close> in simp)
  then show "r = 0" by (intro bit_word_eqI) simp
qed

lemma crc_bits_inj: "(crc_bit ^^ n) a = (crc_bit ^^ n) b \<Longrightarrow> a = b"
proof -
  assume "(crc_bit ^^ n) a = (crc_bit ^^ n) b"
  then have "(crc_bit ^^ n) (a XOR b) = 0" by (simp add: crc_bits_xor)
  moreover have "(crc_bit ^^ n) r = 0 \<Longrightarrow> r = 0" for r
    by (induction n) (auto dest: crc_bit_zero)
  ultimately have "a XOR b = 0" by blast
  then have "(a XOR b) XOR b = 0 XOR b" by simp
  then show "a = b" by (simp only: xor.assoc xor_self_eq xor.right_neutral xor.left_neutral)
qed

lemma xor_cancel: "a XOR c = b XOR c \<Longrightarrow> a = b" for a b c :: u32
proof -
  assume "a XOR c = b XOR c"
  then have "(a XOR c) XOR c = (b XOR c) XOR c" by simp
  then show ?thesis by (simp only: xor.assoc xor_self_eq xor.right_neutral)
qed

lemma xor_cancel_left: "c XOR a = c XOR b \<Longrightarrow> a = b" for a b c :: u32
  unfolding xor.commute [of c] by (rule xor_cancel)

lemma crc_update_inj:
  "crc_register (crc_update c bs) = crc_register (crc_update d bs) \<Longrightarrow> crc_register c = crc_register d"
proof (induction bs arbitrary: c d)
  case Nil
  then show ?case by simp
next
  case (Cons byte bs)
  have "(crc_bit ^^ 8) (crc_register c XOR ucast byte) = (crc_bit ^^ 8) (crc_register d XOR ucast byte)"
    using Cons.IH [OF Cons.prems [unfolded crc_update_byte]] by simp
  then show ?case by (rule xor_cancel [OF crc_bits_inj])
qed

lemma crc_update_append: "crc_update c (xs @ ys) = crc_update (crc_update c xs) ys"
  by (induction xs arbitrary: c) (simp_all add: Let_def)

lemma crc_update_short:
  "length bs \<le> 4 \<Longrightarrow>
     crc_register (crc_update c bs) = (crc_bit ^^ (8 * length bs)) (crc_register c XOR word_of_nat (nat_of_le bs))"
proof (induction bs arbitrary: c)
  case Nil
  then show ?case by simp
next
  case (Cons byte bs)
  let ?n = "word_of_nat (nat_of_le bs) :: u32" and ?r = "crc_register c"
  have "nat_of_le bs < 256 ^ 3"
    using nat_of_le_bound [of bs] Cons.prems power_increasing [of "length bs" 3 "256 :: nat"] by simp
  then have n: "unat ?n = nat_of_le bs" "unat ?n < 2 ^ 24" by (simp_all add: unat_of_nat)
  then have "take_bit (32 - 8) ?n = ?n"
    by (simp only: word_unat_eq_iff unsigned_take_bit_eq) (simp add: take_bit_nat_eq_self)
  then have p: "(crc_bit ^^ 8) (push_bit 8 ?n) = ?n" by (rule crc_bits_push [rotated]) simp
  have "word_of_nat (nat_of_le (byte # bs)) = ucast byte + push_bit 8 ?n"
    by (simp add: push_bit_eq_mult)
  also have "\<dots> = ucast byte XOR push_bit 8 ?n"
    by (intro disjunctive_add_eq_xor bit_word_eqI) (auto simp: bit_simps dest: bit_imp_le_length)
  finally have w: "?r XOR word_of_nat (nat_of_le (byte # bs)) = (?r XOR ucast byte) XOR push_bit 8 ?n"
    by (simp only: xor.assoc)
  have "crc_register (crc_update c (byte # bs)) =
      (crc_bit ^^ (8 * length bs)) ((crc_bit ^^ 8) (?r XOR ucast byte) XOR ?n)"
    unfolding crc_update_byte using Cons.IH Cons.prems by simp
  also have "(crc_bit ^^ 8) (?r XOR ucast byte) XOR ?n = (crc_bit ^^ 8) (?r XOR word_of_nat (nat_of_le (byte # bs)))"
    unfolding w crc_bits_xor [of 8 "?r XOR ucast byte"] p ..
  finally show ?case unfolding list.size(4) add_mult_distrib2 funpow_add comp_apply by (simp only: One_nat_def [symmetric] mult_1_right)
qed

text \<open>
  C34. A change that is confined to four consecutive bytes, whatever the bytes before and after it and
  whatever it does to the four, always changes the CRC.
\<close>

theorem crc32_detects_bursts:
  assumes "length xs = length ys" and "length xs \<le> 4" and "xs \<noteq> ys"
  shows "crc32 (before @ xs @ after) \<noteq> crc32 (before @ ys @ after)"
proof
  assume "crc32 (before @ xs @ after) = crc32 (before @ ys @ after)"
  then have "crc_register (crc_update crc_new (before @ xs @ after)) =
      crc_register (crc_update crc_new (before @ ys @ after))"
    by (simp add: crc32_def crc_finish_def)
  then have "crc_register (crc_update (crc_update crc_new before) xs) =
      crc_register (crc_update (crc_update crc_new before) ys)"
    unfolding crc_update_append by (rule crc_update_inj)
  then have "(crc_bit ^^ (8 * length ys)) (crc_register (crc_update crc_new before) XOR word_of_nat (nat_of_le xs)) =
      (crc_bit ^^ (8 * length ys)) (crc_register (crc_update crc_new before) XOR word_of_nat (nat_of_le ys))"
    using assms(1,2) by (simp only: crc_update_short)
  then have w: "word_of_nat (nat_of_le xs) = (word_of_nat (nat_of_le ys) :: u32)"
    by (rule xor_cancel_left [OF crc_bits_inj])
  have "nat_of_le zs < 2 ^ 32" if "length zs \<le> 4" for zs
    using nat_of_le_bound [of zs] that power_increasing [of "length zs" 4 "256 :: nat"] by simp
  then have "nat_of_le xs = nat_of_le ys"
    using w assms(1,2) by (simp add: word_unat_eq_iff unat_of_nat)
  then show False using assms(1,3) le_of_nat_of_le [of xs] le_of_nat_of_le [of ys] by simp
qed

theorem crc32_detects_bursts_witness:
  "crc32 ([1] @ [2, 3] @ [4]) \<noteq> crc32 ([1] @ [3, 2] @ [4])"
  using crc32_detects_bursts [of "[2, 3]" "[3, 2]" "[1]" "[4]"] by simp

end
