(* ===== verification/Uuid_Text.thy ===== *)
theory Uuid_Text
  imports Nvx_Prelude
begin

text \<open>
  UUIDs (\<^verbatim>\<open>uuid.rs\<close>): their bytes, the layout of EFI GUIDs, and their one text form. An array of 16
  bytes is a list of that length, which \<^term>\<open>uuid_wf\<close> states and every operation keeps.
\<close>

unbundle bit_operations_syntax

section \<open>Operations\<close>

definition hyphens :: "usize list" where
  "hyphens = [8, 13, 18, 23]"

definition text_len :: usize where
  "text_len = 36"

datatype uuid = Uuid (as_bytes: bytes)

definition uuid_nil :: uuid where
  "uuid_nil = Uuid (replicate 16 0)"

definition swap_groups :: "bytes \<Rightarrow> bytes" where
  "swap_groups bs =
     (case bs of
        [a, b, c, d, e, f, g, h, i, j, k, l, m, n, q, p] \<Rightarrow> [d, c, b, a, f, e, h, g, i, j, k, l, m, n, q, p]
      | _ \<Rightarrow> bs)"

definition from_bytes_le :: "bytes \<Rightarrow> uuid" where
  "from_bytes_le bs = Uuid (swap_groups bs)"

definition to_bytes_le :: "uuid \<Rightarrow> bytes" where
  "to_bytes_le u = swap_groups (as_bytes u)"

definition is_nil :: "uuid \<Rightarrow> bool" where
  "is_nil u \<longleftrightarrow> u = uuid_nil"

text \<open>The value of a lowercase hexadecimal digit.\<close>

definition digit_value :: "u8 \<Rightarrow> u8 option" where
  "digit_value digit =
     (if 0x30 \<le> digit \<and> digit \<le> 0x39 then Some (digit - 0x30)
      else if 0x61 \<le> digit \<and> digit \<le> 0x66 then Some (digit - 0x61 + 10)
      else None)"

text \<open>Two digits make a byte, for as many bytes as the array has.\<close>

fun take_bytes :: "usize \<Rightarrow> u8 option list \<Rightarrow> bytes option" where
  "take_bytes 0 digits = Some []"
| "take_bytes (Suc n) (Some high # Some low # digits) =
     (case take_bytes n digits of
        None \<Rightarrow> None
      | Some bs \<Rightarrow> Some ((push_bit 4 high OR low) # bs))"
| "take_bytes (Suc n) digits = None"

definition uuid_parse :: "bytes \<Rightarrow> uuid option" where
  "uuid_parse text =
     (if length text \<noteq> text_len \<or> list_ex (\<lambda>offset. text ! offset \<noteq> 0x2d) hyphens then None
      else map_option Uuid (take_bytes 16
        (map (\<lambda>(_, digit). digit_value digit)
          (filter (\<lambda>(offset, _). \<not> List.member hyphens offset) (enumerate 0 text)))))"

text \<open>\<^verbatim>\<open>{byte:02x}\<close>: two lowercase digits.\<close>

definition hex_digit :: "u8 \<Rightarrow> u8" where
  "hex_digit n = (if n < 10 then 0x30 + n else 0x61 + (n - 10))"

definition hex_byte :: "u8 \<Rightarrow> bytes" where
  "hex_byte b = [hex_digit (drop_bit 4 b), hex_digit (b AND 0xf)]"

definition uuid_display :: "uuid \<Rightarrow> bytes" where
  "uuid_display u = concat (map (\<lambda>(index, byte).
     (if List.member [4, 6, 8, 10] index then [0x2d] else []) @ hex_byte byte)
     (enumerate 0 (as_bytes u)))"

section \<open>Layouts\<close>

definition uuid_wf :: "uuid \<Rightarrow> bool" where
  "uuid_wf u \<longleftrightarrow> length (as_bytes u) = 16"

lemma length_16_cases:
  assumes "length bs = 16"
  obtains a b c d e f g h i j k l m n q p where "bs = [a, b, c, d, e, f, g, h, i, j, k, l, m, n, q, p]"
  using assms by (auto simp: numeral_eq_Suc length_Suc_conv)

lemma length_swap_groups [simp]: "length bs = 16 \<Longrightarrow> length (swap_groups bs) = 16"
  by (erule length_16_cases) (simp add: swap_groups_def)

lemma swap_groups_swap [simp]: "length bs = 16 \<Longrightarrow> swap_groups (swap_groups bs) = bs"
  by (erule length_16_cases) (simp add: swap_groups_def)

lemma uuid_wf_le: "length bs = 16 \<Longrightarrow> uuid_wf (from_bytes_le bs)"
  by (simp add: uuid_wf_def from_bytes_le_def)

lemma to_from_bytes_le: "length bs = 16 \<Longrightarrow> to_bytes_le (from_bytes_le bs) = bs"
  by (simp add: to_bytes_le_def from_bytes_le_def)

lemma from_to_bytes_le: "uuid_wf u \<Longrightarrow> from_bytes_le (to_bytes_le u) = u"
  by (cases u) (simp add: to_bytes_le_def from_bytes_le_def uuid_wf_def)

section \<open>Text\<close>

lemma hex_digits:
  "digit_value d = Some v \<longleftrightarrow> v < 16 \<and> d = hex_digit v"
proof
  assume "digit_value d = Some v"
  then consider "0x30 \<le> d" "d \<le> 0x39" "v = d - 0x30" | "0x61 \<le> d" "d \<le> 0x66" "v = d - 0x61 + 10"
    by (auto simp: digit_value_def split: if_splits)
  then show "v < 16 \<and> d = hex_digit v"
  proof cases
    case 1
    then have "unat v = unat d - 48" by (simp add: word_le_nat_alt unat_sub_no_wrap)
    with 1 show ?thesis by (simp add: hex_digit_def word_less_nat_alt word_le_nat_alt)
  next
    case 2
    then have u: "unat (d - 0x61) = unat d - 97" by (simp add: word_le_nat_alt unat_sub_no_wrap)
    then have "unat v = unat d - 87" using 2 unat_add_no_wrap [of "d - 0x61" 10] by (simp add: word_le_nat_alt)
    moreover have "97 \<le> unat d" "unat d \<le> 102" using 2 by (simp_all add: word_le_nat_alt)
    ultimately have "\<not> unat v < 10" "unat v < 16" by linarith+
    with 2 show ?thesis by (simp add: hex_digit_def word_less_nat_alt)
  qed
next
  assume v: "v < 16 \<and> d = hex_digit v"
  show "digit_value d = Some v"
  proof (cases "v < 10")
    case True
    then have "unat (0x30 + v) = 48 + unat v" using unat_add_no_wrap [of "0x30" v] by (simp add: word_less_nat_alt)
    with True v show ?thesis by (simp add: digit_value_def hex_digit_def word_less_nat_alt word_le_nat_alt)
  next
    case False
    have l: "unat v < 16" using v by (simp add: word_less_nat_alt)
    then have "unat (0x57 + v) = 87 + unat v" using unat_add_no_wrap [of "0x57" v] by simp
    moreover have "0x61 + (v - 10) = 0x57 + v" by simp
    ultimately have "unat (0x61 + (v - 10)) = 87 + unat v" by (simp only:)
    with False v show ?thesis by (simp add: digit_value_def hex_digit_def word_less_nat_alt word_le_nat_alt)
  qed
qed

lemma and_nibble: "b AND 0xf = take_bit 4 b" for b :: u8
  by (simp add: take_bit_eq_mask mask_eq_exp_minus_1)

lemma nibble_bit: "b < 16 \<Longrightarrow> bit b m \<Longrightarrow> m < 4" for b :: u8
proof -
  assume b: "b < 16" "bit b m"
  from b(1) have "unat b < 2 ^ 4" by (simp add: word_less_nat_alt)
  then have "take_bit 4 b = b"
    by (simp only: word_unat_eq_iff unsigned_take_bit_eq take_bit_nat_eq_self)
  with b(2) show ?thesis by (metis bit_take_bit_iff)
qed

lemma nibbles:
  fixes high low :: u8
  assumes "high < 16" "low < 16"
  shows "drop_bit 4 (push_bit 4 high OR low) = high" "(push_bit 4 high OR low) AND 0xf = low"
  unfolding and_nibble
  by (intro bit_word_eqI; auto simp: bit_simps dest: nibble_bit [OF assms(1)] nibble_bit [OF assms(2)])+

lemma byte_nibbles: "push_bit 4 (drop_bit 4 b) OR (b AND 0xf) = b" "drop_bit 4 b < 16" "b AND 0xf < 16" for b :: u8
proof -
  show "push_bit 4 (drop_bit 4 b) OR (b AND 0xf) = b"
    unfolding and_nibble by (rule bit_word_eqI) (auto simp: bit_simps)
  have "unat b < 256" using unat_bound [of b] by simp
  then show "drop_bit 4 b < 16"
    by (simp add: word_less_nat_alt drop_bit_eq_div unat_div)
  show "b AND 0xf < 16"
    unfolding and_nibble by (simp add: word_less_nat_alt take_bit_eq_mod unat_mod)
qed

lemma hex_byte_digits:
  "hex_byte b = [c, d] \<longleftrightarrow> digit_value c = Some (drop_bit 4 b) \<and> digit_value d = Some (b AND 0xf)"
  using byte_nibbles [of b] by (auto simp: hex_byte_def hex_digits)

lemma take_bytes_Suc:
  "take_bytes (Suc n) (digit_value c # digit_value d # ds) = Some bs \<longleftrightarrow>
     (\<exists>b bs'. bs = b # bs' \<and> hex_byte b = [c, d] \<and> take_bytes n ds = Some bs')"
proof (cases "digit_value c")
  case None
  then show ?thesis by (simp add: hex_byte_digits)
next
  case (Some high)
  show ?thesis
  proof (cases "digit_value d")
    case None
    then show ?thesis using Some by (simp add: hex_byte_digits)
  next
    case low: (Some low)
    have "high < 16" "low < 16" using Some low by (auto simp: hex_digits)
    then have "hex_byte b = [c, d] \<longleftrightarrow> b = push_bit 4 high OR low" for b
      unfolding hex_byte_digits Some low using nibbles [of high low] byte_nibbles [of b] by auto
    then show ?thesis by (auto simp: Some low split: option.splits)
  qed
qed

lemma take_bytes_digits:
  "length cs = 2 * n \<Longrightarrow>
     take_bytes n (map digit_value cs) = Some bs \<longleftrightarrow> length bs = n \<and> cs = concat (map hex_byte bs)"
proof (induction n arbitrary: cs bs)
  case 0
  then show ?case by auto
next
  case (Suc n)
  then obtain c d ds where cs: "cs = c # d # ds" "length ds = 2 * n"
    by (auto simp: length_Suc_conv)
  have "c # d # ds = hex_byte b @ rest \<longleftrightarrow> hex_byte b = [c, d] \<and> ds = rest" for b rest
    by (auto simp: hex_byte_def)
  then show ?case
    unfolding cs(1) list.map take_bytes_Suc Suc.IH [OF cs(2)]
    by (cases bs) auto
qed

text \<open>The text without its hyphens.\<close>

definition without_hyphens :: "bytes \<Rightarrow> bytes" where
  "without_hyphens text = map snd (filter (\<lambda>(offset, _). \<not> List.member hyphens offset) (enumerate 0 text))"

lemma without_hyphens_nth:
  "length text = text_len \<Longrightarrow>
     without_hyphens text = map ((!) text) (filter (\<lambda>i. \<not> List.member hyphens i) [0..<36])"
proof -
  assume "length text = text_len"
  then have "enumerate 0 text = map (\<lambda>i. (i, text ! i)) [0..<36]"
    by (simp add: text_len_def enumerate_eq_zip list_eq_iff_nth_eq)
  then show ?thesis by (simp add: without_hyphens_def filter_map comp_def)
qed

lemma digit_offsets:
  "filter (\<lambda>i. \<not> List.member hyphens i) [0..<36] =
     [0, 1, 2, 3, 4, 5, 6, 7, 9, 10, 11, 12, 14, 15, 16, 17, 19, 20, 21, 22,
      24, 25, 26, 27, 28, 29, 30, 31, 32, 33, 34, 35]"
  by code_simp

lemma text_offsets: "[0..<36] = [0, 1, 2, 3, 4, 5, 6, 7, 8, 9, 10, 11, 12, 13, 14, 15, 16, 17, 18, 19, 20,
    21, 22, 23, 24, 25, 26, 27, 28, 29, 30, 31, 32, 33, 34, 35]"
  by code_simp

lemma display_groups:
  assumes "length bs = 16" and "length text = text_len"
  shows "(\<forall>h \<in> set hyphens. text ! h = 0x2d) \<and> without_hyphens text = concat (map hex_byte bs) \<longleftrightarrow>
    text = uuid_display (Uuid bs)"
proof -
  have "text = map ((!) text) [0..<36]"
    using map_nth [of "text"] assms(2) by (simp only: text_len_def)
  then have t: "text = uuid_display (Uuid bs) \<longleftrightarrow> map ((!) text) [0..<36] = uuid_display (Uuid bs)" by simp
  show ?thesis
    unfolding t without_hyphens_nth [OF assms(2)] digit_offsets text_offsets
    using assms(1)
    by (elim length_16_cases) (auto simp: uuid_display_def hyphens_def hex_byte_def)
qed

text \<open>
  C40. A text parses to a UUID exactly when it is the text that the UUID displays, so that each UUID has
  exactly one text and each text that is accepted comes back unchanged.
\<close>

theorem uuid_text_exact:
  "uuid_parse text = Some u \<longleftrightarrow> uuid_wf u \<and> text = uuid_display u"
proof -
  obtain bs where u: "u = Uuid bs" by (cases u)
  have d: "length (uuid_display (Uuid bs)) = text_len" if "length bs = 16"
    using that by (elim length_16_cases) (simp add: uuid_display_def hex_byte_def text_len_def)
  have w: "length (without_hyphens text) = 2 * 16" if "length text = text_len"
    unfolding without_hyphens_nth [OF that] digit_offsets by simp
  have "uuid_parse text = Some u \<longleftrightarrow> length text = text_len \<and> (\<forall>h \<in> set hyphens. text ! h = 0x2d) \<and>
      take_bytes 16 (map digit_value (without_hyphens text)) = Some bs"
    by (auto simp: uuid_parse_def u without_hyphens_def list_ex_iff comp_def split_def)
  also have "\<dots> \<longleftrightarrow> length text = text_len \<and> (\<forall>h \<in> set hyphens. text ! h = 0x2d) \<and> length bs = 16 \<and>
      without_hyphens text = concat (map hex_byte bs)"
    using take_bytes_digits [of "without_hyphens text" 16 bs] w by auto
  also have "\<dots> \<longleftrightarrow> length text = text_len \<and> length bs = 16 \<and> text = uuid_display (Uuid bs)"
    using display_groups by blast
  finally show ?thesis using d by (auto simp: u uuid_wf_def)
qed

end
