(* ===== verification/Gpt_Disk.thy ===== *)
theory Gpt_Disk
  imports Gpt_Crc Uuid_Text
begin

text \<open>
  The reader of GPT disks (\<^verbatim>\<open>gpt/mod.rs\<close>, \<^verbatim>\<open>gpt/error.rs\<close>, \<^verbatim>\<open>gpt/source.rs\<close>). The disk is a function that
  reads bytes at an offset, so that files and devices, whose reads are the operating system's, are
  sources like the bytes in memory that the crate itself provides. An index out of range and an
  arithmetic overflow, which panic, are results of their own.
\<close>

section \<open>Sources\<close>

type_synonym 'io read_at = "u64 \<Rightarrow> usize \<Rightarrow> ('io, bytes) result"

datatype io_error = UnexpectedEof

definition slice_read_exact_at :: "bytes \<Rightarrow> io_error read_at" where
  "slice_read_exact_at bs offset n =
     (case checked_add_usize (unat offset) n of
        None \<Rightarrow> Inl UnexpectedEof
      | Some j \<Rightarrow> ok_or UnexpectedEof (get_range bs (unat offset) j))"

section \<open>Errors\<close>

datatype 'io gpt_error =
  Io 'io
| LogicalBlockSize u32
| DiskSize u64 u32
| MbrSignature
| NoProtectiveRecord
| ProtectiveRecordStart u32
| MbrRecords
| BadSignature
| Revision u32
| HeaderSize u32
| HeaderCrc u32 u32
| HeaderReserved u32
| MyLba u64
| EntrySize u32
| EntryCount u32
| EntryArrayLba u64
| FirstUsableLba u64
| LastUsableLba u64
| AlternateLba u64
| NilDiskGuid
| EntryArrayCrc u32 u32
| Hole u32 u32
| PartitionCount usize
| Extent u8 u64 u64
| NilPartitionGuid u8
| DuplicateGuid u8
| Overlap u8 u8
| DiskGuidMismatch uuid uuid
| PartitionCountMismatch usize usize
| PartitionGuidMismatch u8 uuid uuid
| PartitionSizeMismatch u8 u64 u64
| FirstPartitionTooLarge u64 usize

datatype 'io stop = Fails "'io gpt_error" | Panics

type_synonym ('io, 'a) read_result = "('io stop, 'a) result"

definition or_panic :: "'a option \<Rightarrow> ('io, 'a) read_result" where
  "or_panic r = ok_or Panics r"

definition index_range :: "bytes \<Rightarrow> usize \<Rightarrow> usize \<Rightarrow> ('io, bytes) read_result" where
  "index_range bs i j = or_panic (get_range bs i j)"

definition read_exact :: "'io read_at \<Rightarrow> u64 \<Rightarrow> usize \<Rightarrow> ('io, bytes) read_result" where
  "read_exact source offset n = (case source offset n of Inl e \<Rightarrow> Inl (Fails (Io e)) | Inr bs \<Rightarrow> Inr bs)"

section \<open>Constants\<close>

definition min_logical_block_size :: u32 where "min_logical_block_size = 512"

definition max_logical_block_size :: u32 where "max_logical_block_size = 64 * 1024"

definition gpt_entry_size :: u32 where "gpt_entry_size = 128"

definition max_entry_array_bytes :: u32 where "max_entry_array_bytes = 1024 * 1024"

definition min_partitions :: usize where "min_partitions = 2"

definition max_partitions :: usize where "max_partitions = 255"

definition mbr_size :: usize where "mbr_size = 512"

definition mbr_records_offset :: usize where "mbr_records_offset = 446"

definition mbr_record_size :: usize where "mbr_record_size = 16"

definition mbr_signature_offset :: usize where "mbr_signature_offset = 510"

definition mbr_signature :: bytes where "mbr_signature = [0x55, 0xAA]"

definition mbr_record_type_offset :: usize where "mbr_record_type_offset = 4"

definition mbr_record_start_offset :: usize where "mbr_record_start_offset = 8"

definition protective_type :: u8 where "protective_type = 0xEE"

definition primary_header_lba :: u64 where "primary_header_lba = 1"

definition gpt_signature :: bytes where
  "gpt_signature = [0x45, 0x46, 0x49, 0x20, 0x50, 0x41, 0x52, 0x54]"

definition gpt_revision :: u32 where "gpt_revision = 0x00010000"

definition header_fields_size :: u32 where "header_fields_size = 92"

section \<open>Fields\<close>

definition gpt_u32_at :: "bytes \<Rightarrow> usize \<Rightarrow> ('io, u32) read_result" where
  "gpt_u32_at bs offset = and_then (index_range bs offset (offset + 4)) (\<lambda>field. Inr (from_le_bytes field))"

definition gpt_u64_at :: "bytes \<Rightarrow> usize \<Rightarrow> ('io, u64) read_result" where
  "gpt_u64_at bs offset = and_then (index_range bs offset (offset + 8)) (\<lambda>field. Inr (from_le_bytes field))"

definition guid_at :: "bytes \<Rightarrow> usize \<Rightarrow> ('io, uuid) read_result" where
  "guid_at bs offset = and_then (index_range bs offset (offset + 16)) (\<lambda>field. Inr (from_bytes_le field))"

section \<open>Geometry\<close>

definition is_power_of_two :: "'a::len word \<Rightarrow> bool" where
  "is_power_of_two w \<longleftrightarrow> w \<noteq> 0 \<and> w AND (w - 1) = 0"

record geometry =
  geo_block_size :: u64
  geo_blocks :: u64

definition geometry_new :: "u32 \<Rightarrow> u64 \<Rightarrow> ('io, geometry) read_result" where
  "geometry_new logical_block_size disk_size =
     (if \<not> is_power_of_two logical_block_size \<or>
         \<not> (min_logical_block_size \<le> logical_block_size \<and> logical_block_size \<le> max_logical_block_size)
      then Inl (Fails (LogicalBlockSize logical_block_size))
      else
        (let block_size = ucast logical_block_size;
             blocks = disk_size div block_size
         in if disk_size mod block_size \<noteq> 0 \<or> blocks \<le> primary_header_lba
            then Inl (Fails (DiskSize disk_size logical_block_size))
            else Inr \<lparr>geo_block_size = block_size, geo_blocks = blocks\<rparr>))"

definition checked_sub :: "'a::len word \<Rightarrow> 'a word \<Rightarrow> 'a word option" where
  "checked_sub a b = (if b \<le> a then Some (a - b) else None)"

definition geometry_last_lba :: "geometry \<Rightarrow> ('io, u64) read_result" where
  "geometry_last_lba g = or_panic (checked_sub (geo_blocks g) 1)"

definition geometry_bytes :: "geometry \<Rightarrow> u64 \<Rightarrow> u64 option" where
  "geometry_bytes g blocks = checked_mul blocks (geo_block_size g)"

section \<open>The protective record\<close>

fun position :: "('a \<Rightarrow> bool) \<Rightarrow> 'a list \<Rightarrow> usize option" where
  "position p [] = None"
| "position p (x # xs) = (if p x then Some 0 else map_option Suc (position p xs))"

fun chunks_exact :: "usize \<Rightarrow> 'a list \<Rightarrow> 'a list list" where
  "chunks_exact n xs = (if n = 0 \<or> length xs < n then [] else take n xs # chunks_exact n (drop n xs))"

declare chunks_exact.simps [simp del]

definition check_protective_mbr :: "'io read_at \<Rightarrow> ('io, unit) read_result" where
  "check_protective_mbr source =
     and_then (read_exact source 0 mbr_size) (\<lambda>mbr.
     and_then (index_range mbr mbr_signature_offset (length mbr)) (\<lambda>signature.
     if signature \<noteq> mbr_signature then Inl (Fails MbrSignature)
     else
       and_then (index_range mbr mbr_records_offset mbr_signature_offset) (\<lambda>area.
       let records = chunks_exact mbr_record_size area
       in case position (\<lambda>r. r ! mbr_record_type_offset = protective_type) records of
            None \<Rightarrow> Inl (Fails NoProtectiveRecord)
          | Some protective \<Rightarrow>
              and_then (gpt_u32_at (records ! protective) mbr_record_start_offset) (\<lambda>start.
              if (ucast start :: u64) \<noteq> primary_header_lba then Inl (Fails (ProtectiveRecordStart start))
              else if list_ex (\<lambda>(index, r). index \<noteq> protective \<and> list_ex (\<lambda>byte. byte \<noteq> 0) r)
                        (enumerate 0 records)
              then Inl (Fails MbrRecords)
              else Inr ()))))"

section \<open>The header\<close>

record gpt_header =
  gh_first_usable_lba :: u64
  gh_last_usable_lba :: u64
  gh_disk_guid :: uuid
  gh_entry_array_offset :: u64
  gh_entry_array_size :: usize
  gh_entry_array_crc :: u32

definition div_ceil :: "u64 \<Rightarrow> u64 \<Rightarrow> u64" where
  "div_ceil a b = a div b + (if a mod b \<noteq> 0 then 1 else 0)"

text \<open>The identity of the header: its signature, revision, size, CRC, reserved field and own LBA.\<close>

definition check_header_identity :: "geometry \<Rightarrow> bytes \<Rightarrow> ('io, unit) read_result" where
  "check_header_identity g block =
     and_then (index_range block 0 8) (\<lambda>signature.
     if signature \<noteq> gpt_signature then Inl (Fails BadSignature)
     else and_then (gpt_u32_at block 8) (\<lambda>revision.
     if revision \<noteq> gpt_revision then Inl (Fails (Revision revision))
     else and_then (gpt_u32_at block 12) (\<lambda>header_size.
     if \<not> (header_fields_size \<le> header_size \<and> header_size \<le> ucast (geo_block_size g))
     then Inl (Fails (HeaderSize header_size))
     else and_then (gpt_u32_at block 16) (\<lambda>stored.
     and_then (index_range block 0 16) (\<lambda>before.
     and_then (index_range block 20 (unat header_size)) (\<lambda>after.
     let computed = crc_finish (crc_update (crc_update (crc_update crc_new before) (replicate 4 0)) after)
     in if stored \<noteq> computed then Inl (Fails (HeaderCrc stored computed))
     else and_then (gpt_u32_at block 20) (\<lambda>reserved.
     if reserved \<noteq> 0 then Inl (Fails (HeaderReserved reserved))
     else and_then (gpt_u64_at block 24) (\<lambda>my_lba.
     if my_lba \<noteq> primary_header_lba then Inl (Fails (MyLba my_lba))
     else Inr ()))))))))"

text \<open>The size in bytes and the blocks of the entry array that the header describes.\<close>

definition check_entry_array :: "geometry \<Rightarrow> u64 \<Rightarrow> bytes \<Rightarrow> ('io, u64 \<times> u64 \<times> u64) read_result" where
  "check_entry_array g last_lba block =
     and_then (gpt_u32_at block 84) (\<lambda>entry_size.
     if entry_size \<noteq> gpt_entry_size then Inl (Fails (EntrySize entry_size))
     else and_then (gpt_u32_at block 80) (\<lambda>entry_count.
     and_then (or_panic (checked_mul (ucast entry_count) (ucast gpt_entry_size))) (\<lambda>entry_array_size.
     if entry_count = 0 \<or> entry_array_size > ucast max_entry_array_bytes
     then Inl (Fails (EntryCount entry_count))
     else and_then (gpt_u64_at block 72) (\<lambda>entry_lba.
     case checked_add entry_lba (div_ceil entry_array_size (geo_block_size g)) of
       None \<Rightarrow> Inl (Fails (EntryArrayLba entry_lba))
     | Some entry_end \<Rightarrow>
         if entry_lba > primary_header_lba \<and> entry_end \<le> last_lba
         then Inr (entry_array_size, entry_lba, entry_end)
         else Inl (Fails (EntryArrayLba entry_lba))))))"

text \<open>The usable blocks and the disk's GUID.\<close>

definition check_usable :: "u64 \<Rightarrow> u64 \<Rightarrow> bytes \<Rightarrow> ('io, u64 \<times> u64 \<times> uuid) read_result" where
  "check_usable last_lba entry_end block =
     and_then (gpt_u64_at block 40) (\<lambda>first_usable_lba.
     if first_usable_lba < entry_end then Inl (Fails (FirstUsableLba first_usable_lba))
     else and_then (gpt_u64_at block 48) (\<lambda>last_usable_lba.
     if last_usable_lba < first_usable_lba \<or> last_usable_lba \<ge> last_lba
     then Inl (Fails (LastUsableLba last_usable_lba))
     else and_then (gpt_u64_at block 32) (\<lambda>alternate_lba.
     if alternate_lba \<le> last_usable_lba \<or> alternate_lba > last_lba
     then Inl (Fails (AlternateLba alternate_lba))
     else and_then (guid_at block 56) (\<lambda>disk_guid.
     if is_nil disk_guid then Inl (Fails NilDiskGuid)
     else Inr (first_usable_lba, last_usable_lba, disk_guid)))))"

text \<open>
  The disk's last LBA is bound once, before the checks that compare with it.
\<close>

definition read_header :: "'io read_at \<Rightarrow> geometry \<Rightarrow> ('io, gpt_header) read_result" where
  "read_header source g =
     and_then (read_exact source (geo_block_size g) (unat (geo_block_size g))) (\<lambda>block.
     and_then (check_header_identity g block) (\<lambda>_.
     and_then (geometry_last_lba g) (\<lambda>last_lba.
     and_then (check_entry_array g last_lba block) (\<lambda>(entry_array_size, entry_lba, entry_end).
     and_then (check_usable last_lba entry_end block) (\<lambda>(first_usable_lba, last_usable_lba, disk_guid).
     and_then (ok_or (Fails (EntryArrayLba entry_lba)) (geometry_bytes g entry_lba)) (\<lambda>entry_array_offset.
     and_then (gpt_u32_at block 88) (\<lambda>entry_array_crc.
     Inr \<lparr>gh_first_usable_lba = first_usable_lba, gh_last_usable_lba = last_usable_lba,
       gh_disk_guid = disk_guid, gh_entry_array_offset = entry_array_offset,
       gh_entry_array_size = unat entry_array_size, gh_entry_array_crc = entry_array_crc\<rparr>)))))))"

section \<open>Partitions\<close>

record partition =
  pt_number :: u8
  pt_type_guid :: uuid
  pt_unique_guid :: uuid
  pt_attributes :: u64
  pt_first_lba :: u64
  pt_last_lba :: u64
  pt_offset :: u64
  pt_size :: u64

text \<open>The number of used entries, which no unused entry precedes.\<close>

fun count_used :: "bytes list \<Rightarrow> u32 \<Rightarrow> usize \<Rightarrow> u32 option \<Rightarrow> ('io, usize) read_result" where
  "count_used [] number used unused = Inr used"
| "count_used (raw # entries) number used unused =
     and_then (guid_at raw 0) (\<lambda>type_guid.
     if is_nil type_guid
     then count_used entries (number + 1) used (case unused of None \<Rightarrow> Some number | Some u \<Rightarrow> Some u)
     else (case unused of
             Some u \<Rightarrow> Inl (Fails (Hole u number))
           | None \<Rightarrow> count_used entries (number + 1) (used + 1) unused))"

definition read_partition ::
  "geometry \<Rightarrow> gpt_header \<Rightarrow> uuid list \<Rightarrow> u8 \<Rightarrow> bytes \<Rightarrow> ('io, partition) read_result"
where
  "read_partition g h guids number raw =
     and_then (gpt_u64_at raw 32) (\<lambda>first_lba.
     and_then (gpt_u64_at raw 40) (\<lambda>last_lba.
     if first_lba < gh_first_usable_lba h \<or> last_lba > gh_last_usable_lba h \<or> last_lba < first_lba
     then Inl (Fails (Extent number first_lba last_lba))
     else and_then (guid_at raw 16) (\<lambda>unique_guid.
     if is_nil unique_guid then Inl (Fails (NilPartitionGuid number))
     else if List.member guids unique_guid then Inl (Fails (DuplicateGuid number))
     else and_then (or_panic (checked_sub last_lba first_lba)) (\<lambda>span.
     and_then (or_panic (checked_add span 1)) (\<lambda>count.
     case (geometry_bytes g first_lba, geometry_bytes g count) of
       (Some offset, Some span_bytes) \<Rightarrow>
         and_then (guid_at raw 0) (\<lambda>type_guid.
         and_then (gpt_u64_at raw 48) (\<lambda>attributes.
         Inr \<lparr>pt_number = number, pt_type_guid = type_guid, pt_unique_guid = unique_guid,
           pt_attributes = attributes, pt_first_lba = first_lba, pt_last_lba = last_lba,
           pt_offset = offset, pt_size = span_bytes\<rparr>))
     | _ \<Rightarrow> Inl (Fails (Extent number first_lba last_lba)))))))"

fun read_entries ::
  "geometry \<Rightarrow> gpt_header \<Rightarrow> (u8 \<times> bytes) list \<Rightarrow> uuid list \<Rightarrow> partition list \<Rightarrow> ('io, partition list) read_result"
where
  "read_entries g h [] guids partitions = Inr partitions"
| "read_entries g h ((number, raw) # entries) guids partitions =
     and_then (read_partition g h guids number raw) (\<lambda>p.
     read_entries g h entries (guids @ [pt_unique_guid p]) (partitions @ [p]))"

fun first_overlap :: "partition list \<Rightarrow> (u8 \<times> u8) option" where
  "first_overlap (a # b # ps) =
     (if pt_first_lba b \<le> pt_last_lba a
      then Some (min (pt_number a) (pt_number b), max (pt_number a) (pt_number b))
      else first_overlap (b # ps))"
| "first_overlap ps = None"

text \<open>
  The sort of the sources keeps no order of partitions that start at the same block; the model's is one
  of the orders that it may return, and such partitions overlap in all of them.
\<close>

definition read_partitions :: "'io read_at \<Rightarrow> geometry \<Rightarrow> gpt_header \<Rightarrow> ('io, partition list) read_result" where
  "read_partitions source g h =
     and_then (read_exact source (gh_entry_array_offset h) (gh_entry_array_size h)) (\<lambda>array.
     let computed = crc32 array
     in if computed \<noteq> gh_entry_array_crc h then Inl (Fails (EntryArrayCrc (gh_entry_array_crc h) computed))
     else
       let entries = chunks_exact (unat gpt_entry_size) array
       in and_then (count_used entries 1 0 None) (\<lambda>used.
       if \<not> (min_partitions \<le> used \<and> used \<le> max_partitions) then Inl (Fails (PartitionCount used))
       else and_then (read_entries g h (zip (map word_of_nat [1..<256]) (take used entries)) [gh_disk_guid h] [])
         (\<lambda>partitions.
       case first_overlap (sort_key pt_first_lba partitions) of
         Some (first, second) \<Rightarrow> Inl (Fails (Overlap first second))
       | None \<Rightarrow> Inr partitions)))"

section \<open>Disks\<close>

record expected_partition =
  xp_unique_guid :: "uuid option"
  xp_size :: "u64 option"

record expected =
  ex_disk_guid :: "uuid option"
  ex_partitions :: "expected_partition list option"

record disk =
  dk_logical_block_size :: u32
  dk_size :: u64
  dk_guid :: uuid
  dk_partitions :: "partition list"

fun check_partitions :: "(expected_partition \<times> partition) list \<Rightarrow> ('io, unit) read_result" where
  "check_partitions [] = Inr ()"
| "check_partitions ((x, p) # rest) =
     and_then
       (case xp_unique_guid x of
          Some guid \<Rightarrow>
            if guid \<noteq> pt_unique_guid p
            then Inl (Fails (PartitionGuidMismatch (pt_number p) guid (pt_unique_guid p)))
            else Inr ()
        | None \<Rightarrow> Inr ()) (\<lambda>_.
     and_then
       (case xp_size x of
          Some expected_size \<Rightarrow>
            if expected_size \<noteq> pt_size p then Inl (Fails (PartitionSizeMismatch (pt_number p) expected_size (pt_size p)))
            else Inr ()
        | None \<Rightarrow> Inr ()) (\<lambda>_.
     check_partitions rest))"

definition check_expected :: "expected \<Rightarrow> disk \<Rightarrow> ('io, unit) read_result" where
  "check_expected x d =
     and_then
       (case ex_disk_guid x of
          Some guid \<Rightarrow> if guid \<noteq> dk_guid d then Inl (Fails (DiskGuidMismatch guid (dk_guid d))) else Inr ()
        | None \<Rightarrow> Inr ()) (\<lambda>_.
     case ex_partitions x of
       None \<Rightarrow> Inr ()
     | Some ps \<Rightarrow>
         if length ps \<noteq> length (dk_partitions d)
         then Inl (Fails (PartitionCountMismatch (length ps) (length (dk_partitions d))))
         else check_partitions (zip ps (dk_partitions d)))"

definition disk_read :: "'io read_at \<Rightarrow> u32 \<Rightarrow> u64 \<Rightarrow> expected \<Rightarrow> ('io, disk) read_result" where
  "disk_read source logical_block_size disk_size x =
     and_then (geometry_new logical_block_size disk_size) (\<lambda>g.
     and_then (check_protective_mbr source) (\<lambda>_.
     and_then (read_header source g) (\<lambda>h.
     and_then (read_partitions source g h) (\<lambda>partitions.
     let d = \<lparr>dk_logical_block_size = logical_block_size, dk_size = disk_size,
           dk_guid = gh_disk_guid h, dk_partitions = partitions\<rparr>
     in and_then (check_expected x d) (\<lambda>_. Inr d)))))"

definition first_partition :: "disk \<Rightarrow> ('io, partition) read_result" where
  "first_partition d = (case dk_partitions d of [] \<Rightarrow> Inl Panics | p # _ \<Rightarrow> Inr p)"

definition lowers :: "disk \<Rightarrow> ('io, partition list) read_result" where
  "lowers d = (case dk_partitions d of [] \<Rightarrow> Inl Panics | _ # ps \<Rightarrow> Inr ps)"

definition is_ascii_whitespace :: "u8 \<Rightarrow> bool" where
  "is_ascii_whitespace b \<longleftrightarrow> List.member [0x20, 0x09, 0x0A, 0x0C, 0x0D] b"

definition rposition :: "('a \<Rightarrow> bool) \<Rightarrow> 'a list \<Rightarrow> usize option" where
  "rposition p xs = map_option (\<lambda>k. length xs - 1 - k) (position p (rev xs))"

definition read_first_partition :: "disk \<Rightarrow> 'io read_at \<Rightarrow> usize \<Rightarrow> ('io, bytes) read_result" where
  "read_first_partition d source bound =
     and_then (first_partition d) (\<lambda>p.
     if unat (pt_size p) > bound then Inl (Fails (FirstPartitionTooLarge (pt_size p) bound))
     else and_then (read_exact source (pt_offset p) (unat (pt_size p))) (\<lambda>bs.
     let end = (case rposition (\<lambda>b. b \<noteq> 0 \<and> \<not> is_ascii_whitespace b) bs of None \<Rightarrow> 0 | Some k \<Rightarrow> k + 1)
     in Inr (take end bs)))"

end
