(* ===== verification/Gpt_Layout.thy ===== *)
theory Gpt_Layout
  imports Gpt_Disk
begin

text \<open>
  What the reader of GPT disks guarantees of the disks that it accepts, that it never panics, and that
  it reads nothing outside the disk. The interface is a source that fills the buffers it is given,
  which bytes in memory provide and files and devices promise.
\<close>

section \<open>Sources that fill their buffers\<close>

locale exact_source =
  fixes source :: "'io read_at"
  assumes fills: "source offset n = Inr bs \<Longrightarrow> length bs = n"
begin

lemma read_exact_length: "read_exact source offset n = Inr bs \<Longrightarrow> length bs = n"
  by (auto simp: read_exact_def fills split: sum.splits)

lemma read_exact_no_panic: "read_exact source offset n \<noteq> Inl Panics"
  by (simp add: read_exact_def split: sum.splits)

end

interpretation slice: exact_source "slice_read_exact_at bs" for bs :: bytes
proof
  fix offset n and data :: bytes
  assume "slice_read_exact_at bs offset n = Inr data"
  then show "length data = n"
    by (auto simp: slice_read_exact_at_def checked_add_usize_def get_range_def split: if_splits)
qed

section \<open>Fields\<close>

lemma index_range_ok: "i \<le> j \<Longrightarrow> j \<le> length bs \<Longrightarrow> index_range bs i j = Inr (slice_at bs i j)"
  by (simp add: index_range_def or_panic_def get_range_def)

lemma gpt_field_ok:
  "offset + 4 \<le> length bs \<Longrightarrow> gpt_u32_at bs offset = Inr (from_le_bytes (slice_at bs offset (offset + 4)))"
  "offset + 8 \<le> length bs \<Longrightarrow> gpt_u64_at bs offset = Inr (from_le_bytes (slice_at bs offset (offset + 8)))"
  "offset + 16 \<le> length bs \<Longrightarrow> guid_at bs offset = Inr (from_bytes_le (slice_at bs offset (offset + 16)))"
  by (simp_all add: gpt_u32_at_def gpt_u64_at_def guid_at_def index_range_ok)

lemma or_panic_eq [simp]: "or_panic r = Inr a \<longleftrightarrow> r = Some a" "or_panic (Some b) = Inr b"
  by (simp_all add: or_panic_def)

lemma and_then_not_Inl:
  "r \<noteq> Inl e \<Longrightarrow> (\<And>a. r = Inr a \<Longrightarrow> f a \<noteq> Inl e) \<Longrightarrow> and_then r f \<noteq> Inl e"
  by (cases r) auto

lemma checked_sub_Some: "checked_sub a b = Some c \<longleftrightarrow> b \<le> a \<and> c = a - b"
  by (auto simp: checked_sub_def)

lemma chunks_exact_length: "c \<in> set (chunks_exact n xs) \<Longrightarrow> length c = n"
proof (induction n xs rule: chunks_exact.induct)
  case (1 n xs)
  from 1(2) have "\<not> (n = 0 \<or> length xs < n)" "c = take n xs \<or> c \<in> set (chunks_exact n (drop n xs))"
    by (subst (asm) chunks_exact.simps, simp split: if_splits)+
  with 1(1) show ?case by auto
qed

section \<open>Geometry\<close>

definition geometry_of :: "u32 \<Rightarrow> u64 \<Rightarrow> geometry \<Rightarrow> bool" where
  "geometry_of block_size disk_size g \<longleftrightarrow>
     unat (geo_block_size g) = unat block_size \<and> 512 \<le> unat block_size \<and> unat block_size \<le> 65536 \<and>
     unat (geo_blocks g) * unat block_size = unat disk_size \<and> 2 \<le> unat (geo_blocks g)"

lemma unat_ucast_u64: "unat (ucast (w :: u32) :: u64) = unat w"
  using unat_bound [of w] by (simp add: unsigned_ucast_eq take_bit_nat_eq_self)

lemma geometry_new_Inr:
  assumes "geometry_new block_size disk_size = Inr g"
  shows "geometry_of block_size disk_size g"
proof -
  let ?b = "ucast block_size :: u64"
  have b: "512 \<le> block_size" "block_size \<le> 65536" and g: "g = \<lparr>geo_block_size = ?b, geo_blocks = disk_size div ?b\<rparr>"
    and m: "disk_size mod ?b = 0" and n: "\<not> disk_size div ?b \<le> 1"
    using assms by (auto simp: geometry_new_def Let_def min_logical_block_size_def max_logical_block_size_def
        primary_header_lba_def split: if_splits)
  have "unat (disk_size mod ?b) = 0" using m by simp
  then have "unat disk_size mod unat block_size = 0" by (simp only: unat_mod unat_ucast_u64)
  then have "unat (disk_size div ?b) * unat block_size = unat disk_size"
    by (simp only: unat_div unat_ucast_u64) (simp add: mult.commute mod_eq_0_iff_dvd)
  then show ?thesis
    using b n by (simp add: geometry_of_def g unat_ucast_u64 word_le_nat_alt)
qed

lemma geometry_last_lba_ok:
  assumes "geometry_of block_size disk_size g"
  shows "geometry_last_lba g = Inr (geo_blocks g - 1)" "unat (geo_blocks g - 1) = unat (geo_blocks g) - 1"
proof -
  have "1 \<le> geo_blocks g" using assms by (simp add: geometry_of_def word_le_nat_alt)
  then show "geometry_last_lba g = Inr (geo_blocks g - 1)" by (simp add: geometry_last_lba_def checked_sub_def)
  show "unat (geo_blocks g - 1) = unat (geo_blocks g) - 1"
    using \<open>1 \<le> geo_blocks g\<close> by (simp add: unat_sub)
qed

lemma geometry_bytes_ok:
  assumes "geometry_of block_size disk_size g" and "unat n \<le> unat (geo_blocks g)"
  shows "\<exists>k. geometry_bytes g n = Some k \<and> unat k = unat n * unat block_size"
proof -
  have "unat n * unat block_size \<le> unat (geo_blocks g) * unat block_size" using assms(2) by simp
  also have "\<dots> < 2 ^ 64" using assms(1) unat_bound [of disk_size] by (simp add: geometry_of_def)
  finally have lt: "unat n * unat (geo_block_size g) < 2 ^ 64" using assms(1) by (simp add: geometry_of_def)
  then have "unat (n * geo_block_size g) = unat n * unat block_size"
    using assms(1) unat_mul_no_wrap [of n "geo_block_size g"] by (simp add: geometry_of_def)
  then show ?thesis using lt by (simp add: geometry_bytes_def checked_mul_def)
qed

section \<open>The header\<close>

lemma block_size_u32:
  assumes "geometry_of block_size disk_size g"
  shows "unat (ucast (geo_block_size g) :: u32) = unat (geo_block_size g)"
proof -
  have "unat (geo_block_size g) < 2 ^ 32" using assms by (simp add: geometry_of_def)
  then show ?thesis by (simp add: unsigned_ucast_eq take_bit_nat_eq_self)
qed

lemma header_identity_no_panic:
  assumes "geometry_of block_size disk_size g" and "length block = unat (geo_block_size g)"
  shows "check_header_identity g block \<noteq> Inl Panics"
proof -
  have l: "512 \<le> length block" using assms by (simp add: geometry_of_def)
  have h: "index_range block 20 (unat n) = Inr (slice_at block 20 (unat n))"
    if "header_fields_size \<le> n" "n \<le> ucast (geo_block_size g)" for n
    using that assms(2) block_size_u32 [OF assms(1)]
    by (intro index_range_ok) (simp_all add: header_fields_size_def word_le_nat_alt)
  show ?thesis
    using l by (simp add: check_header_identity_def gpt_field_ok index_range_ok h Let_def)
qed

definition array_of :: "geometry \<Rightarrow> u64 \<times> u64 \<times> u64 \<Rightarrow> bool" where
  "array_of g = (\<lambda>(n, lba, lba_end). 128 dvd unat n \<and> 0 < unat n \<and> unat n \<le> 1048576 \<and> 2 \<le> unat lba \<and>
     unat lba * unat (geo_block_size g) + unat n \<le> unat lba_end * unat (geo_block_size g) \<and>
     unat lba < unat lba_end \<and> unat lba_end < unat (geo_blocks g))"

lemma div_ceil_eq:
  assumes "0 < unat b"
  shows "unat (div_ceil a b) = unat a div unat b + (if unat a mod unat b = 0 then 0 else 1)"
proof -
  have q: "unat (a div b) = unat a div unat b" by (rule unat_div)
  have m: "a mod b = 0 \<longleftrightarrow> unat a mod unat b = 0" by (metis unat_eq_0 unat_mod)
  show ?thesis
  proof (cases "a mod b = 0")
    case False
    then have "unat b \<noteq> 1" using m by auto
    then have "unat a div unat b + 1 < 2 ^ 64"
      using assms unat_bound [of a] div_le_mono2 [of 2 "unat b" "unat a"] by simp
    then have "unat (a div b + 1) = unat a div unat b + 1"
      using unat_add_no_wrap [of "a div b" 1] q by simp
    then show ?thesis using False m by (simp add: div_ceil_def)
  qed (simp add: div_ceil_def q m [symmetric])
qed

lemma div_ceil_le:
  assumes "0 < unat b" and "unat a \<le> k * unat b"
  shows "unat (div_ceil a b) \<le> k"
proof -
  have d: "unat a div unat b * unat b + unat a mod unat b = unat a" by simp
  have "unat a div unat b * unat b < k * unat b" if "unat a mod unat b \<noteq> 0"
    using d that assms(2) by linarith
  moreover have "unat a div unat b \<le> k" using div_le_mono [OF assms(2), of "unat b"] assms(1) by simp
  ultimately show ?thesis using assms(1) by (simp add: div_ceil_eq Suc_le_eq)
qed

lemma unat_div_ceil:
  assumes "0 < unat b"
  shows "unat (div_ceil a b) * unat b \<ge> unat a" "0 < unat a \<Longrightarrow> 0 < unat (div_ceil a b)"
proof -
  have "unat a \<le> (unat a div unat b + (if unat a mod unat b = 0 then 0 else 1)) * unat b"
  proof (cases "unat a mod unat b = 0")
    case False
    have "unat a div unat b * unat b + unat a mod unat b = unat a" "unat a mod unat b < unat b"
      using assms by simp_all
    then have "unat a \<le> unat a div unat b * unat b + unat b" by linarith
    then show ?thesis using False by (simp add: add_mult_distrib)
  qed auto
  then show ge: "unat (div_ceil a b) * unat b \<ge> unat a" by (simp add: div_ceil_eq [OF assms])
  show "0 < unat (div_ceil a b)" if "0 < unat a"
    using ge that by (metis bot_nat_0.extremum_unique bot_nat_0.not_eq_extremum mult_zero_left)
qed

lemma entry_count_bytes:
  "checked_mul (ucast (n :: u32)) (ucast gpt_entry_size :: u64) = Some m \<Longrightarrow> unat m = unat n * 128"
  "checked_mul (ucast (n :: u32)) (ucast gpt_entry_size :: u64) \<noteq> None"
proof -
  have "unat (ucast n :: u64) * unat (ucast gpt_entry_size :: u64) < 2 ^ LENGTH(64)"
    using unat_bound [of n] by (simp only: unat_ucast_u64) (simp add: gpt_entry_size_def)
  then show "checked_mul (ucast n) (ucast gpt_entry_size :: u64) \<noteq> None"
    "checked_mul (ucast n) (ucast gpt_entry_size :: u64) = Some m \<Longrightarrow> unat m = unat n * 128"
    using unat_mul_no_wrap [of "ucast n :: u64" "ucast gpt_entry_size"]
    by (auto simp: checked_mul_def unat_ucast_u64 gpt_entry_size_def)
qed

lemma entry_array_no_panic:
  assumes "512 \<le> length block"
  shows "check_entry_array g lba block \<noteq> Inl Panics"
proof -
  obtain m where "checked_mul (ucast (from_le_bytes (slice_at block 80 84) :: u32)) (ucast gpt_entry_size :: u64) = Some m"
    using entry_count_bytes(2) by blast
  then show ?thesis
    using assms by (simp add: check_entry_array_def gpt_field_ok split: option.splits)
qed

lemma entry_array_Inr:
  assumes "geometry_of block_size disk_size g" and "check_entry_array g (geo_blocks g - 1) block = Inr r"
  shows "array_of g r"
proof -
  obtain n lba lba_end c where r: "r = (n, lba, lba_end)"
    and c: "checked_mul (ucast (c :: u32)) (ucast gpt_entry_size) = Some n" "c \<noteq> 0" "\<not> n > ucast max_entry_array_bytes"
    and e: "checked_add lba (div_ceil n (geo_block_size g)) = Some lba_end"
    and b: "lba > primary_header_lba" "lba_end \<le> geo_blocks g - 1"
    using assms(2)
    by (cases r) (auto simp: check_entry_array_def split: if_splits option.splits)
  have n: "unat n = unat c * 128" by (rule entry_count_bytes(1) [OF c(1)])
  have c0: "0 < unat c" using c(2) by (simp add: unat_gt_0)
  have n1: "unat n \<le> 1048576"
    using c(3) by (simp add: not_less word_le_nat_alt unat_ucast_u64 max_entry_array_bytes_def)
  have bs: "0 < unat (geo_block_size g)" using assms(1) by (simp add: geometry_of_def)
  have le: "unat lba_end = unat lba + unat (div_ceil n (geo_block_size g))"
    using e by (auto simp: checked_add_Some_iff unat_add_no_wrap)
  note d = unat_div_ceil [OF bs, of n]
  have "unat lba_end < unat (geo_blocks g)"
    using b(2) geometry_last_lba_ok(2) [OF assms(1)] assms(1) by (auto simp: word_le_nat_alt geometry_of_def)
  moreover have "2 \<le> unat lba" using b(1) by (simp add: word_less_nat_alt primary_header_lba_def)
  ultimately show ?thesis
    using n n1 c0 d le by (simp add: array_of_def r add_mult_distrib)
qed

definition usable_of :: "geometry \<Rightarrow> u64 \<Rightarrow> u64 \<times> u64 \<times> uuid \<Rightarrow> bool" where
  "usable_of g lba_end = (\<lambda>(first, last, guid). unat lba_end \<le> unat first \<and> unat first \<le> unat last \<and>
     unat last + 1 < unat (geo_blocks g) \<and> guid \<noteq> uuid_nil)"

lemma usable_no_panic: "512 \<le> length block \<Longrightarrow> check_usable lba lba_end block \<noteq> Inl Panics"
  by (simp add: check_usable_def gpt_field_ok)

lemma usable_Inr:
  assumes "geometry_of block_size disk_size g" and "check_usable (geo_blocks g - 1) lba_end block = Inr r"
  shows "usable_of g lba_end r"
  using assms geometry_last_lba_ok(2) [OF assms(1)]
  by (auto simp: check_usable_def usable_of_def is_nil_def word_less_nat_alt word_le_nat_alt not_less not_le
      geometry_of_def split: if_splits)

definition header_of :: "u32 \<Rightarrow> u64 \<Rightarrow> geometry \<Rightarrow> gpt_header \<Rightarrow> bool" where
  "header_of block_size disk_size g h \<longleftrightarrow>
     3 \<le> unat (gh_first_usable_lba h) \<and> unat (gh_first_usable_lba h) \<le> unat (gh_last_usable_lba h) \<and>
     unat (gh_last_usable_lba h) + 1 < unat (geo_blocks g) \<and> gh_disk_guid h \<noteq> uuid_nil \<and>
     unat (gh_entry_array_offset h) + gh_entry_array_size h \<le> unat disk_size"

lemma header_Inr:
  fixes source :: "'io read_at"
  assumes "geometry_of block_size disk_size g" and "read_header source g = Inr h"
  shows "header_of block_size disk_size g h"
proof -
  from assms(2) obtain block n lba lba_end first last guid offset c
    where a: "check_entry_array g (geo_blocks g - 1) block = (Inr (n, lba, lba_end) :: ('io, _) read_result)"
    and u: "check_usable (geo_blocks g - 1) lba_end block = (Inr (first, last, guid) :: ('io, _) read_result)"
    and f: "geometry_bytes g lba = Some offset"
      "h = \<lparr>gh_first_usable_lba = first, gh_last_usable_lba = last, gh_disk_guid = guid,
        gh_entry_array_offset = offset, gh_entry_array_size = unat n, gh_entry_array_crc = c\<rparr>"
    by (auto simp: read_header_def geometry_last_lba_ok [OF assms(1)])
  note a = entry_array_Inr [OF assms(1) a, unfolded array_of_def, simplified]
  note u = usable_Inr [OF assms(1) u, unfolded usable_of_def, simplified]
  obtain k where k: "geometry_bytes g lba = Some k" "unat k = unat lba * unat block_size"
    using geometry_bytes_ok [OF assms(1), of lba] a by auto
  have b: "unat (geo_block_size g) = unat block_size" using assms(1) by (simp add: geometry_of_def)
  have "unat lba * unat block_size + unat n \<le> unat lba_end * unat block_size" using a b by simp
  also have "\<dots> \<le> unat (geo_blocks g) * unat block_size" using a by simp
  also have "\<dots> = unat disk_size" using assms(1) by (simp add: geometry_of_def)
  finally show ?thesis using a u f k by (simp add: header_of_def)
qed

lemma header_no_panic:
  assumes g: "geometry_of block_size disk_size g" and s: "exact_source source"
  shows "read_header source g \<noteq> Inl Panics"
  unfolding read_header_def
proof (rule and_then_not_Inl)
  show "read_exact source (geo_block_size g) (unat (geo_block_size g)) \<noteq> Inl Panics"
    by (rule exact_source.read_exact_no_panic [OF s])
next
  fix block
  assume b: "read_exact source (geo_block_size g) (unat (geo_block_size g)) = Inr block"
  have l: "length block = unat (geo_block_size g)" by (rule exact_source.read_exact_length [OF s b])
  then have n: "512 \<le> length block" using g by (simp add: geometry_of_def)
  show "and_then (check_header_identity g block) (\<lambda>_.
     and_then (geometry_last_lba g) (\<lambda>last_lba.
     and_then (check_entry_array g last_lba block) (\<lambda>(entry_array_size, entry_lba, entry_end).
     and_then (check_usable last_lba entry_end block) (\<lambda>(first_usable_lba, last_usable_lba, disk_guid).
     and_then (ok_or (Fails (EntryArrayLba entry_lba)) (geometry_bytes g entry_lba)) (\<lambda>entry_array_offset.
     and_then (gpt_u32_at block 88) (\<lambda>entry_array_crc.
     Inr \<lparr>gh_first_usable_lba = first_usable_lba, gh_last_usable_lba = last_usable_lba,
       gh_disk_guid = disk_guid, gh_entry_array_offset = entry_array_offset,
       gh_entry_array_size = unat entry_array_size, gh_entry_array_crc = entry_array_crc\<rparr>)))))) \<noteq> Inl Panics"
    using n
    by (auto simp: and_then_eq_Inl gpt_field_ok geometry_last_lba_ok [OF g] ok_or_def header_identity_no_panic [OF g l]
        entry_array_no_panic [OF n] usable_no_panic [OF n] split: option.splits)
qed

section \<open>The protective record\<close>

lemma position_Some: "position p xs = Some k \<Longrightarrow> k < length xs \<and> p (xs ! k)"
  by (induction xs arbitrary: k) (auto split: if_splits)

lemma mbr_no_panic:
  assumes s: "exact_source source"
  shows "check_protective_mbr source \<noteq> Inl Panics"
  unfolding check_protective_mbr_def
proof (rule and_then_not_Inl, goal_cases)
  case 1
  show ?case by (rule exact_source.read_exact_no_panic [OF s])
next
  case (2 mbr)
  have l: "length mbr = 512" using exact_source.read_exact_length [OF s 2] by (simp add: mbr_size_def)
  let ?records = "chunks_exact 16 (slice_at mbr 446 510)"
  have "length (?records ! k) = 16" if "position f ?records = Some k" for f k
    using position_Some [OF that] by (intro chunks_exact_length [of _ _ "slice_at mbr 446 510"]) simp
  then show ?case
    by (auto simp: l index_range_ok gpt_field_ok Let_def mbr_signature_offset_def mbr_records_offset_def
        mbr_record_size_def mbr_record_start_offset_def split: option.splits)
qed

section \<open>Partitions\<close>

definition partition_of :: "u32 \<Rightarrow> gpt_header \<Rightarrow> partition \<Rightarrow> bool" where
  "partition_of block_size h p \<longleftrightarrow>
     unat (gh_first_usable_lba h) \<le> unat (pt_first_lba p) \<and> unat (pt_first_lba p) \<le> unat (pt_last_lba p) \<and>
     unat (pt_last_lba p) \<le> unat (gh_last_usable_lba h) \<and>
     unat (pt_offset p) = unat (pt_first_lba p) * unat block_size \<and>
     unat (pt_size p) = (unat (pt_last_lba p) + 1 - unat (pt_first_lba p)) * unat block_size"

lemma span_blocks:
  assumes "header_of block_size disk_size g h" and "lo \<le> hi" and "hi \<le> gh_last_usable_lba h"
  shows "checked_sub hi lo = Some (hi - lo)" "checked_add (hi - lo) 1 = Some (hi - lo + 1)"
    "unat (hi - lo + 1) = unat hi + 1 - unat lo" "unat (hi - lo + 1) \<le> unat (geo_blocks g)"
    "unat lo \<le> unat (geo_blocks g)"
proof -
  have u: "unat (hi - lo) = unat hi - unat lo" using assms(2) by (simp add: unat_sub)
  have l: "unat hi \<le> unat (gh_last_usable_lba h)" "unat lo \<le> unat hi"
    using assms(2,3) by (simp_all add: word_le_nat_alt)
  then have b: "unat hi + 1 < unat (geo_blocks g)" using assms(1) by (simp add: header_of_def)
  then have c: "unat (hi - lo) + unat (1 :: u64) < 2 ^ LENGTH(64)"
    using u unat_bound [of "geo_blocks g"] by simp
  show "checked_sub hi lo = Some (hi - lo)" using assms(2) by (simp add: checked_sub_def)
  show "checked_add (hi - lo) 1 = Some (hi - lo + 1)" using c by (simp add: checked_add_def)
  show "unat (hi - lo + 1) = unat hi + 1 - unat lo"
    using unat_add_no_wrap [OF c] u l by simp
  then show "unat (hi - lo + 1) \<le> unat (geo_blocks g)" "unat lo \<le> unat (geo_blocks g)"
    using b l by simp_all
qed

lemma read_partition_Inr:
  assumes "geometry_of block_size disk_size g" and "header_of block_size disk_size g h"
    and "read_partition g h guids number raw = Inr p"
  shows "partition_of block_size h p" "pt_number p = number" "pt_unique_guid p \<notin> set guids"
    "pt_unique_guid p \<noteq> uuid_nil"
proof -
  let ?f = "pt_first_lba p" and ?l = "pt_last_lba p"
  have le: "gh_first_usable_lba h \<le> ?f" "?l \<le> gh_last_usable_lba h" "?f \<le> ?l"
    and g: "pt_number p = number" "pt_unique_guid p \<notin> set guids" "pt_unique_guid p \<noteq> uuid_nil"
    and b: "geometry_bytes g ?f = Some (pt_offset p)" "geometry_bytes g (?l - ?f + 1) = Some (pt_size p)"
    using assms(3) by (auto simp: read_partition_def is_nil_def checked_sub_Some checked_add_Some_iff
        split: if_splits option.splits)
  note s = span_blocks [OF assms(2) le(3,2)]
  show "partition_of block_size h p"
    using geometry_bytes_ok [OF assms(1) s(4)] geometry_bytes_ok [OF assms(1) s(5)] b le s(3)
    by (simp add: partition_of_def word_le_nat_alt)
  show "pt_number p = number" "pt_unique_guid p \<notin> set guids" "pt_unique_guid p \<noteq> uuid_nil" by fact+
qed

lemma read_partition_no_panic:
  assumes "geometry_of block_size disk_size g" and "header_of block_size disk_size g h" and "length raw = 128"
  shows "read_partition g h guids number raw \<noteq> Inl Panics"
proof -
  have "checked_sub l f = Some (l - f) \<and> checked_add (l - f) 1 = Some (l - f + 1)"
    if "\<not> l < f" "\<not> gh_last_usable_lba h < l" for l f
    using span_blocks(1,2) [OF assms(2), of f l] that by (simp add: not_less)
  then show ?thesis
    using assms(3) by (auto simp: read_partition_def gpt_field_ok split: option.splits)
qed

lemma count_used_Inr:
  "count_used entries number used unused = Inr u \<Longrightarrow> used \<le> u \<and> u \<le> used + length entries"
  by (induction entries number used unused rule: count_used.induct)
    (auto split: if_splits option.splits, fastforce+)

lemma count_used_no_panic:
  "(\<And>raw. raw \<in> set entries \<Longrightarrow> length raw = 128) \<Longrightarrow> count_used entries number used unused \<noteq> Inl Panics"
  by (induction entries number used unused rule: count_used.induct)
    (auto simp: gpt_field_ok split: option.splits)

lemma read_entries_Inr:
  assumes g: "geometry_of block_size disk_size g" and h: "header_of block_size disk_size g h"
    and "read_entries g h entries guids ps = (Inr qs :: ('io, _) read_result)"
  shows "\<exists>new. qs = ps @ new \<and> map pt_number new = map fst entries \<and>
    (\<forall>p \<in> set new. partition_of block_size h p \<and> pt_unique_guid p \<noteq> uuid_nil) \<and>
    (distinct guids \<longrightarrow> distinct (guids @ map pt_unique_guid new))"
  using assms(3)
proof (induction entries arbitrary: guids ps)
  case Nil
  then show ?case by simp
next
  case (Cons e entries)
  from Cons.prems obtain p where
    p: "read_partition g h guids (fst e) (snd e) = (Inr p :: ('io, _) read_result)" and
    r: "read_entries g h entries (guids @ [pt_unique_guid p]) (ps @ [p]) = (Inr qs :: ('io, _) read_result)"
    by (cases e) auto
  note p = read_partition_Inr [OF g h p]
  from Cons.IH [OF r] obtain new where n: "qs = (ps @ [p]) @ new" "map pt_number new = map fst entries"
    "\<forall>p \<in> set new. partition_of block_size h p \<and> pt_unique_guid p \<noteq> uuid_nil"
    "distinct (guids @ [pt_unique_guid p]) \<longrightarrow> distinct ((guids @ [pt_unique_guid p]) @ map pt_unique_guid new)"
    by blast
  show ?case using n p by (intro exI [of _ "p # new"]) auto
qed

lemma read_entries_no_panic:
  assumes g: "geometry_of block_size disk_size g" and h: "header_of block_size disk_size g h"
    and "\<And>e. e \<in> set entries \<Longrightarrow> length (snd e) = 128"
  shows "read_entries g h entries guids ps \<noteq> (Inl Panics :: ('io, _) read_result)"
  using assms(3)
proof (induction entries arbitrary: guids ps)
  case (Cons e entries)
  obtain number raw where e: "e = (number, raw)" by (cases e)
  have "length raw = 128" using Cons.prems [of e] e by simp
  moreover have "read_entries g h entries guids ps \<noteq> (Inl Panics :: ('io, _) read_result)" for guids ps
    by (rule Cons.IH, rule Cons.prems) simp
  ultimately show ?case
    unfolding e read_entries.simps by (intro and_then_not_Inl read_partition_no_panic [OF g h])
qed simp

lemma first_overlap_None:
  "first_overlap ps = None \<Longrightarrow> (\<And>p. p \<in> set ps \<Longrightarrow> pt_first_lba p \<le> pt_last_lba p) \<Longrightarrow>
     sorted_wrt (\<lambda>p q. pt_last_lba p < pt_first_lba q) ps"
proof (induction ps rule: first_overlap.induct)
  case (1 a b ps)
  then have s: "sorted_wrt (\<lambda>p q. pt_last_lba p < pt_first_lba q) (b # ps)" "pt_last_lba a < pt_first_lba b"
    by (auto split: if_splits)
  have "pt_last_lba a < pt_first_lba q" if "q \<in> set ps" for q
    using s that 1(3) [of b] by (force intro: order.strict_trans order.strict_trans1)
  with s show ?case by simp
qed simp_all

lemma sorted_wrt_either:
  "sorted_wrt P xs \<Longrightarrow> x \<in> set xs \<Longrightarrow> y \<in> set xs \<Longrightarrow> x \<noteq> y \<Longrightarrow> P x y \<or> P y x"
  by (induction xs) auto

text \<open>The bytes of the disk that a partition spans.\<close>

definition partition_bytes :: "partition \<Rightarrow> nat set" where
  "partition_bytes p = {unat (pt_offset p) ..< unat (pt_offset p) + unat (pt_size p)}"

lemma partition_bytes_blocks:
  assumes "partition_of block_size h p"
  shows "partition_bytes p = {unat (pt_first_lba p) * unat block_size ..< (unat (pt_last_lba p) + 1) * unat block_size}"
proof -
  have "unat (pt_first_lba p) * unat block_size + (unat (pt_last_lba p) + 1 - unat (pt_first_lba p)) * unat block_size =
      (unat (pt_last_lba p) + 1) * unat block_size"
    using assms by (simp add: partition_of_def flip: add_mult_distrib)
  then show ?thesis using assms by (simp add: partition_bytes_def partition_of_def)
qed

lemma blocks_before_disjoint:
  assumes "partition_of block_size h p" "partition_of block_size h q" "pt_last_lba p < pt_first_lba q"
  shows "partition_bytes p \<inter> partition_bytes q = {}"
proof -
  have "(unat (pt_last_lba p) + 1) * unat block_size \<le> unat (pt_first_lba q) * unat block_size"
    using assms(3) by (intro mult_le_mono1) (simp add: word_less_nat_alt)
  then show ?thesis
    unfolding partition_bytes_blocks [OF assms(1)] partition_bytes_blocks [OF assms(2)] by auto
qed

lemma numbers_fst:
  assumes "length (xs :: 'a list) \<le> 255"
  shows "map (\<lambda>e. unat (fst e)) (zip (map word_of_nat [1..<256] :: u8 list) xs) = [1..<Suc (length xs)]"
proof (intro nth_equalityI)
  fix i
  assume i: "i < length (map (\<lambda>e. unat (fst e)) (zip (map word_of_nat [1..<256] :: u8 list) xs))"
  have "unat (word_of_nat (Suc i) :: u8) = Suc i" using i assms by (simp add: unat_of_nat del: of_nat_Suc)
  then show "map (\<lambda>e. unat (fst e)) (zip (map word_of_nat [1..<256] :: u8 list) xs) ! i = [1..<Suc (length xs)] ! i"
    using i assms by (simp del: upt_Suc of_nat_Suc)
qed (use assms in \<open>auto simp del: upt_Suc\<close>)

definition partitions_of :: "u32 \<Rightarrow> gpt_header \<Rightarrow> partition list \<Rightarrow> bool" where
  "partitions_of block_size h ps \<longleftrightarrow>
     2 \<le> length ps \<and> length ps \<le> 255 \<and> map (\<lambda>p. unat (pt_number p)) ps = [1..<Suc (length ps)] \<and>
     (\<forall>p \<in> set ps. partition_of block_size h p \<and> pt_unique_guid p \<noteq> uuid_nil) \<and>
     distinct (gh_disk_guid h # map pt_unique_guid ps) \<and>
     (\<forall>p \<in> set ps. \<forall>q \<in> set ps. p \<noteq> q \<longrightarrow> partition_bytes p \<inter> partition_bytes q = {})"

lemma read_partitions_Inr:
  fixes source :: "'io read_at"
  assumes g: "geometry_of block_size disk_size g" and h: "header_of block_size disk_size g h"
    and "read_partitions source g h = Inr ps"
  shows "partitions_of block_size h ps"
proof -
  obtain entries used where u: "count_used entries 1 0 None = (Inr used :: ('io, _) read_result)" "2 \<le> used" "used \<le> 255"
    and e: "read_entries g h (zip (map word_of_nat [1..<256]) (take used entries)) [gh_disk_guid h] [] =
      (Inr ps :: ('io, _) read_result)"
    and ov: "\<forall>a b. first_overlap (sort_key pt_first_lba ps) \<noteq> Some (a, b)"
    using assms(3) by (auto simp: read_partitions_def Let_def min_partitions_def max_partitions_def
        split: if_splits option.splits)
  from ov have v: "first_overlap (sort_key pt_first_lba ps) = None" by (cases "first_overlap (sort_key pt_first_lba ps)") auto
  have l: "length (take used entries) = used" using count_used_Inr [OF u(1)] by simp
  from read_entries_Inr [OF g h e] have n: "map pt_number ps = map fst (zip (map word_of_nat [1..<256]) (take used entries))"
    and p: "\<forall>p \<in> set ps. partition_of block_size h p \<and> pt_unique_guid p \<noteq> uuid_nil"
    and d: "distinct (gh_disk_guid h # map pt_unique_guid ps)" by auto
  have "map (\<lambda>p. unat (pt_number p)) ps = map unat (map pt_number ps)" by simp
  also have "\<dots> = [1..<Suc used]"
    using numbers_fst [of "take used entries"] l u(3) by (simp add: n comp_def del: upt_Suc)
  finally have num: "map (\<lambda>p. unat (pt_number p)) ps = [1..<Suc used]" .
  then have "length (map (\<lambda>p. unat (pt_number p)) ps) = length [1..<Suc used]" by (simp only:)
  then have len: "length ps = used" by (simp only: length_map length_upt)
  have "sorted_wrt (\<lambda>p q. pt_last_lba p < pt_first_lba q) (sort_key pt_first_lba ps)"
    using p by (intro first_overlap_None [OF v]) (simp add: partition_of_def word_le_nat_alt)
  then have "partition_bytes a \<inter> partition_bytes b = {}" if "a \<in> set ps" "b \<in> set ps" "a \<noteq> b" for a b
    using sorted_wrt_either [of _ "sort_key pt_first_lba ps" a b] that p blocks_before_disjoint [of block_size h]
    by (simp, blast)
  with p d num len u show ?thesis by (simp add: partitions_of_def)
qed

lemma read_partitions_no_panic:
  assumes g: "geometry_of block_size disk_size g" and h: "header_of block_size disk_size g h"
    and s: "exact_source source"
  shows "read_partitions source g h \<noteq> Inl Panics"
  unfolding read_partitions_def
proof (rule and_then_not_Inl, goal_cases)
  case 1
  show ?case by (rule exact_source.read_exact_no_panic [OF s])
next
  case (2 array)
  have c: "length raw = 128" if "raw \<in> set (chunks_exact (unat gpt_entry_size) array)" for raw
    using chunks_exact_length [OF that] by (simp add: gpt_entry_size_def)
  have z: "length (snd e) = 128" if "e \<in> set (zip ns (take k (chunks_exact (unat gpt_entry_size) array)))" for e k and ns :: "u8 list"
    using that set_zip_rightD [of "fst e" "snd e"] by (intro c) (auto dest: in_set_takeD)
  show ?case
    by (auto simp: Let_def and_then_eq_Inl count_used_no_panic [OF c] read_entries_no_panic [OF g h z] split: option.splits)
qed

section \<open>Expectations\<close>

definition expectation_met :: "expected_partition \<Rightarrow> partition \<Rightarrow> bool" where
  "expectation_met x p \<longleftrightarrow> (\<forall>u. xp_unique_guid x = Some u \<longrightarrow> pt_unique_guid p = u) \<and>
     (\<forall>n. xp_size x = Some n \<longrightarrow> pt_size p = n)"

lemma check_partitions_Inr:
  "length xs = length ps \<Longrightarrow> check_partitions (zip xs ps) = Inr () \<longleftrightarrow> list_all2 expectation_met xs ps"
  by (induction xs ps rule: list_induct2) (auto simp: expectation_met_def split: option.splits)

lemma check_partitions_no_panic: "check_partitions xs \<noteq> Inl Panics"
  by (induction xs rule: check_partitions.induct) (auto split: option.splits)

lemma check_expected_Inr:
  "check_expected x d = Inr () \<longleftrightarrow> (\<forall>u. ex_disk_guid x = Some u \<longrightarrow> dk_guid d = u) \<and>
     (\<forall>xs. ex_partitions x = Some xs \<longrightarrow> list_all2 expectation_met xs (dk_partitions d))"
  by (auto simp: check_expected_def check_partitions_Inr list_all2_lengthD split: option.splits)

lemma check_expected_no_panic: "check_expected x d \<noteq> Inl Panics"
  by (auto simp: check_expected_def check_partitions_no_panic split: option.splits)

section \<open>Disks\<close>

lemma disk_read_Inr:
  fixes source :: "'io read_at"
  assumes "disk_read source block_size disk_size x = Inr d"
  obtains g h where "geometry_of block_size disk_size g" "read_header source g = Inr h"
    "header_of block_size disk_size g h" "read_partitions source g h = Inr (dk_partitions d)"
    "partitions_of block_size h (dk_partitions d)" "check_expected x d = (Inr () :: ('io, _) read_result)"
    "dk_guid d = gh_disk_guid h" "dk_logical_block_size d = block_size" "dk_size d = disk_size"
proof -
  from assms obtain g h ps where g: "geometry_new block_size disk_size = (Inr g :: ('io, _) read_result)" and h: "read_header source g = Inr h"
    and p: "read_partitions source g h = Inr ps"
    and d: "d = \<lparr>dk_logical_block_size = block_size, dk_size = disk_size, dk_guid = gh_disk_guid h, dk_partitions = ps\<rparr>"
    and x: "check_expected x d = (Inr () :: ('io, _) read_result)"
    by (auto simp: disk_read_def Let_def)
  note go = geometry_new_Inr [OF g]
  note ho = header_Inr [OF go h]
  show ?thesis
    by (rule that [OF go h ho _ _ x]) (use p d read_partitions_Inr [OF go ho p] in simp_all)
qed

lemma partition_inside:
  assumes "geometry_of block_size disk_size g" "header_of block_size disk_size g h" "partition_of block_size h p"
  shows "3 * unat block_size \<le> unat (pt_offset p)" "0 < unat (pt_size p)"
    "unat (pt_offset p) + unat (pt_size p) + unat block_size \<le> unat disk_size"
proof -
  let ?b = "unat block_size"
  have b: "0 < ?b" "unat (geo_blocks g) * ?b = unat disk_size" using assms(1) by (auto simp: geometry_of_def)
  have f: "3 \<le> unat (pt_first_lba p)" "unat (pt_first_lba p) \<le> unat (pt_last_lba p)"
    "unat (pt_last_lba p) + 2 \<le> unat (geo_blocks g)"
    using assms(2,3) by (auto simp: header_of_def partition_of_def)
  then show "3 * ?b \<le> unat (pt_offset p)" "0 < unat (pt_size p)" using assms(3) b by (auto simp: partition_of_def)
  have "unat (pt_offset p) + unat (pt_size p) = (unat (pt_last_lba p) + 1) * ?b"
    using assms(3) f(2) by (simp add: partition_of_def flip: add_mult_distrib)
  moreover have "(unat (pt_last_lba p) + 2) * ?b \<le> unat disk_size" using mult_le_mono1 [OF f(3), of ?b] b(2) by simp
  ultimately show "unat (pt_offset p) + unat (pt_size p) + ?b \<le> unat disk_size" by (simp add: add_mult_distrib)
qed

lemma first_partition_ok:
  assumes "disk_read source block_size disk_size x = Inr d"
  obtains p ps where "dk_partitions d = p # ps" "ps \<noteq> []" "first_partition d = Inr p" "lowers d = Inr ps"
    "unat (pt_offset p) + unat (pt_size p) \<le> unat disk_size"
proof -
  obtain g h where gh: "geometry_of block_size disk_size g" "header_of block_size disk_size g h"
    "partitions_of block_size h (dk_partitions d)"
    by (rule disk_read_Inr [OF assms])
  then obtain p q ps where p: "dk_partitions d = p # q # ps"
    by (auto simp: partitions_of_def numeral_2_eq_2 Suc_le_length_iff)
  then have "partition_of block_size h p" using gh(3) by (simp add: partitions_of_def)
  from partition_inside(3) [OF gh(1,2) this] show ?thesis
    using that [of p "q # ps"] p by (simp add: first_partition_def lowers_def)
qed

lemma rposition_take:
  "take (case rposition f xs of None \<Rightarrow> 0 | Some k \<Rightarrow> k + 1) xs = rev (dropWhile (\<lambda>x. \<not> f x) (rev xs))"
proof -
  have "position f ys = (if \<exists>y \<in> set ys. f y then Some (length (takeWhile (\<lambda>x. \<not> f x) ys)) else None)" for ys
    by (induction ys) auto
  note p = this [of "rev xs"]
  show ?thesis
  proof (cases "\<exists>y \<in> set xs. f y")
    case True
    let ?k = "length (takeWhile (\<lambda>x. \<not> f x) (rev xs))"
    have "length (takeWhile (\<lambda>x. \<not> f x) ys) < length ys" if "\<exists>y \<in> set ys. f y" for ys
      using that by (induction ys) auto
    from this [of "rev xs"] have "?k < length (rev xs)" using True by simp
    moreover have "rev (dropWhile (\<lambda>x. \<not> f x) (rev xs)) = take (length xs - ?k) xs"
      by (simp add: dropWhile_eq_drop rev_drop)
    ultimately show ?thesis using True p by (simp add: rposition_def Suc_diff_Suc)
  next
    case False
    then show ?thesis using p by (simp add: rposition_def)
  qed
qed

end
