(* ===== verification/Gpt_Image.thy ===== *)
theory Gpt_Image
  imports Gpt_Layout
begin

text \<open>
  Disks written down as bytes: the MBR with its protective record, the header with its CRC, and the
  table of entries. What the reader does not interpret - boot code, the record's CHS and size fields,
  the rest of the header's block, names, unused entries, gaps - is arbitrary. The reader accepts every
  such disk and returns what it was made of, and the properties of the disks that it accepts are
  stated and shown to be about something.
\<close>

section \<open>Plans of disks\<close>

record gpt_entry =
  en_type :: uuid
  en_unique :: uuid
  en_first :: u64
  en_last :: u64
  en_attributes :: u64
  en_name :: bytes

record gpt_mbr =
  mb_boot :: bytes
  mb_slot :: nat
  mb_chs_first :: bytes
  mb_chs_last :: bytes
  mb_blocks :: bytes

record gpt_plan =
  pl_mbr :: gpt_mbr
  pl_block_size :: u32
  pl_disk_size :: u64
  pl_disk_guid :: uuid
  pl_entry_lba :: u64
  pl_entry_count :: u32
  pl_first_usable :: u64
  pl_last_usable :: u64
  pl_alternate :: u64
  pl_header_size :: u32
  pl_header_rest :: bytes
  pl_entries :: "gpt_entry list"
  pl_unused :: "bytes list"

definition entry_ok :: "gpt_plan \<Rightarrow> gpt_entry \<Rightarrow> bool" where
  "entry_ok l e \<longleftrightarrow> uuid_wf (en_type e) \<and> uuid_wf (en_unique e) \<and> en_type e \<noteq> uuid_nil \<and> en_unique e \<noteq> uuid_nil \<and>
     length (en_name e) = 72 \<and>
     pl_first_usable l \<le> en_first e \<and> en_first e \<le> en_last e \<and> en_last e \<le> pl_last_usable l"

definition apart :: "gpt_entry \<Rightarrow> gpt_entry \<Rightarrow> bool" where
  "apart a b \<longleftrightarrow> en_last a < en_first b \<or> en_last b < en_first a"

definition plan_blocks :: "gpt_plan \<Rightarrow> nat" where
  "plan_blocks l = unat (pl_disk_size l) div unat (pl_block_size l)"

definition mbr_ok :: "gpt_mbr \<Rightarrow> bool" where
  "mbr_ok m \<longleftrightarrow> length (mb_boot m) = 446 \<and> mb_slot m < 4 \<and> length (mb_chs_first m) = 4 \<and>
     length (mb_chs_last m) = 3 \<and> length (mb_blocks m) = 4"

definition unused_ok :: "bytes \<Rightarrow> bool" where
  "unused_ok bs \<longleftrightarrow> length bs = 128 \<and> take 16 bs = replicate 16 0"

definition plan_ok :: "gpt_plan \<Rightarrow> bool" where
  "plan_ok l \<longleftrightarrow>
     is_power_of_two (pl_block_size l) \<and> 512 \<le> unat (pl_block_size l) \<and> unat (pl_block_size l) \<le> 65536 \<and>
     unat (pl_disk_size l) mod unat (pl_block_size l) = 0 \<and>
     2 \<le> unat (pl_entry_lba l) \<and> 0 < unat (pl_entry_count l) \<and> unat (pl_entry_count l) * 128 \<le> 1048576 \<and>
     unat (pl_entry_lba l) * unat (pl_block_size l) + unat (pl_entry_count l) * 128 \<le>
       unat (pl_first_usable l) * unat (pl_block_size l) \<and>
     unat (pl_first_usable l) \<le> unat (pl_last_usable l) \<and>
     unat (pl_last_usable l) < unat (pl_alternate l) \<and> unat (pl_alternate l) < plan_blocks l \<and>
     uuid_wf (pl_disk_guid l) \<and> pl_disk_guid l \<noteq> uuid_nil \<and>
     2 \<le> length (pl_entries l) \<and> length (pl_entries l) \<le> 255 \<and>
     length (pl_entries l) + length (pl_unused l) = unat (pl_entry_count l) \<and>
     mbr_ok (pl_mbr l) \<and> (\<forall>u \<in> set (pl_unused l). unused_ok u) \<and>
     92 \<le> unat (pl_header_size l) \<and> unat (pl_header_size l) \<le> unat (pl_block_size l) \<and>
     length (pl_header_rest l) = unat (pl_block_size l) - 92 \<and>
     (\<forall>e \<in> set (pl_entries l). entry_ok l e) \<and> sorted_wrt apart (pl_entries l) \<and>
     distinct (pl_disk_guid l # map en_unique (pl_entries l))"

section \<open>Bytes of disks\<close>

definition protective_record :: "gpt_mbr \<Rightarrow> bytes" where
  "protective_record m = mb_chs_first m @ [0xEE] @ mb_chs_last m @ to_le_bytes (1 :: u32) @ mb_blocks m"

definition mbr_table :: "gpt_mbr \<Rightarrow> bytes list" where
  "mbr_table m = (replicate 4 (replicate 16 0))[mb_slot m := protective_record m]"

definition mbr_bytes :: "gpt_mbr \<Rightarrow> bytes" where
  "mbr_bytes m = mb_boot m @ concat (mbr_table m) @ [0x55, 0xAA]"

definition entry_bytes :: "gpt_entry \<Rightarrow> bytes" where
  "entry_bytes e = to_bytes_le (en_type e) @ to_bytes_le (en_unique e) @ to_le_bytes (en_first e) @
     to_le_bytes (en_last e) @ to_le_bytes (en_attributes e) @ en_name e"

definition table_entries :: "gpt_plan \<Rightarrow> bytes list" where
  "table_entries l = map entry_bytes (pl_entries l) @ pl_unused l"

definition header_before :: "gpt_plan \<Rightarrow> bytes" where
  "header_before l = gpt_signature @ to_le_bytes gpt_revision @ to_le_bytes (pl_header_size l)"

definition header_after :: "gpt_plan \<Rightarrow> bytes" where
  "header_after l = to_le_bytes (0 :: u32) @ to_le_bytes (1 :: u64) @ to_le_bytes (pl_alternate l) @
     to_le_bytes (pl_first_usable l) @ to_le_bytes (pl_last_usable l) @ to_bytes_le (pl_disk_guid l) @
     to_le_bytes (pl_entry_lba l) @ to_le_bytes (pl_entry_count l) @ to_le_bytes (128 :: u32) @
     to_le_bytes (crc32 (concat (table_entries l)))"

definition header_covered :: "gpt_plan \<Rightarrow> bytes" where
  "header_covered l = header_after l @ take (unat (pl_header_size l) - 92) (pl_header_rest l)"

definition header_crc :: "gpt_plan \<Rightarrow> u32" where
  "header_crc l = crc32 (header_before l @ replicate 4 0 @ header_covered l)"

definition header_block :: "gpt_plan \<Rightarrow> bytes" where
  "header_block l = header_before l @ to_le_bytes (header_crc l) @ header_after l @ pl_header_rest l"

definition holds_plan :: "'io read_at \<Rightarrow> gpt_plan \<Rightarrow> bool" where
  "holds_plan source l \<longleftrightarrow>
     source 0 512 = Inr (mbr_bytes (pl_mbr l)) \<and>
     source (ucast (pl_block_size l)) (unat (pl_block_size l)) = Inr (header_block l) \<and>
     source (pl_entry_lba l * ucast (pl_block_size l)) (unat (pl_entry_count l) * 128) = Inr (concat (table_entries l))"

definition planned_partition :: "gpt_plan \<Rightarrow> nat \<Rightarrow> gpt_entry \<Rightarrow> partition" where
  "planned_partition l i e =
     \<lparr>pt_number = word_of_nat i, pt_type_guid = en_type e, pt_unique_guid = en_unique e,
       pt_attributes = en_attributes e, pt_first_lba = en_first e, pt_last_lba = en_last e,
       pt_offset = en_first e * ucast (pl_block_size l),
       pt_size = (en_last e - en_first e + 1) * ucast (pl_block_size l)\<rparr>"

definition planned_disk :: "gpt_plan \<Rightarrow> disk" where
  "planned_disk l =
     \<lparr>dk_logical_block_size = pl_block_size l, dk_size = pl_disk_size l, dk_guid = pl_disk_guid l,
       dk_partitions = map (\<lambda>(i, e). planned_partition l i e) (enumerate 1 (pl_entries l))\<rparr>"

section \<open>Reading them back\<close>

lemma length_to_bytes_le: "uuid_wf u \<Longrightarrow> length (to_bytes_le u) = 16"
  by (simp add: to_bytes_le_def uuid_wf_def)

lemma chunks_exact_concat:
  "0 < n \<Longrightarrow> (\<And>c. c \<in> set cs \<Longrightarrow> length c = n) \<Longrightarrow> chunks_exact n (concat cs) = cs"
  by (induction cs) (simp_all add: chunks_exact.simps [of n])

lemma mbr_table_at:
  assumes "mbr_ok m"
  shows "length (mbr_table m) = 4" "mbr_table m ! mb_slot m = protective_record m"
    "k < 4 \<Longrightarrow> k \<noteq> mb_slot m \<Longrightarrow> mbr_table m ! k = replicate 16 0" "length (protective_record m) = 16"
    "protective_record m ! 4 = 0xEE" "gpt_u32_at (protective_record m) 8 = Inr 1"
    "c \<in> set (mbr_table m) \<Longrightarrow> length c = 16"
proof -
  show p: "length (protective_record m) = 16" using assms by (simp add: protective_record_def mbr_ok_def)
  show "length (mbr_table m) = 4" "mbr_table m ! mb_slot m = protective_record m"
    "k < 4 \<Longrightarrow> k \<noteq> mb_slot m \<Longrightarrow> mbr_table m ! k = replicate 16 0"
    using assms by (simp_all add: mbr_table_def mbr_ok_def nth_list_update)
  show "protective_record m ! 4 = 0xEE"
    using assms by (simp add: protective_record_def mbr_ok_def nth_append)
  show "gpt_u32_at (protective_record m) 8 = Inr 1"
    using assms p by (simp add: gpt_field_ok) (simp add: protective_record_def mbr_ok_def slice_at_def)
  show "length c = 16" if "c \<in> set (mbr_table m)"
    using that p set_update_subset_insert [of "replicate 4 (replicate 16 0)" "mb_slot m" "protective_record m"]
    by (auto simp: mbr_table_def split: if_splits)
qed

lemma position_unique: "k < length xs \<Longrightarrow> (\<And>j. j < length xs \<Longrightarrow> P (xs ! j) \<longleftrightarrow> j = k) \<Longrightarrow> position P xs = Some k"
proof (induction xs arbitrary: k)
  case (Cons x xs)
  show ?case
  proof (cases k)
    case 0
    with Cons.prems(2) [of 0] show ?thesis by simp
  next
    case (Suc k')
    have "position P xs = Some k'"
    proof (rule Cons.IH)
      show "k' < length xs" using Cons.prems(1) Suc by simp
      show "P (xs ! j) \<longleftrightarrow> j = k'" if "j < length xs" for j
        using that Cons.prems(2) [of "Suc j"] Suc by simp
    qed
    with Suc Cons.prems(2) [of 0] show ?thesis by simp
  qed
qed simp

lemma length_concat_equal: "(\<And>c. c \<in> set cs \<Longrightarrow> length c = n) \<Longrightarrow> length (concat cs) = length cs * n"
  by (induction cs) simp_all

lemma length_mbr_bytes:
  assumes "mbr_ok m"
  shows "length (mbr_bytes m) = 512"
proof -
  have "length (concat (mbr_table m)) = length (mbr_table m) * 16"
    by (rule length_concat_equal) (rule mbr_table_at(7) [OF assms])
  then show ?thesis using assms by (simp add: mbr_bytes_def mbr_table_at(1) mbr_ok_def)
qed

lemma mbr_accepted:
  assumes ok: "mbr_ok m" and "source 0 512 = Inr (mbr_bytes m)"
  shows "check_protective_mbr source = Inr ()"
proof -
  note at = mbr_table_at [OF ok]
  have l: "length (mbr_bytes m) = 512" by (rule length_mbr_bytes [OF ok])
  have lc: "length (concat (mbr_table m)) = 64" "length (mb_boot m) = 446"
    using l ok by (simp_all add: mbr_bytes_def mbr_ok_def)
  have s: "slice_at (mbr_bytes m) 510 512 = mbr_signature"
    using lc by (simp add: mbr_bytes_def slice_at_def mbr_signature_def)
  have "slice_at (mbr_bytes m) 446 510 = concat (mbr_table m)"
    unfolding mbr_bytes_def by (rule slice_at_append_exact) (simp_all add: lc)
  moreover have "chunks_exact 16 (concat (mbr_table m)) = mbr_table m"
    by (rule chunks_exact_concat) (simp_all add: at(7))
  ultimately have r: "chunks_exact 16 (slice_at (mbr_bytes m) 446 510) = mbr_table m" by (simp only:)
  have k: "mb_slot m < 4" using ok by (simp add: mbr_ok_def)
  have p: "position (\<lambda>r. r ! 4 = 0xEE) (mbr_table m) = Some (mb_slot m)"
  proof (rule position_unique)
    show "(mbr_table m ! j) ! 4 = 0xEE \<longleftrightarrow> j = mb_slot m" if "j < length (mbr_table m)" for j
      using that at(1,2,5) at(3) [of j] by (cases "j = mb_slot m") simp_all
  qed (simp add: at k)
  have z: "\<not> list_ex (\<lambda>(index, r). index \<noteq> mb_slot m \<and> list_ex (\<lambda>byte. byte \<noteq> 0) r) (enumerate 0 (mbr_table m))"
    using at(1,3) by (auto simp: list_ex_iff in_set_enumerate_eq)
  show ?thesis
    using assms(2) z
    by (simp add: check_protective_mbr_def read_exact_def mbr_size_def mbr_signature_offset_def
        mbr_records_offset_def mbr_record_size_def mbr_record_type_offset_def mbr_record_start_offset_def
        protective_type_def primary_header_lba_def index_range_ok l s r p Let_def at(2,6))
qed

subsection \<open>Geometry and header\<close>

lemma plan_geometry:
  assumes "plan_ok l"
  defines "g \<equiv> \<lparr>geo_block_size = ucast (pl_block_size l), geo_blocks = pl_disk_size l div ucast (pl_block_size l)\<rparr>"
  shows "geometry_new (pl_block_size l) (pl_disk_size l) = Inr g"
    "geometry_of (pl_block_size l) (pl_disk_size l) g" "unat (geo_blocks g) = plan_blocks l"
proof -
  have d: "unat (pl_disk_size l div ucast (pl_block_size l)) = plan_blocks l"
    by (simp only: unat_div unat_ucast_u64 plan_blocks_def)
  then have b: "\<not> pl_disk_size l div ucast (pl_block_size l) \<le> 1"
    using assms(1) by (simp add: plan_ok_def word_le_nat_alt)
  have m: "pl_disk_size l mod ucast (pl_block_size l) = 0"
    using assms(1) unat_mod [of "pl_disk_size l" "ucast (pl_block_size l)"]
    by (simp add: plan_ok_def unat_ucast_u64 unat_eq_0)
  show n: "geometry_new (pl_block_size l) (pl_disk_size l) = Inr g"
    using assms(1) b m by (simp add: geometry_new_def g_def plan_ok_def Let_def min_logical_block_size_def
        max_logical_block_size_def primary_header_lba_def word_le_nat_alt)
  from geometry_new_Inr [OF this] show "geometry_of (pl_block_size l) (pl_disk_size l) g" .
  show "unat (geo_blocks g) = plan_blocks l" by (simp add: g_def d)
qed

lemma length_header_parts:
  assumes "plan_ok l"
  shows "length (header_before l) = 16" "length (header_after l) = 72" "length (header_block l) = unat (pl_block_size l)"
proof -
  show b: "length (header_before l) = 16" by (simp add: header_before_def gpt_signature_def)
  show a: "length (header_after l) = 72" using assms by (simp add: header_after_def length_to_bytes_le plan_ok_def)
  show "length (header_block l) = unat (pl_block_size l)" using assms by (simp add: header_block_def a b plan_ok_def)
qed

lemma header_fields:
  assumes "plan_ok l"
  shows "slice_at (header_block l) 0 8 = gpt_signature"
    "gpt_u32_at (header_block l) 8 = Inr gpt_revision"
    "gpt_u32_at (header_block l) 12 = Inr (pl_header_size l)"
    "gpt_u32_at (header_block l) 16 = Inr (header_crc l)"
    "slice_at (header_block l) 0 16 = header_before l"
    "slice_at (header_block l) 20 (unat (pl_header_size l)) = header_covered l"
    "gpt_u32_at (header_block l) 20 = Inr 0"
    "gpt_u64_at (header_block l) 24 = Inr 1"
    "gpt_u64_at (header_block l) 32 = Inr (pl_alternate l)"
    "gpt_u64_at (header_block l) 40 = Inr (pl_first_usable l)"
    "gpt_u64_at (header_block l) 48 = Inr (pl_last_usable l)"
    "guid_at (header_block l) 56 = Inr (pl_disk_guid l)"
    "gpt_u64_at (header_block l) 72 = Inr (pl_entry_lba l)"
    "gpt_u32_at (header_block l) 80 = Inr (pl_entry_count l)"
    "gpt_u32_at (header_block l) 84 = Inr 128"
    "gpt_u32_at (header_block l) 88 = Inr (crc32 (concat (table_entries l)))"
proof -
  have b: "512 \<le> length (header_block l)" using length_header_parts [OF assms] assms by (simp add: plan_ok_def)
  note lens = length_header_parts [OF assms]
  have g: "length (to_bytes_le (pl_disk_guid l)) = 16" "from_bytes_le (to_bytes_le (pl_disk_guid l)) = pl_disk_guid l"
    using assms by (simp_all add: length_to_bytes_le from_to_bytes_le plan_ok_def)
  have s: "length gpt_signature = 8" by (simp add: gpt_signature_def)
  have h: "72 \<le> unat (pl_header_size l) - 20" "unat (pl_header_size l) - 20 - 72 = unat (pl_header_size l) - 92"
    using assms by (auto simp: plan_ok_def)
  show "slice_at (header_block l) 0 8 = gpt_signature" "slice_at (header_block l) 0 16 = header_before l"
    by (simp_all add: slice_at_def header_block_def lens s) (simp add: header_before_def s)
  show "slice_at (header_block l) 20 (unat (pl_header_size l)) = header_covered l"
    using h by (simp add: slice_at_def header_block_def lens header_covered_def)
  show "gpt_u32_at (header_block l) 8 = Inr gpt_revision" "gpt_u32_at (header_block l) 12 = Inr (pl_header_size l)"
    "gpt_u32_at (header_block l) 16 = Inr (header_crc l)"
    "gpt_u32_at (header_block l) 20 = Inr 0" "gpt_u64_at (header_block l) 24 = Inr 1"
    "gpt_u64_at (header_block l) 32 = Inr (pl_alternate l)" "gpt_u64_at (header_block l) 40 = Inr (pl_first_usable l)"
    "gpt_u64_at (header_block l) 48 = Inr (pl_last_usable l)" "guid_at (header_block l) 56 = Inr (pl_disk_guid l)"
    "gpt_u64_at (header_block l) 72 = Inr (pl_entry_lba l)" "gpt_u32_at (header_block l) 80 = Inr (pl_entry_count l)"
    "gpt_u32_at (header_block l) 84 = Inr 128" "gpt_u32_at (header_block l) 88 = Inr (crc32 (concat (table_entries l)))"
    using b by (simp_all add: gpt_field_ok) (simp_all add: slice_at_def header_block_def header_before_def header_after_def s g)
qed

definition planned_header :: "gpt_plan \<Rightarrow> gpt_header" where
  "planned_header l =
     \<lparr>gh_first_usable_lba = pl_first_usable l, gh_last_usable_lba = pl_last_usable l,
       gh_disk_guid = pl_disk_guid l, gh_entry_array_offset = pl_entry_lba l * ucast (pl_block_size l),
       gh_entry_array_size = unat (pl_entry_count l) * 128,
       gh_entry_array_crc = crc32 (concat (table_entries l))\<rparr>"

lemma identity_accepted:
  assumes "plan_ok l" and "geometry_of (pl_block_size l) (pl_disk_size l) g"
  shows "check_header_identity g (header_block l) = Inr ()"
proof -
  have u: "unat (ucast (geo_block_size g) :: u32) = unat (pl_block_size l)"
    using block_size_u32 [OF assms(2)] assms(2) by (simp add: geometry_of_def)
  have n: "512 \<le> length (header_block l)" "20 \<le> unat (pl_header_size l)" "unat (pl_header_size l) \<le> length (header_block l)"
    using length_header_parts(3) [OF assms(1)] assms(1) by (simp_all add: plan_ok_def)
  have c: "crc_finish (crc_update (crc_update (crc_update crc_new (header_before l)) (replicate 4 0)) (header_covered l)) =
      header_crc l"
    by (simp only: header_crc_def crc32_def crc_update_append)
  show ?thesis
    using n assms(1)
    by (simp add: check_header_identity_def header_fields [OF assms(1)] index_range_ok c Let_def
        header_fields_size_def primary_header_lba_def word_le_nat_alt u plan_ok_def)
qed

lemma plan_order:
  assumes "plan_ok l"
  shows "unat (pl_first_usable l) \<le> unat (pl_last_usable l)" "unat (pl_last_usable l) < unat (pl_alternate l)"
    "unat (pl_alternate l) < plan_blocks l"
  using assms by (simp_all add: plan_ok_def)

lemma array_accepted:
  assumes "plan_ok l" and "geometry_of (pl_block_size l) (pl_disk_size l) g" and "unat (geo_blocks g) = plan_blocks l"
  shows "\<exists>n lba_end. check_entry_array g (geo_blocks g - 1) (header_block l) = Inr (n, pl_entry_lba l, lba_end) \<and>
    unat n = unat (pl_entry_count l) * 128 \<and> unat lba_end \<le> unat (pl_first_usable l)"
proof -
  let ?b = "unat (pl_block_size l)" and ?e = "pl_entry_lba l"
  obtain n where n: "checked_mul (ucast (pl_entry_count l)) (ucast gpt_entry_size :: u64) = Some n"
    using entry_count_bytes(2) by blast
  have u: "unat n = unat (pl_entry_count l) * 128" by (rule entry_count_bytes(1) [OF n])
  have b: "unat (geo_block_size g) = ?b" "0 < ?b" using assms(2) by (simp_all add: geometry_of_def)
  have e: "unat ?e * ?b + unat n \<le> unat (pl_first_usable l) * ?b" using assms(1) u by (simp add: plan_ok_def)
  then have le: "unat ?e \<le> unat (pl_first_usable l)" using b(2) by (metis add_leD1 mult_le_cancel2)
  have "unat n \<le> (unat (pl_first_usable l) - unat ?e) * ?b" using e by (simp add: diff_mult_distrib)
  then have d: "unat (div_ceil n (geo_block_size g)) \<le> unat (pl_first_usable l) - unat ?e"
    using b by (intro div_ceil_le) simp_all
  then have s: "unat ?e + unat (div_ceil n (geo_block_size g)) \<le> unat (pl_first_usable l)" using le by simp
  then have w: "unat ?e + unat (div_ceil n (geo_block_size g)) < 2 ^ LENGTH(64)"
    using unat_bound [of "pl_first_usable l"] by (meson le_less_trans)
  let ?stop = "?e + div_ceil n (geo_block_size g)"
  have fin: "checked_add ?e (div_ceil n (geo_block_size g)) = Some ?stop" "unat ?stop \<le> unat (pl_first_usable l)"
    using w s by (simp_all add: checked_add_def unat_add_no_wrap)
  moreover have "?stop \<le> geo_blocks g - 1"
    using fin(2) geometry_last_lba_ok(2) [OF assms(2)] plan_order [OF assms(1)] assms(3)
    by (simp add: word_le_nat_alt)
  moreover have "pl_entry_count l \<noteq> 0" "unat (pl_entry_count l) \<le> 8192" "1 < unat ?e"
    using assms(1) by (auto simp: plan_ok_def)
  ultimately have "check_entry_array g (geo_blocks g - 1) (header_block l) = Inr (n, ?e, ?stop)"
    using u n
    by (simp add: check_entry_array_def header_fields [OF assms(1)] gpt_entry_size_def [symmetric]
        primary_header_lba_def max_entry_array_bytes_def word_less_nat_alt unat_ucast_u64)
  then show ?thesis using u fin(2) by blast
qed

lemma usable_accepted:
  assumes "plan_ok l" and "geometry_of (pl_block_size l) (pl_disk_size l) g" and "unat (geo_blocks g) = plan_blocks l"
    and "unat lba_end \<le> unat (pl_first_usable l)"
  shows "check_usable (geo_blocks g - 1) lba_end (header_block l) =
    Inr (pl_first_usable l, pl_last_usable l, pl_disk_guid l)"
proof -
  have "unat (geo_blocks g - 1) = plan_blocks l - 1" using geometry_last_lba_ok(2) [OF assms(2)] assms(3) by simp
  moreover have "pl_disk_guid l \<noteq> uuid_nil" using assms(1) by (simp add: plan_ok_def)
  ultimately show ?thesis
    using plan_order [OF assms(1)] assms(4)
    by (simp add: check_usable_def header_fields [OF assms(1)] is_nil_def word_le_nat_alt word_less_nat_alt)
qed

lemma header_accepted:
  fixes source :: "'io read_at"
  assumes "plan_ok l" and "geometry_of (pl_block_size l) (pl_disk_size l) g" and "unat (geo_blocks g) = plan_blocks l"
    and "geo_block_size g = ucast (pl_block_size l)" and "holds_plan source l"
  shows "read_header source g = Inr (planned_header l)"
proof -
  obtain n lba_end where
    a: "check_entry_array g (geo_blocks g - 1) (header_block l) = (Inr (n, pl_entry_lba l, lba_end) :: ('io, _) read_result)"
    and n: "unat n = unat (pl_entry_count l) * 128" and e: "unat lba_end \<le> unat (pl_first_usable l)"
    using array_accepted [OF assms(1-3)] by blast
  have "unat (pl_entry_lba l) \<le> unat (geo_blocks g)"
    using entry_array_Inr [OF assms(2) a] by (simp add: array_of_def)
  then obtain k where "geometry_bytes g (pl_entry_lba l) = Some k"
    using geometry_bytes_ok [OF assms(2)] by blast
  then have "geometry_bytes g (pl_entry_lba l) = Some (pl_entry_lba l * ucast (pl_block_size l))"
    by (simp add: geometry_bytes_def checked_mul_def assms(4) split: if_splits)
  then show ?thesis
    using assms(4,5) a
    by (simp add: read_header_def usable_accepted [OF assms(1-3) e] read_exact_def holds_plan_def unat_ucast_u64 identity_accepted [OF assms(1,2)]
        geometry_last_lba_ok [OF assms(2)] header_fields [OF assms(1)] planned_header_def n)
qed

subsection \<open>The table\<close>

lemma length_entry_bytes: "entry_ok l e \<Longrightarrow> length (entry_bytes e) = 128"
  by (simp add: entry_ok_def entry_bytes_def length_to_bytes_le)

lemma table_chunks:
  assumes "plan_ok l"
  shows "chunks_exact 128 (concat (table_entries l)) = table_entries l"
proof (rule chunks_exact_concat)
  have "\<forall>e \<in> set (pl_entries l). entry_ok l e" using assms by (simp add: plan_ok_def)
  then show "length c = 128" if "c \<in> set (table_entries l)" for c
    using that assms by (auto simp: table_entries_def length_entry_bytes plan_ok_def unused_ok_def)
qed simp

lemma gpt_entry_fields:
  assumes "entry_ok l e"
  shows "guid_at (entry_bytes e) 0 = Inr (en_type e)" "guid_at (entry_bytes e) 16 = Inr (en_unique e)"
    "gpt_u64_at (entry_bytes e) 32 = Inr (en_first e)" "gpt_u64_at (entry_bytes e) 40 = Inr (en_last e)"
    "gpt_u64_at (entry_bytes e) 48 = Inr (en_attributes e)"
proof -
  have u: "uuid_wf (en_type e)" "uuid_wf (en_unique e)" using assms by (simp_all add: entry_ok_def)
  show "guid_at (entry_bytes e) 0 = Inr (en_type e)" "guid_at (entry_bytes e) 16 = Inr (en_unique e)"
    "gpt_u64_at (entry_bytes e) 32 = Inr (en_first e)" "gpt_u64_at (entry_bytes e) 40 = Inr (en_last e)"
    "gpt_u64_at (entry_bytes e) 48 = Inr (en_attributes e)"
    by (simp_all add: gpt_field_ok length_entry_bytes [OF assms])
      (simp_all add: entry_bytes_def slice_at_def length_to_bytes_le u from_to_bytes_le)
qed

lemma unused_entry: "unused_ok u \<Longrightarrow> guid_at u 0 = Inr uuid_nil"
  by (simp add: unused_ok_def gpt_field_ok slice_at_def) 
    (simp add: from_bytes_le_def uuid_nil_def swap_groups_def numeral_eq_Suc)

lemma count_unused:
  "(\<And>u. u \<in> set us \<Longrightarrow> unused_ok u) \<Longrightarrow> count_used us number used unused = Inr used"
  by (induction us arbitrary: number unused) (simp_all add: unused_entry is_nil_def)

lemma count_entries:
  "(\<And>e. e \<in> set es \<Longrightarrow> entry_ok l e) \<Longrightarrow> (\<And>u. u \<in> set us \<Longrightarrow> unused_ok u) \<Longrightarrow>
     count_used (map entry_bytes es @ us) number used None = Inr (used + length es)"
  by (induction es arbitrary: number used)
    (simp_all add: count_unused gpt_entry_fields(1) [of l] is_nil_def entry_ok_def)

lemma count_table:
  assumes "plan_ok l"
  shows "count_used (table_entries l) number 0 None = Inr (length (pl_entries l))"
proof -
  have e: "entry_ok l e" if "e \<in> set (pl_entries l)" for e using that assms by (simp add: plan_ok_def)
  have u: "unused_ok u" if "u \<in> set (pl_unused l)" for u using that assms by (simp add: plan_ok_def)
  show ?thesis unfolding table_entries_def by (subst count_entries [of _ l]) (simp_all add: e u)
qed

lemma partition_accepted:
  assumes g: "geometry_of (pl_block_size l) (pl_disk_size l) g" "geo_block_size g = ucast (pl_block_size l)"
    and h: "header_of (pl_block_size l) (pl_disk_size l) g (planned_header l)"
    and e: "entry_ok l e" and "en_unique e \<notin> set guids"
  shows "read_partition g (planned_header l) guids (word_of_nat i) (entry_bytes e) = Inr (planned_partition l i e)"
proof -
  have le: "en_first e \<le> en_last e" "en_last e \<le> gh_last_usable_lba (planned_header l)"
    "gh_first_usable_lba (planned_header l) \<le> en_first e" "en_unique e \<noteq> uuid_nil"
    using e by (simp_all add: entry_ok_def planned_header_def)
  note s = span_blocks [OF h le(1,2)]
  have b: "geometry_bytes g n = Some (n * ucast (pl_block_size l))" if "unat n \<le> unat (geo_blocks g)" for n
    using geometry_bytes_ok [OF g(1) that] by (auto simp: geometry_bytes_def checked_mul_def g(2) split: if_splits)
  show ?thesis
    using le assms(5)
    by (simp add: read_partition_def gpt_entry_fields [OF e] is_nil_def s(1,2) b [OF s(4)] b [OF s(5)] planned_partition_def
        not_less [symmetric])
qed

lemma entries_accepted:
  assumes g: "geometry_of (pl_block_size l) (pl_disk_size l) g" "geo_block_size g = ucast (pl_block_size l)"
    and h: "header_of (pl_block_size l) (pl_disk_size l) g (planned_header l)"
    and "\<forall>e \<in> set es. entry_ok l e" and "distinct (guids @ map en_unique es)" and "i + length es \<le> 256"
  shows "read_entries g (planned_header l) (zip (map word_of_nat [i..<256]) (map entry_bytes es)) guids ps =
    (Inr (ps @ map (\<lambda>(i, e). planned_partition l i e) (enumerate i es)) :: ('io, _) read_result)"
  using assms(4-)
proof (induction es arbitrary: i guids ps)
  case (Cons e es)
  have u: "[i..<256] = i # [Suc i..<256]" using Cons.prems(3) by (simp add: upt_conv_Cons)
  have "en_unique e \<notin> set guids" "entry_ok l e" using Cons.prems by auto
  note p = partition_accepted [OF g h this(2,1)]
  have q: "pt_unique_guid (planned_partition l i e) = en_unique e" by (simp add: planned_partition_def)
  have "read_entries g (planned_header l) (zip (map word_of_nat [Suc i..<256]) (map entry_bytes es)) (guids @ [en_unique e])
      (ps @ [planned_partition l i e]) =
    (Inr ((ps @ [planned_partition l i e]) @ map (\<lambda>(i, e). planned_partition l i e) (enumerate (Suc i) es)) ::
      ('io, _) read_result)"
    by (rule Cons.IH) (use Cons.prems in auto)
  then show ?case by (simp add: u p q del: upt_Suc)
qed simp

lemma first_overlap_apart:
  assumes "sorted (map pt_first_lba ps)" "distinct ps" "\<And>p. p \<in> set ps \<Longrightarrow> pt_first_lba p \<le> pt_last_lba p"
    and "\<And>p q. p \<in> set ps \<Longrightarrow> q \<in> set ps \<Longrightarrow> p \<noteq> q \<Longrightarrow> pt_last_lba p < pt_first_lba q \<or> pt_last_lba q < pt_first_lba p"
  shows "first_overlap ps = None"
  using assms
proof (induction ps rule: first_overlap.induct)
  case (1 a b ps)
  have "\<not> pt_first_lba b \<le> pt_last_lba a"
    using 1(2,3) 1(4) [of b] 1(5) [of a b] by auto
  moreover have "first_overlap (b # ps) = None"
    using 1 calculation by auto
  ultimately show ?case by simp
qed simp_all

lemma planned_apart:
  assumes "plan_ok l" and ps: "ps = map (\<lambda>(i, e). planned_partition l i e) (enumerate 1 (pl_entries l))"
  shows "first_overlap (sort_key pt_first_lba ps) = None"
proof -
  have u: "map pt_unique_guid ps = map en_unique (pl_entries l)"
    by (intro nth_equalityI) (simp_all add: ps planned_partition_def nth_enumerate_eq split_def)
  have "distinct (map pt_unique_guid ps)" using assms(1) unfolding u by (simp add: plan_ok_def)
  then have d: "distinct (sort_key pt_first_lba ps)" by (simp add: distinct_map)
  have le: "pt_first_lba p \<le> pt_last_lba p" if "p \<in> set ps" for p
    using that assms(1) by (auto simp: ps planned_partition_def plan_ok_def entry_ok_def in_set_enumerate_eq)
  have "pt_last_lba p < pt_first_lba q \<or> pt_last_lba q < pt_first_lba p" if "p \<in> set ps" "q \<in> set ps" "p \<noteq> q" for p q
  proof -
    note pq = that
    obtain i j where ij: "i < length (pl_entries l)" "j < length (pl_entries l)"
      "p = planned_partition l (Suc i) (pl_entries l ! i)" "q = planned_partition l (Suc j) (pl_entries l ! j)"
      using pq(1,2) by (auto simp: ps in_set_conv_nth nth_enumerate_eq)
    then have "i \<noteq> j" using pq(3) by auto
    then have "apart (pl_entries l ! i) (pl_entries l ! j) \<or> apart (pl_entries l ! j) (pl_entries l ! i)"
      using assms(1) ij(1,2) by (auto simp: plan_ok_def sorted_wrt_iff_nth_less neq_iff)
    then show ?thesis by (auto simp: ij apart_def planned_partition_def)
  qed
  then show ?thesis
    using d le by (intro first_overlap_apart) simp_all
qed

subsection \<open>Images in memory\<close>

text \<open>
  The bytes of a disk, with what lies between the MBR and the header's block, between that block and
  the table, and after the table.
\<close>

definition image_bytes :: "gpt_plan \<Rightarrow> bytes \<Rightarrow> bytes \<Rightarrow> bytes \<Rightarrow> bytes" where
  "image_bytes l gap between rest =
     mbr_bytes (pl_mbr l) @ gap @ header_block l @ between @ concat (table_entries l) @ rest"

definition gaps_ok :: "gpt_plan \<Rightarrow> bytes \<Rightarrow> bytes \<Rightarrow> bool" where
  "gaps_ok l gap between \<longleftrightarrow> length gap = unat (pl_block_size l) - 512 \<and>
     length between = (unat (pl_entry_lba l) - 2) * unat (pl_block_size l)"

lemma length_table:
  assumes "plan_ok l"
  shows "length (concat (table_entries l)) = unat (pl_entry_count l) * 128"
proof -
  have "\<forall>c \<in> set (table_entries l). length c = 128"
    using chunks_exact_length [of _ 128 "concat (table_entries l)"] table_chunks [OF assms] by auto
  moreover have "length (table_entries l) = unat (pl_entry_count l)"
    using assms by (simp add: table_entries_def plan_ok_def)
  ultimately show ?thesis using length_concat_equal [of "table_entries l" 128] by simp
qed

lemma slice_read_append:
  assumes "length xs = unat offset" and "length ys = n" and "unat offset + n \<le> usize_max"
  shows "slice_read_exact_at (xs @ ys @ zs) offset n = Inr ys"
  using assms by (simp add: slice_read_exact_at_def checked_add_usize_def get_range_def slice_at_append_exact)

lemma image_holds:
  assumes "plan_ok l" and gaps: "gaps_ok l gap between"
    and "length (image_bytes l gap between rest) = unat (pl_disk_size l)"
  shows "holds_plan (slice_read_exact_at (image_bytes l gap between rest)) l"
proof -
  let ?b = "unat (pl_block_size l)" and ?e = "unat (pl_entry_lba l)" and ?m = "mbr_bytes (pl_mbr l)"
  have b: "512 \<le> ?b" "2 \<le> ?e" "mbr_ok (pl_mbr l)" using assms(1) by (simp_all add: plan_ok_def)
  note lens = length_mbr_bytes [OF b(3)] length_header_parts(3) [OF assms(1)] length_table [OF assms(1)]
    gaps [unfolded gaps_ok_def]
  have u: "unat (pl_disk_size l) \<le> usize_max" using unat_bound [of "pl_disk_size l"] by (simp add: usize_max_def)
  have e: "?b + ?b + (?e - 2) * ?b = ?e * ?b"
    using b(2) by (cases ?e; cases "?e - 1") (auto simp: diff_mult_distrib)
  have n: "unat (pl_disk_size l) = ?e * ?b + unat (pl_entry_count l) * 128 + length rest"
    using assms(3) lens b e by (simp add: image_bytes_def)
  have "unat (pl_entry_lba l * ucast (pl_block_size l)) = ?e * ?b"
    using n unat_bound [of "pl_disk_size l"] unat_mul_no_wrap [of "pl_entry_lba l" "ucast (pl_block_size l)"]
    by (simp add: unat_ucast_u64)
  then have "slice_read_exact_at ((?m @ gap @ header_block l @ between) @ concat (table_entries l) @ rest)
      (pl_entry_lba l * ucast (pl_block_size l)) (unat (pl_entry_count l) * 128) = Inr (concat (table_entries l))"
    using lens b e n u by (intro slice_read_append) simp_all
  moreover have "slice_read_exact_at ((?m @ gap) @ header_block l @ between @ concat (table_entries l) @ rest)
      (ucast (pl_block_size l)) ?b = Inr (header_block l)"
    using lens b e n u by (intro slice_read_append) (simp_all add: unat_ucast_u64)
  moreover have "slice_read_exact_at ([] @ ?m @ gap @ header_block l @ between @ concat (table_entries l) @ rest)
      0 512 = Inr ?m"
    using lens by (intro slice_read_append) (simp_all add: usize_max_def)
  ultimately show ?thesis by (simp add: holds_plan_def image_bytes_def)
qed

text \<open>
  A disk with boot code, a protective record in the third slot, a header of 100 bytes in a block that is
  not empty after it, named partitions and an unused entry that keeps old bytes.
\<close>

definition demo_plan :: gpt_plan where
  "demo_plan = \<lparr>
     pl_mbr = \<lparr>mb_boot = replicate 446 0x90, mb_slot = 2, mb_chs_first = [0, 0, 2, 0],
       mb_chs_last = [255, 255, 255], mb_blocks = [7, 0, 0, 0]\<rparr>,
     pl_block_size = 512, pl_disk_size = 4096, pl_disk_guid = Uuid (replicate 16 1), pl_entry_lba = 2,
     pl_entry_count = 4, pl_first_usable = 3, pl_last_usable = 6, pl_alternate = 7,
     pl_header_size = 100, pl_header_rest = replicate 420 5,
     pl_entries = [\<lparr>en_type = Uuid (replicate 16 9), en_unique = Uuid (replicate 16 2), en_first = 3, en_last = 3,
         en_attributes = 0, en_name = replicate 72 0x41\<rparr>,
       \<lparr>en_type = Uuid (replicate 16 9), en_unique = Uuid (replicate 16 3), en_first = 4, en_last = 5,
         en_attributes = 1, en_name = replicate 72 0\<rparr>],
     pl_unused = [replicate 16 0 @ replicate 112 0xFF, replicate 128 0]\<rparr>"

definition demo_image :: bytes where
  "demo_image = image_bytes demo_plan [] [] (replicate 2560 0)"

lemma demo_plan_ok: "plan_ok demo_plan"
proof -
  have r: "replicate 16 (a :: u8) = replicate 16 b \<longleftrightarrow> a = b" for a b by simp
  show ?thesis
    by (simp add: plan_ok_def demo_plan_def mbr_ok_def unused_ok_def entry_ok_def apart_def plan_blocks_def
        is_power_of_two_def uuid_wf_def uuid_nil_def r)
qed

lemma demo_gaps: "gaps_ok demo_plan [] []"
  by (simp add: gaps_ok_def demo_plan_def)

lemma demo_length: "length (image_bytes demo_plan [] [] (replicate 2560 0)) = unat (pl_disk_size demo_plan)"
proof -
  have "mbr_ok (pl_mbr demo_plan)" using demo_plan_ok by (simp add: plan_ok_def)
  then show ?thesis
    using length_header_parts(3) [OF demo_plan_ok] length_table [OF demo_plan_ok]
    by (simp add: image_bytes_def length_mbr_bytes) (simp add: demo_plan_def)
qed

lemma demo_holds: "holds_plan (slice_read_exact_at demo_image) demo_plan"
  unfolding demo_image_def by (rule image_holds [OF demo_plan_ok demo_gaps demo_length])

section \<open>Properties\<close>

lemma disk_image_read:
  assumes "plan_ok l" and "holds_plan source l"
  shows "disk_read source (pl_block_size l) (pl_disk_size l) \<lparr>ex_disk_guid = None, ex_partitions = None\<rparr> =
    Inr (planned_disk l)"
proof -
  define g where "g = \<lparr>geo_block_size = ucast (pl_block_size l), geo_blocks = pl_disk_size l div ucast (pl_block_size l)\<rparr>"
  note go = plan_geometry [OF assms(1), folded g_def]
  have b: "geo_block_size g = ucast (pl_block_size l)" by (simp add: g_def)
  note h = header_accepted [OF assms(1) go(2,3) b assms(2)]
  note ho = header_Inr [OF go(2) h]
  let ?ps = "map (\<lambda>(i, e). planned_partition l i e) (enumerate 1 (pl_entries l))"
  have ok: "\<forall>e \<in> set (pl_entries l). entry_ok l e" "distinct ([pl_disk_guid l] @ map en_unique (pl_entries l))"
    "1 + length (pl_entries l) \<le> 256" "2 \<le> length (pl_entries l)" "length (pl_entries l) \<le> 255"
    using assms(1) by (simp_all add: plan_ok_def)
  have t: "take (length (pl_entries l)) (table_entries l) = map entry_bytes (pl_entries l)"
    by (simp add: table_entries_def)
  have r: "read_exact source (gh_entry_array_offset (planned_header l)) (gh_entry_array_size (planned_header l)) =
      Inr (concat (table_entries l))" "gh_entry_array_crc (planned_header l) = crc32 (concat (table_entries l))"
      "gh_disk_guid (planned_header l) = pl_disk_guid l"
    using assms(2) by (simp_all add: read_exact_def holds_plan_def planned_header_def)
  have p: "read_partitions source g (planned_header l) = Inr ?ps"
    using ok(4,5)
    by (simp add: read_partitions_def r Let_def gpt_entry_size_def table_chunks [OF assms(1)] count_table [OF assms(1)] t min_partitions_def
        max_partitions_def entries_accepted [OF go(2) b ho ok(1,2,3)] planned_apart [OF assms(1) refl] del: upt_Suc One_nat_def)
  show ?thesis
    using assms(2) h p r(3) mbr_accepted [of "pl_mbr l" source] assms(1)
    by (simp add: disk_read_def go(1) plan_ok_def holds_plan_def Let_def check_expected_def planned_disk_def)
qed

text \<open>
  C30. The reader accepts every disk that is made of a valid block size, an MBR with arbitrary boot code
  and one protective record in any of its four slots, a header of any size from its 92 bytes of fields
  up to its block with the CRC of all of that size, and an entry array of at most 1 MiB after it with
  its CRC, whose first 2 to 255 entries are partitions in the usable blocks that do not overlap, with
  any names, and whose other entries have a nil type and are otherwise arbitrary; and whatever bytes
  there are between and after these parts. What is returned is what was written: the disk's GUID and
  the partitions in their order with their numbers, GUIDs, attributes, offsets and sizes.
\<close>

theorem disk_image_accepted:
  assumes "plan_ok l" and "gaps_ok l gap between"
    and "length (image_bytes l gap between rest) = unat (pl_disk_size l)"
  shows "disk_read (slice_read_exact_at (image_bytes l gap between rest)) (pl_block_size l) (pl_disk_size l)
      \<lparr>ex_disk_guid = None, ex_partitions = None\<rparr> = Inr (planned_disk l)"
  by (rule disk_image_read [OF assms(1) image_holds [OF assms]])

theorem disk_image_accepted_witness:
  "disk_read (slice_read_exact_at demo_image) 512 4096 \<lparr>ex_disk_guid = None, ex_partitions = None\<rparr> = Inr (planned_disk demo_plan) \<and>
     map pt_offset (dk_partitions (planned_disk demo_plan)) = [1536, 2048]"
proof -
  have "pl_block_size demo_plan = 512" "pl_disk_size demo_plan = 4096" by (simp_all add: demo_plan_def)
  moreover have "map pt_offset (dk_partitions (planned_disk demo_plan)) = [1536, 2048]"
    by (simp add: planned_disk_def demo_plan_def planned_partition_def)
  ultimately show ?thesis using disk_image_accepted [OF demo_plan_ok demo_gaps demo_length] by (simp add: demo_image_def)
qed

text \<open>
  C29. Whatever the source returns, a disk that is accepted has two to 255 partitions, numbered from 1;
  no two of the GUIDs of the disk and its partitions are equal and none is nil; each partition starts
  after the MBR, the header and the entry array, holds at least one block, ends before the last block
  of the disk and is aligned to blocks; no two of them share a byte; and every expectation of the
  caller is met.
\<close>

theorem disk_layout_sound:
  fixes source :: "'io read_at"
  assumes "disk_read source block_size disk_size x = Inr d"
  shows "2 \<le> length (dk_partitions d) \<and> length (dk_partitions d) \<le> 255 \<and>
    map (\<lambda>p. unat (pt_number p)) (dk_partitions d) = [1..<Suc (length (dk_partitions d))] \<and>
    distinct (dk_guid d # map pt_unique_guid (dk_partitions d)) \<and>
    uuid_nil \<notin> set (dk_guid d # map pt_unique_guid (dk_partitions d)) \<and>
    (\<forall>p \<in> set (dk_partitions d). 3 * unat block_size \<le> unat (pt_offset p) \<and> 0 < unat (pt_size p) \<and>
       unat (pt_offset p) + unat (pt_size p) + unat block_size \<le> unat disk_size \<and>
       unat block_size dvd unat (pt_offset p) \<and> unat block_size dvd unat (pt_size p)) \<and>
    (\<forall>p \<in> set (dk_partitions d). \<forall>q \<in> set (dk_partitions d). p \<noteq> q \<longrightarrow> partition_bytes p \<inter> partition_bytes q = {}) \<and>
    (\<forall>u. ex_disk_guid x = Some u \<longrightarrow> dk_guid d = u) \<and>
    (\<forall>xs. ex_partitions x = Some xs \<longrightarrow> list_all2 expectation_met xs (dk_partitions d))"
proof -
  obtain g h where gh: "geometry_of block_size disk_size g" "header_of block_size disk_size g h"
    and p: "partitions_of block_size h (dk_partitions d)" and e: "check_expected x d = (Inr () :: ('io, _) read_result)"
    and u: "dk_guid d = gh_disk_guid h"
    by (rule disk_read_Inr [OF assms])
  have "partition_of block_size h p" if "p \<in> set (dk_partitions d)" for p
    using p that by (simp add: partitions_of_def)
  then have "3 * unat block_size \<le> unat (pt_offset p) \<and> 0 < unat (pt_size p) \<and>
       unat (pt_offset p) + unat (pt_size p) + unat block_size \<le> unat disk_size \<and>
       unat block_size dvd unat (pt_offset p) \<and> unat block_size dvd unat (pt_size p)" if "p \<in> set (dk_partitions d)" for p
    using partition_inside [OF gh, of p] that by (simp add: partition_of_def)
  moreover have "gh_disk_guid h \<noteq> uuid_nil" using gh(2) by (simp add: header_of_def)
  moreover note p [unfolded partitions_of_def] e [unfolded check_expected_Inr]
  ultimately show ?thesis unfolding u by auto
qed

theorem disk_layout_sound_witness:
  "\<exists>d. disk_read (slice_read_exact_at demo_image) 512 4096 \<lparr>ex_disk_guid = None, ex_partitions = None\<rparr> = Inr d \<and>
     map (\<lambda>p. unat (pt_number p)) (dk_partitions d) = [1..<Suc (length (dk_partitions d))]"
proof -
  have "disk_read (slice_read_exact_at demo_image) 512 4096 \<lparr>ex_disk_guid = None, ex_partitions = None\<rparr> = Inr (planned_disk demo_plan)"
    using disk_image_read [OF demo_plan_ok demo_holds] by (simp add: demo_plan_def)
  from this disk_layout_sound [OF this] show ?thesis by blast
qed

text \<open>
  C31. Given a source that fills the buffers it reads into, reading a disk never panics, whatever the
  bytes are: no index is out of range and no arithmetic overflows. Neither do the accessors of a disk
  that was read.
\<close>

theorem disk_read_no_panic:
  fixes source :: "'io read_at"
  assumes "exact_source source"
  shows "disk_read source block_size disk_size x \<noteq> Inl Panics \<and>
    (\<forall>d bound. disk_read source block_size disk_size x = Inr d \<longrightarrow>
       read_first_partition d source bound \<noteq> Inl Panics \<and> lowers d \<noteq> (Inl Panics :: ('io, _) read_result))"
proof (intro conjI allI impI)
  show "disk_read source block_size disk_size x \<noteq> Inl Panics"
    unfolding disk_read_def Let_def
  proof (intro and_then_not_Inl mbr_no_panic [OF assms] check_expected_no_panic, goal_cases)
    case 1
    show ?case by (simp add: geometry_new_def Let_def)
  next
    case (2 g)
    then show ?case using header_no_panic [OF geometry_new_Inr assms] by blast
  next
    case (3 g _ h)
    show ?case
      by (rule read_partitions_no_panic [OF geometry_new_Inr [OF 3(1)] header_Inr [OF geometry_new_Inr [OF 3(1)] 3(3)] assms])
  qed simp
  fix d bound
  assume "disk_read source block_size disk_size x = Inr d"
  from first_partition_ok [OF this] obtain p ps where d: "dk_partitions d = p # ps" by metis
  show "read_first_partition d source bound \<noteq> Inl Panics"
    using exact_source.read_exact_no_panic [OF assms]
    by (simp add: read_first_partition_def first_partition_def d Let_def and_then_eq_Inl)
  show "lowers d \<noteq> (Inl Panics :: ('io, _) read_result)" by (simp add: lowers_def d)
qed

theorem disk_read_no_panic_witness:
  "disk_read (slice_read_exact_at [1, 2, 3]) 512 4096 \<lparr>ex_disk_guid = None, ex_partitions = None\<rparr> \<noteq> Inl Panics"
  using disk_read_no_panic [OF slice.exact_source_axioms] by blast

text \<open>
  C32. Nothing outside the size that the caller states is ever read: sources that agree inside it give the
  same result, of reading the disk and of reading the first partition, whose bytes are those of the
  partition without the trailing NUL bytes and white space.
\<close>

theorem disk_reads_inside:
  fixes source other :: "'io read_at"
  assumes "\<And>offset n. unat offset + n \<le> unat disk_size \<Longrightarrow> source offset n = other offset n"
  shows "disk_read source block_size disk_size x = disk_read other block_size disk_size x \<and>
    (disk_read source block_size disk_size x = Inr d \<longrightarrow>
       read_first_partition d source bound = read_first_partition d other bound \<and>
       (\<forall>bs. read_first_partition d source bound = Inr bs \<longrightarrow>
          (\<exists>p data. first_partition d = (Inr p :: ('io, _) read_result) \<and> unat (pt_size p) \<le> bound \<and>
             source (pt_offset p) (unat (pt_size p)) = Inr data \<and>
             bs = rev (dropWhile (\<lambda>b. b = 0 \<or> is_ascii_whitespace b) (rev data)))))"
proof (intro conjI impI)
  have r: "read_exact source offset n = read_exact other offset n" if "unat offset + n \<le> unat disk_size" for offset n
    using assms [OF that] by (simp add: read_exact_def)
  show "disk_read source block_size disk_size x = disk_read other block_size disk_size x"
  proof (cases "geometry_new block_size disk_size :: ('io, geometry) read_result")
    case (Inr g)
    note g = geometry_new_Inr [OF this]
    have "2 \<le> unat (geo_blocks g)" "unat (geo_blocks g) * unat block_size = unat disk_size"
      using g by (simp_all add: geometry_of_def)
    then have b: "unat block_size + unat block_size \<le> unat disk_size" by (metis mult_2 mult_le_mono1)
    have "check_protective_mbr source = check_protective_mbr other"
      using b g by (simp add: check_protective_mbr_def r mbr_size_def geometry_of_def)
    moreover have h: "read_header source g = read_header other g"
      using b g by (simp add: read_header_def r geometry_of_def)
    moreover have "read_partitions source g h = read_partitions other g h" if "read_header other g = Inr h" for h
      using header_Inr [OF g that] by (simp add: read_partitions_def r header_of_def)
    ultimately show ?thesis
      by (cases "read_header other g") (simp_all add: disk_read_def Inr)
  qed (simp add: disk_read_def)
  assume d: "disk_read source block_size disk_size x = Inr d"
  obtain p ps where p: "dk_partitions d = p # ps" "unat (pt_offset p) + unat (pt_size p) \<le> unat disk_size"
    by (rule first_partition_ok [OF d])
  show "read_first_partition d source bound = read_first_partition d other bound"
    by (simp add: read_first_partition_def first_partition_def p(1) r [OF p(2)])
  show "\<forall>bs. read_first_partition d source bound = Inr bs \<longrightarrow>
    (\<exists>p data. first_partition d = (Inr p :: ('io, _) read_result) \<and> unat (pt_size p) \<le> bound \<and>
      source (pt_offset p) (unat (pt_size p)) = Inr data \<and>
      bs = rev (dropWhile (\<lambda>b. b = 0 \<or> is_ascii_whitespace b) (rev data)))"
    by (auto simp: read_first_partition_def first_partition_def p(1) read_exact_def Let_def rposition_take
        split: if_splits sum.splits)
qed

theorem disk_reads_inside_witness:
  "\<exists>d. disk_read (slice_read_exact_at demo_image) 512 4096 \<lparr>ex_disk_guid = None, ex_partitions = None\<rparr> = Inr d \<and>
     disk_read (\<lambda>offset n. if unat offset + n \<le> 4096 then slice_read_exact_at demo_image offset n else Inl UnexpectedEof)
       512 4096 \<lparr>ex_disk_guid = None, ex_partitions = None\<rparr> = Inr d"
proof -
  have "disk_read (slice_read_exact_at demo_image) 512 4096 \<lparr>ex_disk_guid = None, ex_partitions = None\<rparr> = Inr (planned_disk demo_plan)"
    using disk_image_read [OF demo_plan_ok demo_holds] by (simp add: demo_plan_def)
  moreover have "disk_read (slice_read_exact_at demo_image) 512 4096 \<lparr>ex_disk_guid = None, ex_partitions = None\<rparr> =
    disk_read (\<lambda>offset n. if unat offset + n \<le> 4096 then slice_read_exact_at demo_image offset n else Inl UnexpectedEof)
       512 4096 \<lparr>ex_disk_guid = None, ex_partitions = None\<rparr>"
    by (rule disk_reads_inside [THEN conjunct1]) simp
  ultimately show ?thesis by simp
qed

end
