(* ===== verification/Egress_Address.thy ===== *)
theory Egress_Address
  imports Net_Cidr_Cover "HOL-Library.Product_Lexorder"
begin

text \<open>
  The networks and the intervals of addresses that egress rules select
  (\<^verbatim>\<open>host/network/address.rs\<close>), without their text: the networks that cover an interval, the union of
  intervals, and the difference of two unions. An address is a \<^verbatim>\<open>u128\<close> of either family. The lemmas
  say which addresses the results hold.
\<close>

section \<open>Families, intervals and networks\<close>

datatype family = FamilyV4 | FamilyV6

instantiation family :: linorder
begin

definition less_eq_family :: "family \<Rightarrow> family \<Rightarrow> bool" where
  "f \<le> g \<longleftrightarrow> f = FamilyV4 \<or> g = FamilyV6"

definition less_family :: "family \<Rightarrow> family \<Rightarrow> bool" where
  "f < g \<longleftrightarrow> f = FamilyV4 \<and> g = FamilyV6"

instance
proof
  fix f g h :: family
  show "f < g \<longleftrightarrow> f \<le> g \<and> \<not> g \<le> f" by (cases f; cases g) (simp_all add: less_eq_family_def less_family_def)
  show "f \<le> f" by (cases f) (simp_all add: less_eq_family_def)
  show "f \<le> g \<Longrightarrow> g \<le> h \<Longrightarrow> f \<le> h" by (auto simp: less_eq_family_def)
  show "f \<le> g \<Longrightarrow> g \<le> f \<Longrightarrow> f = g" by (auto simp: less_eq_family_def)
  show "f \<le> g \<or> g \<le> f" by (cases f; cases g) (simp_all add: less_eq_family_def)
qed

end

definition family_all :: "family list" where
  "family_all = [FamilyV4, FamilyV6]"

definition family_bits :: "family \<Rightarrow> nat" where
  "family_bits f = (case f of FamilyV4 \<Rightarrow> 32 | FamilyV6 \<Rightarrow> 128)"

definition last_address :: "family \<Rightarrow> u128" where
  "last_address f = (case f of FamilyV4 \<Rightarrow> 0xFFFFFFFF | FamilyV6 \<Rightarrow> - 1)"

type_synonym interval = "u128 \<times> u128"

definition family_everything :: "family \<Rightarrow> interval" where
  "family_everything f = (0, last_address f)"

datatype network = Network (nw_family: family) (nw_address: u128) (nw_prefix: u8)

text \<open>The derived order: by family, then by address, then by prefix length.\<close>

definition network_key :: "network \<Rightarrow> family \<times> u128 \<times> u8" where
  "network_key n = (nw_family n, nw_address n, nw_prefix n)"

lemma network_key_inj: "network_key m = network_key n \<longleftrightarrow> m = n"
  by (cases m; cases n) (simp add: network_key_def)

instantiation network :: linorder
begin

definition less_eq_network :: "network \<Rightarrow> network \<Rightarrow> bool" where
  "m \<le> n \<longleftrightarrow> network_key m \<le> network_key n"

definition less_network :: "network \<Rightarrow> network \<Rightarrow> bool" where
  "m < n \<longleftrightarrow> network_key m < network_key n"

instance
proof
  fix m n k :: network
  show "m < n \<longleftrightarrow> m \<le> n \<and> \<not> n \<le> m" by (auto simp: less_eq_network_def less_network_def)
  show "m \<le> m" by (simp add: less_eq_network_def)
  show "m \<le> n \<Longrightarrow> n \<le> k \<Longrightarrow> m \<le> k" unfolding less_eq_network_def by (rule order_trans)
  show "m \<le> n \<Longrightarrow> n \<le> m \<Longrightarrow> m = n" unfolding less_eq_network_def using network_key_inj by force
  show "m \<le> n \<or> n \<le> m" unfolding less_eq_network_def by (rule linear)
qed

end

definition host_mask :: "network \<Rightarrow> u128" where
  "host_mask n =
     (if unat (nw_prefix n) \<ge> family_bits (nw_family n) then 0
      else drop_bit (unat (nw_prefix n)) (last_address (nw_family n)))"

definition network_new :: "family \<Rightarrow> u128 \<Rightarrow> nat \<Rightarrow> network" where
  "network_new f address prefix =
     (let n = Network f address (word_of_nat prefix)
      in Network f (address AND NOT (host_mask n)) (nw_prefix n))"

definition nw_interval :: "network \<Rightarrow> interval" where
  "nw_interval n = (nw_address n, nw_address n OR host_mask n)"

definition nw_contains :: "network \<Rightarrow> network \<Rightarrow> bool" where
  "nw_contains n other \<longleftrightarrow>
     nw_family n = nw_family other \<and> fst (nw_interval n) \<le> fst (nw_interval other) \<and>
     snd (nw_interval n) \<ge> snd (nw_interval other)"

section \<open>The networks that cover an interval\<close>

text \<open>\<^verbatim>\<open>u128::trailing_zeros\<close>, \<^verbatim>\<open>u128::leading_zeros\<close>, and \<^verbatim>\<open>u128::checked_shl\<close>.\<close>

fun low_zeros :: "nat \<Rightarrow> nat" where
  "low_zeros n = (if n = 0 \<or> odd n then 0 else Suc (low_zeros (n div 2)))"

fun bit_length :: "nat \<Rightarrow> nat" where
  "bit_length n = (if n = 0 then 0 else Suc (bit_length (n div 2)))"

declare low_zeros.simps [simp del] bit_length.simps [simp del]

definition trailing_zeros :: "u128 \<Rightarrow> nat" where
  "trailing_zeros w = (if w = 0 then 128 else low_zeros (unat w))"

definition leading_zeros :: "u128 \<Rightarrow> nat" where
  "leading_zeros w = 128 - bit_length (unat w)"

definition checked_shl :: "u128 \<Rightarrow> nat \<Rightarrow> u128 option" where
  "checked_shl w n = (if n < 128 then Some (push_bit n w) else None)"

record summary =
  sm_family :: family
  sm_next :: "u128 option"
  sm_last :: u128

definition summarize :: "family \<Rightarrow> interval \<Rightarrow> summary" where
  "summarize f i = \<lparr>sm_family = f, sm_next = Some (fst i), sm_last = snd i\<rparr>"

text \<open>
  The subtractions do not overflow: the first address is at most the last, a count is not zero, and
  the alignment is at most the width of the family.
\<close>

definition summary_size :: "summary \<Rightarrow> u128 \<Rightarrow> nat" where
  "summary_size s first =
     (let bits = family_bits (sm_family s);
          alignment = (if first = 0 then bits else min (trailing_zeros first) bits);
          span = sm_last s - first;
          fitting = (case checked_add span 1 of None \<Rightarrow> 128 | Some count \<Rightarrow> 127 - leading_zeros count)
      in min alignment fitting)"

definition summary_next :: "summary \<Rightarrow> (network \<times> summary) option" where
  "summary_next s =
     (case sm_next s of
        None \<Rightarrow> None
      | Some first \<Rightarrow>
          if first \<le> sm_last s then
            (let size_bits = summary_size s first;
                 network = network_new (sm_family s) first (family_bits (sm_family s) - size_bits);
                 next = Option.bind (checked_shl 1 size_bits) (\<lambda>size.
                   Option.bind (checked_add first size) (\<lambda>next1.
                     if next1 - 1 \<noteq> last_address (sm_family s) then Some next1 else None))
             in Some (network, s\<lparr>sm_next := next\<rparr>))
          else None)"

text \<open>What is left of the interval gets smaller with every network.\<close>

definition summary_left :: "summary \<Rightarrow> nat" where
  "summary_left s = (case sm_next s of None \<Rightarrow> 0 | Some first \<Rightarrow> Suc (unat (sm_last s)) - unat first)"

lemma unat_exp: "n < 128 \<Longrightarrow> unat ((2 :: u128) ^ n) = 2 ^ n"
proof -
  assume n: "n < 128"
  have "unat (push_bit n (1 :: u128)) = 2 ^ n"
    by (subst unsigned_push_bit_eq) (simp add: take_bit_nat_eq_self n)
  then show ?thesis by simp
qed

lemma left_less: "a \<le> b \<Longrightarrow> Suc b - (a + 2 ^ k) < Suc b - a" for a b k :: nat
  using zero_less_power [of "2 :: nat" k] by linarith

lemma summary_next_less: "summary_next s = Some (n, s') \<Longrightarrow> summary_left s' < summary_left s"
  by (auto simp: summary_next_def summary_left_def Let_def checked_shl_def checked_add_def unat_exp left_less
      unat_add_no_wrap word_le_nat_alt split: option.splits if_splits bind_splits)

function networks_of :: "summary \<Rightarrow> network list" where
  "networks_of s = (case summary_next s of None \<Rightarrow> [] | Some (n, s') \<Rightarrow> n # networks_of s')"
  by pat_completeness auto
termination
  by (relation "measure summary_left") (auto simp: summary_next_less)

declare networks_of.simps [simp del]

section \<open>Unions and differences\<close>

definition saturating_succ :: "u128 \<Rightarrow> u128" where
  "saturating_succ w = (if w = - 1 then w else w + 1)"

definition merge_step :: "interval list \<Rightarrow> interval \<Rightarrow> interval list" where
  "merge_step merged i =
     (if merged \<noteq> [] \<and> fst i \<le> saturating_succ (snd (last merged))
      then butlast merged @ [(fst (last merged), max (snd (last merged)) (snd i))]
      else merged @ [i])"

definition merge :: "interval list \<Rightarrow> interval list" where
  "merge intervals = foldl merge_step [] (sort intervals)"

text \<open>
  The loop over the exclusions of one source, from the cursor on: an exclusion that starts after the
  source ends it, as does one that ends at the last address that a \<^verbatim>\<open>u128\<close> holds.
\<close>

fun subtract_source :: "u128 \<Rightarrow> u128 \<Rightarrow> interval list \<Rightarrow> interval list" where
  "subtract_source cursor source_end [] =
     (if cursor \<le> source_end then [(cursor, source_end)] else [])"
| "subtract_source cursor source_end ((excluded_start, excluded_end) # exclusions) =
     (if excluded_start \<le> source_end then
        (if cursor < excluded_start then [(cursor, excluded_start - 1)] else []) @
        (case checked_add excluded_end 1 of
           None \<Rightarrow> []
         | Some next1 \<Rightarrow>
             if max cursor next1 > source_end then []
             else subtract_source (max cursor next1) source_end exclusions)
      else if cursor \<le> source_end then [(cursor, source_end)] else [])"

fun subtract :: "interval list \<Rightarrow> interval list \<Rightarrow> interval list" where
  "subtract [] exclusions = []"
| "subtract ((source_start, source_end) # sources) exclusions =
     (let exclusions = dropWhile (\<lambda>(_, excluded_end). excluded_end < source_start) exclusions
      in subtract_source source_start source_end exclusions @ subtract sources exclusions)"

section \<open>The addresses of intervals\<close>

definition addrs :: "interval \<Rightarrow> nat set" where
  "addrs i = {unat (fst i) .. unat (snd i)}"

definition cover :: "interval list \<Rightarrow> nat set" where
  "cover is = (\<Union>i\<in>set is. addrs i)"

definition spaced :: "nat \<Rightarrow> interval list \<Rightarrow> bool" where
  "spaced gap is \<longleftrightarrow>
     sorted_wrt (\<lambda>i j. unat (snd i) + gap < unat (fst j)) is \<and> (\<forall>i\<in>set is. unat (fst i) \<le> unat (snd i))"

lemma cover_simps [simp]:
  "cover [] = {}" "cover (i # is) = addrs i \<union> cover is" "cover (is @ js) = cover is \<union> cover js"
  by (auto simp: cover_def)

lemma cover_concat: "cover (concat iss) = (\<Union>is\<in>set iss. cover is)"
  by (auto simp: cover_def)

lemma cover_sort [simp]: "cover (sort is) = cover is"
  by (simp add: cover_def)

lemma spaced_simps [simp]:
  "spaced gap []"
  "spaced gap (i # is) \<longleftrightarrow>
     unat (fst i) \<le> unat (snd i) \<and> (\<forall>j\<in>set is. unat (snd i) + gap < unat (fst j)) \<and> spaced gap is"
  by (auto simp: spaced_def)

lemma spaced_append:
  "spaced gap (is @ js) \<longleftrightarrow>
     spaced gap is \<and> spaced gap js \<and> (\<forall>i\<in>set is. \<forall>j\<in>set js. unat (snd i) + gap < unat (fst j))"
  by (auto simp: spaced_def sorted_wrt_append)

lemma spaced_mono: "spaced gap is \<Longrightarrow> gap' \<le> gap \<Longrightarrow> spaced gap' is"
  by (induction "is") fastforce+

lemma spaced_valid: "spaced gap is \<Longrightarrow> i \<in> set is \<Longrightarrow> unat (fst i) \<le> unat (snd i)"
  by (simp add: spaced_def)

subsection \<open>Unions\<close>

lemma unat_saturating_succ: "unat (saturating_succ w) = min (Suc (unat w)) (2 ^ 128 - 1)"
proof (cases "w = - 1")
  case True
  then show ?thesis by (simp add: saturating_succ_def unsigned_minus_1_eq_mask mask_eq_exp_minus_1)
next
  case False
  then have "unat w \<noteq> unat (- 1 :: u128)" by (simp only: word_unat_eq_iff) simp
  then have "unat w \<noteq> 2 ^ 128 - 1" by (simp add: unsigned_minus_1_eq_mask mask_eq_exp_minus_1)
  with unat_bound [of w] have "unat w + unat (1 :: u128) < 2 ^ 128" by simp
  with False show ?thesis by (simp add: saturating_succ_def unat_add_no_wrap)
qed

definition merge_ok :: "interval list \<Rightarrow> interval \<Rightarrow> bool" where
  "merge_ok merged i \<longleftrightarrow> merged = [] \<or> fst (last merged) \<le> fst i"

lemma unat_max: "unat (max a b) = max (unat a) (unat b)"
  by (simp add: max_def word_le_nat_alt)

lemma merge_step_ok:
  assumes m: "spaced 1 merged" and i: "unat (fst i) \<le> unat (snd i)" and o1: "merge_ok merged i"
  shows "spaced 1 (merge_step merged i)" "cover (merge_step merged i) = cover merged \<union> addrs i"
    "unat (fst (last (merge_step merged i))) \<le> unat (fst i)" "merge_step merged i \<noteq> []"
proof -
  consider (join) ms p where "merged = ms @ [p]" "fst i \<le> saturating_succ (snd p)"
    | (new) "merge_step merged i = merged @ [i]" "merged = [] \<or> \<not> fst i \<le> saturating_succ (snd (last merged))"
    by (cases merged rule: rev_cases) (auto simp: merge_step_def)
  then have "spaced 1 (merge_step merged i) \<and> cover (merge_step merged i) = cover merged \<union> addrs i \<and>
    unat (fst (last (merge_step merged i))) \<le> unat (fst i) \<and> merge_step merged i \<noteq> []"
  proof cases
    case join
    have s: "merge_step merged i = ms @ [(fst p, max (snd p) (snd i))]" using join by (simp add: merge_step_def)
    have le: "unat (fst p) \<le> unat (fst i)" "unat (fst p) \<le> unat (snd p)"
      using o1 m join(1) by (simp_all add: merge_ok_def word_le_nat_alt spaced_append)
    have "unat (fst i) \<le> Suc (unat (snd p))" using join(2) by (simp add: word_le_nat_alt unat_saturating_succ)
    with le i have "addrs (fst p, max (snd p) (snd i)) = addrs p \<union> addrs i"
      by (auto simp: addrs_def unat_max)
    then show ?thesis using m le join(1) unfolding s by (auto simp: spaced_append unat_max)
  next
    case new
    have "unat (snd p) + 1 < unat (fst i)" if "p \<in> set merged" for p
    proof -
      obtain ms q where q: "merged = ms @ [q]" using \<open>p \<in> set merged\<close> by (cases merged rule: rev_cases) auto
      then have "unat (saturating_succ (snd q)) < unat (fst i)" using new(2) by (simp add: word_le_nat_alt)
      then have "unat (snd q) + 1 < unat (fst i)"
        using unat_bound [of "fst i"] by (simp add: unat_saturating_succ min_def split: if_splits)
      moreover have "p = q \<or> unat (snd p) + 1 < unat (fst q)" using m q that by (auto simp: spaced_append)
      moreover have "unat (fst q) \<le> unat (snd q)" using m q by (simp add: spaced_append)
      ultimately show ?thesis by auto
    qed
    with m i show ?thesis unfolding new(1) by (auto simp: spaced_append)
  qed
  then show "spaced 1 (merge_step merged i)" "cover (merge_step merged i) = cover merged \<union> addrs i"
    "unat (fst (last (merge_step merged i))) \<le> unat (fst i)" "merge_step merged i \<noteq> []" by blast+
qed

lemma merge_fold:
  assumes "sorted is" and "\<forall>i\<in>set is. unat (fst i) \<le> unat (snd i)" and "spaced 1 merged"
    and "is = [] \<or> merge_ok merged (hd is)"
  shows "spaced 1 (foldl merge_step merged is) \<and> cover (foldl merge_step merged is) = cover merged \<union> cover is"
  using assms
proof (induction "is" arbitrary: merged)
  case (Cons i "is")
  have ok: "spaced 1 merged" "unat (fst i) \<le> unat (snd i)" "merge_ok merged i" using Cons.prems by simp_all
  note s = merge_step_ok [OF ok]
  have "is = [] \<or> merge_ok (merge_step merged i) (hd is)"
  proof (cases "is")
    case js: (Cons j js)
    then have "fst i \<le> fst j" using Cons.prems(1) by (auto simp: less_eq_prod_def)
    then show ?thesis using s(3) js by (simp add: merge_ok_def word_le_nat_alt)
  qed simp
  then show ?case using Cons.IH [OF _ _ s(1)] Cons.prems(1,2) s(2) by (auto simp: Un_assoc)
qed simp

lemma merge_spec:
  assumes "\<forall>i\<in>set is. unat (fst i) \<le> unat (snd i)"
  shows "spaced 1 (merge is)" "cover (merge is) = cover is"
  using merge_fold [of "sort is" "[]"] assms by (simp_all add: merge_def merge_ok_def)

subsection \<open>Differences\<close>

lemma interval_diff:
  "{c..s} - ({x..y} \<union> R) = {c..<x} \<union> ({max c (Suc y)..s} - R)"
  if "x \<le> y" "x \<le> s" "\<And>z. z \<in> R \<Longrightarrow> y < z" for c s x y :: nat
  using that by (fastforce simp: not_le not_less)

lemma subtract_source_spec:
  assumes "spaced 0 exclusions" and "unat cursor \<le> unat source_end"
  shows "cover (subtract_source cursor source_end exclusions) = {unat cursor .. unat source_end} - cover exclusions \<and>
    spaced 0 (subtract_source cursor source_end exclusions) \<and>
    (\<forall>i\<in>set (subtract_source cursor source_end exclusions).
       unat cursor \<le> unat (fst i) \<and> unat (snd i) \<le> unat source_end)"
  using assms
proof (induction cursor source_end exclusions rule: subtract_source.induct)
  case (1 cursor source_end)
  then show ?case by (simp add: word_le_nat_alt addrs_def)
next
  case (2 cursor source_end xs xe exclusions)
  have x: "unat xs \<le> unat xe" "spaced 0 exclusions" using "2.prems" by simp_all
  have rest: "unat xe < y" if "y \<in> cover exclusions" for y
    using "2.prems"(1) that by (fastforce simp: cover_def addrs_def)
  show ?case
  proof (cases "xs \<le> source_end")
    case False
    then have "y \<notin> addrs (xs, xe) \<union> cover exclusions" if "y \<le> unat source_end" for y
      using rest [of y] that x by (auto simp: addrs_def word_le_nat_alt)
    then have "{unat cursor .. unat source_end} - cover ((xs, xe) # exclusions) = {unat cursor .. unat source_end}"
      by auto
    then show ?thesis using False "2.prems"(2) by (simp add: word_le_nat_alt addrs_def)
  next
    case True
    define head where "head = (if cursor < xs then [(cursor, xs - 1)] else [])"
    have head: "cover head = {unat cursor ..< unat xs}" "spaced 0 head"
      "\<forall>i\<in>set head. unat cursor \<le> unat (fst i) \<and> unat (snd i) < unat xs"
      by (auto simp: head_def addrs_def word_less_nat_alt unat_sub_no_wrap)
    have "unat xs \<le> unat source_end" using True by (simp add: word_le_nat_alt)
    note diff = interval_diff [OF x(1) this rest, where c = "unat cursor"]
    have whole: ?thesis if t: "subtract_source cursor source_end ((xs, xe) # exclusions) = head @ tail"
      and c: "cover tail = {max (unat cursor) (Suc (unat xe)) .. unat source_end} - cover exclusions"
      and "spaced 0 tail" and "\<forall>i\<in>set tail. max (unat cursor) (Suc (unat xe)) \<le> unat (fst i) \<and> unat (snd i) \<le> unat source_end"
      for tail
    proof (intro conjI)
      show "cover (subtract_source cursor source_end ((xs, xe) # exclusions)) =
          {unat cursor .. unat source_end} - cover ((xs, xe) # exclusions)"
        using diff head(1) c unfolding t by (simp add: addrs_def)
      have "\<forall>i\<in>set head. \<forall>j\<in>set tail. unat (snd i) < unat (fst j)" using that(4) head(3) x(1) by fastforce
      then show "spaced 0 (subtract_source cursor source_end ((xs, xe) # exclusions))"
        using head(2) that(3) unfolding t by (simp add: spaced_append)
      show "\<forall>i\<in>set (subtract_source cursor source_end ((xs, xe) # exclusions)).
          unat cursor \<le> unat (fst i) \<and> unat (snd i) \<le> unat source_end"
        using that(4) head(3) \<open>unat xs \<le> unat source_end\<close> unfolding t by fastforce
    qed
    show ?thesis
    proof (cases "checked_add xe 1")
      case None
      then have "unat source_end \<le> unat xe"
        using unat_bound [of source_end] by (simp add: checked_add_None_iff)
      with None True show ?thesis by (intro whole [of "[]"]) (simp_all add: head_def)
    next
      case (Some y)
      then have y: "unat y = Suc (unat xe)" by (auto simp: checked_add_Some_iff unat_add_no_wrap)
      show ?thesis
      proof (cases "max cursor y > source_end")
        case gt: True
        then have "unat source_end < max (unat cursor) (Suc (unat xe))" using y by (simp add: word_less_nat_alt unat_max)
        with Some True gt show ?thesis by (intro whole [of "[]"]) (simp_all add: head_def)
      next
        case le: False
        have "unat (max cursor y) \<le> unat source_end" using le by (simp add: word_less_nat_alt)
        note IH = "2.IH" [OF True Some le x(2) this]
        with Some True le show ?thesis
          by (intro whole [of "subtract_source (max cursor y) source_end exclusions"]) (simp_all add: head_def unat_max y)
      qed
    qed
  qed
qed

lemma dropWhile_spaced:
  assumes "spaced 0 exclusions"
  shows "spaced 0 (dropWhile (\<lambda>(_, e). e < s) exclusions)"
    "unat s \<le> x \<Longrightarrow> x \<in> cover (dropWhile (\<lambda>(_, e). e < s) exclusions) \<longleftrightarrow> x \<in> cover exclusions"
  using assms by (induction exclusions) (auto simp: addrs_def word_less_nat_alt)

lemma subtract_spec:
  assumes "spaced 0 sources" and "spaced 0 exclusions"
  shows "cover (subtract sources exclusions) = cover sources - cover exclusions \<and> spaced 0 (subtract sources exclusions) \<and>
    (\<forall>i\<in>set (subtract sources exclusions). \<exists>j\<in>set sources. unat (fst j) \<le> unat (fst i))"
  using assms
proof (induction sources exclusions rule: subtract.induct)
  case (2 s e sources exclusions)
  define ex where "ex = dropWhile (\<lambda>(_, e). e < s) exclusions"
  have ex: "spaced 0 ex" "\<And>x. unat s \<le> x \<Longrightarrow> x \<in> cover ex \<longleftrightarrow> x \<in> cover exclusions"
    using dropWhile_spaced [OF "2.prems"(2), of s] by (simp_all add: ex_def)
  have s: "unat s \<le> unat e" "spaced 0 sources" "\<And>j. j \<in> set sources \<Longrightarrow> unat e < unat (fst j)" using "2.prems"(1) by simp_all
  note src = subtract_source_spec [OF ex(1) s(1)]
  note IH = "2.IH" [OF ex_def s(2) ex(1)]
  have "unat s \<le> x" if "x \<in> cover sources" for x
  proof -
    from that obtain i where "i \<in> set sources" "unat (fst i) \<le> x" by (auto simp: cover_def addrs_def)
    with s(1) s(3) [of i] show ?thesis by linarith
  qed
  then have c: "cover sources - cover ex = cover sources - cover exclusions" using ex(2) by blast
  have "{unat s .. unat e} - cover ex = {unat s .. unat e} - cover exclusions" using ex(2) by auto
  then have "cover (subtract ((s, e) # sources) exclusions) = cover ((s, e) # sources) - cover exclusions"
    using src IH c by (auto simp: Let_def addrs_def simp flip: ex_def)
  moreover have "unat (snd i) < unat (fst j)"
    if "i \<in> set (subtract_source s e ex)" "j \<in> set (subtract sources ex)" for i j
    using src IH s(3) that by (meson le_less_trans less_le_trans)
  then have "spaced 0 (subtract ((s, e) # sources) exclusions)"
    using src IH by (simp add: Let_def spaced_append flip: ex_def)
  moreover have "\<forall>i\<in>set (subtract ((s, e) # sources) exclusions). \<exists>j\<in>set ((s, e) # sources). unat (fst j) \<le> unat (fst i)"
    using src IH by (auto simp: Let_def simp flip: ex_def)
  ultimately show ?case by blast
qed simp

end
