(* ===== verification/Egress_Network.thy ===== *)
theory Egress_Network
  imports Egress_Address
begin

text \<open>
  The addresses of the networks that \<^verbatim>\<open>host/network/address.rs\<close> makes: a network is the aligned block of
  its prefix, and the networks that an interval is summarised by cover exactly the interval.
\<close>

section \<open>Networks\<close>

lemma family_bits_le: "family_bits f \<le> 128" "0 < family_bits f"
  by (cases f; simp add: family_bits_def)+

lemma last_address_mask: "last_address f = mask (family_bits f)"
  by (cases f) (simp_all add: last_address_def family_bits_def mask_eq_exp_minus_1)

lemma unat_mask_u128: "k \<le> 128 \<Longrightarrow> unat (mask k :: u128) = 2 ^ k - 1"
proof (cases "k = 128")
  case True
  then have "(mask k :: u128) = - 1" by (simp add: mask_eq_exp_minus_1)
  with True show ?thesis by (simp add: unsigned_minus_1_eq_mask mask_eq_exp_minus_1)
next
  case False
  assume "k \<le> 128"
  with False have "unat ((2 :: u128) ^ k) = 2 ^ k" by (simp add: unat_exp)
  then show ?thesis by (simp add: mask_eq_exp_minus_1 unat_sub_no_wrap)
qed

lemma unat_last_address: "unat (last_address f) = 2 ^ family_bits f - 1"
  using family_bits_le by (simp add: last_address_mask unat_mask_u128)

lemma host_mask_eq:
  assumes "p \<le> family_bits f"
  shows "host_mask (Network f a (word_of_nat p)) = mask (family_bits f - p)"
proof -
  have p: "unat (word_of_nat p :: u8) = p" using assms family_bits_le(1) [of f] by (simp add: unat_of_nat)
  have "drop_bit p (mask (family_bits f) :: u128) = mask (family_bits f - p)"
    using assms family_bits_le [of f] by (intro bit_word_eqI) (auto simp: bit_simps)
  with assms show ?thesis by (auto simp: host_mask_def p last_address_mask)
qed

lemma unat_or_mask:
  fixes a :: u128
  assumes "2 ^ k dvd unat a" and "k \<le> 128"
  shows "unat (a OR mask k) = unat a + (2 ^ k - 1)"
proof -
  have d: "\<not> bit a i" if "i < k" for i
  proof -
    have "2 ^ Suc i dvd unat a" using assms(1) that by (meson Suc_leI dvd_trans le_imp_power_dvd)
    then obtain m where "unat a = 2 ^ Suc i * m" by (auto elim: dvdE)
    then have "\<not> bit (unat a) i" by (simp add: bit_iff_odd)
    then show ?thesis by (simp add: bit_unsigned_iff)
  qed
  then have "a OR mask k = a + mask k" by (intro disjunctive_add [symmetric]) (auto simp: bit_simps)
  moreover have "unat a + 2 ^ k \<le> 2 ^ 128"
    using aligned_less [OF assms(1) le_imp_power_dvd [OF assms(2)]] unat_bound [of a] by simp
  moreover have "(0 :: nat) < 2 ^ k" by simp
  ultimately show ?thesis using unat_add_no_wrap [of a "mask k"] assms(2) by (simp add: unat_mask_u128)
qed

text \<open>A network that the constructor makes, from an address and a prefix length of its family.\<close>

definition nw_made :: "network \<Rightarrow> bool" where
  "nw_made n \<longleftrightarrow> (\<exists>a p. p \<le> family_bits (nw_family n) \<and> a \<le> last_address (nw_family n) \<and> n = network_new (nw_family n) a p)"

definition nw_ok :: "network \<Rightarrow> bool" where
  "nw_ok n \<longleftrightarrow> unat (fst (nw_interval n)) \<le> unat (snd (nw_interval n)) \<and>
     snd (nw_interval n) \<le> last_address (nw_family n) \<and> nw_made n"

lemma network_new_interval:
  assumes "p \<le> family_bits f" and "a \<le> last_address f"
  defines "k \<equiv> family_bits f - p"
  shows "unat (fst (nw_interval (network_new f a p))) = 2 ^ k * (unat a div 2 ^ k)"
    "unat (snd (nw_interval (network_new f a p))) = 2 ^ k * (unat a div 2 ^ k) + (2 ^ k - 1)"
    "nw_family (network_new f a p) = f" "nw_ok (network_new f a p)"
proof -
  have k: "k \<le> 128" using family_bits_le(1) [of f] by (simp add: k_def)
  have n: "network_new f a p = Network f (a AND NOT (mask k)) (word_of_nat p)"
    using host_mask_eq [OF assms(1), of a] by (simp add: network_new_def k_def Let_def)
  show lo: "unat (fst (nw_interval (network_new f a p))) = 2 ^ k * (unat a div 2 ^ k)"
    by (simp add: n nw_interval_def and_not_mask)
  show hi: "unat (snd (nw_interval (network_new f a p))) = 2 ^ k * (unat a div 2 ^ k) + (2 ^ k - 1)"
    using unat_or_mask [of k "a AND NOT (mask k)"] k host_mask_eq [OF assms(1), of "a AND NOT (mask k)"]
    by (simp add: n nw_interval_def and_not_mask k_def)
  show f: "nw_family (network_new f a p) = f" by (simp add: n)
  have "unat a < 2 ^ family_bits f" using assms(2) by (simp add: word_le_nat_alt unat_last_address Suc_le_eq le_diff_conv2)
  then have "2 ^ k * (unat a div 2 ^ k) < 2 ^ family_bits f"
    by (rule le_less_trans [rotated]) (rule times_div_less_eq_dividend)
  moreover have "(2 :: nat) ^ k dvd 2 ^ family_bits f" by (simp add: k_def le_imp_power_dvd)
  ultimately have "2 ^ k * (unat a div 2 ^ k) + 2 ^ k \<le> 2 ^ family_bits f"
    by (intro aligned_less dvd_triv_left)
  moreover have "(0 :: nat) < 2 ^ k" by simp
  moreover have "nw_made (network_new f a p)" unfolding nw_made_def f using assms(1,2) by blast
  ultimately show "nw_ok (network_new f a p)"
    unfolding nw_ok_def word_le_nat_alt lo hi f unat_last_address by (intro conjI) linarith+
qed

section \<open>Summaries\<close>

lemma low_zeros_dvd: "2 ^ low_zeros n dvd n"
proof (induction n rule: low_zeros.induct)
  case (1 n)
  show ?case
  proof (cases "n = 0 \<or> odd n")
    case False
    then have "2 ^ low_zeros (n div 2) * 2 dvd n div 2 * 2" using 1 by (intro mult_dvd_mono) simp_all
    with False show ?thesis by (simp add: low_zeros.simps [of n] mult.commute)
  qed (auto simp: low_zeros.simps [of n])
qed

lemma trailing_zeros_dvd: "2 ^ trailing_zeros w dvd unat w"
  using low_zeros_dvd by (simp add: trailing_zeros_def)

lemma bit_length_le: "n \<noteq> 0 \<Longrightarrow> 0 < bit_length n \<and> 2 ^ (bit_length n - 1) \<le> n"
proof (induction n rule: bit_length.induct)
  case (1 n)
  show ?case
  proof (cases "n div 2 = 0")
    case True
    with 1 show ?thesis by (simp add: bit_length.simps [of n] bit_length.simps [of 0])
  next
    case False
    then obtain k where k: "bit_length (n div 2) = Suc k" "2 ^ k \<le> n div 2" using 1 by (cases "bit_length (n div 2)") auto
    then have "2 ^ k * 2 \<le> n" by linarith
    with 1 k show ?thesis by (simp add: bit_length.simps [of n])
  qed
qed

lemma leading_zeros_le:
  assumes "w \<noteq> 0"
  shows "2 ^ (127 - leading_zeros w) \<le> unat w"
proof -
  have n: "unat w \<noteq> 0" using assms by (simp add: unat_eq_0)
  note b = bit_length_le [OF n]
  have "(2 :: nat) ^ (bit_length (unat w) - 1) < 2 ^ 128" using b unat_bound [of w] by simp
  then have "bit_length (unat w) - 1 < 128" by (rule power_less_imp_less_exp [rotated]) simp
  then have "127 - leading_zeros w = bit_length (unat w) - 1" using b by (simp add: leading_zeros_def)
  with b show ?thesis by simp
qed

definition summary_ok :: "summary \<Rightarrow> bool" where
  "summary_ok s \<longleftrightarrow> sm_last s \<le> last_address (sm_family s)"

lemma summary_size_facts:
  assumes "first \<le> sm_last s" and "summary_ok s"
  defines "k \<equiv> summary_size s first"
  shows "k \<le> family_bits (sm_family s)" "2 ^ k dvd unat first" "unat first + 2 ^ k \<le> unat (sm_last s) + 1"
proof -
  define bits where "bits = family_bits (sm_family s)"
  define fit where "fit = (case checked_add (sm_last s - first) 1 of None \<Rightarrow> 128 | Some count \<Rightarrow> 127 - leading_zeros count)"
  define al where "al = (if first = 0 then bits else min (trailing_zeros first) bits)"
  have k: "k = min al fit" by (simp add: k_def summary_size_def Let_def bits_def fit_def al_def)
  show "k \<le> family_bits (sm_family s)" by (simp add: k al_def min.coboundedI1 flip: bits_def)
  have "2 ^ al dvd unat first"
    using dvd_trans [OF le_imp_power_dvd trailing_zeros_dvd] by (auto simp: al_def)
  moreover have "(2 :: nat) ^ k dvd 2 ^ al" by (simp add: k le_imp_power_dvd)
  ultimately show "2 ^ k dvd unat first" by (rule dvd_trans [rotated])
  have span: "unat (sm_last s - first) = unat (sm_last s) - unat first" "unat first \<le> unat (sm_last s)"
    using assms(1) by (simp_all add: word_le_nat_alt unat_sub_no_wrap)
  have "2 ^ fit \<le> unat (sm_last s - first) + 1"
  proof (cases "checked_add (sm_last s - first) 1")
    case None
    then have "fit = 128" "2 ^ 128 \<le> unat (sm_last s - first) + 1"
      by (simp_all add: fit_def, simp add: checked_add_None_iff)
    then show ?thesis by simp
  next
    case (Some count)
    then have c: "unat count = unat (sm_last s - first) + 1" by (auto simp: checked_add_Some_iff unat_add_no_wrap)
    then have "count \<noteq> 0" by auto
    from leading_zeros_le [OF this] c Some show ?thesis by (simp add: fit_def)
  qed
  moreover have "(2 :: nat) ^ k \<le> 2 ^ fit" by (simp add: k)
  ultimately show "unat first + 2 ^ k \<le> unat (sm_last s) + 1" using span by linarith
qed

lemma summary_next_spec:
  assumes n: "sm_next s = Some first" and le: "first \<le> sm_last s" and ok: "summary_ok s"
  obtains network s' where "summary_next s = Some (network, s')" "nw_family network = sm_family s" "nw_ok network"
    "addrs (nw_interval network) = {unat first ..< unat first + 2 ^ summary_size s first}"
    "sm_family s' = sm_family s" "sm_last s' = sm_last s"
    "case sm_next s' of None \<Rightarrow> unat first + 2 ^ summary_size s first = unat (sm_last s) + 1
       | Some next1 \<Rightarrow> unat next1 = unat first + 2 ^ summary_size s first"
proof -
  define k where "k = summary_size s first"
  define f where "f = sm_family s"
  note k_facts = summary_size_facts [OF le ok, folded k_def f_def]
  define network where "network = network_new f first (family_bits f - k)"
  have a: "first \<le> last_address f" using le ok by (simp add: summary_ok_def f_def)
  have kk: "family_bits f - (family_bits f - k) = k" using k_facts(1) by simp
  note nw = network_new_interval [OF diff_le_self a, of k, unfolded kk, folded network_def]
  have top: "unat (sm_last s) + 1 \<le> 2 ^ family_bits f" "unat (sm_last s) + 1 \<le> 2 ^ 128" "unat first + 2 ^ k \<le> unat (sm_last s) + 1"
    using ok k_facts(3) unat_bound [of "sm_last s"]
    by (simp_all add: summary_ok_def word_le_nat_alt unat_last_address f_def Suc_le_eq le_diff_conv2)
  define next1 where "next1 = Option.bind (checked_shl 1 k) (\<lambda>size. Option.bind (checked_add first size) (\<lambda>next1.
    if next1 - 1 \<noteq> last_address f then Some next1 else None))"
  have e: "summary_next s = Some (network, s\<lparr>sm_next := next1\<rparr>)"
    using n le by (simp add: summary_next_def next1_def network_def k_def f_def Let_def)
  have "case next1 of None \<Rightarrow> unat first + 2 ^ k = unat (sm_last s) + 1 | Some x \<Rightarrow> unat x = unat first + 2 ^ k"
  proof (cases "k < 128")
    case False
    then have "(2 :: nat) ^ 128 \<le> 2 ^ k" by (intro power_increasing) simp_all
    with False top show ?thesis by (simp add: next1_def checked_shl_def)
  next
    case k128: True
    show ?thesis
    proof (cases "checked_add first (2 ^ k)")
      case None
      then have "next1 = None" by (simp add: next1_def checked_shl_def k128)
      moreover have "2 ^ 128 \<le> unat first + 2 ^ k" using None k128 by (simp add: checked_add_None_iff unat_exp)
      ultimately show ?thesis using top by simp
    next
      case (Some x)
      then have x: "unat x = unat first + 2 ^ k" "0 < unat x"
        using k128 by (auto simp: checked_add_Some_iff unat_exp unat_add_no_wrap)
      have "unat (x - 1) = unat x - 1" using x(2) unat_sub_no_wrap [of 1 x] by (simp add: Suc_le_eq)
      then have "x - 1 = last_address f \<Longrightarrow> unat first + 2 ^ k = 2 ^ family_bits f"
        using x unfolding word_unat_eq_iff unat_last_address by (metis Suc_pred diff_Suc_1 zero_less_numeral zero_less_power)
      with Some k128 top x show ?thesis by (auto simp: next1_def checked_shl_def)
    qed
  qed
  moreover have "addrs (nw_interval network) = {unat first ..< unat first + 2 ^ k}"
  proof -
    have "2 ^ k * (unat first div 2 ^ k) = unat first" using k_facts(2) by simp
    moreover have "{a .. a + (m - 1)} = {a ..< a + m}" if "0 < m" for a m :: nat using that by auto
    ultimately show ?thesis unfolding addrs_def nw(1,2) by simp
  qed
  ultimately show ?thesis using e nw(3,4) by (intro that [of network "s\<lparr>sm_next := next1\<rparr>", folded k_def f_def]) (simp_all add: f_def)
qed

lemma networks_of_spec:
  assumes "summary_ok s" and "sm_next s = Some first"
  shows "cover (map nw_interval (networks_of s)) = {unat first .. unat (sm_last s)} \<and>
    (\<forall>n\<in>set (networks_of s). nw_family n = sm_family s \<and> nw_ok n)"
  using assms
proof (induction s arbitrary: first rule: networks_of.induct)
  case (1 s)
  show ?case
  proof (cases "first \<le> sm_last s")
    case False
    then have "summary_next s = None" using "1.prems" by (simp add: summary_next_def)
    with False show ?thesis by (simp add: networks_of.simps [of s] word_le_nat_alt)
  next
    case True
    define m where "m = (2 :: nat) ^ summary_size s first"
    obtain n s' where n: "summary_next s = Some (n, s')" "nw_family n = sm_family s" "nw_ok n"
      "addrs (nw_interval n) = {unat first ..< unat first + m}" "sm_family s' = sm_family s" "sm_last s' = sm_last s"
      "case sm_next s' of None \<Rightarrow> unat first + m = unat (sm_last s) + 1 | Some x \<Rightarrow> unat x = unat first + m"
      unfolding m_def by (rule summary_next_spec [OF "1.prems"(2) True "1.prems"(1)])
    have e: "networks_of s = n # networks_of s'" by (simp add: networks_of.simps [of s] n(1))
    have m: "0 < m" "unat first + m \<le> unat (sm_last s) + 1"
      using summary_size_facts(3) [OF True "1.prems"(1)] by (simp_all add: m_def)
    have "summary_ok s'" using "1.prems"(1) n(5,6) by (simp add: summary_ok_def)
    show ?thesis
    proof (cases "sm_next s'")
      case None
      then have "networks_of s' = []" by (simp add: networks_of.simps [of s'] summary_next_def)
      moreover have "{unat first ..< unat first + m} = {unat first .. unat (sm_last s)}" using None n(7) by auto
      ultimately show ?thesis using n(2-4) by (simp add: e)
    next
      case (Some x)
      have "{unat first ..< unat first + m} \<union> {unat first + m .. unat (sm_last s)} = {unat first .. unat (sm_last s)}"
        using m(2) by auto
      moreover have "unat x = unat first + m" using n(7) Some by simp
      ultimately show ?thesis using "1.IH" [OF n(1) refl \<open>summary_ok s'\<close> Some] n(2-6) by (simp add: e)
    qed
  qed
qed

lemma summarize_spec:
  assumes "snd i \<le> last_address f"
  shows "cover (map nw_interval (networks_of (summarize f i))) = addrs i"
    "n \<in> set (networks_of (summarize f i)) \<Longrightarrow> nw_family n = f \<and> nw_ok n"
  using networks_of_spec [of "summarize f i"] assms by (auto simp: summarize_def summary_ok_def addrs_def)

end
