(* ===== verification/Egress_Lowering.thy ===== *)
theory Egress_Lowering
  imports Egress_Network Rust_Text "HOL-Library.List_Lexorder" "HOL-Library.Option_ord"
begin

text \<open>
  The lowering of egress rules into OpenVMM's native rules (\<^verbatim>\<open>host/network/lowering.rs\<close>), up to the text
  of the native rules. The error of a refusal names what its message is made of. An ordered map of the
  standard library is the list of its entries in the order of their keys.
\<close>

section \<open>Ordered maps\<close>

type_synonym ('k, 'v) btree = "('k \<times> 'v) list"

text \<open>\<^verbatim>\<open>map.entry(key).or_insert(default)\<close>, whose value the function then changes.\<close>

fun bt_entry :: "'k::linorder \<Rightarrow> 'v \<Rightarrow> ('v \<Rightarrow> 'v) \<Rightarrow> ('k, 'v) btree \<Rightarrow> ('k, 'v) btree" where
  "bt_entry k d f [] = [(k, f d)]"
| "bt_entry k d f ((k1, v) # m) =
     (if k < k1 then (k, f d) # (k1, v) # m
      else if k = k1 then (k, f v) # m
      else (k1, v) # bt_entry k d f m)"

definition bt_get :: "('k, 'v) btree \<Rightarrow> 'k \<Rightarrow> 'v option" where
  "bt_get m k = map_of m k"

definition bt_remove :: "'k \<Rightarrow> ('k, 'v) btree \<Rightarrow> ('k, 'v) btree" where
  "bt_remove k m = filter (\<lambda>e. fst e \<noteq> k) m"

section \<open>Rules\<close>

datatype native_protocol = NativeIcmp | NativeTcp | NativeUdp

definition protocol_rank :: "native_protocol \<Rightarrow> nat" where
  "protocol_rank p = (case p of NativeIcmp \<Rightarrow> 0 | NativeTcp \<Rightarrow> 1 | NativeUdp \<Rightarrow> 2)"

lemma protocol_rank_inj: "protocol_rank p = protocol_rank q \<longleftrightarrow> p = q"
  by (cases p; cases q) (simp_all add: protocol_rank_def)

instantiation native_protocol :: linorder
begin

definition less_eq_native_protocol :: "native_protocol \<Rightarrow> native_protocol \<Rightarrow> bool" where
  "p \<le> q \<longleftrightarrow> protocol_rank p \<le> protocol_rank q"

definition less_native_protocol :: "native_protocol \<Rightarrow> native_protocol \<Rightarrow> bool" where
  "p < q \<longleftrightarrow> protocol_rank p < protocol_rank q"

instance
  by standard (auto simp: less_eq_native_protocol_def less_native_protocol_def protocol_rank_inj)

end

datatype rule_protocol = RuleTcp | RuleUdp | RuleIcmp | RuleAny

definition rule_protocol_parse :: "bytes \<Rightarrow> rule_protocol option" where
  "rule_protocol_parse txt =
     (if txt = ascii ''tcp'' then Some RuleTcp
      else if txt = ascii ''udp'' then Some RuleUdp
      else if txt = ascii ''icmp'' then Some RuleIcmp
      else if txt = ascii ''any'' then Some RuleAny
      else None)"

fun rule_protocol_native :: "rule_protocol \<Rightarrow> native_protocol option" where
  "rule_protocol_native RuleTcp = Some NativeTcp"
| "rule_protocol_native RuleUdp = Some NativeUdp"
| "rule_protocol_native RuleIcmp = Some NativeIcmp"
| "rule_protocol_native RuleAny = None"

fun port_protocols :: "rule_protocol \<Rightarrow> native_protocol list" where
  "port_protocols RuleTcp = [NativeTcp]"
| "port_protocols RuleUdp = [NativeUdp]"
| "port_protocols RuleIcmp = [NativeIcmp]"
| "port_protocols RuleAny = [NativeTcp, NativeUdp]"

type_synonym port_range = "u16 \<times> u16"
type_synonym selector = "native_protocol option \<times> port_range option"

datatype port_value = PortInteger int | PortOther

record rule =
  ru_family :: family
  ru_addresses :: "interval list"
  ru_protocol :: "native_protocol option"
  ru_ports :: "port_range option"

type_synonym native_rule = "network \<times> native_protocol option \<times> port_range option"

datatype egress_error =
    TooManyRules bytes
  | NotACidr bytes bytes
  | ScopedCidr bytes bytes
  | NotContained bytes usize network
  | PortNotInteger bytes
  | PortOutOfRange bytes
  | EndBelowPort bytes u16 u16
  | EndWithoutPort bytes
  | IcmpPort bytes
  | Overflowed

text \<open>A subtraction of counts, which panics when it would be negative.\<close>

definition minus_usize :: "usize \<Rightarrow> usize \<Rightarrow> (egress_error, usize) result" where
  "minus_usize a b = (if b \<le> a then Inr (a - b) else Inl Overflowed)"

section \<open>Destinations, ports and their combination\<close>

fun destination_exclusions ::
  "network \<Rightarrow> bytes \<Rightarrow> usize \<Rightarrow> (egress_error, network) result list \<Rightarrow> interval list \<Rightarrow>
     (egress_error, interval list) result" where
  "destination_exclusions parent description index [] excluded = Inr excluded"
| "destination_exclusions parent description index (exception # exceptions) excluded =
     and_then exception (\<lambda>exception.
       if \<not> nw_contains parent exception then Inl (NotContained description index parent)
       else destination_exclusions parent description (Suc index) exceptions
              (excluded @ [nw_interval exception]))"

definition destination ::
  "network \<Rightarrow> (egress_error, network) result list \<Rightarrow> bytes \<Rightarrow> (egress_error, family \<times> interval list) result" where
  "destination parent exceptions description =
     and_then (destination_exclusions parent description 0 exceptions []) (\<lambda>excluded.
       Inr (nw_family parent, subtract [nw_interval parent] (merge excluded)))"

definition group_destinations :: "(family \<times> interval list) list \<Rightarrow> (family \<times> interval list) list" where
  "group_destinations destinations =
     map (\<lambda>f. (f, merge (concat (map snd (filter (\<lambda>d. fst d = f) destinations)))))
       (filter (\<lambda>f. list_ex (\<lambda>d. fst d = f) destinations) family_all)"

definition port :: "port_value \<Rightarrow> bytes \<Rightarrow> (egress_error, u16) result" where
  "port v description =
     (case v of
        PortOther \<Rightarrow> Inl (PortNotInteger description)
      | PortInteger i \<Rightarrow>
          if 0 \<le> i \<and> i < 65536 \<and> i \<noteq> 0 then Inr (word_of_int i) else Inl (PortOutOfRange description))"

definition port_range_of ::
  "port_value \<Rightarrow> port_value option \<Rightarrow> bytes \<Rightarrow> (egress_error, port_range) result" where
  "port_range_of start end_port description =
     and_then (port start (description @ ascii ''.port'')) (\<lambda>start.
       and_then
         (case end_port of
            Some v \<Rightarrow> port v (description @ ascii ''.endPort'')
          | None \<Rightarrow> Inr start) (\<lambda>last1.
         if last1 < start then Inl (EndBelowPort description last1 start) else Inr (start, last1)))"

definition port_selectors ::
  "rule_protocol \<Rightarrow> port_value option \<Rightarrow> port_value option \<Rightarrow> bytes \<Rightarrow> (egress_error, selector list) result" where
  "port_selectors protocol port1 end_port description =
     (case port1 of
        None \<Rightarrow>
          if end_port \<noteq> None then Inl (EndWithoutPort description)
          else Inr [(rule_protocol_native protocol, None)]
      | Some p \<Rightarrow>
          if protocol = RuleIcmp then Inl (IcmpPort description)
          else and_then (port_range_of p end_port description) (\<lambda>range.
            Inr (map (\<lambda>q. (Some q, Some range)) (port_protocols protocol))))"

definition combine :: "(family \<times> interval list) list option \<Rightarrow> selector list option \<Rightarrow> rule list" where
  "combine destinations selectors =
     (let destinations = (case destinations of
                            Some ds \<Rightarrow> ds
                          | None \<Rightarrow> map (\<lambda>f. (f, [family_everything f])) family_all);
          selectors = (case selectors of Some ss \<Rightarrow> ss | None \<Rightarrow> [(None, None)])
      in concat (map (\<lambda>d. map (\<lambda>s. \<lparr>ru_family = fst d, ru_addresses = snd d, ru_protocol = fst s, ru_ports = snd s\<rparr>)
                              selectors) destinations))"

section \<open>Lowering\<close>

definition max_rules :: usize where
  "max_rules = 256"

text \<open>The union reads each set of addresses once, in the order of the sets.\<close>

definition union :: "rule list \<Rightarrow> interval list" where
  "union rules = merge (concat (sort (remdups (map ru_addresses rules))))"

text \<open>The loops that stop once the networks exceed the maximum.\<close>

fun push_networks ::
  "(network \<Rightarrow> bool) \<Rightarrow> usize \<Rightarrow> bytes \<Rightarrow> network list \<Rightarrow> network list \<Rightarrow> (egress_error, network list) result" where
  "push_networks skip maximum category [] networks = Inr networks"
| "push_networks skip maximum category (n # ns) networks =
     (if skip n then push_networks skip maximum category ns networks
      else if length networks \<ge> maximum then Inl (TooManyRules category)
      else push_networks skip maximum category ns (networks @ [n]))"

definition intervals_to_networks ::
  "interval list \<Rightarrow> family \<Rightarrow> usize \<Rightarrow> bytes \<Rightarrow> (egress_error, network list) result" where
  "intervals_to_networks intervals f maximum category =
     push_networks (\<lambda>_. False) maximum category (concat (map (\<lambda>i. networks_of (summarize f i)) intervals)) []"

definition protocol_intervals_to_networks ::
  "interval list \<Rightarrow> interval list \<Rightarrow> family \<Rightarrow> usize \<Rightarrow> bytes \<Rightarrow> (egress_error, network list) result" where
  "protocol_intervals_to_networks protocol_intervals covered f maximum category =
     push_networks (\<lambda>n. subtract [nw_interval n] covered = []) maximum category
       (concat (map (\<lambda>i. networks_of (summarize f i)) (merge (protocol_intervals @ covered)))) []"

subsection \<open>The sweep over the ports\<close>

type_synonym port_event = "int \<times> interval list"

definition port_events :: "rule list \<Rightarrow> native_protocol \<Rightarrow> interval list \<Rightarrow> (u32, port_event list) btree" where
  "port_events rules protocol covered =
     foldl (\<lambda>events r.
       case ru_ports r of
         None \<Rightarrow> events
       | Some (start, last1) \<Rightarrow>
           if ru_protocol r \<noteq> Some protocol \<or> ru_addresses r = [] then events
           else if subtract (ru_addresses r) covered = [] then events
           else bt_entry (ucast last1 + 1) [] (\<lambda>es. es @ [(- 1, ru_addresses r)])
                  (bt_entry (ucast start) [] (\<lambda>es. es @ [(1, ru_addresses r)]) events)) [] rules"

record sweep =
  sw_active :: "(interval list, int) btree"
  sw_ranges :: "(network, (u32 \<times> u32) list) btree"
  sw_open :: "network list"
  sw_count :: usize
  sw_previous :: "u32 option"

definition sweep_new :: sweep where
  "sweep_new = \<lparr>sw_active = [], sw_ranges = [], sw_open = [], sw_count = 0, sw_previous = None\<rparr>"

text \<open>The networks of the previous segment whose addresses stay selected extend their last range.\<close>

fun sweep_keep ::
  "interval list \<Rightarrow> u32 \<Rightarrow> network list \<Rightarrow> (network, (u32 \<times> u32) list) btree \<Rightarrow> network list \<Rightarrow>
     (network, (u32 \<times> u32) list) btree \<times> network list" where
  "sweep_keep available port1 [] ranges kept = (ranges, kept)"
| "sweep_keep available port1 (n # ns) ranges kept =
     (if subtract [nw_interval n] available = [] then
        (case bt_get ranges n of
           None \<Rightarrow> sweep_keep available port1 ns ranges kept
         | Some [] \<Rightarrow> sweep_keep available port1 ns ranges kept
         | Some rs \<Rightarrow>
             sweep_keep available port1 ns
               (bt_entry n [] (\<lambda>rs. butlast rs @ [(fst (last rs), port1 - 1)]) ranges) (kept @ [n]))
      else sweep_keep available port1 ns ranges kept)"

fun sweep_add ::
  "usize \<Rightarrow> bytes \<Rightarrow> u32 \<times> u32 \<Rightarrow> network list \<Rightarrow> (network, (u32 \<times> u32) list) btree \<Rightarrow> usize \<Rightarrow> network list \<Rightarrow>
     (egress_error, (network, (u32 \<times> u32) list) btree \<times> usize \<times> network list) result" where
  "sweep_add budget category segment [] ranges count kept = Inr (ranges, count, kept)"
| "sweep_add budget category segment (n # ns) ranges count kept =
     (if count \<ge> budget then Inl (TooManyRules category)
      else sweep_add budget category segment ns (bt_entry n [] (\<lambda>rs. rs @ [segment]) ranges) (count + 1) (kept @ [n]))"

definition sweep_segment ::
  "family \<Rightarrow> bytes \<Rightarrow> interval list \<Rightarrow> usize \<Rightarrow> u32 \<Rightarrow> u32 \<Rightarrow> sweep \<Rightarrow> (egress_error, sweep) result" where
  "sweep_segment f category covered budget previous port1 s =
     (let addresses = merge (concat (map fst (sw_active s)));
          available = merge (addresses @ covered);
          (ranges, kept) = sweep_keep available port1 (sw_open s) (sw_ranges s) [];
          kept_cover = merge (covered @ map nw_interval kept)
      in and_then (minus_usize budget (sw_count s)) (\<lambda>left.
         and_then (protocol_intervals_to_networks addresses kept_cover f left category) (\<lambda>networks.
         and_then (sweep_add budget category (previous, port1 - 1) networks ranges (sw_count s) kept)
           (\<lambda>(ranges, count, kept). Inr (s\<lparr>sw_ranges := ranges, sw_count := count, sw_open := kept\<rparr>)))))"

definition sweep_event :: "(interval list, int) btree \<Rightarrow> port_event \<Rightarrow> (interval list, int) btree" where
  "sweep_event active e =
     (let active = bt_entry (snd e) 0 (\<lambda>count. count + fst e) active
      in if bt_get active (snd e) = Some 0 then bt_remove (snd e) active else active)"

definition sweep_port ::
  "family \<Rightarrow> bytes \<Rightarrow> interval list \<Rightarrow> usize \<Rightarrow> u32 \<times> port_event list \<Rightarrow> sweep \<Rightarrow> (egress_error, sweep) result" where
  "sweep_port f category covered budget pe s =
     (let port1 = fst pe;
          s = (if sw_previous s \<noteq> None \<and> sw_active s = [] then s\<lparr>sw_open := []\<rparr> else s)
      in and_then
           (case sw_previous s of
              None \<Rightarrow> Inr s
            | Some previous \<Rightarrow>
                if previous < port1 \<and> sw_active s \<noteq> []
                then sweep_segment f category covered budget previous port1 s else Inr s)
           (\<lambda>s. Inr (s\<lparr>sw_active := foldl sweep_event (sw_active s) (snd pe), sw_previous := Some port1\<rparr>)))"

fun sweep_ports ::
  "family \<Rightarrow> bytes \<Rightarrow> interval list \<Rightarrow> usize \<Rightarrow> (u32, port_event list) btree \<Rightarrow> sweep \<Rightarrow> (egress_error, sweep) result" where
  "sweep_ports f category covered budget [] s = Inr s"
| "sweep_ports f category covered budget (e # events) s =
     and_then (sweep_port f category covered budget e s) (sweep_ports f category covered budget events)"

definition lower_port_rules ::
  "rule list \<Rightarrow> native_protocol \<Rightarrow> family \<Rightarrow> bytes \<Rightarrow> interval list \<Rightarrow> usize \<Rightarrow> (egress_error, native_rule list) result" where
  "lower_port_rules rules protocol f category covered budget =
     and_then (sweep_ports f category covered budget (port_events rules protocol covered) sweep_new) (\<lambda>s.
       Inr (concat (map (\<lambda>(n, ranges). map (\<lambda>(start, last1). (n, Some protocol, Some (ucast start, ucast last1))) ranges)
                     (sw_ranges s))))"

subsection \<open>The rules of a family and of an action\<close>

definition lower_protocol ::
  "rule list \<Rightarrow> family \<Rightarrow> bytes \<Rightarrow> usize \<Rightarrow> interval list \<Rightarrow> native_protocol \<Rightarrow>
     native_rule list \<times> (native_protocol, interval list) btree \<Rightarrow>
     (egress_error, native_rule list \<times> (native_protocol, interval list) btree) result" where
  "lower_protocol rules f category budget address_only protocol lc =
     (let protocol_wide = union (filter (\<lambda>r. ru_protocol r = Some protocol \<and> ru_ports r = None) rules)
      in if protocol_wide = [] then Inr lc
         else
           and_then (minus_usize budget (length (fst lc))) (\<lambda>left.
           and_then (protocol_intervals_to_networks protocol_wide address_only f left category) (\<lambda>networks.
             Inr (fst lc @ map (\<lambda>n. (n, Some protocol, None)) networks,
                  bt_entry protocol [] (\<lambda>_. merge (address_only @ protocol_wide)) (snd lc)))))"

definition lower_ports ::
  "rule list \<Rightarrow> family \<Rightarrow> bytes \<Rightarrow> usize \<Rightarrow> interval list \<Rightarrow> (native_protocol, interval list) btree \<Rightarrow> native_protocol \<Rightarrow>
     native_rule list \<Rightarrow> (egress_error, native_rule list) result" where
  "lower_ports rules f category budget address_only covered protocol lowered =
     (let covered = (case bt_get covered protocol of Some c \<Rightarrow> c | None \<Rightarrow> address_only)
      in and_then (minus_usize budget (length lowered)) (\<lambda>left.
         and_then (lower_port_rules rules protocol f category covered left) (\<lambda>port_rules.
           Inr (lowered @ port_rules))))"

definition lower_family ::
  "rule list \<Rightarrow> family \<Rightarrow> bytes \<Rightarrow> usize \<Rightarrow> (egress_error, native_rule list) result" where
  "lower_family rules f category budget =
     (let address_only = union (filter (\<lambda>r. ru_protocol r = None) rules)
      in and_then (intervals_to_networks address_only f budget category) (\<lambda>networks.
         and_then (lower_protocol rules f category budget address_only NativeIcmp
                     (map (\<lambda>n. (n, None, None)) networks, [])) (\<lambda>lc.
         and_then (lower_protocol rules f category budget address_only NativeTcp lc) (\<lambda>lc.
         and_then (lower_protocol rules f category budget address_only NativeUdp lc) (\<lambda>lc.
         and_then (lower_ports rules f category budget address_only (snd lc) NativeTcp (fst lc)) (\<lambda>lowered.
           lower_ports rules f category budget address_only (snd lc) NativeUdp lowered))))))"

fun lower_families ::
  "family list \<Rightarrow> rule list \<Rightarrow> bytes \<Rightarrow> usize \<Rightarrow> native_rule list \<Rightarrow> (egress_error, native_rule list) result" where
  "lower_families [] rules category limit lowered = Inr lowered"
| "lower_families (f # fs) rules category limit lowered =
     (let family_rules = filter (\<lambda>r. ru_family r = f) rules
      in if family_rules = [] then lower_families fs rules category limit lowered
         else
           and_then (minus_usize limit (length lowered)) (\<lambda>budget.
           and_then (lower_family family_rules f category budget) (\<lambda>family_lowered.
             lower_families fs rules category limit (lowered @ family_lowered))))"

text \<open>The native rules in the order in which they are written.\<close>

definition lower_rules :: "rule list \<Rightarrow> bytes \<Rightarrow> usize \<Rightarrow> (egress_error, native_rule list) result" where
  "lower_rules rules category limit =
     and_then (lower_families family_all rules category limit []) (\<lambda>lowered. Inr (sort lowered))"

end
