(* ===== verification/Egress_Cover.thy ===== *)
theory Egress_Cover
  imports Egress_Lowering
begin

text \<open>
  What the steps of the lowering cover: unions and summaries of rules keep their addresses, networks
  that are widened into covered addresses change nothing outside them, and the ordered maps of the
  sweep behave as maps.
\<close>

section \<open>Ordered maps\<close>

definition bt_sorted :: "('k::linorder, 'v) btree \<Rightarrow> bool" where
  "bt_sorted m \<longleftrightarrow> sorted_wrt (<) (map fst m)"

lemma bt_sorted_simps [simp]:
  "bt_sorted []" "bt_sorted (e # m) \<longleftrightarrow> (\<forall>e1\<in>set m. fst e < fst e1) \<and> bt_sorted m"
  by (auto simp: bt_sorted_def)

lemma bt_sorted_distinct: "bt_sorted m \<Longrightarrow> distinct (map fst m)"
  by (induction m) auto

lemma fst_bt_entry: "fst ` set (bt_entry k d f m) = insert k (fst ` set m)"
  by (induction k d f m rule: bt_entry.induct) auto

lemma bt_entry_sorted: "bt_sorted m \<Longrightarrow> bt_sorted (bt_entry k d f m)"
proof (induction k d f m rule: bt_entry.induct)
  case (2 k d f k1 v m)
  have "fst e \<in> insert k (fst ` set m)" if "e \<in> set (bt_entry k d f m)" for e
    using that fst_bt_entry [of k d f m] by blast
  with 2 show ?case by fastforce
qed simp

lemma map_of_greater: "\<forall>e\<in>set m. k < fst e \<Longrightarrow> map_of m k = None" for k :: "'k::linorder"
  by (induction m) auto

lemma map_of_bt_entry:
  "bt_sorted m \<Longrightarrow>
     map_of (bt_entry k d f m) = (map_of m)(k \<mapsto> f (case map_of m k of None \<Rightarrow> d | Some v \<Rightarrow> v))"
proof (induction k d f m rule: bt_entry.induct)
  case (2 k d f k1 v m)
  have "k < k1 \<Longrightarrow> map_of m k = None" using "2.prems" by (intro map_of_greater) auto
  with 2 show ?case by (auto simp: fun_eq_iff)
qed simp

lemma bt_remove_sorted: "bt_sorted m \<Longrightarrow> bt_sorted (bt_remove k m)"
  by (auto simp: bt_sorted_def bt_remove_def sorted_wrt_map sorted_wrt_filter)

lemma map_of_bt_remove: "map_of (bt_remove k m) = (map_of m)(k := None)"
  by (induction m) (auto simp: bt_remove_def fun_eq_iff)

section \<open>Addresses within a family\<close>

definition within :: "family \<Rightarrow> interval list \<Rightarrow> bool" where
  "within f is \<longleftrightarrow> (\<forall>i\<in>set is. unat (fst i) \<le> unat (snd i)) \<and> cover is \<subseteq> {.. unat (last_address f)}"

lemma within_simps [simp]:
  "within f []" "within f (is @ js) \<longleftrightarrow> within f is \<and> within f js"
  by (auto simp: within_def)

lemma within_concat: "within f (concat iss) \<longleftrightarrow> (\<forall>is\<in>set iss. within f is)"
  by (induction iss) simp_all

lemma withinD: "within f is \<Longrightarrow> i \<in> set is \<Longrightarrow> snd i \<le> last_address f"
  by (force simp: within_def cover_def addrs_def word_le_nat_alt)

lemma merge_within: "within f is \<Longrightarrow> within f (merge is)" "within f is \<Longrightarrow> spaced 1 (merge is)"
  "within f is \<Longrightarrow> spaced 0 (merge is)" "within f is \<Longrightarrow> cover (merge is) = cover is"
  using merge_spec [of "is"] spaced_valid [of 1 "merge is"] spaced_mono [of 1 "merge is" 0] by (auto simp: within_def)

lemma within_nw: "nw_ok n \<Longrightarrow> nw_family n = f \<Longrightarrow> within f [nw_interval n]"
  by (auto simp: nw_ok_def within_def addrs_def word_le_nat_alt)

lemma within_nws: "\<forall>n\<in>set ns. nw_ok n \<and> nw_family n = f \<Longrightarrow> within f (map nw_interval ns)"
  using within_nw within_concat [of f "map (\<lambda>n. [nw_interval n]) ns"] by (auto simp: concat_map_singleton)

text \<open>The test of an interval against a union, with which the sources compare.\<close>

lemma subtract_Nil_iff:
  assumes "spaced 0 is" and "spaced 0 js"
  shows "subtract is js = [] \<longleftrightarrow> cover is \<subseteq> cover js"
proof -
  have "cover (subtract is js) = cover is - cover js" "spaced 0 (subtract is js)" using subtract_spec [OF assms] by simp_all
  moreover have "subtract is js = [] \<longleftrightarrow> cover (subtract is js) = {}" if "spaced 0 (subtract is js)"
    using that by (cases "subtract is js") (auto simp: addrs_def)
  ultimately show ?thesis by auto
qed

lemma subtract_network_Nil:
  "nw_ok n \<Longrightarrow> spaced 0 js \<Longrightarrow> subtract [nw_interval n] js = [] \<longleftrightarrow> addrs (nw_interval n) \<subseteq> cover js"
  using subtract_Nil_iff [of "[nw_interval n]" js] by (simp add: nw_ok_def)

section \<open>Networks of intervals\<close>

lemma push_networks_spec:
  "push_networks skip maximum category ns acc = Inr r \<Longrightarrow>
     r = acc @ filter (\<lambda>n. \<not> skip n) ns \<and> (length acc \<le> maximum \<longrightarrow> length r \<le> maximum)"
  by (induction skip maximum category ns acc rule: push_networks.induct) (auto split: if_splits)

lemma cover_networks: "cover (map nw_interval ns) = (\<Union>n\<in>set ns. addrs (nw_interval n))"
  by (simp add: cover_def)

lemma summaries_spec:
  assumes "within f is"
  defines "ns \<equiv> concat (map (\<lambda>i. networks_of (summarize f i)) is)"
  shows "cover (map nw_interval ns) = cover is" "\<forall>n\<in>set ns. nw_ok n \<and> nw_family n = f"
proof -
  have s: "cover (map nw_interval (networks_of (summarize f i))) = addrs i" if "i \<in> set is" for i
    using summarize_spec(1) withinD [OF assms(1) that] by blast
  have "cover (map nw_interval ns) = (\<Union>i\<in>set is. cover (map nw_interval (networks_of (summarize f i))))"
    by (simp add: ns_def map_concat cover_concat)
  also have "\<dots> = cover is" using s by (simp add: cover_def [of "is"])
  finally show "cover (map nw_interval ns) = cover is" .
  show "\<forall>n\<in>set ns. nw_ok n \<and> nw_family n = f"
    using summarize_spec(2) withinD [OF assms(1)] by (fastforce simp: ns_def)
qed

lemma intervals_to_networks_spec:
  assumes "intervals_to_networks is f maximum category = Inr ns" and "within f is"
  shows "cover (map nw_interval ns) = cover is" "\<forall>n\<in>set ns. nw_ok n \<and> nw_family n = f" "length ns \<le> maximum"
proof -
  have "ns = concat (map (\<lambda>i. networks_of (summarize f i)) is) \<and> length ns \<le> maximum"
    using push_networks_spec [OF assms(1) [unfolded intervals_to_networks_def]] by auto
  with summaries_spec [OF assms(2)] show "cover (map nw_interval ns) = cover is"
    "\<forall>n\<in>set ns. nw_ok n \<and> nw_family n = f" "length ns \<le> maximum" by blast+
qed

lemma protocol_intervals_spec:
  assumes r: "protocol_intervals_to_networks is covered f maximum category = Inr ns"
    and w: "within f is" "within f covered" and s: "spaced 0 covered"
  shows "cover (map nw_interval ns) \<union> cover covered = cover is \<union> cover covered"
    "\<forall>n\<in>set ns. nw_ok n \<and> nw_family n = f" "length ns \<le> maximum"
proof -
  define all1 where "all1 = concat (map (\<lambda>i. networks_of (summarize f i)) (merge (is @ covered)))"
  have ns: "ns = filter (\<lambda>n. subtract [nw_interval n] covered \<noteq> []) all1" "length ns \<le> maximum"
    using push_networks_spec [OF r [unfolded protocol_intervals_to_networks_def]] by (auto simp: all1_def)
  have wm: "within f (is @ covered)" using w by simp
  note a = summaries_spec [OF merge_within(1) [OF wm], folded all1_def, unfolded merge_within(4) [OF wm]]
  show "\<forall>n\<in>set ns. nw_ok n \<and> nw_family n = f" "length ns \<le> maximum" using a(2) ns by auto
  have "set ns = {n \<in> set all1. \<not> addrs (nw_interval n) \<subseteq> cover covered}"
    using a(2) subtract_network_Nil [OF _ s] by (auto simp: ns(1))
  then have "cover (map nw_interval ns) \<union> cover covered = cover (map nw_interval all1) \<union> cover covered"
    unfolding cover_networks by blast
  with a(1) show "cover (map nw_interval ns) \<union> cover covered = cover is \<union> cover covered" by auto
qed

section \<open>Rules\<close>

definition rule_ok :: "rule \<Rightarrow> bool" where
  "rule_ok r \<longleftrightarrow>
     spaced 0 (ru_addresses r) \<and> within (ru_family r) (ru_addresses r) \<and>
     (\<forall>start last1. ru_ports r = Some (start, last1) \<longrightarrow>
        start \<le> last1 \<and> (ru_protocol r = Some NativeTcp \<or> ru_protocol r = Some NativeUdp))"

lemma union_spec:
  assumes "\<forall>r\<in>set rules. rule_ok r \<and> ru_family r = f"
  shows "cover (union rules) = (\<Union>r\<in>set rules. cover (ru_addresses r))" "within f (union rules)" "spaced 0 (union rules)"
proof -
  have w: "within f (concat (sort (remdups (map ru_addresses rules))))"
    using assms by (auto simp: within_concat rule_ok_def)
  show "cover (union rules) = (\<Union>r\<in>set rules. cover (ru_addresses r))"
    using merge_within(4) [OF w] by (simp add: union_def cover_concat)
  show "within f (union rules)" "spaced 0 (union rules)" using merge_within(1,3) [OF w] by (simp_all add: union_def)
qed

end
