(* ===== verification/Egress_Sweep.thy ===== *)
theory Egress_Sweep
  imports Egress_Cover
begin

text \<open>
  The sweep over the ports: at every port, the networks whose ranges hold it cover, together with the
  addresses that are covered anyway, exactly the addresses of the rules that hold it.
\<close>

section \<open>Ranges of ports\<close>

definition hit :: "(u32 \<times> u32) list \<Rightarrow> nat \<Rightarrow> bool" where
  "hit rs q \<longleftrightarrow> (\<exists>r\<in>set rs. unat (fst r) \<le> q \<and> q \<le> unat (snd r))"

definition hits :: "(network \<rightharpoonup> (u32 \<times> u32) list) \<Rightarrow> nat \<Rightarrow> network set" where
  "hits m q = {n. \<exists>rs. m n = Some rs \<and> hit rs q}"

definition covq :: "(network \<rightharpoonup> (u32 \<times> u32) list) \<Rightarrow> nat \<Rightarrow> nat set" where
  "covq m q = (\<Union>n\<in>hits m q. addrs (nw_interval n))"

definition ranges_ok :: "family \<Rightarrow> nat \<Rightarrow> (network \<rightharpoonup> (u32 \<times> u32) list) \<Rightarrow> bool" where
  "ranges_ok f P m \<longleftrightarrow>
     (\<forall>n rs. m n = Some rs \<longrightarrow> nw_ok n \<and> nw_family n = f \<and> (\<forall>r\<in>set rs. unat (fst r) \<le> unat (snd r) \<and> unat (snd r) < P))"

text \<open>A network whose last range started before the segment and ends just before it.\<close>

definition open_ok :: "nat \<Rightarrow> (network \<rightharpoonup> (u32 \<times> u32) list) \<Rightarrow> network \<Rightarrow> bool" where
  "open_ok P m n \<longleftrightarrow> (\<exists>rs s e. m n = Some (rs @ [(s, e)]) \<and> unat s < P \<and> unat e + 1 = P)"

lemma hit_simps [simp]: "hit [] q = False"
  "hit (rs @ rs1) q \<longleftrightarrow> hit rs q \<or> hit rs1 q" "hit [r] q \<longleftrightarrow> unat (fst r) \<le> q \<and> q \<le> unat (snd r)"
  by (auto simp: hit_def)

lemma unat_pred: "P < unat p \<Longrightarrow> unat (p - 1) = unat p - 1" for p :: u32
  using unat_sub_no_wrap [of 1 p] by simp

text \<open>What the loops of a segment do to the ranges.\<close>

definition extend_last :: "u32 \<Rightarrow> (u32 \<times> u32) list \<Rightarrow> (u32 \<times> u32) list" where
  "extend_last x rs = butlast rs @ [(fst (last rs), x)]"

definition range_total :: "(network, (u32 \<times> u32) list) btree \<Rightarrow> nat" where
  "range_total m = sum_list (map (length \<circ> snd) m)"

lemma total_entry_push: "bt_sorted m \<Longrightarrow> range_total (bt_entry n [] (\<lambda>rs. rs @ [r]) m) = range_total m + 1"
  by (induction n "[] :: (u32 \<times> u32) list" "\<lambda>rs. rs @ [r]" m rule: bt_entry.induct) (auto simp: range_total_def)

lemma total_entry_extend:
  "bt_sorted m \<Longrightarrow> map_of m n = Some rs \<Longrightarrow> rs \<noteq> [] \<Longrightarrow> range_total (bt_entry n [] (extend_last x) m) = range_total m"
proof (induction n "[] :: (u32 \<times> u32) list" "extend_last x" m rule: bt_entry.induct)
  case (2 n k v m)
  have "n < k \<Longrightarrow> map_of m n = None" using "2.prems"(1) by (intro map_of_greater) auto
  with 2 show ?case by (auto simp: range_total_def extend_last_def split: if_splits)
qed simp

lemma sweep_keep_eq:
  fixes available :: "interval list"
  assumes "bt_sorted ranges" and "\<forall>n\<in>set ns. \<exists>rs. map_of ranges n = Some rs \<and> rs \<noteq> []"
  defines "new \<equiv> filter (\<lambda>n. subtract [nw_interval n] available = []) ns"
  shows "\<exists>ranges'. sweep_keep available port1 ns ranges kept = (ranges', kept @ new) \<and> bt_sorted ranges' \<and>
    range_total ranges' = range_total ranges \<and>
    map_of ranges' = (\<lambda>n. if n \<in> set new then map_option (extend_last (port1 - 1)) (map_of ranges n) else map_of ranges n)"
  using assms(1,2) unfolding new_def
proof (induction ns arbitrary: ranges kept)
  case (Cons n ns)
  show ?case
  proof (cases "subtract [nw_interval n] available = []")
    case False
    then show ?thesis using Cons.IH [of ranges kept] Cons.prems by auto
  next
    case True
    obtain r rs where r: "map_of ranges n = Some (r # rs)" using Cons.prems(2) by (auto simp: neq_Nil_conv)
    define ranges1 where "ranges1 = bt_entry n [] (extend_last (port1 - 1)) ranges"
    have e: "sweep_keep available port1 (n # ns) ranges kept = sweep_keep available port1 ns ranges1 (kept @ [n])"
      using True r by (simp add: bt_get_def ranges1_def extend_last_def [abs_def])
    have m: "map_of ranges1 = (map_of ranges)(n \<mapsto> extend_last (port1 - 1) (r # rs))"
      using map_of_bt_entry [OF Cons.prems(1)] r by (simp add: ranges1_def)
    have "\<forall>k\<in>set ns. \<exists>rs. map_of ranges1 k = Some rs \<and> rs \<noteq> []"
      using Cons.prems(2) by (auto simp: m extend_last_def)
    from Cons.IH [OF bt_entry_sorted [OF Cons.prems(1), of n "[]" "extend_last (port1 - 1)", folded ranges1_def] this, of "kept @ [n]"]
    obtain ranges' where i: "sweep_keep available port1 ns ranges1 (kept @ [n]) =
        (ranges', (kept @ [n]) @ filter (\<lambda>n. subtract [nw_interval n] available = []) ns)" "bt_sorted ranges'"
      "range_total ranges' = range_total ranges1"
      "map_of ranges' = (\<lambda>k. if k \<in> set (filter (\<lambda>n. subtract [nw_interval n] available = []) ns)
         then map_option (extend_last (port1 - 1)) (map_of ranges1 k) else map_of ranges1 k)"
      by blast
    have "range_total ranges1 = range_total ranges" unfolding ranges1_def by (rule total_entry_extend [OF Cons.prems(1) r]) simp
    moreover have "extend_last x (extend_last x l) = extend_last x l" for x l by (simp add: extend_last_def)
    ultimately show ?thesis
      using i True r unfolding e by (intro exI [of _ ranges']) (auto simp: m fun_eq_iff)
  qed
qed simp

lemma sweep_add_spec:
  assumes "sweep_add budget category seg ns ranges count kept = Inr (ranges', count', kept')" and "bt_sorted ranges"
  shows "bt_sorted ranges' \<and> kept' = kept @ ns \<and> count' = count + length ns \<and> (count \<le> budget \<longrightarrow> count' \<le> budget) \<and>
    range_total ranges' = range_total ranges + length ns \<and>
    (\<forall>n. map_of ranges' n =
      (if n \<in> set ns then Some ((case map_of ranges n of None \<Rightarrow> [] | Some rs \<Rightarrow> rs) @ replicate (count_list ns n) seg)
       else map_of ranges n))"
  using assms
proof (induction budget category seg ns ranges count kept rule: sweep_add.induct)
  case (2 budget category seg n ns ranges count kept)
  note m = map_of_bt_entry [OF "2.prems"(2), of n "[]" "\<lambda>rs. rs @ [seg]"]
  from "2.prems"(1) have lt: "count < budget" and r: "sweep_add budget category seg ns
      (bt_entry n [] (\<lambda>rs. rs @ [seg]) ranges) (count + 1) (kept @ [n]) = Inr (ranges', count', kept')"
    by (auto split: if_splits)
  have i: "replicate k seg @ seg # xs = seg # replicate k seg @ xs" for k xs by (induction k) simp_all
  show ?case
    using "2.IH" [OF _ r bt_entry_sorted [OF "2.prems"(2)]] lt total_entry_push [OF "2.prems"(2)] i
    by (auto simp: m split: option.splits)
qed auto

lemma ranges_okD:
  "ranges_ok f P m \<Longrightarrow> m n = Some rs \<Longrightarrow> r \<in> set rs \<Longrightarrow> unat (fst r) \<le> unat (snd r) \<and> unat (snd r) < P"
  "ranges_ok f P m \<Longrightarrow> m n = Some rs \<Longrightarrow> nw_ok n \<and> nw_family n = f"
  unfolding ranges_ok_def by blast+

lemma ranges_ok_hits: "hits m q = {}" if "ranges_ok f P m" and "P \<le> q"
proof -
  have False if "n \<in> hits m q" for n
  proof -
    from that obtain rs r where "m n = Some rs" "r \<in> set rs" "q \<le> unat (snd r)" by (auto simp: hits_def hit_def)
    with ranges_okD(1) [OF \<open>ranges_ok f P m\<close>, of n rs r] \<open>P \<le> q\<close> show False by linarith
  qed
  then show ?thesis by blast
qed

lemma hits_keep:
  assumes "\<forall>n\<in>new. open_ok P m n" and "P < unat port1" and "ranges_ok f P m"
  defines "m' \<equiv> (\<lambda>n. if n \<in> new then map_option (extend_last (port1 - 1)) (m n) else m n)"
  shows "hits m' q = hits m q \<union> (if P \<le> q \<and> q < unat port1 then new else {})" "ranges_ok f (unat port1) m'"
    "\<forall>n\<in>new. open_ok (unat port1) m' n"
proof -
  note p = unat_pred [OF assms(2)]
  have n: "\<exists>rs s e. m n = Some (rs @ [(s, e)]) \<and> m' n = Some (rs @ [(s, port1 - 1)]) \<and> unat s < P \<and> unat e + 1 = P"
    if "n \<in> new" for n
    using assms(1) that unfolding open_ok_def m'_def by (fastforce simp: extend_last_def)
  have "n \<in> hits m' q \<longleftrightarrow> n \<in> hits m q \<or> P \<le> q \<and> q < unat port1" if "n \<in> new" for n
  proof -
    from n [OF that] obtain rs s e where m: "m n = Some (rs @ [(s, e)])" "m' n = Some (rs @ [(s, port1 - 1)])"
      "unat s < P" "unat e + 1 = P" by blast
    have "unat s \<le> q \<and> q \<le> unat (port1 - 1) \<longleftrightarrow> unat s \<le> q \<and> q \<le> unat e \<or> P \<le> q \<and> q < unat port1"
      using m(3,4) p assms(2) by linarith
    then show ?thesis by (auto simp: hits_def m(1,2))
  qed
  moreover have "n \<in> hits m' q \<longleftrightarrow> n \<in> hits m q" if "n \<notin> new" for n using that by (simp add: hits_def m'_def)
  ultimately show "hits m' q = hits m q \<union> (if P \<le> q \<and> q < unat port1 then new else {})" by (auto split: if_splits)
  show "\<forall>n\<in>new. open_ok (unat port1) m' n"
  proof
    fix n assume "n \<in> new"
    from n [OF this] obtain rs s where "m' n = Some (rs @ [(s, port1 - 1)])" "unat s < P" by blast
    moreover have "unat (port1 - 1) + 1 = unat port1" using p assms(2) by linarith
    ultimately show "open_ok (unat port1) m' n" using assms(2) unfolding open_ok_def by fastforce
  qed
  show "ranges_ok f (unat port1) m'"
    unfolding ranges_ok_def
  proof (intro allI impI)
    fix n rs1 assume r: "m' n = Some rs1"
    show "nw_ok n \<and> nw_family n = f \<and> (\<forall>r\<in>set rs1. unat (fst r) \<le> unat (snd r) \<and> unat (snd r) < unat port1)"
    proof (cases "n \<in> new")
      case False
      then have "m n = Some rs1" using r by (simp add: m'_def)
      from ranges_okD [OF assms(3) this] assms(2) show ?thesis by (meson less_trans)
    next
      case True
      from n [OF this] r obtain rs s e where m: "m n = Some (rs @ [(s, e)])" "rs1 = rs @ [(s, port1 - 1)]" "unat s < P"
        by auto
      have "unat s \<le> unat (port1 - 1)" "unat (port1 - 1) < unat port1" using m(3) p assms(2) by linarith+
      moreover have "unat (fst r) \<le> unat (snd r) \<and> unat (snd r) < unat port1" if "r \<in> set rs" for r
        using ranges_okD(1) [OF assms(3) m(1), of r] that assms(2) by simp
      ultimately show ?thesis using ranges_okD(2) [OF assms(3) m(1)] by (auto simp: m(2))
    qed
  qed
qed

lemma hits_add:
  assumes m': "\<And>n. m' n = (if n \<in> set ns then Some ((case m n of None \<Rightarrow> [] | Some rs \<Rightarrow> rs) @
      replicate (count_list ns n) (previous, port1 - 1)) else m n)"
    and "unat previous < unat port1" and "ranges_ok f (unat port1) m" and "\<forall>n\<in>set ns. nw_ok n \<and> nw_family n = f"
  shows "hits m' q = hits m q \<union> (if unat previous \<le> q \<and> q < unat port1 then set ns else {})"
    "ranges_ok f (unat port1) m'" "\<forall>n\<in>set ns. open_ok (unat port1) m' n"
    "open_ok (unat port1) m n \<Longrightarrow> open_ok (unat port1) m' n"
proof -
  note p = unat_pred [OF assms(2)]
  have r: "\<exists>k. replicate (count_list ns n) (previous, port1 - 1) = replicate k (previous, port1 - 1) @ [(previous, port1 - 1)]"
    if "n \<in> set ns" for n
    using that count_notin [of n ns] by (cases "count_list ns n") (auto simp: count_list_0_iff replicate_append_same)
  have h: "hit (replicate k (previous, port1 - 1)) q \<longleftrightarrow> 0 < k \<and> unat previous \<le> q \<and> q < unat port1" for k q
    using p assms(2) by (auto simp: hit_def)
  have "n \<in> hits m' q \<longleftrightarrow> n \<in> hits m q \<or> n \<in> set ns \<and> unat previous \<le> q \<and> q < unat port1" for n
  proof (cases "n \<in> set ns")
    case True
    then have "0 < count_list ns n" by (metis count_list_0_iff neq0_conv)
    with True show ?thesis by (simp add: hits_def m' h split: option.split)
  qed (simp add: hits_def m')
  then show "hits m' q = hits m q \<union> (if unat previous \<le> q \<and> q < unat port1 then set ns else {})"
    by (auto split: if_splits)
  have s: "unat previous \<le> unat (port1 - 1)" "unat (port1 - 1) < unat port1" "unat (port1 - 1) + 1 = unat port1"
    using p assms(2) by linarith+
  show "ranges_ok f (unat port1) m'"
    unfolding ranges_ok_def
  proof (intro allI impI)
    fix n rs1 assume e: "m' n = Some rs1"
    have ok: "nw_ok n \<and> nw_family n = f"
      using e assms(4) ranges_okD(2) [OF assms(3), of n] by (cases "n \<in> set ns") (simp_all add: m')
    have "r \<in> set rs1 \<Longrightarrow> r = (previous, port1 - 1) \<or> (\<exists>rs. m n = Some rs \<and> r \<in> set rs)" for r
      using e by (auto simp: m' split: if_splits option.splits)
    then show "nw_ok n \<and> nw_family n = f \<and> (\<forall>r\<in>set rs1. unat (fst r) \<le> unat (snd r) \<and> unat (snd r) < unat port1)"
      using ok s(1,2) ranges_okD(1) [OF assms(3), of n] by (metis fst_conv snd_conv)
  qed
  show o: "\<forall>n\<in>set ns. open_ok (unat port1) m' n"
  proof
    fix n assume n: "n \<in> set ns"
    with r obtain k where "replicate (count_list ns n) (previous, port1 - 1) = replicate k (previous, port1 - 1) @ [(previous, port1 - 1)]"
      by blast
    with n s(3) assms(2) show "open_ok (unat port1) m' n" unfolding open_ok_def m' by (metis append.assoc)
  qed
  show "open_ok (unat port1) m n \<Longrightarrow> open_ok (unat port1) m' n"
    using o by (cases "n \<in> set ns") (simp_all add: open_ok_def m')
qed

lemma covq_union: "hits m' q = hits m q \<union> S \<Longrightarrow> covq m' q = covq m q \<union> (\<Union>n\<in>S. addrs (nw_interval n))"
  by (simp add: covq_def)

section \<open>A segment\<close>

definition sweep_ok :: "family \<Rightarrow> usize \<Rightarrow> nat \<Rightarrow> sweep \<Rightarrow> bool" where
  "sweep_ok f budget P s \<longleftrightarrow>
     bt_sorted (sw_ranges s) \<and> ranges_ok f P (map_of (sw_ranges s)) \<and>
     (\<forall>n\<in>set (sw_open s). open_ok P (map_of (sw_ranges s)) n) \<and>
     sw_count s = range_total (sw_ranges s) \<and> sw_count s \<le> budget"

lemma sweep_segment_spec:
  assumes r: "sweep_segment f category covered budget previous port1 s = Inr s'"
    and lt: "unat previous < unat port1" and ok: "sweep_ok f budget (unat previous) s"
    and c: "within f covered" "spaced 0 covered" and a: "\<forall>e\<in>set (sw_active s). within f (fst e)"
  shows "sweep_ok f budget (unat port1) s'" "sw_active s' = sw_active s" "sw_previous s' = sw_previous s"
    "covq (map_of (sw_ranges s')) q \<union> cover covered =
       (if unat previous \<le> q \<and> q < unat port1 then (\<Union>e\<in>set (sw_active s). cover (fst e))
        else covq (map_of (sw_ranges s)) q) \<union> cover covered"
proof -
  define addresses where "addresses = merge (concat (map fst (sw_active s)))"
  define available where "available = merge (addresses @ covered)"
  define new where "new = filter (\<lambda>n. subtract [nw_interval n] available = []) (sw_open s)"
  define kept_cover where "kept_cover = merge (covered @ map nw_interval new)"
  have P: "bt_sorted (sw_ranges s)" "ranges_ok f (unat previous) (map_of (sw_ranges s))"
    "\<forall>n\<in>set (sw_open s). open_ok (unat previous) (map_of (sw_ranges s)) n"
    using ok by (simp_all add: sweep_ok_def)
  have wa: "within f (concat (map fst (sw_active s)))" using a by (simp add: within_concat)
  have ad: "within f addresses" "cover addresses = (\<Union>e\<in>set (sw_active s). cover (fst e))"
    using merge_within(1,4) [OF wa] by (simp_all add: addresses_def cover_concat)
  have wv: "within f (addresses @ covered)" using ad c by simp
  have av: "spaced 0 available" "cover available = cover addresses \<union> cover covered"
    using merge_within(3,4) [OF wv] by (simp_all add: available_def)
  have "\<forall>n\<in>set (sw_open s). \<exists>rs. map_of (sw_ranges s) n = Some rs \<and> rs \<noteq> []" using P(3) by (fastforce simp: open_ok_def)
  from sweep_keep_eq [OF P(1) this, of available port1 "[]", folded new_def] obtain ranges1 where
    k: "sweep_keep available port1 (sw_open s) (sw_ranges s) [] = (ranges1, new)" "bt_sorted ranges1"
      "range_total ranges1 = range_total (sw_ranges s)" and
    m1: "map_of ranges1 = (\<lambda>n. if n \<in> set new then map_option (extend_last (port1 - 1)) (map_of (sw_ranges s) n)
      else map_of (sw_ranges s) n)" by auto
  have new: "\<forall>n\<in>set new. open_ok (unat previous) (map_of (sw_ranges s)) n" using P(3) by (simp add: new_def)
  note hk = hits_keep [OF new lt P(2), folded m1]
  have nok: "\<forall>n\<in>set new. nw_ok n \<and> nw_family n = f"
    using new ranges_okD(2) [OF P(2)] by (fastforce simp: open_ok_def)
  have wk: "within f (covered @ map nw_interval new)" using c within_nws [OF nok] by simp
  have kc: "within f kept_cover" "spaced 0 kept_cover" "cover kept_cover = cover covered \<union> (\<Union>n\<in>set new. addrs (nw_interval n))"
    using merge_within(1,3,4) [OF wk] by (simp_all add: kept_cover_def cover_networks)
  have sub: "(\<Union>n\<in>set new. addrs (nw_interval n)) \<subseteq> cover addresses \<union> cover covered"
    using nok subtract_network_Nil [OF _ av(1)] av(2) by (auto simp: new_def)
  obtain left networks ranges2 count2 kept2 where
    nets: "protocol_intervals_to_networks addresses kept_cover f left category = Inr networks" and
    add: "sweep_add budget category (previous, port1 - 1) networks ranges1 (sw_count s) new = Inr (ranges2, count2, kept2)" and
    s': "s' = s\<lparr>sw_ranges := ranges2, sw_count := count2, sw_open := kept2\<rparr>"
    using r k(1) by (auto simp: sweep_segment_def Let_def addresses_def available_def kept_cover_def)
  note ns = protocol_intervals_spec [OF nets ad(1) kc(1,2)]
  note sa = sweep_add_spec [OF add k(2)]
  have m2: "map_of ranges2 n = (if n \<in> set networks then Some ((case map_of ranges1 n of None \<Rightarrow> [] | Some rs \<Rightarrow> rs) @
      replicate (count_list networks n) (previous, port1 - 1)) else map_of ranges1 n)" for n using sa by blast
  note ha = hits_add [where m' = "map_of ranges2", OF m2 lt hk(2) ns(2)]
  show "sweep_ok f budget (unat port1) s'"
    using sa [THEN conjunct1] sa [THEN conjunct2, THEN conjunct1] sa [THEN conjunct2, THEN conjunct2, THEN conjunct1]
      sa ha(2-4) hk(3) k(3) ok unfolding sweep_ok_def s' by auto
  show "sw_active s' = sw_active s" "sw_previous s' = sw_previous s" by (simp_all add: s')
  have "covq (map_of ranges2) q = covq (map_of (sw_ranges s)) q \<union>
      (if unat previous \<le> q \<and> q < unat port1 then \<Union>n\<in>set new \<union> set networks. addrs (nw_interval n) else {})"
    using covq_union [OF hk(1) [of q]] covq_union [OF ha(1) [of q]] by auto
  moreover have "covq (map_of (sw_ranges s)) q = {}" if "unat previous \<le> q"
    using ranges_ok_hits [OF P(2) that] by (simp add: covq_def)
  moreover have "(\<Union>n\<in>set new \<union> set networks. addrs (nw_interval n)) \<union> cover covered = cover addresses \<union> cover covered"
  proof -
    have "N \<union> M \<union> C = A \<union> C" if "M \<union> (C \<union> N) = A \<union> (C \<union> N)" "N \<subseteq> A \<union> C" for A C M N :: "nat set"
      using that by auto
    from this [OF ns(1) [unfolded kc(3) cover_networks] sub] show ?thesis by (simp only: UN_Un)
  qed
  ultimately show "covq (map_of (sw_ranges s')) q \<union> cover covered =
       (if unat previous \<le> q \<and> q < unat port1 then (\<Union>e\<in>set (sw_active s). cover (fst e))
        else covq (map_of (sw_ranges s)) q) \<union> cover covered"
    using ad(2) by (simp add: s')
qed

end
