(* ===== verification/Egress_Active.thy ===== *)
theory Egress_Active
  imports Egress_Sweep
begin

text \<open>
  The rules that are active at a port, as the sweep counts them: the events of all boundaries up to a
  port leave exactly the sets of addresses of the rules that hold the port, so that the sweep selects,
  at every port, what its rules select.
\<close>

section \<open>Counting\<close>

definition cnt :: "('k, int) btree \<Rightarrow> 'k \<Rightarrow> int" where
  "cnt active k = (case map_of active k of None \<Rightarrow> 0 | Some c \<Rightarrow> c)"

definition counted :: "(interval list, int) btree \<Rightarrow> bool" where
  "counted active \<longleftrightarrow> bt_sorted active \<and> (\<forall>k. map_of active k \<noteq> Some 0)"

definition ev_sum :: "port_event list \<Rightarrow> interval list \<Rightarrow> int" where
  "ev_sum es B = (\<Sum>e\<leftarrow>es. if snd e = B then fst e else 0)"

definition ev_total :: "(u32, port_event list) btree \<Rightarrow> nat \<Rightarrow> interval list \<Rightarrow> int" where
  "ev_total m P B = (\<Sum>e\<leftarrow>m. if unat (fst e) \<le> P then ev_sum (snd e) B else 0)"

lemma ev_sum_simps [simp]: "ev_sum [] B = 0" "ev_sum (es @ es1) B = ev_sum es B + ev_sum es1 B"
  "ev_sum (e # es) B = (if snd e = B then fst e else 0) + ev_sum es B"
  by (simp_all add: ev_sum_def)

lemma ev_total_simps [simp]: "ev_total [] P B = 0"
  "ev_total (e # m) P B = (if unat (fst e) \<le> P then ev_sum (snd e) B else 0) + ev_total m P B"
  by (simp_all add: ev_total_def)

lemma ev_total_append: "ev_total (m @ m1) P B = ev_total m P B + ev_total m1 P B"
  by (simp add: ev_total_def)

lemma sweep_event_spec:
  assumes "counted active"
  shows "counted (sweep_event active e)" "cnt (sweep_event active e) B = cnt active B + (if snd e = B then fst e else 0)"
proof -
  define active1 where "active1 = bt_entry (snd e) 0 (\<lambda>count. count + fst e) active"
  have s: "bt_sorted active" "\<forall>k. map_of active k \<noteq> Some 0" using assms by (simp_all add: counted_def)
  have m: "map_of active1 = (map_of active)(snd e \<mapsto> cnt active (snd e) + fst e)"
    using map_of_bt_entry [OF s(1)] by (simp add: active1_def cnt_def)
  have b: "bt_sorted active1" using bt_entry_sorted [OF s(1)] by (simp add: active1_def)
  have e: "sweep_event active e = (if cnt active (snd e) + fst e = 0 then bt_remove (snd e) active1 else active1)"
    by (simp add: sweep_event_def Let_def bt_get_def m flip: active1_def)
  show "counted (sweep_event active e)" using s(2) b bt_remove_sorted [OF b] by (auto simp: counted_def e map_of_bt_remove m)
  show "cnt (sweep_event active e) B = cnt active B + (if snd e = B then fst e else 0)"
    by (auto simp: e cnt_def map_of_bt_remove m)
qed

lemma sweep_events_spec:
  assumes "counted active"
  shows "counted (foldl sweep_event active es) \<and> cnt (foldl sweep_event active es) B = cnt active B + ev_sum es B"
  using assms by (induction es arbitrary: active) (simp_all add: sweep_event_spec)

lemma counted_keys: "counted active \<Longrightarrow> fst ` set active = {B. cnt active B \<noteq> 0}"
proof -
  assume c: "counted active"
  have "B \<in> fst ` set active \<longleftrightarrow> map_of active B \<noteq> None" for B by (simp add: map_of_eq_None_iff)
  moreover have "map_of active B \<noteq> None \<longleftrightarrow> cnt active B \<noteq> 0" for B
    using c by (auto simp: counted_def cnt_def split: option.splits)
  ultimately show ?thesis by blast
qed

section \<open>Events\<close>

text \<open>The rules whose boundaries the sweep visits.\<close>

definition swept :: "native_protocol \<Rightarrow> interval list \<Rightarrow> rule \<Rightarrow> bool" where
  "swept protocol covered r \<longleftrightarrow>
     ru_ports r \<noteq> None \<and> ru_protocol r = Some protocol \<and> ru_addresses r \<noteq> [] \<and> subtract (ru_addresses r) covered \<noteq> []"

definition ru_first :: "rule \<Rightarrow> nat" where
  "ru_first r = unat (fst (the (ru_ports r)))"

definition ru_last :: "rule \<Rightarrow> nat" where
  "ru_last r = unat (snd (the (ru_ports r)))"

lemma ev_total_entry:
  "ev_total (bt_entry k [] (\<lambda>es. es @ [e]) m) P B = ev_total m P B + (if unat k \<le> P \<and> snd e = B then fst e else 0)"
  by (induction k "[] :: port_event list" "\<lambda>es. es @ [e]" m rule: bt_entry.induct) auto

lemma unat_port: "unat (ucast (p :: u16) :: u32) = unat p" "unat (ucast p + 1 :: u32) = Suc (unat p)"
proof -
  show u: "unat (ucast (p :: u16) :: u32) = unat p" using unat_bound [of p] by (simp add: unsigned_ucast_eq take_bit_nat_eq_self)
  have "unat (ucast p :: u32) + unat (1 :: u32) < 2 ^ 32" using unat_bound [of p] by (simp add: u)
  then show "unat (ucast p + 1 :: u32) = Suc (unat p)" using unat_add_no_wrap [of "ucast p :: u32" 1] by (simp add: u)
qed

lemma port_events_spec:
  shows "bt_sorted (port_events rules protocol covered) \<and>
    (\<lambda>e. unat (fst e)) ` set (port_events rules protocol covered) =
      (\<Union>r\<in>{r \<in> set rules. swept protocol covered r}. {ru_first r, Suc (ru_last r)}) \<and>
    ev_total (port_events rules protocol covered) P B =
      (\<Sum>r\<leftarrow>filter (swept protocol covered) rules.
         if ru_addresses r = B then of_bool (ru_first r \<le> P) - of_bool (Suc (ru_last r) \<le> P) else 0)"
proof (induction rules rule: rev_induct)
  case Nil
  then show ?case by (simp add: port_events_def)
next
  case (snoc r rules)
  show ?case
  proof (cases "swept protocol covered r")
    case False
    then have "port_events (rules @ [r]) protocol covered = port_events rules protocol covered"
      by (auto simp: port_events_def swept_def split: option.splits)
    moreover have "{q \<in> set (rules @ [r]). swept protocol covered q} = {q \<in> set rules. swept protocol covered q}"
      using False by auto
    ultimately show ?thesis using snoc False by simp
  next
    case True
    define m where "m = port_events rules protocol covered"
    obtain start last1 where p: "ru_ports r = Some (start, last1)" using True by (auto simp: swept_def)
    have e: "port_events (rules @ [r]) protocol covered =
        bt_entry (ucast last1 + 1) [] (\<lambda>es. es @ [(- 1, ru_addresses r)])
          (bt_entry (ucast start) [] (\<lambda>es. es @ [(1, ru_addresses r)]) m)"
      using True p by (auto simp: port_events_def swept_def m_def)
    have u: "unat (ucast start :: u32) = ru_first r" "unat (ucast last1 + 1 :: u32) = Suc (ru_last r)"
      by (simp_all add: unat_port ru_first_def ru_last_def p)
    have k: "(\<lambda>e. unat (fst e)) ` set (bt_entry k d f m1) = insert (unat k) ((\<lambda>e. unat (fst e)) ` set m1)"
      for k :: u32 and d f and m1 :: "(u32, port_event list) btree"
      using arg_cong [OF fst_bt_entry [of k d f m1], of "(`) unat"] by (simp add: image_image)
    have "{q \<in> set (rules @ [r]). swept protocol covered q} = insert r {q \<in> set rules. swept protocol covered q}"
      using True by auto
    then show ?thesis
      using snoc True unfolding e m_def [symmetric] by (simp add: bt_entry_sorted ev_total_entry u k insert_commute)
  qed
qed

definition active_at :: "native_protocol \<Rightarrow> interval list \<Rightarrow> rule list \<Rightarrow> nat \<Rightarrow> rule set" where
  "active_at protocol covered rules q = {r \<in> set rules. swept protocol covered r \<and> ru_first r \<le> q \<and> q \<le> ru_last r}"

definition selected :: "native_protocol \<Rightarrow> interval list \<Rightarrow> rule list \<Rightarrow> nat \<Rightarrow> nat set" where
  "selected protocol covered rules q = (\<Union>r\<in>active_at protocol covered rules q. cover (ru_addresses r))"

lemma ordered_first: "rule_ok r \<Longrightarrow> swept protocol covered r \<Longrightarrow> ru_first r \<le> ru_last r"
  by (auto simp: rule_ok_def swept_def ru_first_def ru_last_def word_le_nat_alt)

lemma ev_total_active:
  assumes "\<forall>r\<in>set rules. rule_ok r"
  shows "ev_total (port_events rules protocol covered) P B \<noteq> 0 \<longleftrightarrow>
    (\<exists>r\<in>active_at protocol covered rules P. ru_addresses r = B)"
proof -
  have "(\<Sum>r\<leftarrow>filter (swept protocol covered) rules.
       if ru_addresses r = B then of_bool (ru_first r \<le> P) - of_bool (Suc (ru_last r) \<le> P) else 0) =
      int (length (filter (\<lambda>r. swept protocol covered r \<and> ru_addresses r = B \<and> ru_first r \<le> P \<and> P \<le> ru_last r) rules))"
    using assms
  proof (induction rules)
    case (Cons r rules)
    have "swept protocol covered r \<Longrightarrow> ru_first r \<le> ru_last r" using Cons.prems ordered_first by simp
    with Cons show ?case by auto
  qed simp
  then have "ev_total (port_events rules protocol covered) P B =
      int (length (filter (\<lambda>r. swept protocol covered r \<and> ru_addresses r = B \<and> ru_first r \<le> P \<and> P \<le> ru_last r) rules))"
    using port_events_spec by simp
  then show ?thesis by (auto simp: active_at_def filter_empty_conv)
qed

section \<open>The sweep\<close>

text \<open>Between two boundaries nothing starts or ends.\<close>

lemma active_between:
  assumes "\<And>r. r \<in> set rules \<Longrightarrow> swept protocol covered r \<Longrightarrow>
      (ru_first r \<le> P \<or> Q \<le> ru_first r) \<and> (Suc (ru_last r) \<le> P \<or> Q \<le> Suc (ru_last r))"
    and "P \<le> q" and "q < Q"
  shows "active_at protocol covered rules q = active_at protocol covered rules P"
  using assms by (fastforce simp: active_at_def)

lemma ev_total_below: "\<forall>e\<in>set m. P < unat (fst e) \<Longrightarrow> ev_total m P B = 0"
  by (induction m) auto

lemma ev_total_above: "\<forall>e\<in>set m. unat (fst e) \<le> P \<Longrightarrow> \<forall>e\<in>set m. unat (fst e) \<le> Q \<Longrightarrow> ev_total m P B = ev_total m Q B"
  by (induction m) auto

lemma events_split:
  assumes "bt_sorted (before @ (k, es) # after1)"
  shows "\<forall>e\<in>set before. unat (fst e) < unat k" "\<forall>e\<in>set after1. unat k < unat (fst e)"
    "before \<noteq> [] \<Longrightarrow> \<forall>e\<in>set before. unat (fst e) \<le> unat (fst (last before))"
    "ev_total (before @ (k, es) # after1) (unat k) B =
       (if before = [] then 0 else ev_total (before @ (k, es) # after1) (unat (fst (last before))) B) + ev_sum es B"
proof -
  show b: "\<forall>e\<in>set before. unat (fst e) < unat k" and a: "\<forall>e\<in>set after1. unat k < unat (fst e)"
    using assms by (auto simp: bt_sorted_def sorted_wrt_append word_less_nat_alt)
  show l: "\<forall>e\<in>set before. unat (fst e) \<le> unat (fst (last before))" if "before \<noteq> []"
  proof -
    note n = that
    obtain b1 x where "before = b1 @ [x]" using n by (cases before rule: rev_cases) auto
    then show ?thesis using assms by (auto simp: bt_sorted_def sorted_wrt_append word_less_nat_alt less_imp_le)
  qed
  have "ev_total before (unat k) B = ev_total before (unat (fst (last before))) B" if "before \<noteq> []"
    using b l [OF that] by (intro ev_total_above) (auto simp: less_imp_le)
  moreover have "unat (fst (last before)) < unat k" if "before \<noteq> []" using b that by simp
  moreover have "ev_total after1 (unat k) B = 0" using a by (intro ev_total_below)
  moreover have "ev_total after1 (unat (fst (last before))) B = 0" if "before \<noteq> []"
    using a b [rule_format, OF last_in_set [OF that]] by (intro ev_total_below) (meson less_trans)
  ultimately show "ev_total (before @ (k, es) # after1) (unat k) B =
       (if before = [] then 0 else ev_total (before @ (k, es) # after1) (unat (fst (last before))) B) + ev_sum es B"
    by (auto simp: ev_total_append)
qed

definition sweep_inv ::
  "family \<Rightarrow> usize \<Rightarrow> native_protocol \<Rightarrow> interval list \<Rightarrow> rule list \<Rightarrow> (u32, port_event list) btree \<Rightarrow> sweep \<Rightarrow> bool" where
  "sweep_inv f budget protocol covered rules before s \<longleftrightarrow>
     (if before = [] then s = sweep_new
      else sw_previous s = Some (fst (last before)) \<and> sweep_ok f budget (unat (fst (last before))) s \<and>
        counted (sw_active s) \<and>
        (\<forall>B. cnt (sw_active s) B = ev_total (port_events rules protocol covered) (unat (fst (last before))) B) \<and>
        (\<forall>q < unat (fst (last before)). covq (map_of (sw_ranges s)) q \<union> cover covered =
           selected protocol covered rules q \<union> cover covered))"

lemma boundaries:
  assumes "r \<in> set rules" and "swept protocol covered r"
  shows "\<exists>e\<in>set (port_events rules protocol covered). unat (fst e) = ru_first r"
    "\<exists>e\<in>set (port_events rules protocol covered). unat (fst e) = Suc (ru_last r)"
proof -
  have "ru_first r \<in> (\<lambda>e. unat (fst e)) ` set (port_events rules protocol covered)"
    "Suc (ru_last r) \<in> (\<lambda>e. unat (fst e)) ` set (port_events rules protocol covered)"
    using assms port_events_spec [of rules protocol covered] by auto
  then show "\<exists>e\<in>set (port_events rules protocol covered). unat (fst e) = ru_first r"
    "\<exists>e\<in>set (port_events rules protocol covered). unat (fst e) = Suc (ru_last r)" by force+
qed

lemma sweep_first:
  assumes "port_events rules protocol covered = (k, es) # after1"
    and "sweep_port f category covered budget (k, es) sweep_new = Inr s"
  shows "sweep_inv f budget protocol covered rules [(k, es)] s"
proof -
  have so: "bt_sorted ([] @ (k, es) # after1)" using port_events_spec [of rules protocol covered] assms(1) by simp
  note ev = events_split [OF so]
  have s: "s = sweep_new\<lparr>sw_active := foldl sweep_event [] es, sw_previous := Some k\<rparr>"
    using assms(2) by (simp add: sweep_port_def sweep_new_def Let_def)
  have "counted []" by (simp add: counted_def)
  note c = sweep_events_spec [OF this, of es]
  have "active_at protocol covered rules q = {}" if "q < unat k" for q
  proof -
    have "unat k \<le> ru_first r" if "r \<in> set rules" "swept protocol covered r" for r
      using boundaries(1) [OF that] ev(2) by (auto simp: assms(1) less_imp_le)
    with that show ?thesis by (fastforce simp: active_at_def)
  qed
  then show ?thesis
    using c ev(4) by (auto simp: sweep_inv_def s sweep_new_def sweep_ok_def ranges_ok_def range_total_def covq_def hits_def
        assms(1) cnt_def selected_def)
qed

lemma sweep_next:
  assumes m: "port_events rules protocol covered = before @ (k, es) # after1" and "before \<noteq> []"
    and rules: "\<forall>r\<in>set rules. rule_ok r \<and> ru_family r = f" and c: "within f covered" "spaced 0 covered"
    and inv: "sweep_inv f budget protocol covered rules before s"
    and r: "sweep_port f category covered budget (k, es) s = Inr s'"
  shows "sweep_inv f budget protocol covered rules (before @ [(k, es)]) s'"
proof -
  define previous where "previous = fst (last before)"
  have so: "bt_sorted (before @ (k, es) # after1)" using port_events_spec [of rules protocol covered] m by simp
  note ev = events_split [OF so]
  have lt: "unat previous < unat k" using ev(1) assms(2) by (simp add: previous_def)
  have i: "sw_previous s = Some previous" "sweep_ok f budget (unat previous) s" "counted (sw_active s)"
    "\<And>B. cnt (sw_active s) B = ev_total (port_events rules protocol covered) (unat previous) B"
    "\<And>q. q < unat previous \<Longrightarrow> covq (map_of (sw_ranges s)) q \<union> cover covered = selected protocol covered rules q \<union> cover covered"
    using inv assms(2) by (simp_all add: sweep_inv_def previous_def)
  have keys: "fst ` set (sw_active s) = ru_addresses ` active_at protocol covered rules (unat previous)"
    using counted_keys [OF i(3)] ev_total_active [of rules protocol covered "unat previous"] rules by (auto simp: i(4))
  have sel: "(\<Union>e\<in>set (sw_active s). cover (fst e)) = selected protocol covered rules (unat previous)"
    using arg_cong [OF keys, of "\<lambda>A. \<Union>B\<in>A. cover B"] by (simp add: selected_def)
  have between: "active_at protocol covered rules q = active_at protocol covered rules (unat previous)"
    if "unat previous \<le> q" "q < unat k" for q
  proof (rule active_between [OF _ that])
    fix r assume r: "r \<in> set rules" "swept protocol covered r"
    have "unat (fst e) \<le> unat previous \<or> unat k \<le> unat (fst e)" if "e \<in> set (port_events rules protocol covered)" for e
      using that ev(2) ev(3) [OF assms(2)] by (auto simp: m previous_def less_imp_le)
    with boundaries [OF r] show "(ru_first r \<le> unat previous \<or> unat k \<le> ru_first r) \<and>
        (Suc (ru_last r) \<le> unat previous \<or> unat k \<le> Suc (ru_last r))" by metis
  qed
  define s1 where "s1 = (if sw_active s = [] then s\<lparr>sw_open := []\<rparr> else s)"
  obtain s2 where s2: "(if sw_active s \<noteq> [] then sweep_segment f category covered budget previous k s1 else Inr s1) = Inr s2"
    and s': "s' = s2\<lparr>sw_active := foldl sweep_event (sw_active s2) es, sw_previous := Some k\<rparr>"
    using r lt by (auto simp: sweep_port_def i(1) Let_def s1_def word_less_nat_alt split: if_splits)
  have w: "\<forall>e\<in>set (sw_active s). within f (fst e)"
    using keys rules by (force simp: active_at_def rule_ok_def)
  have s2_ok: "sweep_ok f budget (unat k) s2" "sw_active s2 = sw_active s"
    "covq (map_of (sw_ranges s2)) q \<union> cover covered =
       (if unat previous \<le> q \<and> q < unat k then selected protocol covered rules (unat previous)
        else covq (map_of (sw_ranges s)) q) \<union> cover covered" for q
  proof -
    have "sweep_ok f budget (unat k) s2 \<and> sw_active s2 = sw_active s \<and> covq (map_of (sw_ranges s2)) q \<union> cover covered =
       (if unat previous \<le> q \<and> q < unat k then selected protocol covered rules (unat previous)
        else covq (map_of (sw_ranges s)) q) \<union> cover covered"
    proof (cases "sw_active s = []")
      case False
      then have seg: "sweep_segment f category covered budget previous k s = Inr s2" using s2 by (simp add: s1_def)
      show ?thesis using sweep_segment_spec [OF seg lt i(2) c w] sel by simp
    next
      case True
      then have e: "s2 = s\<lparr>sw_open := []\<rparr>" using s2 by (simp add: s1_def)
      have "ranges_ok f (unat previous) (map_of (sw_ranges s))" using i(2) by (simp add: sweep_ok_def)
      moreover have "ranges_ok f (unat k) (map_of (sw_ranges s))"
        using ranges_okD [OF calculation] lt unfolding ranges_ok_def by (meson less_trans)
      ultimately show ?thesis
        using i(2) sel True ranges_ok_hits [of f "unat previous" "map_of (sw_ranges s)" q] by (auto simp: e sweep_ok_def covq_def)
    qed
    then show "sweep_ok f budget (unat k) s2" "sw_active s2 = sw_active s"
      "covq (map_of (sw_ranges s2)) q \<union> cover covered =
         (if unat previous \<le> q \<and> q < unat k then selected protocol covered rules (unat previous)
          else covq (map_of (sw_ranges s)) q) \<union> cover covered" by blast+
  qed
  have "covq (map_of (sw_ranges s2)) q \<union> cover covered = selected protocol covered rules q \<union> cover covered"
    if "q < unat k" for q
    using s2_ok(3) [of q] i(5) [of q] between [of q] that by (cases "unat previous \<le> q") (simp_all add: selected_def)
  moreover have "cnt (foldl sweep_event (sw_active s) es) B = ev_total (port_events rules protocol covered) (unat k) B" for B
    using sweep_events_spec [OF i(3), of es B] ev(4) [of B] i(4) [of B] assms(2) by (simp add: m previous_def)
  moreover have "sweep_ok f budget (unat k) s'" using s2_ok(1) by (simp add: s' sweep_ok_def)
  ultimately show ?thesis
    using sweep_events_spec [OF i(3), of es] s2_ok(2) by (simp add: sweep_inv_def s')
qed

lemma sweep_ports_inv:
  assumes rules: "\<forall>r\<in>set rules. rule_ok r \<and> ru_family r = f" and c: "within f covered" "spaced 0 covered"
  shows "port_events rules protocol covered = before @ events \<Longrightarrow> sweep_inv f budget protocol covered rules before s \<Longrightarrow>
    sweep_ports f category covered budget events s = Inr s' \<Longrightarrow>
    sweep_inv f budget protocol covered rules (port_events rules protocol covered) s'"
proof (induction events arbitrary: before s)
  case (Cons e events)
  obtain k es where e: "e = (k, es)" by (cases e)
  obtain s1 where s1: "sweep_port f category covered budget (k, es) s = Inr s1"
    "sweep_ports f category covered budget events s1 = Inr s'" using Cons.prems(3) by (auto simp: e)
  have "sweep_inv f budget protocol covered rules (before @ [(k, es)]) s1"
  proof (cases "before = []")
    case True
    then show ?thesis using sweep_first [of rules protocol covered k es events] Cons.prems(1,2) s1(1) by (simp add: sweep_inv_def e)
  next
    case False
    then show ?thesis using sweep_next [OF _ False rules c] Cons.prems(1,2) s1(1) by (simp add: e)
  qed
  from Cons.IH [OF _ this s1(2)] Cons.prems(1) show ?case by (simp add: e)
qed simp

lemma sweep_ports_exact:
  assumes rules: "\<forall>r\<in>set rules. rule_ok r \<and> ru_family r = f" and c: "within f covered" "spaced 0 covered"
    and r: "sweep_ports f category covered budget (port_events rules protocol covered) sweep_new = Inr s"
  shows "covq (map_of (sw_ranges s)) q \<union> cover covered = selected protocol covered rules q \<union> cover covered"
    "bt_sorted (sw_ranges s)" "ranges_ok f 65536 (map_of (sw_ranges s))" "range_total (sw_ranges s) \<le> budget"
proof -
  define m where "m = port_events rules protocol covered"
  have "sweep_inv f budget protocol covered rules [] sweep_new" by (simp add: sweep_inv_def)
  from sweep_ports_inv [OF rules c _ this r] have inv: "sweep_inv f budget protocol covered rules m s" by (simp add: m_def)
  have "covq (map_of (sw_ranges s)) q \<union> cover covered = selected protocol covered rules q \<union> cover covered \<and>
    bt_sorted (sw_ranges s) \<and> ranges_ok f 65536 (map_of (sw_ranges s)) \<and> range_total (sw_ranges s) \<le> budget"
  proof (cases m rule: rev_cases)
    case Nil
    then have "active_at protocol covered rules q = {}" using boundaries(1) [of _ rules protocol covered] by (auto simp: active_at_def m_def)
    moreover have "s = sweep_new" using inv Nil by (simp add: sweep_inv_def)
    ultimately show ?thesis by (simp add: sweep_new_def covq_def hits_def selected_def ranges_ok_def range_total_def)
  next
    case (snoc before e)
    define P where "P = unat (fst e)"
    have i: "sweep_ok f budget P s"
      "\<And>q. q < P \<Longrightarrow> covq (map_of (sw_ranges s)) q \<union> cover covered = selected protocol covered rules q \<union> cover covered"
      using inv snoc by (simp_all add: sweep_inv_def P_def)
    have "bt_sorted (before @ [e])" using port_events_spec [of rules protocol covered] snoc by (simp add: m_def)
    then have last1: "unat (fst e1) \<le> P" if "e1 \<in> set m" for e1
      using that by (auto simp: bt_sorted_def snoc sorted_wrt_append word_less_nat_alt P_def less_imp_le)
    have "Suc (ru_last r) \<le> P" if "r \<in> set rules" "swept protocol covered r" for r
      using boundaries(2) [OF that, folded m_def] last1 by metis
    then have "active_at protocol covered rules q = {}" if "P \<le> q" using that by (fastforce simp: active_at_def)
    moreover have P: "P \<le> 65536"
    proof -
      have "P \<in> (\<lambda>e. unat (fst e)) ` set m" using snoc by (simp add: P_def)
      then obtain r where "P = ru_first r \<or> P = Suc (ru_last r)"
        using port_events_spec [of rules protocol covered] by (auto simp: m_def)
      then show ?thesis
        using unat_bound [of "fst (the (ru_ports r))"] unat_bound [of "snd (the (ru_ports r))"] by (auto simp: ru_first_def ru_last_def)
    qed
    moreover have ro: "ranges_ok f P (map_of (sw_ranges s))" using i(1) by (simp add: sweep_ok_def)
    moreover have "ranges_ok f 65536 (map_of (sw_ranges s))"
      using ranges_okD [OF ro] P unfolding ranges_ok_def by (meson less_le_trans)
    ultimately show ?thesis
      using i(1) i(2) [of q] ranges_ok_hits [OF ro, of q]
      by (cases "q < P") (simp_all add: sweep_ok_def covq_def selected_def)
  qed
  then show "covq (map_of (sw_ranges s)) q \<union> cover covered = selected protocol covered rules q \<union> cover covered"
    "bt_sorted (sw_ranges s)" "ranges_ok f 65536 (map_of (sw_ranges s))" "range_total (sw_ranges s) \<le> budget" by blast+
qed

end
