(* ===== verification/Egress_Exact.thy ===== *)
theory Egress_Exact
  imports Egress_Active
begin

text \<open>
  The lowering of an action: the native rules select exactly the traffic that the rules select, there
  are at most as many as the limit, and the only refusal is that there would be more.
\<close>

section \<open>What rules and native rules select\<close>

definition port_ok :: "port_range option \<Rightarrow> u16 \<Rightarrow> bool" where
  "port_ok ports q = (case ports of None \<Rightarrow> True | Some (first, last1) \<Rightarrow> first \<le> q \<and> q \<le> last1)"

definition proto_ok :: "native_protocol option \<Rightarrow> port_range option \<Rightarrow> native_protocol option \<Rightarrow> u16 \<Rightarrow> bool" where
  "proto_ok protocol ports p q \<longleftrightarrow> protocol = None \<or> protocol = p \<and> port_ok ports q"

definition rule_sel :: "rule list \<Rightarrow> native_protocol option \<Rightarrow> u16 \<Rightarrow> nat set" where
  "rule_sel rules p q = (\<Union>r\<in>{r \<in> set rules. proto_ok (ru_protocol r) (ru_ports r) p q}. cover (ru_addresses r))"

definition native_sel :: "native_rule list \<Rightarrow> native_protocol option \<Rightarrow> u16 \<Rightarrow> nat set" where
  "native_sel rules p q = (\<Union>r\<in>{r \<in> set rules. proto_ok (fst (snd r)) (snd (snd r)) p q}. addrs (nw_interval (fst r)))"

definition native_ok :: "native_rule \<Rightarrow> bool" where
  "native_ok r \<longleftrightarrow> nw_ok (fst r) \<and> (fst (snd r) = None \<longrightarrow> snd (snd r) = None)"

definition natives_ok :: "family \<Rightarrow> native_rule list \<Rightarrow> bool" where
  "natives_ok f rules \<longleftrightarrow> (\<forall>r\<in>set rules. native_ok r \<and> nw_family (fst r) = f)"

lemma native_sel_append: "native_sel (rs @ rs1) p q = native_sel rs p q \<union> native_sel rs1 p q"
  by (auto simp: native_sel_def)

lemma native_sel_wide:
  "native_sel (map (\<lambda>n. (n, protocol, None)) ns) p q = (if protocol = None \<or> protocol = p then cover (map nw_interval ns) else {})"
  by (auto simp: native_sel_def cover_networks proto_ok_def port_ok_def)

lemma natives_ok_simps [simp]:
  "natives_ok f []" "natives_ok f (rs @ rs1) \<longleftrightarrow> natives_ok f rs \<and> natives_ok f rs1"
  "natives_ok f (map (\<lambda>n. (n, x, None)) ns) \<longleftrightarrow> (\<forall>n\<in>set ns. nw_ok n \<and> nw_family n = f)"
  by (auto simp: natives_ok_def native_ok_def)

section \<open>Rules with ports\<close>

lemma unat_u16: "unat x < 65536 \<Longrightarrow> unat (ucast (x :: u32) :: u16) = unat x"
  by (simp add: unsigned_ucast_eq take_bit_nat_eq_self)

definition port_natives :: "native_protocol \<Rightarrow> (network, (u32 \<times> u32) list) btree \<Rightarrow> native_rule list" where
  "port_natives protocol ranges =
     concat (map (\<lambda>(n, rs). map (\<lambda>(start, last1). (n, Some protocol, Some (ucast start, ucast last1))) rs) ranges)"

lemma length_port_natives: "length (port_natives protocol ranges) = range_total ranges"
  by (auto simp: port_natives_def range_total_def length_concat comp_def case_prod_unfold)

lemma set_port_natives:
  "set (port_natives protocol ranges) =
     {(n, Some protocol, Some (ucast (fst r), ucast (snd r))) | n rs r. (n, rs) \<in> set ranges \<and> r \<in> set rs}"
  by (force simp: port_natives_def)

lemma native_sel_ports:
  assumes "bt_sorted ranges" and "ranges_ok f 65536 (map_of ranges)"
  shows "native_sel (port_natives protocol ranges) p q = (if p = Some protocol then covq (map_of ranges) (unat q) else {})"
    "natives_ok f (port_natives protocol ranges)"
proof -
  have m: "(n, rs) \<in> set ranges \<longleftrightarrow> map_of ranges n = Some rs" for n rs
    using bt_sorted_distinct [OF assms(1)] by (simp add: map_of_eq_Some_iff)
  show "natives_ok f (port_natives protocol ranges)"
    using ranges_okD(2) [OF assms(2)] by (auto simp: natives_ok_def native_ok_def set_port_natives m)
  have u: "port_ok (Some (ucast (fst r), ucast (snd r))) q \<longleftrightarrow> unat (fst r) \<le> unat q \<and> unat q \<le> unat (snd r)"
    if "map_of ranges n = Some rs" "r \<in> set rs" for n rs r
  proof -
    have "unat (fst r) < 65536" "unat (snd r) < 65536" using ranges_okD(1) [OF assms(2) that] by linarith+
    then show ?thesis by (simp add: port_ok_def word_le_nat_alt unat_u16)
  qed
  have "x \<in> native_sel (port_natives protocol ranges) p q \<longleftrightarrow> p = Some protocol \<and> x \<in> covq (map_of ranges) (unat q)" for x
  proof -
    have "x \<in> native_sel (port_natives protocol ranges) p q \<longleftrightarrow>
        (\<exists>n rs r. map_of ranges n = Some rs \<and> r \<in> set rs \<and>
          (Some protocol = p \<and> port_ok (Some (ucast (fst r), ucast (snd r))) q) \<and> x \<in> addrs (nw_interval n))"
      by (fastforce simp: native_sel_def set_port_natives m proto_ok_def)
    also have "\<dots> \<longleftrightarrow> p = Some protocol \<and> (\<exists>n rs r. map_of ranges n = Some rs \<and> r \<in> set rs \<and>
        unat (fst r) \<le> unat q \<and> unat q \<le> unat (snd r) \<and> x \<in> addrs (nw_interval n))"
      using u by metis
    also have "\<dots> \<longleftrightarrow> p = Some protocol \<and> x \<in> covq (map_of ranges) (unat q)"
      unfolding covq_def hits_def hit_def by blast
    finally show ?thesis .
  qed
  then show "native_sel (port_natives protocol ranges) p q = (if p = Some protocol then covq (map_of ranges) (unat q) else {})"
    by auto
qed

lemma lower_port_rules_spec:
  assumes r: "lower_port_rules rules protocol f category covered budget = Inr out"
    and rules: "\<forall>r\<in>set rules. rule_ok r \<and> ru_family r = f" and c: "within f covered" "spaced 0 covered"
  shows "natives_ok f out" "length out \<le> budget" "p \<noteq> Some protocol \<Longrightarrow> native_sel out p q = {}"
    "native_sel out (Some protocol) q \<union> cover covered =
       (\<Union>r\<in>{r \<in> set rules. ru_protocol r = Some protocol \<and> ru_ports r \<noteq> None \<and> port_ok (ru_ports r) q}. cover (ru_addresses r))
       \<union> cover covered"
proof -
  obtain s where s: "sweep_ports f category covered budget (port_events rules protocol covered) sweep_new = Inr s"
    and out: "out = port_natives protocol (sw_ranges s)"
    using r by (auto simp: lower_port_rules_def port_natives_def)
  note e = sweep_ports_exact [OF rules c s]
  note n = native_sel_ports [OF e(2,3), of protocol, folded out]
  show "natives_ok f out" "p \<noteq> Some protocol \<Longrightarrow> native_sel out p q = {}" using n by simp_all
  show "length out \<le> budget" using e(4) by (simp add: out length_port_natives)
  have a: "r \<in> active_at protocol covered rules (unat q) \<longleftrightarrow> swept protocol covered r \<and> port_ok (ru_ports r) q" if "r \<in> set rules" for r
    using that by (auto simp: active_at_def swept_def port_ok_def ru_first_def ru_last_def word_le_nat_alt)
  have w: "cover (ru_addresses r) \<subseteq> cover covered"
    if "r \<in> set rules" "ru_protocol r = Some protocol" "ru_ports r \<noteq> None" "\<not> swept protocol covered r" for r
  proof -
    have "spaced 0 (ru_addresses r)" using rules that(1) by (simp add: rule_ok_def)
    with that subtract_Nil_iff [OF _ c(2)] show ?thesis by (auto simp: swept_def)
  qed
  have "selected protocol covered rules (unat q) \<union> cover covered =
      (\<Union>r\<in>{r \<in> set rules. ru_protocol r = Some protocol \<and> ru_ports r \<noteq> None \<and> port_ok (ru_ports r) q}. cover (ru_addresses r))
      \<union> cover covered"
  proof -
    define S where "S = {r \<in> set rules. ru_protocol r = Some protocol \<and> ru_ports r \<noteq> None \<and> port_ok (ru_ports r) q}"
    have sub: "active_at protocol covered rules (unat q) \<subseteq> S"
    proof
      fix r assume r: "r \<in> active_at protocol covered rules (unat q)"
      then have "r \<in> set rules" by (simp add: active_at_def)
      with r a [OF this] show "r \<in> S" by (auto simp: S_def swept_def)
    qed
    have rest: "cover (ru_addresses r) \<subseteq> cover covered" if "r \<in> S" "r \<notin> active_at protocol covered rules (unat q)" for r
      using w [of r] a [of r] that by (auto simp: S_def)
    have "(\<Union>r\<in>active_at protocol covered rules (unat q). cover (ru_addresses r)) \<union> cover covered =
        (\<Union>r\<in>S. cover (ru_addresses r)) \<union> cover covered"
      using sub rest by blast
    then show ?thesis by (simp add: selected_def S_def)
  qed
  with e(1) [of "unat q"] n(1) show "native_sel out (Some protocol) q \<union> cover covered =
       (\<Union>r\<in>{r \<in> set rules. ru_protocol r = Some protocol \<and> ru_ports r \<noteq> None \<and> port_ok (ru_ports r) q}. cover (ru_addresses r))
       \<union> cover covered" by simp
qed

section \<open>A family\<close>

definition sel_all :: "rule list \<Rightarrow> nat set" where
  "sel_all rules = (\<Union>r\<in>{r \<in> set rules. ru_protocol r = None}. cover (ru_addresses r))"

definition sel_wide :: "rule list \<Rightarrow> native_protocol \<Rightarrow> nat set" where
  "sel_wide rules protocol = (\<Union>r\<in>{r \<in> set rules. ru_protocol r = Some protocol \<and> ru_ports r = None}. cover (ru_addresses r))"

definition sel_ports :: "rule list \<Rightarrow> native_protocol \<Rightarrow> u16 \<Rightarrow> nat set" where
  "sel_ports rules protocol q =
     (\<Union>r\<in>{r \<in> set rules. ru_protocol r = Some protocol \<and> ru_ports r \<noteq> None \<and> port_ok (ru_ports r) q}. cover (ru_addresses r))"

lemma rule_sel_parts:
  "rule_sel rules None q = sel_all rules"
  "rule_sel rules (Some protocol) q = sel_all rules \<union> sel_wide rules protocol \<union> sel_ports rules protocol q"
proof -
  show "rule_sel rules None q = sel_all rules" by (auto simp: rule_sel_def sel_all_def proto_ok_def)
  have "{r \<in> set rules. proto_ok (ru_protocol r) (ru_ports r) (Some protocol) q} =
      {r \<in> set rules. ru_protocol r = None} \<union> {r \<in> set rules. ru_protocol r = Some protocol \<and> ru_ports r = None} \<union>
      {r \<in> set rules. ru_protocol r = Some protocol \<and> ru_ports r \<noteq> None \<and> port_ok (ru_ports r) q}"
    by (auto simp: proto_ok_def port_ok_def)
  then show "rule_sel rules (Some protocol) q = sel_all rules \<union> sel_wide rules protocol \<union> sel_ports rules protocol q"
    unfolding rule_sel_def sel_all_def sel_wide_def sel_ports_def by (simp only: UN_Un)
qed

lemma sel_ports_icmp: "\<forall>r\<in>set rules. rule_ok r \<Longrightarrow> sel_ports rules NativeIcmp q = {}"
  by (fastforce simp: sel_ports_def rule_ok_def)

definition covered_by :: "interval list \<Rightarrow> (native_protocol, interval list) btree \<Rightarrow> native_protocol \<Rightarrow> interval list" where
  "covered_by address_only covered protocol = (case bt_get covered protocol of Some c \<Rightarrow> c | None \<Rightarrow> address_only)"

definition covers_ok :: "family \<Rightarrow> interval list \<Rightarrow> nat set \<Rightarrow> bool" where
  "covers_ok f is A \<longleftrightarrow> within f is \<and> spaced 0 is \<and> cover is = A"

lemma lower_protocol_spec:
  assumes r: "lower_protocol rules f category budget ao protocol (lowered, cov) = Inr (lowered', cov')"
    and rules: "\<forall>r\<in>set rules. rule_ok r \<and> ru_family r = f" and ao: "covers_ok f ao (sel_all rules)"
    and cov: "bt_sorted cov" "map_of cov protocol = None" and l: "natives_ok f lowered" "length lowered \<le> budget"
  shows "natives_ok f lowered'" "length lowered' \<le> budget" "bt_sorted cov'"
    "covers_ok f (covered_by ao cov' protocol) (sel_all rules \<union> sel_wide rules protocol)"
    "protocol1 \<noteq> protocol \<Longrightarrow> map_of cov' protocol1 = map_of cov protocol1"
    "\<exists>W. W \<union> sel_all rules = sel_wide rules protocol \<union> sel_all rules \<and>
       (\<forall>p q. native_sel lowered' p q = native_sel lowered p q \<union> (if p = Some protocol then W else {}))"
proof -
  define pw where "pw = union (filter (\<lambda>r. ru_protocol r = Some protocol \<and> ru_ports r = None) rules)"
  have fr: "\<forall>r\<in>set (filter (\<lambda>r. ru_protocol r = Some protocol \<and> ru_ports r = None) rules). rule_ok r \<and> ru_family r = f"
    using rules by simp
  have pw: "cover pw = sel_wide rules protocol" "within f pw" "spaced 0 pw"
    using union_spec [OF fr] by (simp_all add: pw_def sel_wide_def)
  have a: "within f ao" "spaced 0 ao" "cover ao = sel_all rules" using ao by (simp_all add: covers_ok_def)
  have "natives_ok f lowered' \<and> length lowered' \<le> budget \<and> bt_sorted cov' \<and>
    covers_ok f (covered_by ao cov' protocol) (sel_all rules \<union> sel_wide rules protocol) \<and>
    (protocol1 \<noteq> protocol \<longrightarrow> map_of cov' protocol1 = map_of cov protocol1) \<and>
    (\<exists>W. W \<union> sel_all rules = sel_wide rules protocol \<union> sel_all rules \<and>
       (\<forall>p q. native_sel lowered' p q = native_sel lowered p q \<union> (if p = Some protocol then W else {})))"
  proof (cases "pw = []")
    case True
    then have "lowered' = lowered" "cov' = cov" "sel_wide rules protocol = {}"
      using r pw(1) by (simp_all add: lower_protocol_def pw_def)
    then show ?thesis using l cov ao by (auto simp: covered_by_def bt_get_def)
  next
    case False
    obtain left ns where ns: "minus_usize budget (length lowered) = Inr left"
      "protocol_intervals_to_networks pw ao f left category = Inr ns"
      and l': "lowered' = lowered @ map (\<lambda>n. (n, Some protocol, None)) ns"
      and c': "cov' = bt_entry protocol [] (\<lambda>_. merge (ao @ pw)) cov"
      using r False by (auto simp: lower_protocol_def Let_def simp flip: pw_def)
    note n = protocol_intervals_spec [OF ns(2) pw(2) a(1,2)]
    have left: "left = budget - length lowered" using ns(1) by (simp add: minus_usize_def split: if_splits)
    have w: "within f (ao @ pw)" using a pw by simp
    have m: "map_of cov' = (map_of cov)(protocol \<mapsto> merge (ao @ pw))" using map_of_bt_entry [OF cov(1)] by (simp add: c')
    have "covers_ok f (covered_by ao cov' protocol) (sel_all rules \<union> sel_wide rules protocol)"
      using merge_within(1,3,4) [OF w] a(3) pw(1) by (simp add: covered_by_def bt_get_def m covers_ok_def)
    moreover have "bt_sorted cov'" using bt_entry_sorted [OF cov(1)] by (simp add: c')
    moreover have "natives_ok f lowered'" "length lowered' \<le> budget" using l n(2,3) left by (auto simp: l')
    moreover have "native_sel lowered' p q = native_sel lowered p q \<union> (if p = Some protocol then cover (map nw_interval ns) else {})" for p q
      by (auto simp: l' native_sel_append native_sel_wide)
    ultimately show ?thesis using n(1) m unfolding a(3) pw(1) by auto
  qed
  then show "natives_ok f lowered'" "length lowered' \<le> budget" "bt_sorted cov'"
    "covers_ok f (covered_by ao cov' protocol) (sel_all rules \<union> sel_wide rules protocol)"
    "protocol1 \<noteq> protocol \<Longrightarrow> map_of cov' protocol1 = map_of cov protocol1"
    "\<exists>W. W \<union> sel_all rules = sel_wide rules protocol \<union> sel_all rules \<and>
       (\<forall>p q. native_sel lowered' p q = native_sel lowered p q \<union> (if p = Some protocol then W else {}))" by blast+
qed

lemma lower_ports_spec:
  assumes r: "lower_ports rules f category budget ao cov protocol lowered = Inr lowered'"
    and rules: "\<forall>r\<in>set rules. rule_ok r \<and> ru_family r = f" and c: "covers_ok f (covered_by ao cov protocol) A"
    and l: "natives_ok f lowered" "length lowered \<le> budget"
  shows "natives_ok f lowered'" "length lowered' \<le> budget"
    "\<exists>W. (\<forall>q. W q \<union> A = sel_ports rules protocol q \<union> A) \<and>
       (\<forall>p q. native_sel lowered' p q = native_sel lowered p q \<union> (if p = Some protocol then W q else {}))"
proof -
  obtain left out where o: "minus_usize budget (length lowered) = Inr left"
    "lower_port_rules rules protocol f category (covered_by ao cov protocol) left = Inr out" "lowered' = lowered @ out"
    using r by (auto simp: lower_ports_def Let_def simp flip: covered_by_def)
  have left: "left = budget - length lowered" using o(1) by (simp add: minus_usize_def split: if_splits)
  have c': "within f (covered_by ao cov protocol)" "spaced 0 (covered_by ao cov protocol)" "cover (covered_by ao cov protocol) = A"
    using c by (simp_all add: covers_ok_def)
  note s = lower_port_rules_spec [OF o(2) rules c'(1,2)]
  show "natives_ok f lowered'" "length lowered' \<le> budget" using l s(1,2) left by (simp_all add: o(3))
  show "\<exists>W. (\<forall>q. W q \<union> A = sel_ports rules protocol q \<union> A) \<and>
       (\<forall>p q. native_sel lowered' p q = native_sel lowered p q \<union> (if p = Some protocol then W q else {}))"
    using s(3,4) by (intro exI [of _ "native_sel out (Some protocol)"]) (auto simp: o(3) native_sel_append c'(3) sel_ports_def)
qed

text \<open>The native rules of the steps, widened into what earlier ones select, select what the rules do.\<close>

lemma sel_join:
  assumes "W1 \<union> sel_all rules = sel_wide rules NativeIcmp \<union> sel_all rules"
    and "W2 \<union> sel_all rules = sel_wide rules NativeTcp \<union> sel_all rules"
    and "W3 \<union> sel_all rules = sel_wide rules NativeUdp \<union> sel_all rules"
    and "V1 \<union> (sel_all rules \<union> sel_wide rules NativeTcp) = sel_ports rules NativeTcp q \<union> (sel_all rules \<union> sel_wide rules NativeTcp)"
    and "V2 \<union> (sel_all rules \<union> sel_wide rules NativeUdp) = sel_ports rules NativeUdp q \<union> (sel_all rules \<union> sel_wide rules NativeUdp)"
    and "\<forall>r\<in>set rules. rule_ok r"
  shows "sel_all rules \<union> (if p = Some NativeIcmp then W1 else {}) \<union> (if p = Some NativeTcp then W2 \<union> V1 else {}) \<union>
    (if p = Some NativeUdp then W3 \<union> V2 else {}) = rule_sel rules p q"
proof -
  have ports: "A \<union> (W \<union> V) = A \<union> (B \<union> D)" if "W \<union> A = B \<union> A" "V \<union> (A \<union> B) = D \<union> (A \<union> B)" for A B D V W :: "nat set"
    using that by auto
  consider "p = None" | "p = Some NativeIcmp" | "p = Some NativeTcp" | "p = Some NativeUdp"
    by (metis native_protocol.exhaust option.exhaust)
  then show ?thesis
  proof cases
    case 2
    then show ?thesis using assms(1) sel_ports_icmp [OF assms(6)] by (simp add: rule_sel_parts Un_commute)
  next
    case 3
    then show ?thesis using ports [OF assms(2,4)] by (simp add: rule_sel_parts Un_assoc)
  next
    case 4
    then show ?thesis using ports [OF assms(3,5)] by (simp add: rule_sel_parts Un_assoc)
  qed (simp add: rule_sel_parts)
qed

lemma lower_family_spec:
  assumes r: "lower_family rules f category budget = Inr lowered"
    and rules: "\<forall>r\<in>set rules. rule_ok r \<and> ru_family r = f"
  shows "natives_ok f lowered" "length lowered \<le> budget" "native_sel lowered p q = rule_sel rules p q"
proof -
  define ao where "ao = union (filter (\<lambda>r. ru_protocol r = None) rules)"
  have fr: "\<forall>r\<in>set (filter (\<lambda>r. ru_protocol r = None) rules). rule_ok r \<and> ru_family r = f" using rules by simp
  have ao: "covers_ok f ao (sel_all rules)" using union_spec [OF fr] by (simp add: ao_def covers_ok_def sel_all_def)
  then have wao: "within f ao" "cover ao = sel_all rules" by (simp_all add: covers_ok_def)
  obtain ns l1 c1 l2 c2 l3 c3 l4 where s: "intervals_to_networks ao f budget category = Inr ns"
    "lower_protocol rules f category budget ao NativeIcmp (map (\<lambda>n. (n, None, None)) ns, []) = Inr (l1, c1)"
    "lower_protocol rules f category budget ao NativeTcp (l1, c1) = Inr (l2, c2)"
    "lower_protocol rules f category budget ao NativeUdp (l2, c2) = Inr (l3, c3)"
    "lower_ports rules f category budget ao c3 NativeTcp l3 = Inr l4"
    "lower_ports rules f category budget ao c3 NativeUdp l4 = Inr lowered"
    using r by (fastforce simp: lower_family_def Let_def simp flip: ao_def)
  define l0 :: "native_rule list" where "l0 = map (\<lambda>n. (n, None, None)) ns"
  note i = intervals_to_networks_spec [OF s(1) wao(1)]
  have l0: "natives_ok f l0" "length l0 \<le> budget" "\<And>p q. native_sel l0 p q = sel_all rules"
    using i wao(2) by (simp_all add: l0_def native_sel_wide)
  have e: "bt_sorted []" "map_of [] NativeIcmp = (None :: interval list option)" by simp_all
  note p1 = lower_protocol_spec [OF s(2) [folded l0_def] rules ao e l0(1,2)]
  have k1: "map_of c1 NativeTcp = None" "map_of c1 NativeUdp = None" using p1(5) by simp_all
  note p2 = lower_protocol_spec [OF s(3) rules ao p1(3) k1(1) p1(1,2)]
  have k2: "map_of c2 NativeUdp = None" using p2(5) k1(2) by simp
  note p3 = lower_protocol_spec [OF s(4) rules ao p2(3) k2 p2(1,2)]
  have "covered_by ao c3 NativeTcp = covered_by ao c2 NativeTcp"
    using p3(5) [of NativeTcp] by (simp add: covered_by_def bt_get_def)
  with p2(4) have t: "covers_ok f (covered_by ao c3 NativeTcp) (sel_all rules \<union> sel_wide rules NativeTcp)" by simp
  note p4 = lower_ports_spec [OF s(5) rules t p3(1,2)]
  note p5 = lower_ports_spec [OF s(6) rules p3(4) p4(1,2)]
  show "natives_ok f lowered" "length lowered \<le> budget" by (rule p5(1), rule p5(2))
  obtain W1 W2 W3 where w: "W1 \<union> sel_all rules = sel_wide rules NativeIcmp \<union> sel_all rules"
      "W2 \<union> sel_all rules = sel_wide rules NativeTcp \<union> sel_all rules"
      "W3 \<union> sel_all rules = sel_wide rules NativeUdp \<union> sel_all rules"
    and n: "\<And>p q. native_sel l1 p q = native_sel l0 p q \<union> (if p = Some NativeIcmp then W1 else {})"
      "\<And>p q. native_sel l2 p q = native_sel l1 p q \<union> (if p = Some NativeTcp then W2 else {})"
      "\<And>p q. native_sel l3 p q = native_sel l2 p q \<union> (if p = Some NativeUdp then W3 else {})"
    using p1(6) p2(6) p3(6) by metis
  obtain V1 V2 where v: "V1 q \<union> (sel_all rules \<union> sel_wide rules NativeTcp) = sel_ports rules NativeTcp q \<union> (sel_all rules \<union> sel_wide rules NativeTcp)"
      "V2 q \<union> (sel_all rules \<union> sel_wide rules NativeUdp) = sel_ports rules NativeUdp q \<union> (sel_all rules \<union> sel_wide rules NativeUdp)"
    and m: "\<And>p. native_sel l4 p q = native_sel l3 p q \<union> (if p = Some NativeTcp then V1 q else {})"
      "\<And>p. native_sel lowered p q = native_sel l4 p q \<union> (if p = Some NativeUdp then V2 q else {})"
    using p4(3) p5(3) by metis
  have "native_sel lowered p q = sel_all rules \<union> (if p = Some NativeIcmp then W1 else {}) \<union>
      (if p = Some NativeTcp then W2 \<union> V1 q else {}) \<union> (if p = Some NativeUdp then W3 \<union> V2 q else {})"
    unfolding m n l0(3) by auto
  also have "\<dots> = rule_sel rules p q" using rules by (intro sel_join w v) simp
  finally show "native_sel lowered p q = rule_sel rules p q" .
qed

section \<open>An action\<close>

text \<open>
  Traffic is an address of a family, one of the protocols that native rules name or any other, and a
  port, which only TCP and UDP have. A rule without a protocol selects any traffic to its addresses.
\<close>

definition rule_matches :: "rule \<Rightarrow> family \<Rightarrow> u128 \<Rightarrow> native_protocol option \<Rightarrow> u16 \<Rightarrow> bool" where
  "rule_matches r f a p q \<longleftrightarrow>
     ru_family r = f \<and> list_ex (\<lambda>i. fst i \<le> a \<and> a \<le> snd i) (ru_addresses r) \<and> proto_ok (ru_protocol r) (ru_ports r) p q"

definition native_matches :: "native_rule \<Rightarrow> family \<Rightarrow> u128 \<Rightarrow> native_protocol option \<Rightarrow> u16 \<Rightarrow> bool" where
  "native_matches n f a p q \<longleftrightarrow>
     nw_family (fst n) = f \<and> fst (nw_interval (fst n)) \<le> a \<and> a \<le> snd (nw_interval (fst n)) \<and>
     proto_ok (fst (snd n)) (snd (snd n)) p q"

lemma in_cover: "unat a \<in> cover is \<longleftrightarrow> list_ex (\<lambda>i. fst i \<le> a \<and> a \<le> snd i) is"
  by (auto simp: cover_def addrs_def list_ex_iff word_le_nat_alt)

lemma rule_matches_sel:
  "(\<exists>r\<in>set rules. rule_matches r f a p q) \<longleftrightarrow> unat a \<in> rule_sel (filter (\<lambda>r. ru_family r = f) rules) p q"
  by (auto simp: rule_matches_def rule_sel_def in_cover)

lemma native_matches_sel:
  "(\<exists>n\<in>set ns. native_matches n f a p q) \<longleftrightarrow> unat a \<in> native_sel (filter (\<lambda>n. nw_family (fst n) = f) ns) p q"
  unfolding native_matches_def native_sel_def addrs_def word_le_nat_alt UN_iff set_filter mem_Collect_eq atLeastAtMost_iff by blast

lemma lower_families_spec:
  assumes "\<forall>r\<in>set rules. rule_ok r" and "lower_families fs rules category limit lowered = Inr out" and "distinct fs"
  shows "\<exists>new. out = lowered @ new \<and> (length lowered \<le> limit \<longrightarrow> length out \<le> limit) \<and>
    (\<forall>n\<in>set new. nw_family (fst n) \<in> set fs \<and> native_ok n) \<and>
    (\<forall>f\<in>set fs. \<forall>p q. native_sel (filter (\<lambda>n. nw_family (fst n) = f) new) p q = rule_sel (filter (\<lambda>r. ru_family r = f) rules) p q)"
  using assms(2,3,1)
proof (induction fs rules category limit lowered rule: lower_families.induct)
  case (1 rules category limit lowered)
  then show ?case by simp
next
  case (2 f fs rules category limit lowered)
  define fr where "fr = filter (\<lambda>r. ru_family r = f) rules"
  have fr: "\<forall>r\<in>set fr. rule_ok r \<and> ru_family r = f" using "2.prems"(3) by (simp add: fr_def)
  have other: "filter (\<lambda>n. nw_family (fst n) = f) new = []" if "\<forall>n\<in>set new. nw_family (fst n) \<in> set fs \<and> native_ok n" for new :: "native_rule list"
    using that "2.prems"(2) by (auto simp: filter_empty_conv)
  show ?case
  proof (cases "fr = []")
    case True
    have r: "lower_families fs rules category limit lowered = Inr out" using "2.prems"(1) True by (simp add: fr_def)
    obtain new where new: "out = lowered @ new" "length lowered \<le> limit \<longrightarrow> length out \<le> limit" "\<forall>n\<in>set new. nw_family (fst n) \<in> set fs \<and> native_ok n"
      "\<forall>g\<in>set fs. \<forall>p q. native_sel (filter (\<lambda>n. nw_family (fst n) = g) new) p q = rule_sel (filter (\<lambda>r. ru_family r = g) rules) p q"
      using "2.IH"(1) [OF fr_def True r] "2.prems"(2,3) by auto
    moreover have "native_sel [] p q = rule_sel [] p q" for p q by (simp add: native_sel_def rule_sel_def)
    ultimately show ?thesis using other [OF new(3)] True by (intro exI [of _ new]) (simp add: fr_def)
  next
    case False
    obtain budget fl where b: "minus_usize limit (length lowered) = Inr budget" "lower_family fr f category budget = Inr fl"
      and r: "lower_families fs rules category limit (lowered @ fl) = Inr out"
      using "2.prems"(1) False by (auto simp: Let_def simp flip: fr_def)
    note l = lower_family_spec [OF b(2) fr]
    have bl: "length lowered \<le> limit" "budget = limit - length lowered" using b(1) by (auto simp: minus_usize_def split: if_splits)
    obtain new where new: "out = (lowered @ fl) @ new" "length (lowered @ fl) \<le> limit \<longrightarrow> length out \<le> limit" "\<forall>n\<in>set new. nw_family (fst n) \<in> set fs \<and> native_ok n"
      "\<forall>g\<in>set fs. \<forall>p q. native_sel (filter (\<lambda>n. nw_family (fst n) = g) new) p q = rule_sel (filter (\<lambda>r. ru_family r = g) rules) p q"
      using "2.IH"(2) [OF fr_def False r] "2.prems"(2,3) by auto
    have nf: "\<forall>n\<in>set fl. nw_family (fst n) = f \<and> native_ok n" using l(1) by (simp add: natives_ok_def)
    then have "filter (\<lambda>n. nw_family (fst n) = f) fl = fl" "\<And>g. g \<in> set fs \<Longrightarrow> filter (\<lambda>n. nw_family (fst n) = g) fl = []"
      using "2.prems"(2) by (auto simp: filter_empty_conv)
    with new other [OF new(3)] l(2,3) bl nf "2.prems"(2) show ?thesis
      by (intro exI [of _ "fl @ new"]) (auto simp: fr_def)
  qed
qed

lemma lower_rules_native:
  assumes "\<forall>r\<in>set rules. rule_ok r" and "lower_rules rules category limit = Inr ns"
  shows "list_all native_ok ns"
proof -
  obtain out where out: "lower_families family_all rules category limit [] = Inr out" "ns = sort out"
    using assms(2) by (auto simp: lower_rules_def)
  have "distinct family_all" by (simp add: family_all_def)
  from lower_families_spec [OF assms(1) out(1) this] show ?thesis by (auto simp: out(2) list_all_iff)
qed

lemma lower_rules_exact:
  assumes "\<forall>r\<in>set rules. rule_ok r" and "lower_rules rules category limit = Inr ns"
  shows "(\<exists>n\<in>set ns. native_matches n f a p q) \<longleftrightarrow> (\<exists>r\<in>set rules. rule_matches r f a p q)"
proof -
  obtain out where out: "lower_families family_all rules category limit [] = Inr out" "ns = sort out"
    using assms(2) by (auto simp: lower_rules_def)
  have "distinct family_all" "f \<in> set family_all" by (cases f; simp add: family_all_def)+
  with lower_families_spec [OF assms(1) out(1)]
  have "native_sel (filter (\<lambda>n. nw_family (fst n) = f) out) p q = rule_sel (filter (\<lambda>r. ru_family r = f) rules) p q" by auto
  moreover have "(\<exists>n\<in>set ns. native_matches n f a p q) \<longleftrightarrow> (\<exists>n\<in>set out. native_matches n f a p q)" by (simp add: out(2))
  ultimately show ?thesis unfolding native_matches_sel rule_matches_sel by simp
qed

end
