(* ===== verification/Egress_Budget.thy ===== *)
theory Egress_Budget
  imports Egress_Exact
begin

text \<open>
  The budgets of the lowering. Every step of it takes a budget of native rules and stops once it would
  exceed it. The steps are shown to do nothing else with the budget: there is one result, the same for
  every budget that it fits, and every smaller budget is refused.
\<close>

section \<open>Steps with a budget\<close>

text \<open>
  A step that starts with k rules has a result that satisfies P and holds m rules in all, at least the k,
  and for every budget of at least k it returns that result if it fits and the error otherwise.
\<close>

definition limited ::
  "egress_error \<Rightarrow> nat \<Rightarrow> ('a \<Rightarrow> bool) \<Rightarrow> ('a \<Rightarrow> nat) \<Rightarrow> (nat \<Rightarrow> (egress_error, 'a) result) \<Rightarrow> bool" where
  "limited e k P m G \<longleftrightarrow>
     (\<exists>a. P a \<and> k \<le> m a \<and> (\<forall>b \<ge> k. G b = (if m a \<le> b then Inr a else Inl e)))"

lemma limitedI:
  "P a \<Longrightarrow> k \<le> m a \<Longrightarrow> (\<And>b. k \<le> b \<Longrightarrow> G b = (if m a \<le> b then Inr a else Inl e)) \<Longrightarrow> limited e k P m G"
  unfolding limited_def by blast

lemma limited_and_then:
  assumes "limited e k P m G" and "\<And>a. P a \<Longrightarrow> k \<le> m a \<Longrightarrow> limited e (m a) Q n (\<lambda>b. H b a)"
  shows "limited e k Q n (\<lambda>b. and_then (G b) (H b))"
proof -
  obtain a where a: "P a" "k \<le> m a" "\<And>b. k \<le> b \<Longrightarrow> G b = (if m a \<le> b then Inr a else Inl e)"
    using assms(1) unfolding limited_def by blast
  obtain c where c: "Q c" "m a \<le> n c" "\<And>b. m a \<le> b \<Longrightarrow> H b a = (if n c \<le> b then Inr c else Inl e)"
    using assms(2) [OF a(1,2)] unfolding limited_def by blast
  show ?thesis
  proof (rule limitedI)
    show "and_then (G b) (H b) = (if n c \<le> b then Inr c else Inl e)" if "k \<le> b" for b
      using a(3) [OF that] c(2,3) by (cases "m a \<le> b") auto
  qed (use a c in simp_all)
qed

lemma limited_map:
  assumes "limited e k P m G" and "\<And>a. P a \<Longrightarrow> Q (h a) \<and> n (h a) = m a"
  shows "limited e k Q n (\<lambda>b. and_then (G b) (\<lambda>a. Inr (h a)))"
  using assms(1)
proof (rule limited_and_then)
  show "limited e (m a) Q n (\<lambda>b. Inr (h a))" if "P a" for a
    by (rule limitedI [of _ "h a"]) (use assms(2) [OF that] in simp_all)
qed

text \<open>A step that is given what is left of the budget, and whose rules are added to the k.\<close>

lemma limited_left:
  assumes "limited e 0 P m G" and "\<And>a. P a \<Longrightarrow> Q (h a) \<and> n (h a) = k + m a"
  shows "limited e k Q n (\<lambda>b. and_then (minus_usize b k) (\<lambda>left. and_then (G left) (\<lambda>a. Inr (h a))))"
proof -
  obtain a where a: "P a" "\<And>b. G b = (if m a \<le> b then Inr a else Inl e)"
    using assms(1) unfolding limited_def by blast
  show ?thesis
  proof (rule limitedI [of _ "h a"])
    show "and_then (minus_usize b k) (\<lambda>left. and_then (G left) (\<lambda>a. Inr (h a))) =
        (if n (h a) \<le> b then Inr (h a) else Inl e)" if "k \<le> b" for b
      using that a(2) assms(2) [OF a(1)] by (auto simp: minus_usize_def)
  qed (use assms(2) [OF a(1)] in simp_all)
qed

lemma limited_done: "P a \<Longrightarrow> m a = k \<Longrightarrow> limited e k P m (\<lambda>b. Inr a)"
  by (rule limitedI [of _ a]) simp_all

lemma and_then_assoc: "and_then (and_then r g) h = and_then r (\<lambda>a. and_then (g a) h)"
  by (cases r) simp_all

section \<open>Networks\<close>

lemma push_networks_limited:
  "length networks \<le> maximum \<Longrightarrow> push_networks skip maximum category ns networks =
     (if length networks + length (filter (Not \<circ> skip) ns) \<le> maximum then Inr (networks @ filter (Not \<circ> skip) ns)
      else Inl (TooManyRules category))"
  by (induction skip maximum category ns networks rule: push_networks.induct) auto

lemma push_limited:
  "limited (TooManyRules category) 0 (\<lambda>_. True) length (\<lambda>b. push_networks skip b category ns [])"
  by (rule limitedI [of _ "filter (Not \<circ> skip) ns"]) (simp_all add: push_networks_limited)

lemma networks_limited:
  "limited (TooManyRules category) 0 (\<lambda>_. True) length (\<lambda>b. intervals_to_networks is f b category)"
  "limited (TooManyRules category) 0 (\<lambda>_. True) length (\<lambda>b. protocol_intervals_to_networks is covered f b category)"
  unfolding intervals_to_networks_def protocol_intervals_to_networks_def by (rule push_limited)+

section \<open>The sweep\<close>

definition counted :: "sweep \<Rightarrow> bool" where
  "counted s \<longleftrightarrow> bt_sorted (sw_ranges s) \<and> sw_count s = range_total (sw_ranges s)"

lemma sweep_keep_counted:
  "bt_sorted ranges \<Longrightarrow> sweep_keep available port1 ns ranges kept = (ranges', kept') \<Longrightarrow>
     bt_sorted ranges' \<and> range_total ranges' = range_total ranges"
proof (induction ns arbitrary: ranges kept)
  case (Cons n ns)
  show ?case
  proof (cases "subtract [nw_interval n] available = [] \<and> (\<exists>r rs. bt_get ranges n = Some (r # rs))")
    case False
    with Cons show ?thesis by (auto split: if_splits option.splits list.splits)
  next
    case True
    then obtain r rs where g: "subtract [nw_interval n] available = []" "bt_get ranges n = Some (r # rs)" by blast
    let ?next = "bt_entry n [] (extend_last (port1 - 1)) ranges"
    have "range_total ?next = range_total ranges"
      by (rule total_entry_extend [OF Cons.prems(1), of n "r # rs"]) (use g(2) in \<open>simp_all add: bt_get_def\<close>)
    with Cons.IH [OF bt_entry_sorted [OF Cons.prems(1)]] Cons.prems(2) g show ?thesis
      by (simp add: extend_last_def [abs_def])
  qed
qed simp

lemma sweep_add_ok:
  "count + length ns \<le> budget \<Longrightarrow> sweep_add budget category segment ns ranges count kept =
     Inr (foldl (\<lambda>ranges n. bt_entry n [] (\<lambda>rs. rs @ [segment]) ranges) ranges ns, count + length ns, kept @ ns)"
  by (induction ns arbitrary: ranges count kept) simp_all

lemma total_foldl:
  "bt_sorted ranges \<Longrightarrow>
     bt_sorted (foldl (\<lambda>ranges n. bt_entry n [] (\<lambda>rs. rs @ [segment]) ranges) ranges ns) \<and>
     range_total (foldl (\<lambda>ranges n. bt_entry n [] (\<lambda>rs. rs @ [segment]) ranges) ranges ns) = range_total ranges + length ns"
  by (induction ns arbitrary: ranges) (simp_all add: bt_entry_sorted total_entry_push)

lemma sweep_segment_limited:
  assumes "counted s"
  shows "limited (TooManyRules category) (sw_count s) counted sw_count
    (\<lambda>b. sweep_segment f category covered b previous port1 s)"
proof -
  define addresses where "addresses = merge (concat (map fst (sw_active s)))"
  obtain ranges kept where k: "sweep_keep (merge (addresses @ covered)) port1 (sw_open s) (sw_ranges s) [] = (ranges, kept)"
    by (cases "sweep_keep (merge (addresses @ covered)) port1 (sw_open s) (sw_ranges s) []")
  have r: "bt_sorted ranges" "range_total ranges = sw_count s"
    using sweep_keep_counted [OF _ k] assms by (simp_all add: counted_def)
  define kept_cover where "kept_cover = merge (covered @ map nw_interval kept)"
  obtain networks where n: "\<And>b. protocol_intervals_to_networks addresses kept_cover f b category =
      (if length networks \<le> b then Inr networks else Inl (TooManyRules category))"
    using networks_limited(2) [of category addresses kept_cover f] unfolding limited_def by blast
  define out where "out = foldl (\<lambda>ranges n. bt_entry n [] (\<lambda>rs. rs @ [(previous, port1 - 1)]) ranges) ranges networks"
  let ?s = "s\<lparr>sw_ranges := out, sw_count := sw_count s + length networks, sw_open := kept @ networks\<rparr>"
  note t = total_foldl [OF r(1), of "(previous, port1 - 1)" networks, folded out_def]
  show ?thesis
  proof (rule limitedI [of _ ?s])
    show "counted ?s" using t r(2) by (simp add: counted_def)
    show "sweep_segment f category covered b previous port1 s =
        (if sw_count ?s \<le> b then Inr ?s else Inl (TooManyRules category))" if "sw_count s \<le> b" for b
      using that by (auto simp: sweep_segment_def Let_def minus_usize_def n k sweep_add_ok out_def
          simp flip: addresses_def kept_cover_def)
  qed simp
qed

lemma sweep_port_limited:
  assumes "counted s"
  shows "limited (TooManyRules category) (sw_count s) counted sw_count (\<lambda>b. sweep_port f category covered b pe s)"
proof -
  define t where "t = (if sw_previous s \<noteq> None \<and> sw_active s = [] then s\<lparr>sw_open := []\<rparr> else s)"
  have t: "counted t" "sw_count t = sw_count s" using assms by (simp_all add: t_def counted_def)
  have "limited (TooManyRules category) (sw_count s) counted sw_count
      (\<lambda>b. case sw_previous t of None \<Rightarrow> Inr t | Some previous \<Rightarrow>
        if previous < fst pe \<and> sw_active t \<noteq> [] then sweep_segment f category covered b previous (fst pe) t else Inr t)"
  proof (cases "\<exists>previous. sw_previous t = Some previous \<and> previous < fst pe \<and> sw_active t \<noteq> []")
    case True
    then show ?thesis using sweep_segment_limited [OF t(1), unfolded t(2)] by auto
  next
    case False
    then have "(case sw_previous t of None \<Rightarrow> Inr t | Some previous \<Rightarrow>
        if previous < fst pe \<and> sw_active t \<noteq> [] then sweep_segment f category covered b previous (fst pe) t
        else Inr t) = Inr t" for b by (auto split: option.split)
    then show ?thesis using limited_done [of counted t sw_count, OF t] by simp
  qed
  then show ?thesis
    unfolding sweep_port_def Let_def t_def [symmetric] by (rule limited_map) (simp add: counted_def)
qed

lemma sweep_ports_limited:
  "counted s \<Longrightarrow>
     limited (TooManyRules category) (sw_count s) counted sw_count (\<lambda>b. sweep_ports f category covered b events s)"
proof (induction events arbitrary: s)
  case Nil
  then show ?case by (simp add: limited_done)
next
  case (Cons e events)
  show ?case
    unfolding sweep_ports.simps by (rule limited_and_then [OF sweep_port_limited [OF Cons.prems]]) (rule Cons.IH)
qed

lemma lower_port_rules_limited:
  "limited (TooManyRules category) 0 (\<lambda>_. True) length (\<lambda>b. lower_port_rules rules protocol f category covered b)"
proof -
  have "limited (TooManyRules category) (sw_count sweep_new) counted sw_count
      (\<lambda>b. sweep_ports f category covered b (port_events rules protocol covered) sweep_new)"
    by (rule sweep_ports_limited) (simp add: counted_def sweep_new_def range_total_def)
  from limited_map [OF this, of "\<lambda>_. True" "\<lambda>s. port_natives protocol (sw_ranges s)" length] show ?thesis
    by (simp add: lower_port_rules_def port_natives_def [symmetric] length_port_natives counted_def sweep_new_def)
qed

section \<open>A family and an action\<close>

lemma lower_protocol_limited:
  "limited (TooManyRules category) (length (fst lc)) (\<lambda>_. True) (length \<circ> fst)
     (\<lambda>b. lower_protocol rules f category b ao protocol lc)"
  unfolding lower_protocol_def Let_def
  by (cases "union (filter (\<lambda>r. ru_protocol r = Some protocol \<and> ru_ports r = None) rules) = []")
    (simp_all add: limited_done limited_left [OF networks_limited(2)])

lemma lower_ports_limited:
  "limited (TooManyRules category) (length lowered) (\<lambda>_. True) length
     (\<lambda>b. lower_ports rules f category b ao covered protocol lowered)"
  unfolding lower_ports_def Let_def by (rule limited_left [OF lower_port_rules_limited]) simp

lemma lower_family_limited:
  "limited (TooManyRules category) 0 (\<lambda>_. True) length (\<lambda>b. lower_family rules f category b)"
  unfolding lower_family_def Let_def
proof (rule limited_and_then [OF networks_limited(1)], goal_cases)
  case (1 ns)
  have p: "limited (TooManyRules category) ((length \<circ> fst) lc) (\<lambda>_. True) (length \<circ> fst)
      (\<lambda>b. lower_protocol rules f category b ao protocol lc)" for lc ao protocol
    using lower_protocol_limited by simp
  have q: "limited (TooManyRules category) ((length \<circ> fst) lc) (\<lambda>_. True) length
      (\<lambda>b. lower_ports rules f category b ao covered protocol (fst lc))" for lc ao covered protocol
    using lower_ports_limited [of category "fst lc"] by simp
  have "limited (TooManyRules category) ((length \<circ> fst) lc) (\<lambda>_. True) length (\<lambda>b.
      and_then (lower_protocol rules f category b ao NativeIcmp lc) (\<lambda>lc.
      and_then (lower_protocol rules f category b ao NativeTcp lc) (\<lambda>lc.
      and_then (lower_protocol rules f category b ao NativeUdp lc) (\<lambda>lc.
      and_then (lower_ports rules f category b ao (snd lc) NativeTcp (fst lc)) (\<lambda>lowered.
      lower_ports rules f category b ao (snd lc) NativeUdp lowered)))))" for ao lc
    by (intro limited_and_then [OF p] limited_and_then [OF q] lower_ports_limited)
  from this [of "(map (\<lambda>n. (n, None, None)) ns, [])"] show ?case by simp
qed

lemma lower_families_limited:
  "limited (TooManyRules category) (length lowered) (\<lambda>_. True) length
     (\<lambda>b. lower_families fs rules category b lowered)"
proof (induction fs arbitrary: lowered)
  case Nil
  then show ?case by (simp add: limited_done)
next
  case (Cons f fs)
  define fr where "fr = filter (\<lambda>r. ru_family r = f) rules"
  show ?case
  proof (cases "fr = []")
    case True
    with Cons.IH show ?thesis by (simp add: fr_def)
  next
    case False
    have "limited (TooManyRules category) (length lowered) (\<lambda>_. True) length (\<lambda>b.
        and_then (and_then (minus_usize b (length lowered)) (\<lambda>left.
          and_then (lower_family fr f category left) (\<lambda>fl. Inr (lowered @ fl))))
        (lower_families fs rules category b))"
      by (rule limited_and_then [OF limited_left [OF lower_family_limited, where n = length]]) (simp_all add: Cons.IH)
    then show ?thesis using False by (simp add: Let_def fr_def [symmetric] and_then_assoc)
  qed
qed

text \<open>The rules that an action needs, which are returned exactly when the limit allows them.\<close>

lemma lower_rules_limited:
  obtains ns where "sorted ns"
    "\<And>limit. lower_rules rules category limit = (if length ns \<le> limit then Inr ns else Inl (TooManyRules category))"
proof -
  have "limited (TooManyRules category) (length ([] :: native_rule list)) (\<lambda>_. True) length
      (\<lambda>b. lower_families family_all rules category b [])" by (rule lower_families_limited)
  from limited_map [OF this, of sorted sort length] show ?thesis
    using that unfolding limited_def lower_rules_def by auto
qed

end
