(* ===== verification/Egress_Text.thy ===== *)
theory Egress_Text
  imports Egress_Lowering Uuid_Text
begin

text \<open>
  The text of networks (\<^verbatim>\<open>host/network/address.rs\<close>), which is read and written as Python's
  \<^verbatim>\<open>ipaddress\<close> module does, and the text of native rules (\<^verbatim>\<open>host/network/lowering.rs\<close>).
\<close>

section \<open>Numbers\<close>

text \<open>\<^verbatim>\<open>{}\<close> and \<^verbatim>\<open>{:x}\<close> of an unsigned number.\<close>

fun decimal :: "nat \<Rightarrow> bytes" where
  "decimal n = (if n < 10 then [word_of_nat (48 + n)] else decimal (n div 10) @ [word_of_nat (48 + n mod 10)])"

fun hexadecimal :: "nat \<Rightarrow> bytes" where
  "hexadecimal n =
     (if n < 16 then [hex_digit (word_of_nat n)] else hexadecimal (n div 16) @ [hex_digit (word_of_nat (n mod 16))])"

declare decimal.simps [simp del] hexadecimal.simps [simp del]

fun join :: "bytes \<Rightarrow> bytes list \<Rightarrow> bytes" where
  "join sep [] = []"
| "join sep [x] = x"
| "join sep (x # y # xs) = x @ sep @ join sep (y # xs)"

definition is_digit :: "u8 \<Rightarrow> bool" where
  "is_digit b \<longleftrightarrow> 0x30 \<le> b \<and> b \<le> 0x39"

text \<open>The fold over decimal digits, whose value the callers bound before it could overflow.\<close>

definition digits_value :: "bytes \<Rightarrow> nat" where
  "digits_value ds = foldl (\<lambda>v d. v * 10 + unat (d - 0x30)) 0 ds"

section \<open>Writing\<close>

definition octets :: "u32 \<Rightarrow> nat list" where
  "octets a = map (\<lambda>i. unat (drop_bit (24 - 8 * i) a AND 0xff)) [0..<4]"

definition ipv4_text :: "u32 \<Rightarrow> bytes" where
  "ipv4_text a = join (ascii ''.'') (map decimal (octets a))"

definition groups_of :: "u128 \<Rightarrow> u16 list" where
  "groups_of a = map (\<lambda>i. ucast (drop_bit (112 - 16 * i) a)) [0..<8]"

text \<open>The scan for the first of the longest runs of zero groups, of two groups or more.\<close>

function best_run :: "u16 list \<Rightarrow> nat \<Rightarrow> (nat \<times> nat) option \<Rightarrow> (nat \<times> nat) option" where
  "best_run groups index best =
     (if index < length groups then
        (if groups ! index \<noteq> 0 then best_run groups (index + 1) best
         else
           (let n = length (takeWhile (\<lambda>g. g = 0) (drop index groups))
            in best_run groups (index + n)
                 (if n > (case best of None \<Rightarrow> 1 | Some (_, best_length) \<Rightarrow> best_length) then Some (index, n) else best)))
      else best)"
  by pat_completeness auto
termination
proof (relation "measure (\<lambda>(groups, index, best). length groups - index)", goal_cases)
  case (3 groups index best n)
  have "drop index groups = groups ! index # drop (Suc index) groups" using 3(1) by (simp add: Cons_nth_drop_Suc)
  then have "0 < n" using 3(2,3) by simp
  then show ?case using 3(1) by simp
qed auto

declare best_run.simps [simp del]

definition write_groups :: "u16 list \<Rightarrow> bytes" where
  "write_groups groups = join (ascii '':'') (map (\<lambda>g. hexadecimal (unat g)) groups)"

definition write_ipv6 :: "u128 \<Rightarrow> bytes" where
  "write_ipv6 address =
     (if drop_bit 32 address = 0xFFFF then ascii ''::ffff:'' @ ipv4_text (ucast address)
      else
        (let groups = groups_of address
         in case best_run groups 0 None of
              None \<Rightarrow> write_groups groups
            | Some (start, n) \<Rightarrow>
                write_groups (take start groups) @ ascii ''::'' @ write_groups (drop (start + n) groups)))"

definition network_text :: "network \<Rightarrow> bytes" where
  "network_text n =
     (case nw_family n of
        FamilyV4 \<Rightarrow> ipv4_text (ucast (nw_address n))
      | FamilyV6 \<Rightarrow> write_ipv6 (nw_address n)) @ ascii ''/'' @ decimal (unat (nw_prefix n))"

fun protocol_text :: "native_protocol \<Rightarrow> bytes" where
  "protocol_text NativeIcmp = ascii ''icmp''"
| "protocol_text NativeTcp = ascii ''tcp''"
| "protocol_text NativeUdp = ascii ''udp''"

fun render :: "native_rule \<Rightarrow> bytes" where
  "render (n, None, _) = network_text n"
| "render (n, Some p, None) = network_text n @ ascii '':'' @ protocol_text p"
| "render (n, Some p, Some (start, last1)) =
     (if start = last1 then network_text n @ ascii '':'' @ protocol_text p @ ascii '':'' @ decimal (unat start)
      else network_text n @ ascii '':'' @ protocol_text p @ ascii '':'' @ decimal (unat start) @ ascii ''-'' @
             decimal (unat last1))"

definition lower_within :: "rule list \<Rightarrow> bytes \<Rightarrow> usize \<Rightarrow> (egress_error, bytes list) result" where
  "lower_within rules category limit =
     and_then (lower_rules rules category limit) (\<lambda>lowered. Inr (map render lowered))"

definition lower :: "rule list \<Rightarrow> bytes \<Rightarrow> (egress_error, bytes list) result" where
  "lower rules category = lower_within rules category max_rules"

section \<open>Reading\<close>

definition split_netmask :: "bytes \<Rightarrow> (bytes \<times> bytes option) option" where
  "split_netmask txt =
     (case split_on 0x2F txt of
        [address] \<Rightarrow> Some (address, None)
      | [address, netmask] \<Rightarrow> Some (address, Some netmask)
      | _ \<Rightarrow> None)"

definition prefix_from_prefix_string :: "bytes \<Rightarrow> nat \<Rightarrow> nat option" where
  "prefix_from_prefix_string txt maximum =
     (if txt = [] \<or> length txt > 4300 \<or> \<not> list_all is_digit txt then None
      else
        (let significant = dropWhile (\<lambda>b. b = 0x30) txt
         in if length significant > 3 then None
            else
              (let v = digits_value significant in if v \<le> maximum then Some v else None)))"

text \<open>The loop over as many octets as are left, after which nothing may be left of the text.\<close>

fun parse_octets :: "nat \<Rightarrow> bytes list \<Rightarrow> u32 \<Rightarrow> u32 option" where
  "parse_octets n [] address = (if n = 0 then Some address else None)"
| "parse_octets n (octet # parts) address =
     (if n = 0 then None
      else if \<not> (octet \<noteq> [] \<and> length octet \<le> 3 \<and> list_all is_digit octet \<and> (octet = ascii ''0'' \<or> hd octet \<noteq> 0x30))
      then None
      else
        (let v = digits_value octet
         in if v > 255 then None else parse_octets (n - 1) parts (push_bit 8 address OR word_of_nat v)))"

definition parse_ipv4 :: "bytes \<Rightarrow> u32 option" where
  "parse_ipv4 txt = parse_octets 4 (split_on 0x2E txt) 0"

text \<open>\<^verbatim>\<open>u32::leading_ones\<close> and the shift by it, which is zero for 32 bits.\<close>

definition leading_ones :: "u32 \<Rightarrow> nat" where
  "leading_ones w = length (takeWhile (\<lambda>i. bit w (31 - i)) [0..<32])"

definition prefix_from_ipv4_netmask :: "u32 \<Rightarrow> nat option" where
  "prefix_from_ipv4_netmask m =
     (let prefix = leading_ones m
      in if (if prefix < 32 then push_bit prefix m else 0) = 0 then Some prefix else None)"

definition prefix_from_ipv4_mask :: "bytes \<Rightarrow> nat option" where
  "prefix_from_ipv4_mask txt =
     Option.bind (parse_ipv4 txt) (\<lambda>m.
       case prefix_from_ipv4_netmask m of Some p \<Rightarrow> Some p | None \<Rightarrow> prefix_from_ipv4_netmask (NOT m))"

definition parse_ipv4_interface :: "bytes \<Rightarrow> network option" where
  "parse_ipv4_interface txt =
     Option.bind (split_netmask txt) (\<lambda>(address, netmask).
     Option.bind (parse_ipv4 address) (\<lambda>a.
     Option.bind (case netmask of
                    None \<Rightarrow> Some 32
                  | Some netmask \<Rightarrow>
                      (case prefix_from_prefix_string netmask 32 of
                         Some p \<Rightarrow> Some p | None \<Rightarrow> prefix_from_ipv4_mask netmask)) (\<lambda>prefix.
       Some (network_new FamilyV4 (ucast a) prefix))))"

datatype part = PartText bytes | PartGroup u16

definition part_is_empty :: "part \<Rightarrow> bool" where
  "part_is_empty p \<longleftrightarrow> p = PartText []"

text \<open>\<^verbatim>\<open>char::to_digit(16)\<close>, which takes digits of either case.\<close>

definition to_digit16 :: "u8 \<Rightarrow> u16 option" where
  "to_digit16 d =
     (if 0x30 \<le> d \<and> d \<le> 0x39 then Some (ucast (d - 0x30))
      else if 0x61 \<le> d \<and> d \<le> 0x66 then Some (ucast (d - 0x61 + 10))
      else if 0x41 \<le> d \<and> d \<le> 0x46 then Some (ucast (d - 0x41 + 10))
      else None)"

fun hextet :: "u16 \<Rightarrow> bytes \<Rightarrow> u16 option" where
  "hextet v [] = Some v"
| "hextet v (d # ds) = Option.bind (to_digit16 d) (\<lambda>x. hextet (push_bit 4 v OR x) ds)"

fun part_value :: "part \<Rightarrow> u16 option" where
  "part_value (PartGroup g) = Some g"
| "part_value (PartText txt) = (if txt = [] \<or> length txt > 4 then None else hextet 0 txt)"

text \<open>\<^verbatim>\<open>splitn\<close>: at most as many parts, the last of which holds the rest.\<close>

fun splitn :: "nat \<Rightarrow> 'a \<Rightarrow> 'a list \<Rightarrow> 'a list list" where
  "splitn n c xs =
     (if n = 0 then [] else if n = 1 then [xs]
      else
        (case dropWhile (\<lambda>x. x \<noteq> c) xs of
           [] \<Rightarrow> [xs]
         | _ # rest \<Rightarrow> takeWhile (\<lambda>x. x \<noteq> c) xs # splitn (n - 1) c rest))"

declare splitn.simps [simp del]

text \<open>The only empty part between the first and the last, if there is one.\<close>

fun find_skip :: "part list \<Rightarrow> nat list \<Rightarrow> nat option \<Rightarrow> nat option option" where
  "find_skip parts [] skip = Some skip"
| "find_skip parts (i # is) skip =
     (if part_is_empty (parts ! i) then (if skip \<noteq> None then None else find_skip parts is (Some i))
      else find_skip parts is skip)"

definition embed_ipv4 :: "part list \<Rightarrow> part list option" where
  "embed_ipv4 parts =
     (case last parts of
        PartText l \<Rightarrow>
          if 0x2E \<in> set l
          then Option.bind (parse_ipv4 l) (\<lambda>ipv4.
                 Some (butlast parts @ [PartGroup (ucast (drop_bit 16 ipv4)), PartGroup (ucast ipv4)]))
          else Some parts
      | _ \<Rightarrow> Some parts)"

text \<open>The groups before and after the skipped ones, and how many are skipped.\<close>

definition ipv6_layout :: "part list \<Rightarrow> (nat \<times> nat \<times> nat) option" where
  "ipv6_layout parts =
     (let count = length parts
      in Option.bind (find_skip parts [1..<count - 1] None) (\<lambda>skip.
           case skip of
             Some skip \<Rightarrow>
               (let first_empty = part_is_empty (parts ! 0);
                    last_empty = part_is_empty (parts ! (count - 1));
                    high = (if first_empty then skip - 1 else skip);
                    low = (if last_empty then count - skip - 1 - 1 else count - skip - 1)
                in if first_empty \<and> high \<noteq> 0 \<or> last_empty \<and> low \<noteq> 0 then None
                   else if high + low \<le> 8 \<and> 8 - (high + low) \<ge> 1 then Some (high, low, 8 - (high + low))
                   else None)
           | None \<Rightarrow>
               if count \<noteq> 8 \<or> part_is_empty (parts ! 0) \<or> part_is_empty (parts ! (count - 1)) then None
               else Some (count, 0, 0)))"

fun push_groups :: "part list \<Rightarrow> u128 \<Rightarrow> u128 option" where
  "push_groups [] address = Some address"
| "push_groups (p # ps) address =
     Option.bind (part_value p) (\<lambda>g. push_groups ps (push_bit 16 address OR ucast g))"

definition parse_ipv6 :: "bytes \<Rightarrow> u128 option" where
  "parse_ipv6 txt =
     (if txt = [] \<or> length txt > 45 \<or> \<not> list_all (\<lambda>b. b < 0x80) txt then None
      else
        (let parts = map PartText (splitn 10 0x3A txt)
         in if length parts < 3 then None
            else
              Option.bind (embed_ipv4 parts) (\<lambda>parts.
              if length parts > 9 then None
              else
                Option.bind (ipv6_layout parts) (\<lambda>(high, low, skipped).
                Option.bind (push_groups (take high parts) 0) (\<lambda>address.
                  push_groups (drop (length parts - low) parts)
                    (case checked_shl address (16 * skipped) of Some a \<Rightarrow> a | None \<Rightarrow> 0))))))"

definition parse_ipv6_interface :: "bytes \<Rightarrow> (network \<times> bool) option" where
  "parse_ipv6_interface txt =
     Option.bind (split_netmask txt) (\<lambda>(address, netmask).
     Option.bind
       (if 0x25 \<in> set address
        then (let scope = drop (length (takeWhile (\<lambda>b. b \<noteq> 0x25) address) + 1) address
              in if scope = [] \<or> 0x25 \<in> set scope then None
                 else Some (takeWhile (\<lambda>b. b \<noteq> 0x25) address, True))
        else Some (address, False)) (\<lambda>(address, scoped).
     Option.bind (parse_ipv6 address) (\<lambda>a.
     Option.bind (case netmask of None \<Rightarrow> Some 128 | Some netmask \<Rightarrow> prefix_from_prefix_string netmask 128) (\<lambda>prefix.
       Some (network_new FamilyV6 a prefix, scoped)))))"

datatype interface_error = InterfaceInvalid | InterfaceScoped

definition parse_interface :: "bytes \<Rightarrow> (interface_error, network) result" where
  "parse_interface txt =
     (case parse_ipv4_interface txt of
        Some n \<Rightarrow> Inr n
      | None \<Rightarrow>
          (case parse_ipv6_interface txt of
             Some (n, False) \<Rightarrow> Inr n
           | Some (_, True) \<Rightarrow> Inl InterfaceScoped
           | None \<Rightarrow> Inl InterfaceInvalid))"

end
