(* ===== verification/Egress_Rules.thy ===== *)
theory Egress_Rules
  imports Egress_Budget Egress_Text
begin

text \<open>
  Egress rules as a network posture states them (\<^verbatim>\<open>host/network/rule.rs\<close>), what traffic they select
  according to their documentation, and that the native rules that they are lowered to select exactly
  that traffic.
\<close>

section \<open>Rules\<close>

datatype access = AccessAllow | AccessDeny

datatype protocol = ProtocolTcp | ProtocolUdp | ProtocolIcmp | ProtocolAny

record peer_destination =
  de_cidr :: bytes
  de_except :: "bytes list"

record port_selector =
  ps_protocol :: protocol
  ps_port :: "u16 option"
  ps_end_port :: "u16 option"

record egress_rule =
  eg_to :: "peer_destination list"
  eg_ports :: "port_selector list"

record egress_rules =
  er_name :: bytes
  er_rules :: "egress_rule list"

definition destination_new :: "bytes \<Rightarrow> peer_destination" where
  "destination_new cidr = \<lparr>de_cidr = cidr, de_except = []\<rparr>"

definition egress_to :: "bytes \<Rightarrow> egress_rule" where
  "egress_to cidr = \<lparr>eg_to = [destination_new cidr], eg_ports = []\<rparr>"

definition on_port :: "egress_rule \<Rightarrow> protocol \<Rightarrow> u16 \<Rightarrow> egress_rule" where
  "on_port r p port1 = r\<lparr>eg_ports := eg_ports r @ [\<lparr>ps_protocol = p, ps_port = Some port1, ps_end_port = None\<rparr>]\<rparr>"

definition on_port_range :: "egress_rule \<Rightarrow> protocol \<Rightarrow> u16 \<Rightarrow> u16 \<Rightarrow> egress_rule" where
  "on_port_range r p port1 end_port =
     r\<lparr>eg_ports := eg_ports r @ [\<lparr>ps_protocol = p, ps_port = Some port1, ps_end_port = Some end_port\<rparr>]\<rparr>"

definition on_protocol :: "egress_rule \<Rightarrow> protocol \<Rightarrow> egress_rule" where
  "on_protocol r p = r\<lparr>eg_ports := eg_ports r @ [\<lparr>ps_protocol = p, ps_port = None, ps_end_port = None\<rparr>]\<rparr>"

definition egress_rules_new :: "bytes \<Rightarrow> egress_rules" where
  "egress_rules_new name = \<lparr>er_name = name, er_rules = []\<rparr>"

section \<open>Parsing\<close>

definition lower_network :: "bytes \<Rightarrow> bytes \<Rightarrow> (egress_error, network) result" where
  "lower_network v description =
     (case parse_interface v of
        Inr n \<Rightarrow> Inr n
      | Inl InterfaceInvalid \<Rightarrow> Inl (NotACidr description v)
      | Inl InterfaceScoped \<Rightarrow> Inl (ScopedCidr description v))"

definition indexed :: "bytes \<Rightarrow> usize \<Rightarrow> bytes" where
  "indexed description i = description @ ascii ''['' @ decimal i @ ascii '']''"

definition parse_peer :: "peer_destination \<Rightarrow> bytes \<Rightarrow> (egress_error, family \<times> interval list) result" where
  "parse_peer d description =
     and_then (lower_network (de_cidr d) (description @ ascii ''.cidr'')) (\<lambda>parent.
       destination parent
         (map (\<lambda>(i, v). lower_network v (indexed (description @ ascii ''.except'') i)) (List.enumerate 0 (de_except d)))
         description)"

fun parse_peers ::
  "bytes \<Rightarrow> usize \<Rightarrow> peer_destination list \<Rightarrow> (family \<times> interval list) list \<Rightarrow>
     (egress_error, (family \<times> interval list) list) result" where
  "parse_peers description i [] parsed = Inr parsed"
| "parse_peers description i (d # ds) parsed =
     and_then (parse_peer d (indexed (description @ ascii ''.to'') i)) (\<lambda>p.
       parse_peers description (Suc i) ds (parsed @ [p]))"

fun rule_protocol_of :: "protocol \<Rightarrow> rule_protocol" where
  "rule_protocol_of ProtocolTcp = RuleTcp"
| "rule_protocol_of ProtocolUdp = RuleUdp"
| "rule_protocol_of ProtocolIcmp = RuleIcmp"
| "rule_protocol_of ProtocolAny = RuleAny"

fun parse_ports ::
  "bytes \<Rightarrow> usize \<Rightarrow> port_selector list \<Rightarrow> selector list \<Rightarrow> (egress_error, selector list) result" where
  "parse_ports description i [] parsed = Inr parsed"
| "parse_ports description i (s # ss) parsed =
     and_then (port_selectors (rule_protocol_of (ps_protocol s)) (map_option (PortInteger \<circ> uint) (ps_port s))
                 (map_option (PortInteger \<circ> uint) (ps_end_port s)) (indexed (description @ ascii ''.ports'') i)) (\<lambda>p.
       parse_ports description (Suc i) ss (parsed @ p))"

definition parse_rule :: "egress_rule \<Rightarrow> bytes \<Rightarrow> (egress_error, rule list) result" where
  "parse_rule r description =
     and_then
       (if eg_to r = [] then Inr None
        else and_then (parse_peers description 0 (eg_to r) []) (\<lambda>parsed. Inr (Some (group_destinations parsed))))
       (\<lambda>destinations.
     and_then
       (if eg_ports r = [] then Inr None
        else and_then (parse_ports description 0 (eg_ports r) []) (\<lambda>parsed. Inr (Some parsed)))
       (\<lambda>selectors. Inr (combine destinations selectors)))"

fun parse_rules_from :: "bytes \<Rightarrow> usize \<Rightarrow> egress_rule list \<Rightarrow> (egress_error, rule list list) result" where
  "parse_rules_from name i [] = Inr []"
| "parse_rules_from name i (r # rs) =
     and_then (parse_rule r (indexed name i)) (\<lambda>p.
     and_then (parse_rules_from name (Suc i) rs) (\<lambda>ps. Inr (p # ps)))"

definition parse_rules :: "egress_rules \<Rightarrow> (egress_error, rule list list) result" where
  "parse_rules rules = parse_rules_from (er_name rules) 0 (er_rules rules)"

section \<open>What the rules mean\<close>

text \<open>A destination selects the addresses of its network without those of its exceptions.\<close>

definition names :: "bytes \<Rightarrow> family \<Rightarrow> u128 \<Rightarrow> bool" where
  "names cidr f a =
     (case parse_interface cidr of
        Inl _ \<Rightarrow> False
      | Inr n \<Rightarrow> nw_family n = f \<and> fst (nw_interval n) \<le> a \<and> a \<le> snd (nw_interval n))"

definition peer_selects :: "peer_destination \<Rightarrow> family \<Rightarrow> u128 \<Rightarrow> bool" where
  "peer_selects d f a \<longleftrightarrow> names (de_cidr d) f a \<and> \<not> list_ex (\<lambda>e. names e f a) (de_except d)"

text \<open>
  A selector without a port selects its protocol, and every protocol for \<^verbatim>\<open>any\<close>; with one, the ports of
  its range, of TCP and UDP for \<^verbatim>\<open>any\<close>.
\<close>

definition selector_protocols :: "protocol \<Rightarrow> native_protocol list" where
  "selector_protocols p =
     (case p of ProtocolTcp \<Rightarrow> [NativeTcp] | ProtocolUdp \<Rightarrow> [NativeUdp] | ProtocolIcmp \<Rightarrow> [NativeIcmp]
      | ProtocolAny \<Rightarrow> [NativeTcp, NativeUdp])"

definition selector_selects :: "port_selector \<Rightarrow> native_protocol option \<Rightarrow> u16 \<Rightarrow> bool" where
  "selector_selects s p q =
     (case ps_port s of
        None \<Rightarrow> ps_protocol s = ProtocolAny \<or> p \<in> set (map Some (selector_protocols (ps_protocol s)))
      | Some first \<Rightarrow>
          p \<in> set (map Some (selector_protocols (ps_protocol s))) \<and> first \<le> q \<and>
          q \<le> (case ps_end_port s of None \<Rightarrow> first | Some last1 \<Rightarrow> last1))"

definition egress_selects :: "egress_rule \<Rightarrow> family \<Rightarrow> u128 \<Rightarrow> native_protocol option \<Rightarrow> u16 \<Rightarrow> bool" where
  "egress_selects r f a p q \<longleftrightarrow>
     (eg_to r = [] \<or> list_ex (\<lambda>d. peer_selects d f a) (eg_to r)) \<and>
     (eg_ports r = [] \<or> list_ex (\<lambda>s. selector_selects s p q) (eg_ports r))"

section \<open>Networks that are read\<close>

lemma digits_prefix: "prefix_from_prefix_string txt maximum = Some p \<Longrightarrow> p \<le> maximum"
  by (auto simp: prefix_from_prefix_string_def Let_def split: if_splits)

lemma leading_ones_le: "leading_ones m \<le> 32"
  using length_takeWhile_le [of "\<lambda>i. bit m (31 - i)" "[0..<32]"] unfolding leading_ones_def by simp

lemma netmask_prefix: "prefix_from_ipv4_netmask m = Some p \<Longrightarrow> p \<le> 32"
  using leading_ones_le [of m] by (simp add: prefix_from_ipv4_netmask_def Let_def split: if_splits)

lemma mask_prefix: "prefix_from_ipv4_mask txt = Some p \<Longrightarrow> p \<le> 32"
  using netmask_prefix by (auto simp: prefix_from_ipv4_mask_def bind_eq_Some_conv split: option.splits)

lemma parse_interface_ok:
  assumes "parse_interface txt = Inr n"
  shows "nw_ok n"
proof -
  have v4: "nw_ok n" if "parse_ipv4_interface txt = Some n"
  proof -
    note h = that
    obtain a p netmask where n: "n = network_new FamilyV4 (ucast (a :: u32)) p" and
      p: "(case netmask of None \<Rightarrow> Some 32 | Some netmask \<Rightarrow> (case prefix_from_prefix_string netmask 32 of
         Some p \<Rightarrow> Some p | None \<Rightarrow> prefix_from_ipv4_mask netmask)) = Some p"
      using h by (auto simp: parse_ipv4_interface_def bind_eq_Some_conv)
    have "p \<le> 32"
      using p digits_prefix [of _ 32] mask_prefix by (cases netmask) (auto split: option.splits)
    note n this
    moreover have "ucast (a :: u32) \<le> last_address FamilyV4"
      using unat_bound [of a] by (simp add: word_le_nat_alt unat_last_address family_bits_def)
    ultimately show ?thesis by (simp add: network_new_interval(4) family_bits_def)
  qed
  have v6: "nw_ok n" if "parse_ipv6_interface txt = Some (n, b)" for b
  proof -
    note h = that
    obtain a p where "n = network_new FamilyV6 a p" "p \<le> 128"
      using h digits_prefix
      by (auto simp: parse_ipv6_interface_def bind_eq_Some_conv split: option.splits if_splits)
    moreover have "a \<le> last_address FamilyV6" by (simp add: last_address_def)
    ultimately show ?thesis by (simp add: network_new_interval(4) family_bits_def)
  qed
  show ?thesis using assms v4 v6 by (auto simp: parse_interface_def split: option.splits bool.splits)
qed

section \<open>Rules that are read\<close>

definition in_nw :: "u128 \<Rightarrow> network \<Rightarrow> bool" where
  "in_nw a n \<longleftrightarrow> fst (nw_interval n) \<le> a \<and> a \<le> snd (nw_interval n)"

lemma in_nw_addrs: "in_nw a n \<longleftrightarrow> unat a \<in> addrs (nw_interval n)"
  by (simp add: in_nw_def addrs_def word_le_nat_alt)

lemma destination_exclusions_spec:
  "destination_exclusions parent description i exceptions excluded = Inr out \<Longrightarrow>
     \<exists>ns. exceptions = map Inr ns \<and> out = excluded @ map nw_interval ns \<and> (\<forall>n\<in>set ns. nw_contains parent n)"
proof (induction parent description i exceptions excluded rule: destination_exclusions.induct)
  case (2 parent description i exception exceptions excluded)
  then obtain n where n: "exception = Inr n" "nw_contains parent n"
    "destination_exclusions parent description (Suc i) exceptions (excluded @ [nw_interval n]) = Inr out"
    by (auto split: if_splits)
  from "2.IH" [of n] n obtain ns where "exceptions = map Inr ns" "out = (excluded @ [nw_interval n]) @ map nw_interval ns"
    "\<forall>n\<in>set ns. nw_contains parent n" by auto
  with n show ?case by (intro exI [of _ "n # ns"]) simp
qed simp

lemma destination_spec:
  assumes "destination parent exceptions description = Inr (g, is)" and "nw_ok parent"
    and ok: "\<forall>n. Inr n \<in> set exceptions \<longrightarrow> nw_ok n"
  obtains ns where "exceptions = map Inr ns" "g = nw_family parent" "spaced 0 is" "within g is"
    "unat a \<in> cover is \<longleftrightarrow> in_nw a parent \<and> \<not> (\<exists>n\<in>set ns. in_nw a n)" "\<forall>n\<in>set ns. nw_family n = g"
proof -
  obtain ns where ns: "exceptions = map Inr ns" "\<forall>n\<in>set ns. nw_contains parent n" "g = nw_family parent"
    "is = subtract [nw_interval parent] (merge (map nw_interval ns))"
    using assms(1) destination_exclusions_spec [of parent description 0 exceptions "[]"] by (auto simp: destination_def)
  have nok: "\<forall>n\<in>set ns. nw_ok n \<and> nw_family n = g" using ns ok by (auto simp: nw_contains_def)
  note m = merge_within [OF within_nws [OF nok]]
  have "spaced 0 [nw_interval parent]" using assms(2) by (simp add: nw_ok_def)
  note s = subtract_spec [OF this m(3), folded ns(4)]
  have c: "cover is = addrs (nw_interval parent) - (\<Union>n\<in>set ns. addrs (nw_interval n))" using s m(4) by (simp add: cover_networks)
  have "within g is"
    using s c within_nw [OF assms(2), of g] spaced_valid [of 0 "is"] ns(3) by (auto simp: within_def)
  moreover have "unat a \<in> cover is \<longleftrightarrow> in_nw a parent \<and> \<not> (\<exists>n\<in>set ns. in_nw a n)" by (simp add: c in_nw_addrs)
  ultimately show ?thesis using ns(1,3) s nok by (intro that) blast+
qed

lemma lower_network_ok: "lower_network v description = Inr n \<longleftrightarrow> parse_interface v = Inr n"
  by (auto simp: lower_network_def split: sum.splits interface_error.splits)

lemma parse_peer_spec:
  assumes "parse_peer d description = Inr (g, is)"
  shows "spaced 0 is \<and> within g is \<and> (g = f \<and> unat a \<in> cover is \<longleftrightarrow> peer_selects d f a)"
proof -
  define exceptions where "exceptions =
    map (\<lambda>(i, v). lower_network v (indexed (description @ ascii ''.except'') i)) (List.enumerate 0 (de_except d))"
  obtain parent where p: "parse_interface (de_cidr d) = Inr parent" "destination parent exceptions description = Inr (g, is)"
    using assms by (auto simp: parse_peer_def lower_network_ok exceptions_def)
  have "\<forall>n. Inr n \<in> set exceptions \<longrightarrow> nw_ok n"
  proof (intro allI impI)
    fix n assume "Inr n \<in> set exceptions"
    then obtain v at1 where "lower_network v at1 = Inr n" unfolding exceptions_def by force
    then show "nw_ok n" using lower_network_ok parse_interface_ok by blast
  qed
  from destination_spec [OF p(2) parse_interface_ok [OF p(1)] this, of a] obtain ns where
    ns: "exceptions = map Inr ns" "g = nw_family parent" "spaced 0 is" "within g is"
      "unat a \<in> cover is \<longleftrightarrow> in_nw a parent \<and> \<not> (\<exists>n\<in>set ns. in_nw a n)" "\<forall>n\<in>set ns. nw_family n = g" by blast
  have l: "length ns = length (de_except d)" using arg_cong [OF ns(1), of length] by (simp add: exceptions_def)
  have "parse_interface (de_except d ! i) = Inr (ns ! i)" if "i < length ns" for i
    using arg_cong [OF ns(1), of "\<lambda>xs. xs ! i"] that l by (simp add: exceptions_def nth_enumerate_eq lower_network_ok)
  then have e: "map parse_interface (de_except d) = map Inr ns" using l by (intro nth_equalityI) simp_all
  define h where "h x = (case x of Inl _ \<Rightarrow> False | Inr n \<Rightarrow> nw_family n = g \<and> fst (nw_interval n) \<le> a \<and> a \<le> snd (nw_interval n))"
    for x :: "(interface_error, network) result"
  have "list_ex (\<lambda>e. names e g a) (de_except d) \<longleftrightarrow> list_ex h (map parse_interface (de_except d))"
    by (simp add: list_ex_iff names_def h_def)
  also have "\<dots> \<longleftrightarrow> (\<exists>n\<in>set ns. in_nw a n)" unfolding e using ns(6) by (auto simp: list_ex_iff h_def in_nw_def)
  finally have "list_ex (\<lambda>e. names e g a) (de_except d) \<longleftrightarrow> (\<exists>n\<in>set ns. in_nw a n)" .
  with ns p(1) show ?thesis by (auto simp: peer_selects_def names_def in_nw_def)
qed

lemma parse_peers_spec:
  assumes "parse_peers description i ds parsed = Inr out"
  shows "\<exists>new. out = parsed @ new \<and> length new = length ds \<and>
    (\<forall>g is. (g, is) \<in> set new \<longrightarrow> spaced 0 is \<and> within g is) \<and>
    (\<forall>f a. (\<exists>is. (f, is) \<in> set new \<and> unat a \<in> cover is) \<longleftrightarrow> list_ex (\<lambda>d. peer_selects d f a) ds)"
  using assms
proof (induction description i ds parsed rule: parse_peers.induct)
  case (2 description i d ds parsed)
  obtain g "is" where p: "parse_peer d (indexed (description @ ascii ''.to'') i) = Inr (g, is)"
    "parse_peers description (Suc i) ds (parsed @ [(g, is)]) = Inr out" using "2.prems" by auto
  from "2.IH" [OF p(2)] obtain new where new: "out = (parsed @ [(g, is)]) @ new" "length new = length ds"
    "\<forall>g is. (g, is) \<in> set new \<longrightarrow> spaced 0 is \<and> within g is"
    "\<forall>f a. (\<exists>is. (f, is) \<in> set new \<and> unat a \<in> cover is) \<longleftrightarrow> list_ex (\<lambda>d. peer_selects d f a) ds" by auto
  have d: "peer_selects d f a \<longleftrightarrow> g = f \<and> unat a \<in> cover is" for f a using parse_peer_spec [OF p(1)] by blast
  have "(\<exists>is1. (f, is1) \<in> set ((g, is) # new) \<and> unat a \<in> cover is1) \<longleftrightarrow> list_ex (\<lambda>d. peer_selects d f a) (d # ds)" for f a
    using new(4) by (auto simp: d)
  moreover have "\<forall>g1 is1. (g1, is1) \<in> set ((g, is) # new) \<longrightarrow> spaced 0 is1 \<and> within g1 is1"
    using new(3) parse_peer_spec [OF p(1)] by auto
  ultimately show ?case using new(1,2) by (intro exI [of _ "(g, is) # new"]) simp
qed auto

definition destinations_ok :: "(family \<times> interval list) list \<Rightarrow> bool" where
  "destinations_ok ds \<longleftrightarrow> (\<forall>d\<in>set ds. spaced 0 (snd d) \<and> within (fst d) (snd d))"

lemma group_destinations_spec:
  fixes a :: u128
  assumes "destinations_ok ds"
  shows "destinations_ok (group_destinations ds)"
    "(\<exists>d\<in>set (group_destinations ds). fst d = f \<and> unat a \<in> cover (snd d)) \<longleftrightarrow> (\<exists>is. (f, is) \<in> set ds \<and> unat a \<in> cover is)"
proof -
  define of1 where "of1 g = concat (map snd (filter (\<lambda>d. fst d = g) ds))" for g
  have w: "within g (of1 g)" for g using assms by (auto simp: of1_def within_concat destinations_ok_def)
  note m = merge_within [OF w]
  have c: "unat a \<in> cover (of1 g) \<longleftrightarrow> (\<exists>is. (g, is) \<in> set ds \<and> unat a \<in> cover is)" for g
    by (force simp: of1_def cover_concat)
  have all: "g \<in> set family_all" for g by (cases g) (simp_all add: family_all_def)
  show "destinations_ok (group_destinations ds)"
    using m by (auto simp: group_destinations_def destinations_ok_def simp flip: of1_def)
  have "(\<exists>d\<in>set (group_destinations ds). fst d = f \<and> unat a \<in> cover (snd d)) \<longleftrightarrow>
      list_ex (\<lambda>d. fst d = f) ds \<and> unat a \<in> cover (of1 f)"
    using m(4) all by (auto simp: group_destinations_def simp flip: of1_def)
  also have "\<dots> \<longleftrightarrow> (\<exists>is. (f, is) \<in> set ds \<and> unat a \<in> cover is)" unfolding c by (force simp: list_ex_iff)
  finally show "(\<exists>d\<in>set (group_destinations ds). fst d = f \<and> unat a \<in> cover (snd d)) \<longleftrightarrow>
      (\<exists>is. (f, is) \<in> set ds \<and> unat a \<in> cover is)" .
qed

definition selector_ok :: "selector \<Rightarrow> bool" where
  "selector_ok x \<longleftrightarrow>
     (\<forall>start last1. snd x = Some (start, last1) \<longrightarrow> start \<le> last1 \<and> (fst x = Some NativeTcp \<or> fst x = Some NativeUdp))"

lemma port_u16: "port (PortInteger (uint (v :: u16))) description = (if v = 0 then Inl (PortOutOfRange description) else Inr v)"
proof -
  have "uint v < 65536" "0 \<le> uint v" using uint_lt2p [of v] by simp_all
  moreover have "uint v \<noteq> 0 \<longleftrightarrow> v \<noteq> 0" by (simp add: uint_0_iff)
  ultimately show ?thesis by (simp add: port_def)
qed

lemma port_range_u16:
  "port_range_of (PortInteger (uint v)) (map_option (PortInteger \<circ> uint) w) description = Inr range1 \<Longrightarrow>
     range1 = (v, case w of None \<Rightarrow> v | Some x \<Rightarrow> x) \<and> v \<le> (case w of None \<Rightarrow> v | Some x \<Rightarrow> x)"
  by (cases w) (auto simp: port_range_of_def port_u16 not_less split: if_splits)

lemma port_selectors_spec:
  assumes "port_selectors (rule_protocol_of (ps_protocol s)) (map_option (PortInteger \<circ> uint) (ps_port s))
      (map_option (PortInteger \<circ> uint) (ps_end_port s)) description = Inr out"
  shows "(\<forall>x\<in>set out. selector_ok x) \<and> ((\<exists>x\<in>set out. proto_ok (fst x) (snd x) p q) \<longleftrightarrow> selector_selects s p q)"
proof (cases "ps_port s")
  case None
  then have "out = [(rule_protocol_native (rule_protocol_of (ps_protocol s)), None)]"
    using assms by (auto simp: port_selectors_def split: if_splits)
  then show ?thesis using None
    by (cases "ps_protocol s") (auto simp: selector_ok_def proto_ok_def port_ok_def selector_selects_def selector_protocols_def)
next
  case (Some v)
  define last1 where "last1 = (case ps_end_port s of None \<Rightarrow> v | Some x \<Rightarrow> x)"
  have np: "rule_protocol_of (ps_protocol s) \<noteq> RuleIcmp" and
    out: "out = map (\<lambda>x. (Some x, Some (v, last1))) (port_protocols (rule_protocol_of (ps_protocol s)))" "v \<le> last1"
    using assms Some by (auto simp: port_selectors_def last1_def split: if_splits dest!: port_range_u16)
  then show ?thesis using Some
    by (cases "ps_protocol s")
      (auto simp: selector_ok_def proto_ok_def port_ok_def selector_selects_def selector_protocols_def simp flip: last1_def)
qed

lemma parse_ports_spec:
  assumes "parse_ports description i ss parsed = Inr out"
  shows "\<exists>new. out = parsed @ new \<and> (\<forall>x\<in>set new. selector_ok x) \<and>
    (\<forall>p q. (\<exists>x\<in>set new. proto_ok (fst x) (snd x) p q) \<longleftrightarrow> list_ex (\<lambda>s. selector_selects s p q) ss)"
  using assms
proof (induction description i ss parsed rule: parse_ports.induct)
  case (2 description i s ss parsed)
  obtain xs where x: "port_selectors (rule_protocol_of (ps_protocol s)) (map_option (PortInteger \<circ> uint) (ps_port s))
      (map_option (PortInteger \<circ> uint) (ps_end_port s)) (indexed (description @ ascii ''.ports'') i) = Inr xs"
    "parse_ports description (Suc i) ss (parsed @ xs) = Inr out" using "2.prems" by auto
  from "2.IH" [OF x(2)] obtain new where new: "out = (parsed @ xs) @ new" "\<forall>x\<in>set new. selector_ok x"
    "\<forall>p q. (\<exists>x\<in>set new. proto_ok (fst x) (snd x) p q) \<longleftrightarrow> list_ex (\<lambda>s. selector_selects s p q) ss" by auto
  have "\<forall>p q. (\<exists>x\<in>set (xs @ new). proto_ok (fst x) (snd x) p q) \<longleftrightarrow> list_ex (\<lambda>s. selector_selects s p q) (s # ss)"
    using new(3) port_selectors_spec [OF x(1)] by (simp add: bex_Un)
  then show ?case using new(1,2) port_selectors_spec [OF x(1)] by (intro exI [of _ "xs @ new"]) auto
qed auto

lemma set_pairs: "set (concat (map (\<lambda>d. map (g d) xs) ds)) = {g d x | d x. d \<in> set ds \<and> x \<in> set xs}"
  by (induction ds) auto

lemma bex_pairs: "(\<exists>r\<in>{g d x | d x. d \<in> D \<and> x \<in> X}. P r) \<longleftrightarrow> (\<exists>d\<in>D. \<exists>x\<in>X. P (g d x))"
  by blast

lemma combine_spec:
  assumes d: "case destinations of None \<Rightarrow> True | Some ds \<Rightarrow> destinations_ok ds"
    and s: "case selectors of None \<Rightarrow> True | Some ss \<Rightarrow> \<forall>x\<in>set ss. selector_ok x" and a: "a \<le> last_address f"
  shows "\<forall>r\<in>set (combine destinations selectors). rule_ok r"
    "(\<exists>r\<in>set (combine destinations selectors). rule_matches r f a p q) \<longleftrightarrow>
       (case destinations of None \<Rightarrow> True | Some ds \<Rightarrow> \<exists>d\<in>set ds. fst d = f \<and> unat a \<in> cover (snd d)) \<and>
       (case selectors of None \<Rightarrow> True | Some ss \<Rightarrow> \<exists>x\<in>set ss. proto_ok (fst x) (snd x) p q)"
proof -
  define ds where "ds = (case destinations of Some ds \<Rightarrow> ds | None \<Rightarrow> map (\<lambda>f. (f, [family_everything f])) family_all)"
  define ss where "ss = (case selectors of Some ss \<Rightarrow> ss | None \<Rightarrow> [(None, None)])"
  have dok: "destinations_ok ds"
    using d by (auto simp: ds_def destinations_ok_def within_def family_everything_def addrs_def split: option.splits)
  have sok: "\<forall>x\<in>set ss. selector_ok x" using s by (auto simp: ss_def selector_ok_def split: option.splits)
  have e: "set (combine destinations selectors) =
      {\<lparr>ru_family = fst d, ru_addresses = snd d, ru_protocol = fst x, ru_ports = snd x\<rparr> | d x. d \<in> set ds \<and> x \<in> set ss}"
    unfolding combine_def Let_def ds_def [symmetric] ss_def [symmetric] by (rule set_pairs)
  show "\<forall>r\<in>set (combine destinations selectors). rule_ok r"
    using dok sok unfolding e by (auto simp: rule_ok_def destinations_ok_def selector_ok_def)
  have "(\<exists>r\<in>set (combine destinations selectors). rule_matches r f a p q) \<longleftrightarrow>
      (\<exists>d\<in>set ds. fst d = f \<and> unat a \<in> cover (snd d)) \<and> (\<exists>x\<in>set ss. proto_ok (fst x) (snd x) p q)"
  proof -
    have "rule_matches \<lparr>ru_family = fst d, ru_addresses = snd d, ru_protocol = fst x, ru_ports = snd x\<rparr> f a p q \<longleftrightarrow>
        (fst d = f \<and> unat a \<in> cover (snd d)) \<and> proto_ok (fst x) (snd x) p q" for d and x :: selector
      by (simp add: rule_matches_def in_cover)
    then show ?thesis unfolding e bex_pairs by blast
  qed
  moreover have "(\<exists>d\<in>set ds. fst d = f \<and> unat a \<in> cover (snd d)) \<longleftrightarrow>
      (case destinations of None \<Rightarrow> True | Some ds \<Rightarrow> \<exists>d\<in>set ds. fst d = f \<and> unat a \<in> cover (snd d))"
    using a by (cases destinations; cases f)
      (auto simp: ds_def family_all_def family_everything_def addrs_def word_le_nat_alt)
  moreover have "(\<exists>x\<in>set ss. proto_ok (fst x) (snd x) p q) \<longleftrightarrow>
      (case selectors of None \<Rightarrow> True | Some ss \<Rightarrow> \<exists>x\<in>set ss. proto_ok (fst x) (snd x) p q)"
    by (cases selectors) (simp_all add: ss_def proto_ok_def)
  ultimately show "(\<exists>r\<in>set (combine destinations selectors). rule_matches r f a p q) \<longleftrightarrow>
       (case destinations of None \<Rightarrow> True | Some ds \<Rightarrow> \<exists>d\<in>set ds. fst d = f \<and> unat a \<in> cover (snd d)) \<and>
       (case selectors of None \<Rightarrow> True | Some ss \<Rightarrow> \<exists>x\<in>set ss. proto_ok (fst x) (snd x) p q)" by simp
qed

lemma parse_rule_spec:
  assumes "parse_rule r description = Inr rs" and "a \<le> last_address f"
  shows "\<forall>r\<in>set rs. rule_ok r" "(\<exists>r\<in>set rs. rule_matches r f a p q) \<longleftrightarrow> egress_selects r f a p q"
proof -
  obtain destinations selectors where ds: "(if eg_to r = [] then Inr None
        else and_then (parse_peers description 0 (eg_to r) []) (\<lambda>parsed. Inr (Some (group_destinations parsed)))) = Inr destinations"
    and ss: "(if eg_ports r = [] then Inr None
        else and_then (parse_ports description 0 (eg_ports r) []) (\<lambda>parsed. Inr (Some parsed))) = Inr selectors"
    and rs: "rs = combine destinations selectors"
    using assms(1) unfolding parse_rule_def and_then_eq_Inr by blast
  have d: "(case destinations of None \<Rightarrow> True | Some ds \<Rightarrow> destinations_ok ds) \<and>
      ((case destinations of None \<Rightarrow> True | Some ds \<Rightarrow> \<exists>d\<in>set ds. fst d = f \<and> unat a \<in> cover (snd d)) \<longleftrightarrow>
       (eg_to r = [] \<or> list_ex (\<lambda>d. peer_selects d f a) (eg_to r)))"
  proof (cases "eg_to r = []")
    case False
    then obtain parsed where p: "parse_peers description 0 (eg_to r) [] = Inr parsed" "destinations = Some (group_destinations parsed)"
      using ds by auto
    from parse_peers_spec [OF p(1)] have "destinations_ok parsed"
      "(\<exists>is. (f, is) \<in> set parsed \<and> unat a \<in> cover is) \<longleftrightarrow> list_ex (\<lambda>d. peer_selects d f a) (eg_to r)"
      by (auto simp: destinations_ok_def)
    with False group_destinations_spec [of parsed] show ?thesis by (simp add: p(2))
  qed (use ds in simp)
  have s: "(case selectors of None \<Rightarrow> True | Some ss \<Rightarrow> \<forall>x\<in>set ss. selector_ok x) \<and>
      ((case selectors of None \<Rightarrow> True | Some ss \<Rightarrow> \<exists>x\<in>set ss. proto_ok (fst x) (snd x) p q) \<longleftrightarrow>
       (eg_ports r = [] \<or> list_ex (\<lambda>s. selector_selects s p q) (eg_ports r)))"
  proof (cases "eg_ports r = []")
    case False
    then obtain parsed where p: "parse_ports description 0 (eg_ports r) [] = Inr parsed" "selectors = Some parsed" using ss by auto
    with False parse_ports_spec [OF p(1)] show ?thesis by auto
  qed (use ss in simp)
  note c = combine_spec [OF d [THEN conjunct1] s [THEN conjunct1] assms(2)]
  show "\<forall>r\<in>set rs. rule_ok r" unfolding rs by (rule c(1))
  show "(\<exists>r\<in>set rs. rule_matches r f a p q) \<longleftrightarrow> egress_selects r f a p q"
    unfolding rs c(2) egress_selects_def using d s by blast
qed

lemma parse_rules_spec:
  assumes "parse_rules_from name i rules = Inr parsed"
  shows "\<forall>r\<in>set (concat parsed). rule_ok r"
    "a \<le> last_address f \<Longrightarrow> (\<exists>r\<in>set (concat parsed). rule_matches r f a p q) \<longleftrightarrow> list_ex (\<lambda>r. egress_selects r f a p q) rules"
proof -
  have "(\<forall>r\<in>set (concat parsed). rule_ok r) \<and> (a \<le> last_address f \<longrightarrow>
    ((\<exists>r\<in>set (concat parsed). rule_matches r f a p q) \<longleftrightarrow> list_ex (\<lambda>r. egress_selects r f a p q) rules))"
    using assms
  proof (induction name i rules arbitrary: parsed rule: parse_rules_from.induct)
    case (2 name i r rules)
    then obtain x xs where x: "parse_rule r (indexed name i) = Inr x" "parse_rules_from name (Suc i) rules = Inr xs" "parsed = x # xs"
      by auto
    have "0 \<le> last_address f" by simp
    note spec = parse_rule_spec(1) [OF x(1) this] parse_rule_spec(2) [OF x(1), of a f p q]
    show ?case using "2.IH" [OF x(2)] spec by (auto simp: x(3) bex_Un)
  qed simp
  then show "\<forall>r\<in>set (concat parsed). rule_ok r"
    "a \<le> last_address f \<Longrightarrow> (\<exists>r\<in>set (concat parsed). rule_matches r f a p q) \<longleftrightarrow> list_ex (\<lambda>r. egress_selects r f a p q) rules"
    by blast+
qed

lemma lowered_matches:
  assumes "parse_rules rules = Inr parsed" and "lower_rules (concat parsed) (er_name rules) limit = Inr ns"
    and "a \<le> last_address f"
  shows "list_ex (\<lambda>n. native_matches n f a p q) ns \<longleftrightarrow> list_ex (\<lambda>r. egress_selects r f a p q) (er_rules rules)"
  using lower_rules_exact [OF _ assms(2)] parse_rules_spec [OF assms(1) [unfolded parse_rules_def]] assms(3)
  by (simp add: list_ex_iff)

section \<open>Properties\<close>

text \<open>
  C10. The native rules that a list of egress rules is lowered to select exactly the traffic that the
  rules select according to their documentation, for every address of either family, every protocol
  and every port: merging networks, widening them into addresses that are selected anyway, and sweeping
  over the ports neither adds nor drops any traffic.
\<close>

theorem egress_lowering_exact:
  assumes "parse_rules rules = Inr parsed" and "lower_rules (concat parsed) (er_name rules) max_rules = Inr ns"
    and "a \<le> last_address f"
  shows "list_ex (\<lambda>n. native_matches n f a p q) ns \<longleftrightarrow> list_ex (\<lambda>r. egress_selects r f a p q) (er_rules rules)"
  using assms by (rule lowered_matches)

text \<open>A rule for port 53 of eight addresses, for the witnesses.\<close>

definition demo_rules :: egress_rules where
  "demo_rules = \<lparr>er_name = ascii ''egress.allow'', er_rules = [on_port (egress_to (ascii ''0.0.0.8/29'')) ProtocolTcp 53]\<rparr>"

definition demo_rule :: rule where
  "demo_rule = \<lparr>ru_family = FamilyV4, ru_addresses = [(8, 15)], ru_protocol = Some NativeTcp, ru_ports = Some (53, 53)\<rparr>"

definition demo_native :: native_rule where
  "demo_native = (Network FamilyV4 8 29, Some NativeTcp, Some (53, 53))"

lemma demo_parsed: "parse_rules demo_rules = Inr [[demo_rule]]"
  by code_simp

lemma demo_lowered: "lower_rules (concat [[demo_rule]]) (er_name demo_rules) max_rules = Inr [demo_native]"
  by code_simp

theorem egress_lowering_exact_witness:
  "parse_rules demo_rules = Inr [[demo_rule]] \<and>
   lower_rules (concat [[demo_rule]]) (er_name demo_rules) max_rules = Inr [demo_native] \<and>
   (9 :: u128) \<le> last_address FamilyV4 \<and>
   (list_ex (\<lambda>n. native_matches n FamilyV4 9 (Some NativeTcp) 53) [demo_native] \<longleftrightarrow>
    list_ex (\<lambda>r. egress_selects r FamilyV4 9 (Some NativeTcp) 53) (er_rules demo_rules))"
proof -
  have l: "(9 :: u128) \<le> last_address FamilyV4" by (simp add: last_address_def)
  from demo_parsed demo_lowered l egress_lowering_exact [OF demo_parsed demo_lowered l] show ?thesis by blast
qed

text \<open>
  C11. For the rules of an action there is one list of native rules, in the order in which they are
  written and selecting exactly the traffic of the rules, such that for every limit the lowering
  returns that list if it has no more rules than the limit and otherwise refuses with the error for
  too many rules, and nothing else: no budget that is passed down on the way is too small or too
  large, and no subtraction from one underflows. With the limit of 256 that the sources use, rules are
  refused only if they are lowered to more than 256.
\<close>

theorem egress_lowering_bounded:
  assumes "parse_rules rules = Inr parsed"
  shows "\<exists>ns. sorted ns \<and>
    (\<forall>f a p q. a \<le> last_address f \<longrightarrow>
       (list_ex (\<lambda>n. native_matches n f a p q) ns \<longleftrightarrow> list_ex (\<lambda>r. egress_selects r f a p q) (er_rules rules))) \<and>
    (\<forall>limit. lower_rules (concat parsed) (er_name rules) limit =
       (if length ns \<le> limit then Inr ns else Inl (TooManyRules (er_name rules)))) \<and>
    lower_rules (concat parsed) (er_name rules) max_rules =
      (if length ns \<le> 256 then Inr ns else Inl (TooManyRules (er_name rules)))"
proof -
  obtain ns where ns: "sorted ns" "\<And>limit. lower_rules (concat parsed) (er_name rules) limit =
      (if length ns \<le> limit then Inr ns else Inl (TooManyRules (er_name rules)))"
    using lower_rules_limited [of "concat parsed" "er_name rules"] by blast
  have "lower_rules (concat parsed) (er_name rules) (length ns) = Inr ns" by (simp add: ns(2))
  note m = lowered_matches [OF assms this]
  have "lower_rules (concat parsed) (er_name rules) max_rules =
      (if length ns \<le> 256 then Inr ns else Inl (TooManyRules (er_name rules)))"
    unfolding ns(2) max_rules_def ..
  with ns m show ?thesis by blast
qed

theorem egress_lowering_bounded_witness:
  "parse_rules demo_rules = Inr [[demo_rule]] \<and>
   lower_rules (concat [[demo_rule]]) (er_name demo_rules) max_rules = Inr [demo_native] \<and>
   (\<forall>limit. lower_rules (concat [[demo_rule]]) (er_name demo_rules) limit =
      (if 1 \<le> limit then Inr [demo_native] else Inl (TooManyRules (er_name demo_rules))))"
proof -
  from egress_lowering_bounded [OF demo_parsed] obtain ns where
    ns: "\<forall>limit. lower_rules (concat [[demo_rule]]) (er_name demo_rules) limit =
      (if length ns \<le> limit then Inr ns else Inl (TooManyRules (er_name demo_rules)))" by blast
  with demo_lowered have "ns = [demo_native]" by (simp split: if_splits)
  with ns demo_parsed demo_lowered show ?thesis by simp
qed

end
