(* ===== verification/Egress_Roundtrip.thy ===== *)
theory Egress_Roundtrip
  imports Egress_Text
begin

text \<open>
  Networks that are written are read back as they were (\<^verbatim>\<open>host/network/address.rs\<close>): decimal and
  hexadecimal numbers, dotted addresses, and the groups of IPv6 addresses with the run of zeros that
  their text leaves out.
\<close>

section \<open>Parts between separators\<close>

lemma split_on_parts: "c \<notin> set part \<Longrightarrow> split_on c (part @ c # rest) = part # split_on c rest"
  by (induction part) auto

lemma split_on_one: "c \<notin> set part \<Longrightarrow> split_on c part = [part]"
  by (induction part) auto

lemma split_on_join: "parts \<noteq> [] \<Longrightarrow> \<forall>part\<in>set parts. c \<notin> set part \<Longrightarrow> split_on c (join [c] parts) = parts"
  by (induction "[c]" parts rule: join.induct) (simp_all add: split_on_one split_on_parts)

lemma join_split_on: "join [c] (split_on c bs) = bs"
proof (induction bs)
  case (Cons b bs)
  obtain part parts where s: "split_on c bs = part # parts" by (cases "split_on c bs") auto
  with Cons show ?case by (cases parts) auto
qed simp

lemma set_join: "set (join sep parts) \<subseteq> set sep \<union> (\<Union>part\<in>set parts. set part)"
  by (induction sep parts rule: join.induct) auto

lemma takeWhile_part: "c \<notin> set part \<Longrightarrow> takeWhile (\<lambda>x. x \<noteq> c) (part @ c # rest) = part"
  "c \<notin> set part \<Longrightarrow> dropWhile (\<lambda>x. x \<noteq> c) (part @ c # rest) = c # rest"
  "c \<notin> set part \<Longrightarrow> dropWhile (\<lambda>x. x \<noteq> c) part = []"
  by (induction part) auto

lemma splitn_join:
  "parts \<noteq> [] \<Longrightarrow> \<forall>part\<in>set parts. c \<notin> set part \<Longrightarrow> length parts \<le> n \<Longrightarrow> splitn n c (join [c] parts) = parts"
proof (induction "[c]" parts arbitrary: n rule: join.induct)
  case (2 part)
  then show ?case by (simp add: splitn.simps [of n] takeWhile_part)
next
  case (3 part1 part2 parts)
  then show ?case by (simp add: splitn.simps [of n] takeWhile_part)
qed simp

lemma length_join: "\<forall>part\<in>set parts. length part \<le> k \<Longrightarrow> length (join [c] parts) \<le> length parts * (k + 1)"
  by (induction "[c]" parts rule: join.induct) (auto simp: algebra_simps)

lemma join_append: "xs \<noteq> [] \<Longrightarrow> ys \<noteq> [] \<Longrightarrow> join [c] (xs @ ys) = join [c] xs @ c # join [c] ys"
  by (induction "[c]" xs rule: join.induct) (auto simp: neq_Nil_conv)

section \<open>Numbers\<close>

lemma digit_word: "d < 10 \<Longrightarrow> unat ((word_of_nat (48 + d) :: u8) - 0x30) = d \<and> is_digit (word_of_nat (48 + d))"
proof -
  assume "d < 10"
  then have "unat (word_of_nat (48 + d) :: u8) = 48 + d" by (simp only: unat_of_nat) simp
  then show ?thesis using \<open>d < 10\<close> by (simp only: is_digit_def word_le_nat_alt unat_sub_no_wrap) (simp add: unat_of_nat)
qed

lemma decimal_digits: "list_all is_digit (decimal n)" "decimal n \<noteq> []" "digits_value (decimal n) = n"
proof -
  have "list_all is_digit (decimal n) \<and> decimal n \<noteq> [] \<and> digits_value (decimal n) = n"
  proof (induction n rule: decimal.induct)
    case (1 n)
    then show ?case
      using digit_word [of n] digit_word [of "n mod 10"] by (auto simp: decimal.simps [of n] digits_value_def)
  qed
  then show "list_all is_digit (decimal n)" "decimal n \<noteq> []" "digits_value (decimal n) = n" by auto
qed

lemma decimal_hd: "0 < n \<Longrightarrow> hd (decimal n) \<noteq> 0x30"
proof (induction n rule: decimal.induct)
  case (1 n)
  have "(word_of_nat (48 + n) :: u8) \<noteq> 0x30" if "n < 10"
    using digit_word [OF that] 1(2) by (metis diff_self unat_0 not_gr_zero)
  then show ?case using 1 decimal_digits(2) [of "n div 10"] by (auto simp: decimal.simps [of n])
qed

lemma decimal_length: "n < 1000 \<Longrightarrow> length (decimal n) \<le> 3"
  by (simp add: decimal.simps [of n] decimal.simps [of "n div 10"] decimal.simps [of "n div 10 div 10"])

lemma decimal_zero: "decimal 0 = [0x30]"
  by (simp add: decimal.simps [of 0])

lemma decimal_prefix: "p \<le> maximum \<Longrightarrow> maximum < 1000 \<Longrightarrow> prefix_from_prefix_string (decimal p) maximum = Some p"
  using decimal_digits [of p] decimal_length [of p] decimal_hd [of p]
  by (cases "p = 0"; cases "decimal p")
    (auto simp: prefix_from_prefix_string_def Let_def decimal_zero digits_value_def)

section \<open>Dotted addresses\<close>

lemma digit_not: "list_all is_digit ds \<Longrightarrow> \<not> is_digit c \<Longrightarrow> c \<notin> set ds"
  by (auto simp: list_all_iff)

lemma parse_octet:
  assumes "v < 256"
  shows "parse_octets (Suc n) (decimal v # parts) address = parse_octets n parts (push_bit 8 address OR word_of_nat v)"
  using assms decimal_digits [of v] decimal_length [of v] decimal_hd [of v]
  by (cases "v = 0") (simp_all add: decimal_zero ascii_def digits_value_def)

lemma push_drop: "push_bit n (drop_bit n w) OR (w AND mask n) = (w :: 'a::len word)"
  by (rule bit_eqI) (auto simp: bit_simps not_less)

lemma octets_join:
  fixes a :: u32
  shows "push_bit 8 (push_bit 8 (push_bit 8 (push_bit 8 0 OR (drop_bit 24 a AND 0xff)) OR (drop_bit 16 a AND 0xff)) OR
    (drop_bit 8 a AND 0xff)) OR (a AND 0xff) = a"
proof -
  have m: "(0xff :: u32) = mask 8" by (simp add: mask_eq_exp_minus_1)
  have top: "drop_bit 24 a AND mask 8 = drop_bit 24 a" by (rule bit_eqI) (auto simp: bit_simps dest: bit_imp_le_length)
  have d: "drop_bit 24 a = drop_bit 8 (drop_bit 16 a)" "drop_bit 16 a = drop_bit 8 (drop_bit 8 a)"
    by (simp_all only: drop_bit_drop_bit) simp_all
  have z: "push_bit 8 0 OR b = b" for b :: u32 by simp
  show ?thesis unfolding m z top unfolding d push_drop ..
qed

lemma parse_ipv4_text: "parse_ipv4 (ipv4_text a) = Some a"
proof -
  have o: "octets a = [unat (drop_bit 24 a AND 0xff), unat (drop_bit 16 a AND 0xff), unat (drop_bit 8 a AND 0xff), unat (a AND 0xff)]"
    by (simp add: octets_def upt_rec)
  have lt: "unat (x AND 0xff) < 256" for x :: u32
    using word_and_le1 [of x "0xff"] by (simp add: word_le_nat_alt)
  have "\<forall>part\<in>set (map decimal (octets a)). 0x2E \<notin> set part"
    using decimal_digits(1) digit_not [where c = "0x2E"] by (auto simp: is_digit_def)
  then have s: "split_on 0x2E (ipv4_text a) = map decimal (octets a)"
    unfolding ipv4_text_def using split_on_join [of "map decimal (octets a)" "0x2E"] by (simp add: o ascii_def)
  have w: "word_of_nat (unat x) = x" for x :: u32 by simp
  have four: "(4 :: nat) = Suc (Suc (Suc (Suc 0)))" by simp
  show ?thesis
    unfolding parse_ipv4_def s o list.map four parse_octet [OF lt] w octets_join by simp
qed

section \<open>Groups\<close>

definition hex_bytes :: "u8 set" where
  "hex_bytes = {b. is_digit b \<or> 0x61 \<le> b \<and> b \<le> 0x66}"

lemma hex_digit_range:
  assumes "v < 16"
  shows "hex_digit v \<in> hex_bytes" "to_digit16 (hex_digit v) = Some (ucast v)"
proof -
  have "digit_value (hex_digit v) = Some v" using assms hex_digits by blast
  then show "hex_digit v \<in> hex_bytes" "to_digit16 (hex_digit v) = Some (ucast v)"
    by (auto simp: digit_value_def hex_bytes_def to_digit16_def is_digit_def split: if_splits)
qed

lemma hextet_append: "hextet v (ds @ [d]) = Option.bind (hextet v ds) (\<lambda>w. Option.bind (to_digit16 d) (\<lambda>x. Some (push_bit 4 w OR x)))"
proof (induction ds arbitrary: v)
  case (Cons e ds)
  then show ?case by (cases "to_digit16 e") simp_all
qed simp

lemma push_or_add:
  fixes x :: "'a::len word"
  assumes "unat y < 2 ^ k"
  shows "push_bit k x OR y = push_bit k x + y"
proof (rule disjunctive_add [symmetric])
  have "take_bit k y = y" using assms by (simp add: word_unat_eq_iff unsigned_take_bit_eq take_bit_nat_eq_self)
  then show "\<not> bit (push_bit k x) i \<or> \<not> bit y i" for i by (metis bit_push_bit_iff bit_take_bit_iff not_less)
qed

lemma nibble: "unat (word_of_nat (n mod 16) :: u8) = n mod 16" "(word_of_nat (n mod 16) :: u8) < 16"
  by (simp_all add: unat_of_nat word_less_nat_alt)

lemma nibble_join: "push_bit 4 (word_of_nat (n div 16)) OR ucast (word_of_nat (n mod 16) :: u8) = (word_of_nat n :: u16)"
proof -
  have u: "(ucast (word_of_nat (n mod 16) :: u8) :: u16) = word_of_nat (n mod 16)"
    by (simp add: word_unat_eq_iff unsigned_ucast_eq unat_of_nat take_bit_eq_mod)
  have "push_bit 4 (word_of_nat (n div 16)) OR word_of_nat (n mod 16) =
      push_bit 4 (word_of_nat (n div 16)) + (word_of_nat (n mod 16) :: u16)"
    by (rule push_or_add) (simp add: unat_of_nat)
  also have "\<dots> = word_of_nat (n div 16 * 16 + n mod 16)"
    by (simp only: of_nat_add of_nat_mult push_bit_eq_mult) simp
  finally show ?thesis by (simp add: u)
qed

lemma hexadecimal_digits:
  "set (hexadecimal n) \<subseteq> hex_bytes" "hexadecimal n \<noteq> []" "hextet 0 (hexadecimal n) = Some (word_of_nat n)"
proof -
  have "set (hexadecimal n) \<subseteq> hex_bytes \<and> hexadecimal n \<noteq> [] \<and> hextet 0 (hexadecimal n) = Some (word_of_nat n)"
  proof (induction n rule: hexadecimal.induct)
    case (1 n)
    note h = hex_digit_range [OF nibble(2) [of n]]
    show ?case
    proof (cases "n < 16")
      case True
      then show ?thesis using h nibble_join [of n] by (simp add: hexadecimal.simps [of n])
    next
      case False
      then show ?thesis using 1 h nibble_join [of n] by (simp add: hexadecimal.simps [of n] hextet_append)
    qed
  qed
  then show "set (hexadecimal n) \<subseteq> hex_bytes" "hexadecimal n \<noteq> []" "hextet 0 (hexadecimal n) = Some (word_of_nat n)" by auto
qed

lemma hexadecimal_length: "n < 65536 \<Longrightarrow> length (hexadecimal n) \<le> 4"
  by (simp add: hexadecimal.simps [of n] hexadecimal.simps [of "n div 16"] hexadecimal.simps [of "n div 16 div 16"]
    hexadecimal.simps [of "n div 16 div 16 div 16"])

definition group_text :: "u16 \<Rightarrow> bytes" where
  "group_text g = hexadecimal (unat g)"

lemma group_text_props:
  "set (group_text g) \<subseteq> hex_bytes" "group_text g \<noteq> []" "length (group_text g) \<le> 4" "part_value (PartText (group_text g)) = Some g"
  using hexadecimal_digits [of "unat g"] hexadecimal_length [of "unat g"] unat_bound [of g]
  by (simp_all add: group_text_def not_less)

lemma push_groups_text:
  "push_groups (map (\<lambda>g. PartText (group_text g)) gs) a = Some (foldl (\<lambda>a g. push_bit 16 a OR ucast g) a gs)"
  by (induction gs arbitrary: a) (simp_all add: group_text_props del: part_value.simps)

lemma push_groups_append: "push_groups (ps @ qs) a = Option.bind (push_groups ps a) (push_groups qs)"
  by (induction ps arbitrary: a) simp_all

lemma join_group: "push_bit 16 (drop_bit 16 w) OR ucast (ucast w :: u16) = (w :: u128)"
proof -
  have "(ucast (ucast w :: u16) :: u128) = w AND mask 16"
    by (rule bit_eqI) (auto simp: bit_simps)
  then show ?thesis by (simp only: push_drop)
qed

lemma groups_prefix:
  "k \<le> 8 \<Longrightarrow> foldl (\<lambda>a g. push_bit 16 a OR ucast g) 0 (take k (groups_of a)) = drop_bit (128 - 16 * k) a"
proof (induction k)
  case 0
  have "drop_bit 128 a = 0" by (rule bit_eqI) (auto simp: bit_simps dest: bit_imp_le_length)
  then show ?case by simp
next
  case (Suc k)
  then have k: "k < 8" by simp
  have "take (Suc k) (groups_of a) = take k (groups_of a) @ [ucast (drop_bit (112 - 16 * k) a)]"
    using k by (simp add: take_Suc_conv_app_nth groups_of_def)
  moreover have "drop_bit (128 - 16 * k) a = drop_bit 16 (drop_bit (112 - 16 * k) a)"
    using k by (simp add: drop_bit_drop_bit)
  ultimately show ?case using Suc k join_group [of "drop_bit (112 - 16 * k) a"] by simp
qed

lemma groups_join: "foldl (\<lambda>a g. push_bit 16 a OR ucast g) 0 (groups_of a) = a"
  using groups_prefix [of 8 a] by (simp add: groups_of_def)

lemma groups_zeros: "foldl (\<lambda>a g. push_bit 16 a OR ucast g) a (replicate n (0 :: u16)) = push_bit (16 * n) (a :: u128)"
  by (induction n arbitrary: a) (simp_all add: push_bit_push_bit add.commute)

lemma checked_shl_push: "(case checked_shl a n of Some b \<Rightarrow> b | None \<Rightarrow> 0) = push_bit n a"
proof (cases "n < 128")
  case False
  then have "push_bit n a = 0" by (intro bit_eqI) (auto simp: bit_simps)
  with False show ?thesis by (simp add: checked_shl_def)
qed (simp add: checked_shl_def)

section \<open>The run of zeros that the text leaves out\<close>

definition run_ok :: "u16 list \<Rightarrow> (nat \<times> nat) option \<Rightarrow> bool" where
  "run_ok gs r \<longleftrightarrow> (\<forall>s n. r = Some (s, n) \<longrightarrow> 2 \<le> n \<and> s + n \<le> length gs \<and> take n (drop s gs) = replicate n 0)"

lemma best_run_ok: "run_ok gs best \<Longrightarrow> run_ok gs (best_run gs index best)"
proof (induction gs index best rule: best_run.induct)
  case (1 gs index best)
  define n where "n = length (takeWhile (\<lambda>g. g = 0) (drop index gs))"
  define better where "better = (if n > (case best of None \<Rightarrow> 1 | Some (_, best_length) \<Rightarrow> best_length) then Some (index, n) else best)"
  have "take n (drop index gs) = takeWhile (\<lambda>g. g = 0) (drop index gs)" unfolding n_def by (rule takeWhile_eq_take [symmetric])
  moreover have "\<dots> = replicate n 0"
    unfolding n_def by (rule replicate_eqI) (auto dest: set_takeWhileD)
  moreover have "n \<le> length (drop index gs)" unfolding n_def by (rule length_takeWhile_le)
  ultimately have "run_ok gs better" if "index < length gs"
    using "1.prems" that by (auto simp: better_def run_ok_def split: option.splits)
  moreover have "best_run gs index best = (if index < length gs then
      if gs ! index \<noteq> 0 then best_run gs (index + 1) best else best_run gs (index + n) better else best)"
    by (simp add: best_run.simps [of gs index best] n_def better_def Let_def)
  ultimately show ?case using "1.IH" "1.prems" by (simp add: n_def better_def)
qed

lemma find_skip_none: "\<forall>i\<in>set is. \<not> part_is_empty (parts ! i) \<Longrightarrow> find_skip parts is skip = Some skip"
  by (induction "is") auto

lemma find_skip_one:
  "\<forall>i\<in>set is. part_is_empty (parts ! i) \<longleftrightarrow> i = k \<Longrightarrow> distinct is \<Longrightarrow> k \<in> set is \<Longrightarrow> find_skip parts is None = Some (Some k)"
proof (induction "is")
  case (Cons i "is")
  then show ?case by (cases "i = k") (auto intro!: find_skip_none)
qed simp

text \<open>The parts of a text in which the groups between some first and some last ones are left out.\<close>

definition skipping :: "part list \<Rightarrow> part list \<Rightarrow> part list" where
  "skipping hs ls = (if hs = [] then [PartText []] else hs) @ PartText [] # (if ls = [] then [PartText []] else ls)"

lemma skipping_layout:
  assumes ne: "\<forall>p\<in>set hs \<union> set ls. \<not> part_is_empty p" and lt: "length hs + length ls < 8"
  shows "ipv6_layout (skipping hs ls) = Some (length hs, length ls, 8 - (length hs + length ls))"
    "length (skipping hs ls) \<le> 9" "3 \<le> length (skipping hs ls)" "take (length hs) (skipping hs ls) = hs"
    "drop (length (skipping hs ls) - length ls) (skipping hs ls) = ls"
proof -
  define L where "L = (if hs = [] then [PartText []] else hs)"
  define R where "R = (if ls = [] then [PartText []] else ls)"
  have s: "skipping hs ls = L @ PartText [] # R" by (simp add: skipping_def L_def R_def)
  have l: "0 < length L" "0 < length R" by (simp_all add: L_def R_def)
  have inner: "part_is_empty ((L @ PartText [] # R) ! i) \<longleftrightarrow> i = length L" if "1 \<le> i" "i < length L + length R" for i
  proof -
    have e: "part_is_empty (PartText [])" by (simp add: part_is_empty_def)
    consider "i < length L" | "i = length L" | j where "i = Suc (length L + j)"
      by (metis less_natE linorder_neqE_nat add_Suc_right)
    then show ?thesis
    proof cases
      case 1
      then show ?thesis using that ne by (auto simp: L_def nth_append split: if_splits)
    next
      case 2
      then show ?thesis by (simp add: e nth_append)
    next
      case (3 j)
      then show ?thesis using that ne by (auto simp: R_def nth_append split: if_splits)
    qed
  qed
  have skip: "find_skip (L @ PartText [] # R) [1..<length (L @ PartText [] # R) - 1] None = Some (Some (length L))"
    using inner l by (intro find_skip_one) (auto simp: Suc_le_eq)
  have first: "part_is_empty ((L @ PartText [] # R) ! 0) \<longleftrightarrow> hs = []"
    using ne by (cases hs) (simp_all add: L_def part_is_empty_def)
  have last1: "part_is_empty ((L @ PartText [] # R) ! (length (L @ PartText [] # R) - 1)) \<longleftrightarrow> ls = []"
  proof -
    have "(L @ PartText [] # R) ! (length (L @ PartText [] # R) - 1) = last R" using l by (simp add: last_conv_nth nth_append)
    then show ?thesis using ne by (cases ls rule: rev_cases) (simp_all add: R_def part_is_empty_def)
  qed
  show "ipv6_layout (skipping hs ls) = Some (length hs, length ls, 8 - (length hs + length ls))"
    unfolding s ipv6_layout_def Let_def skip using first last1 lt by (auto simp: L_def R_def)
  show "length (skipping hs ls) \<le> 9" "3 \<le> length (skipping hs ls)" "take (length hs) (skipping hs ls) = hs"
    "drop (length (skipping hs ls) - length ls) (skipping hs ls) = ls"
    using lt by (cases hs; cases ls; simp add: skipping_def)+
qed

lemma skipping_groups:
  assumes "\<forall>p\<in>set hs \<union> set ls. \<not> part_is_empty p" and "length hs + length ls < 8"
    and "push_groups hs 0 = Some h" and "push_groups ls (push_bit (16 * (8 - (length hs + length ls))) h) = Some a"
  shows "Option.bind (ipv6_layout (skipping hs ls)) (\<lambda>(high, low, skipped).
     Option.bind (push_groups (take high (skipping hs ls)) 0) (\<lambda>address.
       push_groups (drop (length (skipping hs ls) - low) (skipping hs ls))
         (case checked_shl address (16 * skipped) of Some a \<Rightarrow> a | None \<Rightarrow> 0))) = Some a"
  using assms(3,4) by (simp add: skipping_layout [OF assms(1,2)] checked_shl_push)

section \<open>IPv6 addresses\<close>

definition address_bytes :: "u8 set" where
  "address_bytes = hex_bytes \<union> {0x3A, 0x2E}"

lemma hex_bytes_free: "0x3A \<notin> hex_bytes" "0x2E \<notin> hex_bytes"
  by (simp_all add: hex_bytes_def is_digit_def)

lemma address_bytes_free: "0x25 \<notin> address_bytes" "0x2F \<notin> address_bytes"
  by (simp_all add: address_bytes_def hex_bytes_def is_digit_def)

lemma address_bytes_ascii: "b \<in> address_bytes \<Longrightarrow> b < 0x80"
  by (auto simp: address_bytes_def hex_bytes_def is_digit_def word_le_nat_alt word_less_nat_alt)

lemma parts_text:
  assumes "\<forall>part\<in>set parts. set part \<subseteq> hex_bytes \<union> {0x2E}" and "parts \<noteq> []"
  shows "set (join [0x3A] parts) \<subseteq> address_bytes" "length parts \<le> 10 \<Longrightarrow> splitn 10 0x3A (join [0x3A] parts) = parts"
proof -
  show "set (join [0x3A] parts) \<subseteq> address_bytes"
    using set_join [of "[0x3A]" parts] assms(1) by (fastforce simp: address_bytes_def)
  have "0x3A \<notin> set part" if "part \<in> set parts" for part
    using assms(1) that hex_bytes_free by fastforce
  then show "length parts \<le> 10 \<Longrightarrow> splitn 10 0x3A (join [0x3A] parts) = parts"
    using assms(2) by (intro splitn_join) auto
qed

lemma parse_ipv6_parts:
  assumes "\<forall>part\<in>set parts. set part \<subseteq> hex_bytes \<union> {0x2E}" and "3 \<le> length parts" and "length parts \<le> 9"
    and "length (join [0x3A] parts) \<le> 45" and "embed_ipv4 (map PartText parts) = Some embedded" and "length embedded \<le> 9"
  shows "parse_ipv6 (join [0x3A] parts) = Option.bind (ipv6_layout embedded) (\<lambda>(high, low, skipped).
     Option.bind (push_groups (take high embedded) 0) (\<lambda>address.
       push_groups (drop (length embedded - low) embedded)
         (case checked_shl address (16 * skipped) of Some a \<Rightarrow> a | None \<Rightarrow> 0)))"
proof -
  have ne: "parts \<noteq> []" using assms(2) by auto
  have "join [0x3A] parts \<noteq> []" using assms(2) by (cases parts; cases "tl parts") auto
  moreover have "list_all (\<lambda>b. b < 0x80) (join [0x3A] parts)"
    using parts_text(1) [OF assms(1) ne] address_bytes_ascii by (auto simp: list_all_iff)
  ultimately show ?thesis
    using parts_text(2) [OF assms(1) ne] assms(2-6) by (simp add: parse_ipv6_def Let_def not_less)
qed

definition group_texts :: "u16 list \<Rightarrow> bytes list" where
  "group_texts gs = map group_text gs"

lemma write_groups_eq: "write_groups gs = join [0x3A] (group_texts gs)"
  by (simp add: write_groups_def group_texts_def group_text_def [abs_def] ascii_def)

lemma group_texts_hex: "part \<in> set (group_texts gs) \<Longrightarrow> set part \<subseteq> hex_bytes \<and> part \<noteq> [] \<and> length part \<le> 4"
  using group_text_props by (auto simp: group_texts_def)

lemma embed_hex: "parts \<noteq> [] \<Longrightarrow> 0x2E \<notin> set (last parts) \<Longrightarrow> embed_ipv4 (map PartText parts) = Some (map PartText parts)"
  by (simp add: embed_ipv4_def last_map)

lemma parse_ipv6_full:
  assumes "length gs = 8"
  shows "parse_ipv6 (write_groups gs) = Some (foldl (\<lambda>a g. push_bit 16 a OR ucast g) 0 gs)"
proof -
  have l: "length (group_texts gs) = 8" using assms by (simp add: group_texts_def)
  have ne: "group_texts gs \<noteq> []" using l by auto
  have hex: "\<forall>part\<in>set (group_texts gs). set part \<subseteq> hex_bytes \<union> {0x2E}" using group_texts_hex by blast
  have "last (group_texts gs) \<in> set (group_texts gs)" using ne by simp
  then have "set (last (group_texts gs)) \<subseteq> hex_bytes" using group_texts_hex by blast
  then have e: "embed_ipv4 (map PartText (group_texts gs)) = Some (map PartText (group_texts gs))"
    using ne hex_bytes_free by (intro embed_hex) auto
  have n: "length (join [0x3A] (group_texts gs)) \<le> 45"
    using length_join [of "group_texts gs" 4 "0x3A"] group_texts_hex l by fastforce
  have g: "map PartText (group_texts gs) = map (\<lambda>g. PartText (group_text g)) gs" by (simp add: group_texts_def)
  have "\<forall>i<8. \<not> part_is_empty (map PartText (group_texts gs) ! i)"
    using assms group_text_props(2) by (auto simp: g part_is_empty_def)
  then have "ipv6_layout (map PartText (group_texts gs)) = Some (8, 0, 0)"
    unfolding ipv6_layout_def Let_def using l by (subst find_skip_none) auto
  then show ?thesis
    using assms l by (simp add: write_groups_eq parse_ipv6_parts [OF hex _ _ n e] g push_groups_text checked_shl_push)
qed

lemma parse_ipv6_compressed:
  assumes "length xs + length ys < 8"
  shows "parse_ipv6 (write_groups xs @ ascii ''::'' @ write_groups ys) =
    Some (foldl (\<lambda>a g. push_bit 16 a OR ucast g) 0 (xs @ replicate (8 - (length xs + length ys)) 0 @ ys))"
proof -
  define L where "L = (if xs = [] then [[]] else group_texts xs)"
  define R where "R = (if ys = [] then [[]] else group_texts ys)"
  define hs where "hs = map (\<lambda>g. PartText (group_text g)) xs"
  define ls where "ls = map (\<lambda>g. PartText (group_text g)) ys"
  have t: "write_groups xs @ ascii ''::'' @ write_groups ys = join [0x3A] (L @ [] # R)"
  proof -
    have "join [0x3A] L = write_groups xs" "L \<noteq> []" by (auto simp: L_def write_groups_eq group_texts_def)
    moreover have "join [0x3A] ([] # R) = 0x3A # write_groups ys"
      by (cases R) (auto simp: R_def write_groups_eq group_texts_def split: if_splits)
    ultimately show ?thesis by (simp add: join_append ascii_def)
  qed
  have hex: "\<forall>part\<in>set (L @ [] # R). set part \<subseteq> hex_bytes \<and> length part \<le> 4"
    using group_texts_hex by (auto simp: L_def R_def)
  then have hex2: "\<forall>part\<in>set (L @ [] # R). set part \<subseteq> hex_bytes \<union> {0x2E}" by blast
  have p: "map PartText (L @ [] # R) = skipping hs ls" by (simp add: skipping_def hs_def ls_def L_def R_def group_texts_def)
  have "last (L @ [] # R) \<in> set (L @ [] # R)" by (rule last_in_set) simp
  then have e: "embed_ipv4 (map PartText (L @ [] # R)) = Some (skipping hs ls)"
    unfolding p [symmetric] using hex hex_bytes_free by (intro embed_hex) auto
  have ne: "\<forall>p\<in>set hs \<union> set ls. \<not> part_is_empty p" 
    using group_text_props(2) [THEN not_sym] by (auto simp: hs_def ls_def part_is_empty_def group_text_props(2))
  have lt: "length hs + length ls < 8" using assms by (simp add: hs_def ls_def)
  note layout = skipping_layout [OF ne lt]
  have len: "length (L @ [] # R) = length (skipping hs ls)" using arg_cong [OF p, of length] by simp
  have n: "length (join [0x3A] (L @ [] # R)) \<le> 45"
    using length_join [of "L @ [] # R" 4 "0x3A"] hex layout(2) len by fastforce
  show ?thesis unfolding t
    by (subst parse_ipv6_parts [OF hex2 _ _ n e], (use layout len in \<open>simp_all only:\<close>)[3])
      (rule skipping_groups [OF ne lt], simp_all add: hs_def ls_def push_groups_text groups_zeros)
qed

lemma ipv4_text_bytes: "set (ipv4_text a) \<subseteq> hex_bytes \<union> {0x2E}" "0x2E \<in> set (ipv4_text a)" "length (ipv4_text a) \<le> 16"
proof -
  have o: "octets a = [unat (drop_bit 24 a AND 0xff), unat (drop_bit 16 a AND 0xff), unat (drop_bit 8 a AND 0xff), unat (a AND 0xff)]"
    by (simp add: octets_def upt_rec)
  have "set (decimal n) \<subseteq> hex_bytes" for n using decimal_digits(1) [of n] by (auto simp: list_all_iff hex_bytes_def)
  then show "set (ipv4_text a) \<subseteq> hex_bytes \<union> {0x2E}"
    using set_join [of "[0x2E]" "map decimal (octets a)"] by (fastforce simp: ipv4_text_def ascii_def)
  show "0x2E \<in> set (ipv4_text a)" by (simp add: ipv4_text_def o ascii_def)
  have "unat (x AND 0xff) < 1000" for x :: u32
    using word_and_le1 [of x "0xff"] by (simp add: word_le_nat_alt)
  then have "\<forall>part\<in>set (map decimal (octets a)). length part \<le> 3" using decimal_length by (simp add: o)
  from length_join [OF this, of "0x2E"] show "length (ipv4_text a) \<le> 16" by (simp add: ipv4_text_def ascii_def o)
qed

lemma mapped_value:
  fixes a :: u128
  assumes "drop_bit 32 a = 0xFFFF"
  defines "b \<equiv> ucast a :: u32"
  shows "push_bit 16 (push_bit 16 0xFFFF OR ucast (ucast (drop_bit 16 b) :: u16)) OR ucast (ucast b :: u16) = a"
proof -
  have "(ucast (drop_bit 16 b) :: u16) = ucast (drop_bit 16 a)" "(ucast b :: u16) = ucast a"
    by (rule bit_eqI; auto simp: b_def bit_simps)+
  moreover have "drop_bit 16 (drop_bit 16 a) = 0xFFFF" using assms(1) by (simp add: drop_bit_drop_bit)
  ultimately show ?thesis using join_group [of "drop_bit 16 a"] join_group [of a] by simp
qed

lemma parse_ipv6_mapped:
  assumes "drop_bit 32 a = 0xFFFF"
  shows "parse_ipv6 (ascii ''::ffff:'' @ ipv4_text (ucast a)) = Some a"
proof -
  define b where "b = (ucast a :: u32)"
  define ls where "ls = [PartText (ascii ''ffff''), PartGroup (ucast (drop_bit 16 b)), PartGroup (ucast b)]"
  define parts where "parts = [[], [], ascii ''ffff'', ipv4_text b]"
  have t: "ascii ''::ffff:'' @ ipv4_text b = join [0x3A] parts" by (simp add: parts_def ascii_def)
  have "set (ascii ''ffff'') \<subseteq> hex_bytes" by (simp add: ascii_def hex_bytes_def)
  then have hex: "\<forall>part\<in>set parts. set part \<subseteq> hex_bytes \<union> {0x2E}" using ipv4_text_bytes(1) by (auto simp: parts_def)
  have n: "length (join [0x3A] parts) \<le> 45" using ipv4_text_bytes(3) [of b] unfolding t [symmetric] by (simp add: ascii_def)
  have e: "embed_ipv4 (map PartText parts) = Some (skipping [] ls)"
    using ipv4_text_bytes(2) by (simp add: embed_ipv4_def parts_def skipping_def ls_def parse_ipv4_text)
  have ne: "\<forall>p\<in>set [] \<union> set ls. \<not> part_is_empty p" by (simp add: ls_def part_is_empty_def ascii_def)
  have lt: "length [] + length ls < 8" by (simp add: ls_def)
  have f: "part_value (PartText (ascii ''ffff'')) = Some 0xFFFF" by code_simp
  have v: "push_groups ls (push_bit (16 * (8 - (length ([] :: part list) + length ls))) 0) = Some a"
    using mapped_value [OF assms] by (simp add: ls_def f b_def del: part_value.simps(2))
  show ?thesis unfolding b_def [symmetric] t
    by (subst parse_ipv6_parts [OF hex _ _ n e], (simp_all add: parts_def skipping_def ls_def)[3])
      (rule skipping_groups [OF ne lt _ v], simp)
qed

lemma write_ipv6_roundtrip: "parse_ipv6 (write_ipv6 a) = Some a"
proof (cases "drop_bit 32 a = 0xFFFF")
  case True
  then show ?thesis using parse_ipv6_mapped by (simp add: write_ipv6_def)
next
  case False
  have l: "length (groups_of a) = 8" by (simp add: groups_of_def)
  show ?thesis
  proof (cases "best_run (groups_of a) 0 None")
    case None
    with False show ?thesis using parse_ipv6_full [OF l] groups_join by (simp add: write_ipv6_def Let_def)
  next
    case (Some r)
    obtain s n where r: "r = (s, n)" by (cases r)
    have "run_ok (groups_of a) (Some (s, n))"
      using best_run_ok [of "groups_of a" None 0] Some r by (simp add: run_ok_def)
    then have ok: "2 \<le> n" "s + n \<le> 8" "take n (drop s (groups_of a)) = replicate n 0" by (simp_all add: run_ok_def l)
    have "groups_of a = take s (groups_of a) @ take n (drop s (groups_of a)) @ drop (s + n) (groups_of a)"
      by (metis append_take_drop_id drop_drop add.commute)
    then have g: "take s (groups_of a) @ replicate n 0 @ drop (s + n) (groups_of a) = groups_of a" using ok(3) by simp
    have len: "length (take s (groups_of a)) + length (drop (s + n) (groups_of a)) = 8 - n" using ok l by simp
    from parse_ipv6_compressed [of "take s (groups_of a)" "drop (s + n) (groups_of a)"] ok(1,2)
    show ?thesis unfolding len using False Some r g groups_join [of a] by (simp add: write_ipv6_def Let_def)
  qed
qed

lemma write_ipv6_bytes: "set (write_ipv6 a) \<subseteq> address_bytes" "0x3A \<in> set (write_ipv6 a)"
proof -
  have g: "set (write_groups gs) \<subseteq> address_bytes" for gs
    using set_join [of "[0x3A]" "group_texts gs"] group_texts_hex [of _ gs]
    by (fastforce simp: write_groups_eq address_bytes_def)
  moreover have "set (ipv4_text b) \<subseteq> address_bytes" for b using ipv4_text_bytes(1) [of b] by (auto simp: address_bytes_def)
  moreover have "set (ascii ''::ffff:'') \<subseteq> address_bytes" "set (ascii ''::'') \<subseteq> address_bytes"
    by (simp_all add: ascii_def address_bytes_def hex_bytes_def)
  ultimately show "set (write_ipv6 a) \<subseteq> address_bytes" by (auto simp: write_ipv6_def Let_def split: option.splits)
  have "0x3A \<in> set (write_groups (groups_of a))" by (simp add: write_groups_def groups_of_def upt_rec ascii_def)
  then show "0x3A \<in> set (write_ipv6 a)" by (auto simp: write_ipv6_def Let_def ascii_def split: option.splits)
qed

section \<open>Networks\<close>

lemma parse_octets_digits: "parse_octets n parts a = Some b \<Longrightarrow> part \<in> set parts \<Longrightarrow> list_all is_digit part"
  by (induction n parts a rule: parse_octets.induct) (auto simp: Let_def split: if_splits)

lemma parse_ipv4_none: "0x3A \<in> set bs \<Longrightarrow> parse_ipv4 bs = None"
proof (rule ccontr)
  assume c: "0x3A \<in> set bs" "parse_ipv4 bs \<noteq> None"
  then obtain b where "parse_octets 4 (split_on 0x2E bs) 0 = Some b" by (auto simp: parse_ipv4_def)
  then have d: "list_all is_digit part" if "part \<in> set (split_on 0x2E bs)" for part using that by (rule parse_octets_digits)
  have "set bs \<subseteq> {0x2E} \<union> (\<Union>part\<in>set (split_on 0x2E bs). set part)"
    using set_join [of "[0x2E]" "split_on 0x2E bs"] by (simp add: join_split_on)
  with c(1) obtain part where "part \<in> set (split_on 0x2E bs)" "0x3A \<in> set part" by auto
  from d [OF this(1)] this(2) show False by (auto simp: list_all_iff is_digit_def)
qed

lemma split_netmask_text:
  assumes "0x2F \<notin> set address"
  shows "split_netmask (address @ ascii ''/'' @ decimal p) = Some (address, Some (decimal p))"
proof -
  have "0x2F \<notin> set (decimal p)" using digit_not [OF decimal_digits(1)] by (simp add: is_digit_def)
  then show ?thesis using assms by (simp add: split_netmask_def ascii_def split_on_parts split_on_one)
qed

lemma network_new_again: "network_new f (nw_address (network_new f a p)) p = network_new f a p"
proof -
  have "(a AND NOT m) AND NOT m = a AND NOT m" for m :: u128 by (simp add: and.assoc)
  then show ?thesis by (simp add: network_new_def Let_def host_mask_def)
qed

lemma network_text_read:
  assumes "p \<le> family_bits f" and "a \<le> last_address f"
  shows "parse_interface (network_text (network_new f a p)) = Inr (network_new f a p)"
proof -
  define n where "n = network_new f a p"
  have f: "nw_family n = f" and p: "unat (nw_prefix n) = p"
    using assms(1) family_bits_le(1) [of f] by (simp_all add: n_def network_new_def Let_def unat_of_nat)
  have again: "network_new f (nw_address n) p = n" unfolding n_def by (rule network_new_again)
  show ?thesis
  proof (cases f)
    case FamilyV4
    have "unat (nw_address n) < 2 ^ 32"
    proof -
      have "nw_address n \<le> a" by (simp add: n_def network_new_def Let_def word_and_le2)
      then show ?thesis
        using assms(2) FamilyV4 unat_last_address [of f] by (simp add: word_le_nat_alt family_bits_def)
    qed
    then have u: "ucast (ucast (nw_address n) :: u32) = nw_address n"
      by (simp add: word_unat_eq_iff unsigned_ucast_eq unsigned_take_bit_eq take_bit_nat_eq_self)
    have "0x2F \<notin> set (ipv4_text b)" for b using ipv4_text_bytes(1) [of b] by (auto simp: hex_bytes_def is_digit_def)
    then have "parse_ipv4_interface (network_text n) = Some n"
      using assms(1) again u parse_ipv4_text FamilyV4 f p
      by (simp add: parse_ipv4_interface_def network_text_def split_netmask_text decimal_prefix family_bits_def)
    then show ?thesis by (simp add: parse_interface_def flip: n_def)
  next
    case FamilyV6
    have s: "0x2F \<notin> set (write_ipv6 b)" "0x25 \<notin> set (write_ipv6 b)" for b
      using write_ipv6_bytes(1) [of b] address_bytes_free by auto
    have "parse_ipv4_interface (network_text n) = None"
      using s write_ipv6_bytes(2) FamilyV6 f
      by (simp add: parse_ipv4_interface_def network_text_def split_netmask_text parse_ipv4_none)
    moreover have "parse_ipv6_interface (network_text n) = Some (n, False)"
      using s write_ipv6_roundtrip assms(1) again FamilyV6 f p
      by (simp add: parse_ipv6_interface_def network_text_def split_netmask_text decimal_prefix family_bits_def)
    ultimately show ?thesis by (simp add: parse_interface_def flip: n_def)
  qed
qed

text \<open>
  C14. A network that is written is read back as it was, whatever its family, address and prefix length:
  dotted octets, hexadecimal groups with the longest run of zero groups left out, and the dotted form of an
  IPv4-mapped address all denote the address that they were written for.
\<close>

theorem network_text_roundtrip:
  assumes "p \<le> family_bits f" and "a \<le> last_address f"
  shows "parse_interface (network_text (network_new f a p)) = Inr (network_new f a p)"
  using assms by (rule network_text_read)

lemma demo_network_text:
  "network_text (network_new FamilyV6 0x20010db8000000000000000000000001 128) = ascii ''2001:db8::1/128''"
  by code_simp

theorem network_text_roundtrip_witness:
  "128 \<le> family_bits FamilyV6 \<and> 0x20010db8000000000000000000000001 \<le> last_address FamilyV6 \<and>
   parse_interface (ascii ''2001:db8::1/128'') = Inr (network_new FamilyV6 0x20010db8000000000000000000000001 128)"
proof -
  have h: "128 \<le> family_bits FamilyV6" "0x20010db8000000000000000000000001 \<le> last_address FamilyV6"
    by (simp_all add: family_bits_def last_address_def)
  from network_text_roundtrip [OF h] h show ?thesis unfolding demo_network_text by blast
qed

end
