(* ===== verification/Egress_Render.thy ===== *)
theory Egress_Render
  imports Egress_Exact Egress_Roundtrip
begin

text \<open>
  The text of a native rule says which rule it is: no two native rules that the lowering can make are
  written the same way, so that what OpenVMM is told is what was meant.
\<close>

section \<open>The parts of a rule's text\<close>

definition address_text :: "network \<Rightarrow> bytes" where
  "address_text n =
     (case nw_family n of FamilyV4 \<Rightarrow> ipv4_text (ucast (nw_address n)) | FamilyV6 \<Rightarrow> write_ipv6 (nw_address n))"

definition ports_text :: "port_range \<Rightarrow> bytes" where
  "ports_text r =
     join [0x2D] (map (\<lambda>q. decimal (unat q)) (if fst r = snd r then [fst r] else [fst r, snd r]))"

definition rule_parts :: "native_rule \<Rightarrow> bytes list" where
  "rule_parts r =
     decimal (unat (nw_prefix (fst r))) #
       (case fst (snd r) of
          None \<Rightarrow> []
        | Some p \<Rightarrow> protocol_text p # (case snd (snd r) of None \<Rightarrow> [] | Some range1 \<Rightarrow> [ports_text range1]))"

lemma decimal_eq: "decimal m = decimal n \<longleftrightarrow> m = n"
  using decimal_digits(3) by metis

lemma decimal_free: "\<not> is_digit c \<Longrightarrow> c \<notin> set (decimal n)"
  by (rule digit_not [OF decimal_digits(1)])

lemma network_text_parts: "network_text n = address_text n @ 0x2F # decimal (unat (nw_prefix n))"
  by (simp add: network_text_def address_text_def ascii_def)

lemma render_parts: "render r = address_text (fst r) @ 0x2F # join [0x3A] (rule_parts r)"
  by (cases r rule: render.cases)
    (simp_all add: network_text_parts rule_parts_def ports_text_def ascii_def)

lemma address_text_free: "0x2F \<notin> set (address_text n)"
proof (cases "nw_family n")
  case FamilyV4
  then show ?thesis
    using ipv4_text_bytes(1) [of "ucast (nw_address n)"] by (auto simp: address_text_def hex_bytes_def is_digit_def)
next
  case FamilyV6
  then show ?thesis
    using write_ipv6_bytes(1) [of "nw_address n"] address_bytes_free by (auto simp: address_text_def)
qed

lemma ports_text_parts:
  "split_on 0x2D (ports_text r) = map (\<lambda>q. decimal (unat q)) (if fst r = snd r then [fst r] else [fst r, snd r])"
  unfolding ports_text_def by (rule split_on_join) (simp_all add: decimal_free is_digit_def)

lemma ports_text_eq: "ports_text r = ports_text s \<longleftrightarrow> r = s"
proof
  assume "ports_text r = ports_text s"
  then have "split_on 0x2D (ports_text r) = split_on 0x2D (ports_text s)" by simp
  then show "r = s"
    unfolding ports_text_parts by (auto simp: decimal_eq prod_eq_iff word_unat_eq_iff split: if_splits)
qed simp

lemma ports_text_free: "0x3A \<notin> set (ports_text r)"
  by (auto simp: ports_text_def decimal_free is_digit_def)

lemma protocol_text_eq: "protocol_text p = protocol_text q \<longleftrightarrow> p = q"
  by (cases p; cases q) (simp_all add: ascii_def)

lemma rule_parts_split: "split_on 0x3A (join [0x3A] (rule_parts r)) = rule_parts r"
proof (rule split_on_join)
  have "0x3A \<notin> set (protocol_text p)" for p by (cases p) (simp_all add: ascii_def)
  then show "\<forall>part\<in>set (rule_parts r). 0x3A \<notin> set part"
    by (auto simp: rule_parts_def decimal_free is_digit_def ports_text_free split: option.splits)
qed (simp add: rule_parts_def)

lemma render_eq:
  assumes ok: "native_ok r" "native_ok s" and eq: "render r = render s"
  shows "r = s"
proof -
  have "takeWhile (\<lambda>x. x \<noteq> 0x2F) (render r) = takeWhile (\<lambda>x. x \<noteq> 0x2F) (render s)" by (simp add: eq)
  then have a: "address_text (fst r) = address_text (fst s)"
    unfolding render_parts using takeWhile_part [OF address_text_free] by simp
  then have "join [0x3A] (rule_parts r) = join [0x3A] (rule_parts s)" using eq by (simp add: render_parts)
  then have p: "rule_parts r = rule_parts s" using rule_parts_split by metis
  then have "decimal (unat (nw_prefix (fst r))) = decimal (unat (nw_prefix (fst s)))" by (simp add: rule_parts_def)
  with a have "network_text (fst r) = network_text (fst s)" by (simp add: network_text_parts)
  moreover have "parse_interface (network_text n) = Inr n" if "nw_made n" for n
    using that network_text_read unfolding nw_made_def by metis
  ultimately have "fst r = fst s" using ok by (metis native_ok_def nw_ok_def sum.inject(2))
  moreover have "snd r = snd s"
    using p ok by (auto simp: rule_parts_def native_ok_def prod_eq_iff protocol_text_eq ports_text_eq split: option.splits)
  ultimately show ?thesis by (simp add: prod_eq_iff)
qed

lemma map_render_eq:
  assumes "list_all native_ok rs" and "list_all native_ok ss" and "map render rs = map render ss"
  shows "rs = ss"
proof (rule map_inj_on [OF assms(3)])
  show "inj_on render (set rs \<union> set ss)"
  proof (rule inj_onI)
    fix x y assume "x \<in> set rs \<union> set ss" "y \<in> set rs \<union> set ss" "render x = render y"
    with assms(1,2) show "x = y" by (intro render_eq) (auto simp only: list_all_iff Un_iff)
  qed
qed

end
