(* ===== verification/Egress_Posture.thy ===== *)
theory Egress_Posture
  imports Egress_Rules Egress_Render
begin

text \<open>
  Network postures (\<^verbatim>\<open>host/network/mod.rs\<close>, \<^verbatim>\<open>proxy.rs\<close>, \<^verbatim>\<open>loopback.rs\<close>, \<^verbatim>\<open>arguments.rs\<close> and
  \<^verbatim>\<open>net/mod.rs\<close>): the OpenVMM options that enforce a posture, the checks of its forwards and of its proxy,
  and the DNS server that its guest learns. The properties state that the options permit exactly the
  traffic that the posture permits according to its documentation. Addresses are read as
  \<^verbatim>\<open>Ipv4Addr::from_str\<close> of the standard library reads them, which accepts the text of four decimal octets
  without leading zeros.
\<close>

section \<open>Text\<close>

text \<open>\<^verbatim>\<open>str::split_once\<close> and \<^verbatim>\<open>str::rsplit_once\<close> at one byte.\<close>

definition split_once :: "u8 \<Rightarrow> bytes \<Rightarrow> (bytes \<times> bytes) option" where
  "split_once c txt =
     (if c \<in> set txt then Some (takeWhile (\<lambda>b. b \<noteq> c) txt, tl (dropWhile (\<lambda>b. b \<noteq> c) txt)) else None)"

definition rsplit_once :: "u8 \<Rightarrow> bytes \<Rightarrow> (bytes \<times> bytes) option" where
  "rsplit_once c txt = map_option (\<lambda>(a, b). (rev b, rev a)) (split_once c (rev txt))"

text \<open>\<^verbatim>\<open>from_str\<close> of an unsigned number, which takes a leading plus sign.\<close>

definition unsigned_from_str :: "nat \<Rightarrow> bytes \<Rightarrow> nat option" where
  "unsigned_from_str maximum txt =
     (let digits = (if length txt > 1 \<and> hd txt = 0x2B then tl txt else txt)
      in if digits = [] \<or> \<not> list_all is_digit digits then None
         else (let v = digits_value digits in if v \<le> maximum then Some v else None))"

definition parse_port :: "bytes \<Rightarrow> u16 option" where
  "parse_port txt =
     (case unsigned_from_str 65535 txt of None \<Rightarrow> None | Some v \<Rightarrow> if v \<noteq> 0 then Some (word_of_nat v) else None)"

definition parse_prefix_length :: "bytes \<Rightarrow> u8 option" where
  "parse_prefix_length txt =
     (if (txt \<noteq> [] \<and> list_all is_digit txt) \<and> (length txt = 1 \<or> hd txt \<noteq> 0x30)
      then map_option word_of_nat (unsigned_from_str 255 txt) else None)"

text \<open>What a parser refuses, and why.\<close>

datatype refusal = Refused bytes bytes

section \<open>Guest networks\<close>

definition is_valid_hostname :: "bytes \<Rightarrow> bool" where
  "is_valid_hostname bs \<longleftrightarrow>
     bs \<noteq> [] \<and> length bs \<le> 63 \<and>
     list_all (\<lambda>b. (0x61 \<le> b \<and> b \<le> 0x7A) \<or> is_digit b \<or> b = 0x2D) bs \<and>
     hd bs \<noteq> 0x2D \<and> last bs \<noteq> 0x2D"

definition guest_address :: "bytes \<Rightarrow> (u32 \<times> u32) option" where
  "guest_address v =
     Option.bind (split_once 0x2F v) (\<lambda>(address, prefix_text).
     Option.bind (parse_ipv4 address) (\<lambda>host.
     Option.bind (parse_prefix_length prefix_text) (\<lambda>prefix.
       if 1 \<le> prefix \<and> prefix \<le> 30 then
         (let mask1 = push_bit (32 - unat prefix) 0xFFFFFFFF;
              net = host AND mask1
          in if host \<in> {net, net OR NOT mask1, net + 1} then None else Some (host, mask1))
       else None)))"

definition is_valid_guest_network :: "bytes \<Rightarrow> bool" where
  "is_valid_guest_network v \<longleftrightarrow> guest_address v \<noteq> None"

definition guest_gateway :: "bytes \<Rightarrow> u32 option" where
  "guest_gateway v = map_option (\<lambda>(address, mask1). (address AND mask1) + 1) (guest_address v)"

definition guest_subnet :: "bytes \<Rightarrow> interval option" where
  "guest_subnet v =
     Option.bind (split_once 0x2F v) (\<lambda>(address, prefix_text).
     Option.bind (parse_ipv4 address) (\<lambda>address.
     Option.bind (parse_prefix_length prefix_text) (\<lambda>prefix.
       if 1 \<le> prefix \<and> prefix \<le> 32 then
         (let mask1 = push_bit (32 - unat prefix) 0xFFFFFFFF;
              net = address AND mask1
          in Some (ucast net, ucast (net OR NOT mask1)))
       else None)))"

section \<open>Proxies\<close>

datatype proxy_scheme = SchemeHttp | SchemeHttps

fun scheme_text :: "proxy_scheme \<Rightarrow> bytes" where
  "scheme_text SchemeHttp = ascii ''http''"
| "scheme_text SchemeHttps = ascii ''https''"

definition scheme_from_name :: "bytes \<Rightarrow> proxy_scheme option" where
  "scheme_from_name name =
     (if name = ascii ''http'' then Some SchemeHttp else if name = ascii ''https'' then Some SchemeHttps else None)"

record network_proxy =
  px_port :: u16
  px_scheme :: "proxy_scheme option"

definition proxy_new :: "u16 \<Rightarrow> network_proxy" where
  "proxy_new p = \<lparr>px_port = p, px_scheme = None\<rparr>"

definition with_scheme :: "network_proxy \<Rightarrow> proxy_scheme \<Rightarrow> network_proxy" where
  "with_scheme p s = p\<lparr>px_scheme := Some s\<rparr>"

text \<open>\<^verbatim>\<open>split_once("://")\<close>.\<close>

fun split_scheme :: "bytes \<Rightarrow> (bytes \<times> bytes) option" where
  "split_scheme [] = None"
| "split_scheme (b # bs) =
     (if take 3 (b # bs) = ascii ''://'' then Some ([], drop 3 (b # bs))
      else map_option (\<lambda>(s, rest). (b # s, rest)) (split_scheme bs))"

definition parse_url :: "bytes \<Rightarrow> (refusal, network_proxy) result" where
  "parse_url url =
     (case split_scheme url of
        None \<Rightarrow> Inl (Refused url (ascii ''expected http://HOST:PORT or https://HOST:PORT''))
      | Some (scheme, rest) \<Rightarrow>
          (case scheme_from_name scheme of
             None \<Rightarrow> Inl (Refused url (ascii ''the scheme must be http or https''))
           | Some scheme \<Rightarrow>
               (let authority = (if rest \<noteq> [] \<and> last rest = 0x2F then butlast rest else rest)
                in if list_ex (\<lambda>b. b = 0x2F \<or> b = 0x3F \<or> b = 0x23) authority
                   then Inl (Refused url (ascii ''nothing but a / may follow the port''))
                   else
                     (case rsplit_once 0x3A authority of
                        None \<Rightarrow> Inl (Refused url (ascii ''the port must be explicit''))
                      | Some (host, p) \<Rightarrow>
                          if host \<noteq> ascii ''127.0.0.1'' \<and> host \<noteq> ascii ''localhost''
                          then Inl (Refused url (ascii ''the host must be 127.0.0.1 or localhost''))
                          else
                            (case (if list_all is_digit p then parse_port p else None) of
                               None \<Rightarrow> Inl (Refused url (ascii ''the port must be between 1 and 65535''))
                             | Some p \<Rightarrow> Inr (with_scheme (proxy_new p) scheme))))))"

definition parse_endpoint :: "bytes \<Rightarrow> u32 \<Rightarrow> (refusal, network_proxy) result" where
  "parse_endpoint endpoint gateway =
     (case Option.bind (rsplit_once 0x3A endpoint) (\<lambda>(address, p). map_option (\<lambda>a. (a, p)) (parse_ipv4 address)) of
        None \<Rightarrow> Inl (Refused endpoint (ascii ''expected IPV4:TCP-PORT''))
      | Some (address, p) \<Rightarrow>
          (case parse_port p of
             None \<Rightarrow> Inl (Refused endpoint (ascii ''the port must be between 1 and 65535''))
           | Some p \<Rightarrow>
               if address \<noteq> gateway
               then Inl (Refused endpoint (ascii ''the address must be the guest's gateway, '' @ ipv4_text gateway))
               else Inr (proxy_new p)))"

definition proxy_url :: "network_proxy \<Rightarrow> u32 \<Rightarrow> bytes" where
  "proxy_url p gateway =
     (case px_scheme p of
        Some s \<Rightarrow> scheme_text s @ ascii ''://'' @ ipv4_text gateway @ ascii '':'' @ decimal (unat (px_port p))
      | None \<Rightarrow> ipv4_text gateway @ ascii '':'' @ decimal (unat (px_port p)))"

section \<open>Host loopback\<close>

datatype host_loopback = LoopbackDeny | LoopbackOutbound | LoopbackAllow

fun loopback_text :: "host_loopback \<Rightarrow> bytes" where
  "loopback_text LoopbackDeny = ascii ''deny''"
| "loopback_text LoopbackOutbound = ascii ''outbound''"
| "loopback_text LoopbackAllow = ascii ''allow''"

fun loopback_from :: "access \<Rightarrow> host_loopback" where
  "loopback_from AccessAllow = LoopbackAllow"
| "loopback_from AccessDeny = LoopbackDeny"

fun access_text :: "access \<Rightarrow> bytes" where
  "access_text AccessAllow = ascii ''allow''"
| "access_text AccessDeny = ascii ''deny''"

datatype forward_protocol = ForwardTcp | ForwardUdp

fun forward_protocol_text :: "forward_protocol \<Rightarrow> bytes" where
  "forward_protocol_text ForwardTcp = ascii ''tcp''"
| "forward_protocol_text ForwardUdp = ascii ''udp''"

record loopback_forward =
  fw_protocol :: forward_protocol
  fw_host_port :: u16
  fw_guest_port :: u16

definition forward_parse :: "bytes \<Rightarrow> (refusal, loopback_forward) result" where
  "forward_parse v =
     (case split_on 0x3A v of
        [protocol, host_port, guest_port] \<Rightarrow>
          (case (if protocol = ascii ''tcp'' then Some ForwardTcp
                 else if protocol = ascii ''udp'' then Some ForwardUdp else None) of
             None \<Rightarrow> Inl (Refused v (ascii ''the protocol must be tcp or udp''))
           | Some protocol \<Rightarrow>
               (case (parse_port host_port, parse_port guest_port) of
                  (Some h, Some g) \<Rightarrow> Inr \<lparr>fw_protocol = protocol, fw_host_port = h, fw_guest_port = g\<rparr>
                | _ \<Rightarrow> Inl (Refused v (ascii ''ports must be between 1 and 65535''))))
      | _ \<Rightarrow> Inl (Refused v (ascii ''expected tcp:HOST_PORT:GUEST_PORT or udp:HOST_PORT:GUEST_PORT'')))"

section \<open>Policies\<close>

record network_policy =
  po_egress :: access
  po_allow :: egress_rules
  po_deny :: egress_rules
  po_ingress :: access
  po_host_loopback :: host_loopback
  po_forwards :: "loopback_forward list"
  po_proxy :: "network_proxy option"

definition policy_new :: "access \<Rightarrow> network_policy" where
  "policy_new egress =
     \<lparr>po_egress = egress, po_allow = egress_rules_new (ascii ''egress.allow''),
      po_deny = egress_rules_new (ascii ''egress.deny''), po_ingress = AccessDeny,
      po_host_loopback = LoopbackDeny, po_forwards = [], po_proxy = None\<rparr>"

definition proxy_only :: "network_proxy \<Rightarrow> network_policy" where
  "proxy_only p = (policy_new AccessDeny)\<lparr>po_proxy := Some p\<rparr>"

definition with_allow :: "network_policy \<Rightarrow> egress_rule \<Rightarrow> network_policy" where
  "with_allow policy r = policy\<lparr>po_allow := (po_allow policy)\<lparr>er_rules := er_rules (po_allow policy) @ [r]\<rparr>\<rparr>"

definition with_deny :: "network_policy \<Rightarrow> egress_rule \<Rightarrow> network_policy" where
  "with_deny policy r = policy\<lparr>po_deny := (po_deny policy)\<lparr>er_rules := er_rules (po_deny policy) @ [r]\<rparr>\<rparr>"

definition publishes_listeners :: "network_policy \<Rightarrow> bool" where
  "publishes_listeners policy \<longleftrightarrow> po_ingress policy = AccessAllow \<or> po_host_loopback policy = LoopbackAllow"

datatype posture_error =
    PostureRule egress_error
  | ForwardsNeedLoopback
  | LoopbackPrefix
  | TooManyForwards
  | ForwardPortZero
  | HostPortTwice forward_protocol u16
  | GuestPortTwice forward_protocol u16
  | UdpNeedsEgress
  | InvalidGuestNetwork bytes
  | DenyCoversGuest bytes usize
  | ProxyPortZero
  | ProxyPortDns
  | ProxyNeedsEgressDenied
  | ProxyTakesNoRules bytes
  | ProxyNeedsIngressDenied
  | ProxyNeedsLoopbackDenied
  | ProxyTakesNoForwards

definition max_loopback_forwards :: usize where
  "max_loopback_forwards = 64"

definition max_host_loopback_prefix :: u8 where
  "max_host_loopback_prefix = 29"

definition dns_port :: u16 where
  "dns_port = 53"

text \<open>The error of a rule becomes the error of the posture.\<close>

definition rule_result :: "(egress_error, 'a) result \<Rightarrow> (posture_error, 'a) result" where
  "rule_result r = (case r of Inl e \<Rightarrow> Inl (PostureRule e) | Inr x \<Rightarrow> Inr x)"

subsection \<open>Forwards\<close>

fun check_forwards ::
  "loopback_forward list \<Rightarrow> (forward_protocol \<times> u16) list \<Rightarrow> (forward_protocol \<times> u16) list \<Rightarrow>
     (posture_error, unit) result" where
  "check_forwards [] bindings targets = Inr ()"
| "check_forwards (w # ws) bindings targets =
     (if fw_host_port w = 0 \<or> fw_guest_port w = 0 then Inl ForwardPortZero
      else if (fw_protocol w, fw_host_port w) \<in> set bindings then Inl (HostPortTwice (fw_protocol w) (fw_host_port w))
      else if (fw_protocol w, fw_guest_port w) \<in> set targets then Inl (GuestPortTwice (fw_protocol w) (fw_guest_port w))
      else check_forwards ws ((fw_protocol w, fw_host_port w) # bindings) ((fw_protocol w, fw_guest_port w) # targets))"

definition rules_cover :: "rule list \<Rightarrow> interval \<Rightarrow> bool" where
  "rules_cover rules subnet \<longleftrightarrow>
     list_ex (\<lambda>r. ru_family r = FamilyV4 \<and>
       list_ex (\<lambda>i. fst i \<le> snd subnet \<and> fst subnet \<le> snd i) (ru_addresses r)) rules"

fun check_deny :: "bytes \<Rightarrow> interval \<Rightarrow> usize \<Rightarrow> rule list list \<Rightarrow> (posture_error, unit) result" where
  "check_deny name subnet i [] = Inr ()"
| "check_deny name subnet i (rules # deny) =
     (if rules_cover rules subnet then Inl (DenyCoversGuest name i) else check_deny name subnet (Suc i) deny)"

definition check_loopback_forwards ::
  "network_policy \<Rightarrow> rule list list \<Rightarrow> bytes \<Rightarrow> (posture_error, unit) result" where
  "check_loopback_forwards policy deny guest_network =
     (let forwards = po_forwards policy
      in if forwards = [] then Inr ()
         else if length forwards > max_loopback_forwards then Inl TooManyForwards
         else
           and_then (check_forwards forwards [] []) (\<lambda>_.
             if list_all (\<lambda>w. fw_protocol w \<noteq> ForwardUdp) forwards then Inr ()
             else if po_egress policy \<noteq> AccessAllow then Inl UdpNeedsEgress
             else
               (case guest_subnet guest_network of
                  None \<Rightarrow> Inl (InvalidGuestNetwork guest_network)
                | Some subnet \<Rightarrow> check_deny (er_name (po_deny policy)) subnet 0 deny)))"

subsection \<open>Options\<close>

definition check_proxy_only :: "network_policy \<Rightarrow> network_proxy \<Rightarrow> (posture_error, unit) result" where
  "check_proxy_only policy p =
     (if px_port p = 0 then Inl ProxyPortZero
      else if px_port p = dns_port then Inl ProxyPortDns
      else if po_egress policy \<noteq> AccessDeny then Inl ProxyNeedsEgressDenied
      else if er_rules (po_allow policy) \<noteq> [] then Inl (ProxyTakesNoRules (er_name (po_allow policy)))
      else if er_rules (po_deny policy) \<noteq> [] then Inl (ProxyTakesNoRules (er_name (po_deny policy)))
      else if po_ingress policy \<noteq> AccessDeny then Inl ProxyNeedsIngressDenied
      else if po_host_loopback policy \<noteq> LoopbackDeny then Inl ProxyNeedsLoopbackDenied
      else if po_forwards policy \<noteq> [] then Inl ProxyTakesNoForwards
      else Inr ())"

definition proxy_arguments :: "network_policy \<Rightarrow> network_proxy \<Rightarrow> bytes \<Rightarrow> (posture_error, bytes list) result" where
  "proxy_arguments policy p guest_network =
     and_then (check_proxy_only policy p) (\<lambda>_.
       case guest_gateway guest_network of
         None \<Rightarrow> Inl (InvalidGuestNetwork guest_network)
       | Some gateway \<Rightarrow>
           Inr ([ascii ''--net'', guest_network, ascii ''--network-profile'', ascii ''portable'',
                 ascii ''--network-egress'', ascii ''deny'', ascii ''--network-ingress'', ascii ''deny'',
                 ascii ''--host-loopback'', ascii ''deny'', ascii ''--network-proxy''] @
                [ipv4_text gateway @ ascii '':'' @ decimal (unat (px_port p))]))"

definition template_arguments :: "bytes \<Rightarrow> bytes list" where
  "template_arguments guest_network =
     [ascii ''--net'', guest_network, ascii ''--network-profile'', ascii ''portable'',
      ascii ''--network-egress'', ascii ''deny'', ascii ''--network-ingress'', ascii ''deny'',
      ascii ''--host-loopback'', ascii ''deny'']"

definition default_arguments :: "network_policy \<Rightarrow> bytes \<Rightarrow> bytes list" where
  "default_arguments policy guest_network =
     [ascii ''--net'', guest_network, ascii ''--network-profile'', ascii ''portable'',
      ascii ''--network-egress'', access_text (po_egress policy),
      ascii ''--network-ingress'', access_text (po_ingress policy)] @
     (if po_host_loopback policy \<noteq> LoopbackOutbound
      then [ascii ''--host-loopback'', loopback_text (po_host_loopback policy)] else [])"

definition option_arguments :: "bytes \<Rightarrow> bytes list \<Rightarrow> bytes list" where
  "option_arguments option1 vs = concat (map (\<lambda>v. [option1, v]) vs)"

text \<open>One pass of the loop over the two actions: the options of the rules, and the rules as they were parsed.\<close>

definition rule_arguments :: "egress_rules \<Rightarrow> bytes \<Rightarrow> (posture_error, bytes list \<times> rule list list) result" where
  "rule_arguments rules option1 =
     and_then (rule_result (parse_rules rules)) (\<lambda>parsed.
     and_then (rule_result (lower (concat parsed) (er_name rules))) (\<lambda>lowered.
       Inr (option_arguments option1 lowered, parsed)))"

definition forward_text :: "loopback_forward \<Rightarrow> bytes" where
  "forward_text w =
     forward_protocol_text (fw_protocol w) @ ascii '':'' @ decimal (unat (fw_host_port w)) @ ascii '':'' @
       decimal (unat (fw_guest_port w))"

definition openvmm_arguments :: "network_policy option \<Rightarrow> bytes \<Rightarrow> (posture_error, bytes list) result" where
  "openvmm_arguments policy guest_network =
     (case policy of
        None \<Rightarrow> Inr []
      | Some policy \<Rightarrow>
          (case po_proxy policy of
             Some p \<Rightarrow> proxy_arguments policy p guest_network
           | None \<Rightarrow>
               if po_forwards policy \<noteq> [] \<and> po_host_loopback policy \<noteq> LoopbackAllow then Inl ForwardsNeedLoopback
               else if po_host_loopback policy = LoopbackAllow \<and>
                 (case Option.bind (split_once 0x2F guest_network) (\<lambda>(_, prefix). parse_prefix_length prefix) of
                    None \<Rightarrow> False | Some prefix \<Rightarrow> prefix > max_host_loopback_prefix) then Inl LoopbackPrefix
               else if po_egress policy = AccessDeny \<and> er_rules (po_allow policy) = [] \<and>
                 po_ingress policy = AccessDeny \<and> po_host_loopback policy = LoopbackDeny then Inr []
               else
                 and_then (rule_arguments (po_allow policy) (ascii ''--network-egress-allow'')) (\<lambda>(allowed, _).
                 and_then (rule_arguments (po_deny policy) (ascii ''--network-egress-deny'')) (\<lambda>(denied, deny).
                 and_then (check_loopback_forwards policy deny guest_network) (\<lambda>_.
                   Inr (default_arguments policy guest_network @ allowed @ denied @
                        option_arguments (ascii ''--host-loopback-forward'') (map forward_text (po_forwards policy))))))))"

subsection \<open>DNS\<close>

datatype ip_addr = IpV4 u32 | IpV6 u128

fun ip_family :: "ip_addr \<Rightarrow> family" where
  "ip_family (IpV4 _) = FamilyV4"
| "ip_family (IpV6 _) = FamilyV6"

fun ip_bits :: "ip_addr \<Rightarrow> u128" where
  "ip_bits (IpV4 a) = ucast a"
| "ip_bits (IpV6 a) = a"

definition selects :: "rule \<Rightarrow> ip_addr \<Rightarrow> native_protocol \<Rightarrow> u16 \<Rightarrow> bool" where
  "selects r address protocol p \<longleftrightarrow>
     ru_family r = ip_family address \<and>
     list_ex (\<lambda>(first, last1). first \<le> ip_bits address \<and> ip_bits address \<le> last1) (ru_addresses r) \<and>
     (case ru_protocol r of
        None \<Rightarrow> True
      | Some each \<Rightarrow>
          each = protocol \<and> (case ru_ports r of None \<Rightarrow> True | Some (first, last1) \<Rightarrow> first \<le> p \<and> p \<le> last1))"

definition dns_candidates :: "u32 \<Rightarrow> u128 option \<Rightarrow> ip_addr list" where
  "dns_candidates gateway ipv6_gateway =
     IpV4 gateway # (case ipv6_gateway of None \<Rightarrow> [] | Some g \<Rightarrow> [IpV6 g])"

definition dns_server :: "network_policy \<Rightarrow> u32 \<Rightarrow> u128 option \<Rightarrow> (posture_error, ip_addr option) result" where
  "dns_server policy gateway ipv6_gateway =
     (if po_proxy policy \<noteq> None then Inr None
      else
        and_then (rule_result (parse_rules (po_allow policy))) (\<lambda>allow.
        and_then (rule_result (parse_rules (po_deny policy))) (\<lambda>deny.
          Inr (find (\<lambda>server.
                 list_ex (\<lambda>protocol.
                   (let hit = (\<lambda>r. selects r server protocol dns_port)
                    in \<not> list_ex hit (concat deny) \<and>
                       (list_ex hit (concat allow) \<or> po_egress policy = AccessAllow)))
                   [NativeTcp, NativeUdp])
               (dns_candidates gateway ipv6_gateway)))))"

section \<open>What a posture means\<close>

text \<open>
  A connection that matches a deny rule is blocked. Otherwise a connection that matches an allow rule is
  permitted, and any other connection follows the default.
\<close>

definition posture_permits :: "network_policy \<Rightarrow> family \<Rightarrow> u128 \<Rightarrow> native_protocol option \<Rightarrow> u16 \<Rightarrow> bool" where
  "posture_permits policy f a p q \<longleftrightarrow>
     \<not> list_ex (\<lambda>r. egress_selects r f a p q) (er_rules (po_deny policy)) \<and>
     (list_ex (\<lambda>r. egress_selects r f a p q) (er_rules (po_allow policy)) \<or> po_egress policy = AccessAllow)"

text \<open>OpenVMM decides the same way on its native rules.\<close>

definition native_permits ::
  "access \<Rightarrow> native_rule list \<Rightarrow> native_rule list \<Rightarrow> family \<Rightarrow> u128 \<Rightarrow> native_protocol option \<Rightarrow> u16 \<Rightarrow> bool" where
  "native_permits egress allow deny f a p q \<longleftrightarrow>
     \<not> list_ex (\<lambda>n. native_matches n f a p q) deny \<and>
     (list_ex (\<lambda>n. native_matches n f a p q) allow \<or> egress = AccessAllow)"

lemma rule_result_eq_Inr [simp]: "rule_result r = Inr x \<longleftrightarrow> r = Inr x"
  by (simp add: rule_result_def split: sum.splits)

lemma parsed_matches:
  assumes "parse_rules rules = Inr parsed" and "a \<le> last_address f"
  shows "list_ex (\<lambda>r. rule_matches r f a p q) (concat parsed) \<longleftrightarrow> list_ex (\<lambda>r. egress_selects r f a p q) (er_rules rules)"
  using parse_rules_spec(2) [OF assms(1) [unfolded parse_rules_def] assms(2)] by (simp add: list_ex_iff)

lemma rule_argumentsE:
  assumes "rule_arguments rules option1 = Inr (arguments, parsed)"
  obtains ns where "parse_rules rules = Inr parsed" "lower_rules (concat parsed) (er_name rules) max_rules = Inr ns"
    "arguments = option_arguments option1 (map render ns)"
  using assms by (auto simp: rule_arguments_def lower_def lower_within_def)

lemma rule_arguments_native:
  "parse_rules rules = Inr parsed \<Longrightarrow> lower_rules (concat parsed) (er_name rules) max_rules = Inr ns \<Longrightarrow>
     list_all native_ok ns"
  unfolding parse_rules_def using parse_rules_spec(1) lower_rules_native by blast

text \<open>Options with one name and then others determine the values of the first.\<close>

lemma option_arguments_eq:
  assumes "option_arguments x vs @ rest = option_arguments x ws @ rest1"
    and "\<And>t. rest \<noteq> x # t" and "\<And>t. rest1 \<noteq> x # t"
  shows "vs = ws \<and> rest = rest1"
  using assms(1)
proof (induction vs arbitrary: ws)
  case Nil
  then show ?case using assms(2) by (cases ws) (auto simp: option_arguments_def)
next
  case (Cons v vs)
  show ?case
  proof (cases ws)
    case Nil
    with Cons.prems assms(3) [of "v # option_arguments x vs @ rest"] show ?thesis by (simp add: option_arguments_def)
  next
    case (Cons w ws')
    with Cons.prems Cons.IH [of ws'] show ?thesis by (simp add: option_arguments_def)
  qed
qed

lemma option_arguments_other: "x \<noteq> y \<Longrightarrow> rest \<noteq> x # t \<Longrightarrow> option_arguments y vs @ rest \<noteq> x # t"
  by (cases vs) (auto simp: option_arguments_def)

definition posture_options :: "network_policy \<Rightarrow> bytes \<Rightarrow> native_rule list \<Rightarrow> native_rule list \<Rightarrow> bytes list" where
  "posture_options policy guest_network allow deny =
     default_arguments policy guest_network @
     option_arguments (ascii ''--network-egress-allow'') (map render allow) @
     option_arguments (ascii ''--network-egress-deny'') (map render deny) @
     option_arguments (ascii ''--host-loopback-forward'') (map forward_text (po_forwards policy))"

lemma posture_options_eq:
  assumes "posture_options policy guest_network allow deny = posture_options policy guest_network allow' deny'"
    and "list_all native_ok allow" "list_all native_ok deny" "list_all native_ok allow'" "list_all native_ok deny'"
  shows "allow' = allow \<and> deny' = deny"
proof -
  have names: "ascii ''--network-egress-allow'' \<noteq> ascii ''--network-egress-deny''"
    "ascii ''--network-egress-allow'' \<noteq> ascii ''--host-loopback-forward''"
    "ascii ''--network-egress-deny'' \<noteq> ascii ''--host-loopback-forward''" by (simp_all add: ascii_def)
  let ?f = "option_arguments (ascii ''--host-loopback-forward'') (map forward_text (po_forwards policy))"
  have f: "?f \<noteq> ascii ''--network-egress-allow'' # t" "?f \<noteq> ascii ''--network-egress-deny'' # t" for t
    using option_arguments_other [OF names(2), of "[]"] option_arguments_other [OF names(3), of "[]"] by simp_all
  have d: "option_arguments (ascii ''--network-egress-deny'') vs @ ?f \<noteq> ascii ''--network-egress-allow'' # t" for vs t
    by (rule option_arguments_other [OF names(1) f(1)])
  have "option_arguments (ascii ''--network-egress-allow'') (map render allow) @
      option_arguments (ascii ''--network-egress-deny'') (map render deny) @ ?f =
    option_arguments (ascii ''--network-egress-allow'') (map render allow') @
      option_arguments (ascii ''--network-egress-deny'') (map render deny') @ ?f"
    using assms(1) by (simp add: posture_options_def)
  from option_arguments_eq [OF this d d]
  have "map render allow = map render allow'" and
    "option_arguments (ascii ''--network-egress-deny'') (map render deny) @ ?f =
     option_arguments (ascii ''--network-egress-deny'') (map render deny') @ ?f" by simp_all
  moreover from option_arguments_eq [OF this(2) f(2) f(2)] have "map render deny = map render deny'" by simp
  ultimately show ?thesis using map_render_eq assms(2-5) by metis
qed

lemma openvmm_argumentsE:
  assumes "openvmm_arguments (Some policy) guest_network = Inr arguments" and "po_proxy policy = None"
  obtains (detached) "arguments = []" "po_egress policy = AccessDeny" "er_rules (po_allow policy) = []"
      "po_ingress policy = AccessDeny" "po_host_loopback policy = LoopbackDeny" "po_forwards policy = []"
  | (attached) allowed denied allow deny where
      "rule_arguments (po_allow policy) (ascii ''--network-egress-allow'') = Inr (allowed, allow)"
      "rule_arguments (po_deny policy) (ascii ''--network-egress-deny'') = Inr (denied, deny)"
      "check_loopback_forwards policy deny guest_network = Inr ()"
      "po_forwards policy \<noteq> [] \<Longrightarrow> po_host_loopback policy = LoopbackAllow"
      "arguments = default_arguments policy guest_network @ allowed @ denied @
         option_arguments (ascii ''--host-loopback-forward'') (map forward_text (po_forwards policy))"
  using assms unfolding openvmm_arguments_def
  by (auto split: if_splits)

lemma selects_matches: "selects r address protocol p \<longleftrightarrow> rule_matches r (ip_family address) (ip_bits address) (Some protocol) p"
  by (auto simp: selects_def rule_matches_def proto_ok_def port_ok_def list_ex_iff split_beta split: option.splits)

lemma ucast_v4: "ucast (a :: u32) \<le> last_address FamilyV4"
  using unat_bound [of a] by (simp add: word_le_nat_alt unat_last_address family_bits_def)

lemma ip_bits_le: "ip_bits address \<le> last_address (ip_family address)"
  by (cases address) (simp_all add: ucast_v4, simp add: last_address_def)

section \<open>Forwards that are accepted\<close>

lemma check_forwards_spec:
  "check_forwards ws bindings targets = Inr () \<Longrightarrow>
     (\<forall>w\<in>set ws. fw_host_port w \<noteq> 0 \<and> fw_guest_port w \<noteq> 0) \<and>
     distinct (map (\<lambda>w. (fw_protocol w, fw_host_port w)) ws) \<and> distinct (map (\<lambda>w. (fw_protocol w, fw_guest_port w)) ws) \<and>
     (\<forall>w\<in>set ws. (fw_protocol w, fw_host_port w) \<notin> set bindings \<and> (fw_protocol w, fw_guest_port w) \<notin> set targets)"
proof (induction ws bindings targets rule: check_forwards.induct)
  case (2 w ws bindings targets)
  from "2.prems" have w: "fw_host_port w \<noteq> 0" "fw_guest_port w \<noteq> 0" "(fw_protocol w, fw_host_port w) \<notin> set bindings"
    "(fw_protocol w, fw_guest_port w) \<notin> set targets"
    "check_forwards ws ((fw_protocol w, fw_host_port w) # bindings) ((fw_protocol w, fw_guest_port w) # targets) = Inr ()"
    by (simp_all split: if_splits)
  with "2.IH" have "\<forall>x\<in>set ws. (fw_protocol x, fw_host_port x) \<noteq> (fw_protocol w, fw_host_port w) \<and>
    (fw_protocol x, fw_guest_port x) \<noteq> (fw_protocol w, fw_guest_port w)" by simp
  then have "(fw_protocol w, fw_host_port w) \<notin> (\<lambda>w. (fw_protocol w, fw_host_port w)) ` set ws"
    "(fw_protocol w, fw_guest_port w) \<notin> (\<lambda>w. (fw_protocol w, fw_guest_port w)) ` set ws" by force+
  with w "2.IH" show ?case by simp
qed simp

lemma check_deny_spec: "check_deny name subnet i deny = Inr () \<longleftrightarrow> \<not> list_ex (\<lambda>rules. rules_cover rules subnet) deny"
  by (induction name subnet i deny rule: check_deny.induct) auto

lemma rules_cover_matches:
  assumes "list_ex (\<lambda>r. rule_matches r FamilyV4 a p q) (concat deny)" and "fst subnet \<le> a" and "a \<le> snd subnet"
  shows "list_ex (\<lambda>rules. rules_cover rules subnet) deny"
proof -
  obtain rules r i where "rules \<in> set deny" "r \<in> set rules" "ru_family r = FamilyV4" "i \<in> set (ru_addresses r)"
    "fst i \<le> a" "a \<le> snd i" using assms(1) by (auto simp: rule_matches_def list_ex_iff)
  moreover from this assms(2,3) have "fst i \<le> snd subnet" "fst subnet \<le> snd i" by (meson order_trans)+
  ultimately show ?thesis by (force simp: list_ex_iff rules_cover_def)
qed

lemma guest_subnet_le: "guest_subnet v = Some (first, last1) \<Longrightarrow> last1 \<le> last_address FamilyV4"
  by (auto simp: guest_subnet_def bind_eq_Some_conv Let_def ucast_v4 split: if_splits)

lemma check_loopback_forwards_spec:
  assumes "check_loopback_forwards policy deny guest_network = Inr ()" and "w \<in> set (po_forwards policy)"
  shows "length (po_forwards policy) \<le> 64" "check_forwards (po_forwards policy) [] [] = Inr ()"
    "fw_protocol w = ForwardUdp \<Longrightarrow> po_egress policy = AccessAllow \<and>
       (\<exists>subnet. guest_subnet guest_network = Some subnet \<and> \<not> list_ex (\<lambda>rules. rules_cover rules subnet) deny)"
proof -
  have ne: "po_forwards policy \<noteq> []" using assms(2) by auto
  show l: "length (po_forwards policy) \<le> 64"
    using assms(1) ne by (simp add: check_loopback_forwards_def max_loopback_forwards_def Let_def not_less split: if_splits)
  note c = assms(1) [unfolded check_loopback_forwards_def Let_def]
  have c: "and_then (check_forwards (po_forwards policy) [] []) (\<lambda>_.
      if list_all (\<lambda>w. fw_protocol w \<noteq> ForwardUdp) (po_forwards policy) then Inr ()
      else if po_egress policy \<noteq> AccessAllow then Inl UdpNeedsEgress
      else (case guest_subnet guest_network of None \<Rightarrow> Inl (InvalidGuestNetwork guest_network)
        | Some subnet \<Rightarrow> check_deny (er_name (po_deny policy)) subnet 0 deny)) = Inr ()"
    using c ne l unfolding max_loopback_forwards_def if_not_P [OF ne] by simp
  then show "check_forwards (po_forwards policy) [] [] = Inr ()" unfolding and_then_eq_Inr by auto
  show "po_egress policy = AccessAllow \<and>
       (\<exists>subnet. guest_subnet guest_network = Some subnet \<and> \<not> list_ex (\<lambda>rules. rules_cover rules subnet) deny)"
    if "fw_protocol w = ForwardUdp"
  proof -
    have "\<not> list_all (\<lambda>w. fw_protocol w \<noteq> ForwardUdp) (po_forwards policy)" using that assms(2) by (auto simp: list_all_iff)
    with c show ?thesis unfolding and_then_eq_Inr by (auto simp: check_deny_spec split: if_splits option.splits)
  qed
qed

lemma proxy_no_forwards:
  assumes "openvmm_arguments (Some policy) guest_network = Inr arguments" and "po_proxy policy = Some p"
  shows "po_forwards policy = []"
proof -
  have "check_proxy_only policy p = Inr ()"
    using assms by (auto simp: openvmm_arguments_def proxy_arguments_def)
  then show ?thesis by (simp add: check_proxy_only_def split: if_splits)
qed

section \<open>Properties\<close>

text \<open>
  C9. The options that OpenVMM gets for a posture without a proxy are the defaults, the native allow and
  deny rules and the forwards of the posture. The texts of the rules say which rules they are: there is
  one list of allow rules and one of deny rules, of all the native rules over networks of either family,
  that are written as these options. And these two lists permit exactly the traffic that the posture
  permits according to its documentation, for every address of either family, every protocol and every
  port. When there are no options, so that no network device is attached, the posture permits no
  traffic at all, publishes no listeners and forwards no port.
\<close>

theorem posture_enforced:
  assumes "openvmm_arguments (Some policy) guest_network = Inr arguments" and "po_proxy policy = None"
  shows "if arguments = []
    then (\<forall>f a p q. \<not> posture_permits policy f a p q) \<and> \<not> publishes_listeners policy \<and> po_forwards policy = []
    else \<exists>allow deny. list_all native_ok allow \<and> list_all native_ok deny \<and>
      arguments = posture_options policy guest_network allow deny \<and>
      (\<forall>allow' deny'. list_all native_ok allow' \<and> list_all native_ok deny' \<and>
         arguments = posture_options policy guest_network allow' deny' \<longrightarrow> allow' = allow \<and> deny' = deny) \<and>
      (\<forall>f a p q. a \<le> last_address f \<longrightarrow>
         (native_permits (po_egress policy) allow deny f a p q \<longleftrightarrow> posture_permits policy f a p q))"
  using assms
proof (cases rule: openvmm_argumentsE)
  case detached
  then show ?thesis by (simp add: posture_permits_def publishes_listeners_def)
next
  case (attached allowed denied allow deny)
  from attached(1) obtain ns where ns: "parse_rules (po_allow policy) = Inr allow"
    "lower_rules (concat allow) (er_name (po_allow policy)) max_rules = Inr ns"
    "allowed = option_arguments (ascii ''--network-egress-allow'') (map render ns)" by (rule rule_argumentsE)
  from attached(2) obtain ms where ms: "parse_rules (po_deny policy) = Inr deny"
    "lower_rules (concat deny) (er_name (po_deny policy)) max_rules = Inr ms"
    "denied = option_arguments (ascii ''--network-egress-deny'') (map render ms)" by (rule rule_argumentsE)
  have "\<forall>f a p q. a \<le> last_address f \<longrightarrow>
      (native_permits (po_egress policy) ns ms f a p q \<longleftrightarrow> posture_permits policy f a p q)"
    using lowered_matches [OF ns(1,2)] lowered_matches [OF ms(1,2)]
    by (simp add: native_permits_def posture_permits_def)
  moreover have e: "arguments = posture_options policy guest_network ns ms"
    using attached(5) unfolding ns(3) ms(3) by (simp add: posture_options_def)
  moreover have "arguments \<noteq> []" by (simp add: e posture_options_def default_arguments_def)
  moreover note n = rule_arguments_native [OF ns(1,2)] rule_arguments_native [OF ms(1,2)]
  moreover have "allow' = ns \<and> deny' = ms" if "list_all native_ok allow' \<and> list_all native_ok deny' \<and>
      arguments = posture_options policy guest_network allow' deny'" for allow' deny'
    using posture_options_eq [OF _ n] that e by metis
  ultimately show ?thesis unfolding if_not_P [OF \<open>arguments \<noteq> []\<close>] by blast
qed

text \<open>A posture with the rule of the witnesses.\<close>

definition demo_policy :: network_policy where
  "demo_policy = with_allow (policy_new AccessDeny) (on_port (egress_to (ascii ''0.0.0.8/29'')) ProtocolTcp 53)"

lemma demo_policy_simps:
  "po_proxy demo_policy = None" "po_forwards demo_policy = []" "po_egress demo_policy = AccessDeny"
  "po_ingress demo_policy = AccessDeny" "po_host_loopback demo_policy = LoopbackDeny"
  "po_allow demo_policy = demo_rules" "po_deny demo_policy = egress_rules_new (ascii ''egress.deny'')"
  by (simp_all add: demo_policy_def with_allow_def policy_new_def egress_rules_new_def demo_rules_def)

lemma demo_rule_arguments:
  "rule_arguments demo_rules (ascii ''--network-egress-allow'') =
     Inr (option_arguments (ascii ''--network-egress-allow'') [render demo_native], [[demo_rule]])"
  "rule_arguments (egress_rules_new (ascii ''egress.deny'')) (ascii ''--network-egress-deny'') = Inr ([], [])"
proof -
  show "rule_arguments demo_rules (ascii ''--network-egress-allow'') =
     Inr (option_arguments (ascii ''--network-egress-allow'') [render demo_native], [[demo_rule]])"
    unfolding rule_arguments_def demo_parsed lower_def lower_within_def using demo_lowered by (simp add: rule_result_def)
  show "rule_arguments (egress_rules_new (ascii ''egress.deny'')) (ascii ''--network-egress-deny'') = Inr ([], [])"
    by code_simp
qed

lemma demo_arguments:
  "openvmm_arguments (Some demo_policy) (ascii ''10.0.0.2/24'') =
     Inr (default_arguments demo_policy (ascii ''10.0.0.2/24'') @
          option_arguments (ascii ''--network-egress-allow'') [render demo_native])"
  by (simp add: openvmm_arguments_def demo_policy_simps demo_rule_arguments check_loopback_forwards_def
    option_arguments_def [of _ "[]"]) (simp add: demo_rules_def)

text \<open>The options of that posture are those of one allow rule, and the rule is the only one they can be.\<close>

theorem posture_enforced_witness:
  "let arguments = posture_options demo_policy (ascii ''10.0.0.2/24'') [demo_native] []
   in openvmm_arguments (Some demo_policy) (ascii ''10.0.0.2/24'') = Inr arguments \<and> po_proxy demo_policy = None \<and>
      (\<forall>f a p q. a \<le> last_address f \<longrightarrow>
         (native_permits AccessDeny [demo_native] [] f a p q \<longleftrightarrow> posture_permits demo_policy f a p q))"
proof -
  define arguments where "arguments = posture_options demo_policy (ascii ''10.0.0.2/24'') [demo_native] []"
  have a: "openvmm_arguments (Some demo_policy) (ascii ''10.0.0.2/24'') = Inr arguments"
    using demo_arguments by (simp add: arguments_def posture_options_def demo_policy_simps option_arguments_def [of _ "[]"])
  have n: "arguments \<noteq> []" by (simp add: arguments_def posture_options_def default_arguments_def)
  have k: "list_all native_ok [demo_native]" using rule_arguments_native [OF demo_parsed demo_lowered] .
  from posture_enforced [OF a demo_policy_simps(1)] obtain allow deny where
    u: "\<forall>allow' deny'. list_all native_ok allow' \<and> list_all native_ok deny' \<and>
         arguments = posture_options demo_policy (ascii ''10.0.0.2/24'') allow' deny' \<longrightarrow> allow' = allow \<and> deny' = deny" and
    m: "\<forall>f a p q. a \<le> last_address f \<longrightarrow>
         (native_permits (po_egress demo_policy) allow deny f a p q \<longleftrightarrow> posture_permits demo_policy f a p q)"
    unfolding if_not_P [OF n] by blast
  from u k arguments_def have "[demo_native] = allow \<and> [] = deny" using list.pred_inject(1) by blast
  then have "allow = [demo_native]" "deny = []" by simp_all
  with m a show ?thesis unfolding Let_def arguments_def by (simp add: demo_policy_simps)
qed

text \<open>
  C12. The DNS server that a guest learns is the first of its gateways whose port 53 the posture lets it
  reach over TCP or UDP, and there is none under a posture with a proxy.
\<close>

theorem dns_server_reachable:
  assumes "dns_server policy gateway ipv6_gateway = Inr server"
  shows "server = (if po_proxy policy = None
    then find (\<lambda>s. posture_permits policy (ip_family s) (ip_bits s) (Some NativeTcp) 53 \<or>
                   posture_permits policy (ip_family s) (ip_bits s) (Some NativeUdp) 53)
           (dns_candidates gateway ipv6_gateway)
    else None)"
proof (cases "po_proxy policy = None")
  case True
  then obtain allow deny where r: "parse_rules (po_allow policy) = Inr allow" "parse_rules (po_deny policy) = Inr deny"
    using assms by (auto simp: dns_server_def)
  have "list_ex (\<lambda>r. selects r s protocol dns_port) (concat allow) \<longleftrightarrow>
      list_ex (\<lambda>r. egress_selects r (ip_family s) (ip_bits s) (Some protocol) 53) (er_rules (po_allow policy))"
    "list_ex (\<lambda>r. selects r s protocol dns_port) (concat deny) \<longleftrightarrow>
      list_ex (\<lambda>r. egress_selects r (ip_family s) (ip_bits s) (Some protocol) 53) (er_rules (po_deny policy))"
    for s protocol
    using parsed_matches [OF r(1) ip_bits_le] parsed_matches [OF r(2) ip_bits_le] by (simp_all add: selects_matches dns_port_def)
  then show ?thesis using assms True r by (simp add: dns_server_def posture_permits_def)
qed (use assms in \<open>auto simp: dns_server_def\<close>)

lemma demo_dns: "dns_server demo_policy 9 None = Inr (Some (IpV4 9))"
proof -
  have "parse_rules (egress_rules_new (ascii ''egress.deny'')) = Inr []" by code_simp
  moreover have "selects demo_rule (IpV4 9) NativeTcp dns_port" by code_simp
  ultimately show ?thesis
    by (simp add: dns_server_def demo_policy_simps demo_parsed dns_candidates_def rule_result_def)
qed

theorem dns_server_reachable_witness:
  "dns_server demo_policy 9 None = Inr (Some (IpV4 9)) \<and>
   Some (IpV4 9) = find (\<lambda>s. posture_permits demo_policy (ip_family s) (ip_bits s) (Some NativeTcp) 53 \<or>
                   posture_permits demo_policy (ip_family s) (ip_bits s) (Some NativeUdp) 53) (dns_candidates 9 None)"
  using demo_dns dns_server_reachable [OF demo_dns, unfolded demo_policy_simps(1) if_P [OF refl]] by blast

text \<open>
  C13. The forwards of an accepted posture need host-loopback access allowed, are at most 64 with nonzero
  ports, and bind no host port and reach no guest port of a protocol twice. If one of them forwards UDP, the
  posture permits all traffic to every address of the guest network, so that no reply is filtered.
\<close>

theorem forwards_are_sound:
  assumes "openvmm_arguments (Some policy) guest_network = Inr arguments" and "w \<in> set (po_forwards policy)"
  shows "po_host_loopback policy = LoopbackAllow \<and> length (po_forwards policy) \<le> 64 \<and>
    fw_host_port w \<noteq> 0 \<and> fw_guest_port w \<noteq> 0 \<and>
    distinct (map (\<lambda>w. (fw_protocol w, fw_host_port w)) (po_forwards policy)) \<and>
    distinct (map (\<lambda>w. (fw_protocol w, fw_guest_port w)) (po_forwards policy)) \<and>
    (fw_protocol w = ForwardUdp \<longrightarrow>
       (\<exists>first last1. guest_subnet guest_network = Some (first, last1) \<and>
          (\<forall>a p q. first \<le> a \<and> a \<le> last1 \<longrightarrow> posture_permits policy FamilyV4 a p q)))"
proof -
  have "po_proxy policy = None" using proxy_no_forwards [OF assms(1)] assms(2) by fastforce
  with assms(1) show ?thesis
  proof (cases rule: openvmm_argumentsE)
    case detached
    then show ?thesis using assms(2) by simp
  next
    case (attached allowed denied allow deny)
    note c = check_loopback_forwards_spec [OF attached(3) assms(2)]
    from attached(2) have d: "parse_rules (po_deny policy) = Inr deny" by (rule rule_argumentsE)
    have "\<exists>first last1. guest_subnet guest_network = Some (first, last1) \<and>
        (\<forall>a p q. first \<le> a \<and> a \<le> last1 \<longrightarrow> posture_permits policy FamilyV4 a p q)" if "fw_protocol w = ForwardUdp"
    proof -
      from c(3) [OF that] obtain first last1 where e: "po_egress policy = AccessAllow"
        "guest_subnet guest_network = Some (first, last1)" "\<not> list_ex (\<lambda>rules. rules_cover rules (first, last1)) deny" by auto
      have "posture_permits policy FamilyV4 a p q" if "first \<le> a" "a \<le> last1" for a p q
        using parsed_matches [OF d order_trans [OF that(2) guest_subnet_le [OF e(2)]], of p q]
          rules_cover_matches [of a p q deny "(first, last1)"] that e by (auto simp: posture_permits_def)
      with e(2) show ?thesis by blast
    qed
    moreover have "po_host_loopback policy = LoopbackAllow" using attached(4) assms(2) by force
    ultimately show ?thesis using c(1) check_forwards_spec [OF c(2)] assms(2) by blast
  qed
qed

text \<open>A posture that forwards a UDP port.\<close>

definition demo_forward :: loopback_forward where
  "demo_forward = \<lparr>fw_protocol = ForwardUdp, fw_host_port = 5353, fw_guest_port = 53\<rparr>"

definition demo_forwarding :: network_policy where
  "demo_forwarding = (policy_new AccessAllow)\<lparr>po_host_loopback := LoopbackAllow, po_forwards := [demo_forward]\<rparr>"

definition demo_forwarding_arguments :: "bytes list" where
  "demo_forwarding_arguments =
     default_arguments demo_forwarding (ascii ''10.0.0.2/24'') @ [ascii ''--host-loopback-forward'', ascii ''udp:5353:53'']"

lemma demo_forwards:
  "openvmm_arguments (Some demo_forwarding) (ascii ''10.0.0.2/24'') = Inr demo_forwarding_arguments"
  "demo_forward \<in> set (po_forwards demo_forwarding)"
  by (code_simp, simp add: demo_forwarding_def)

lemma demo_subnet: "guest_subnet (ascii ''10.0.0.2/24'') = Some (0x0A000000, 0x0A0000FF)"
  by code_simp

theorem forwards_are_sound_witness:
  "openvmm_arguments (Some demo_forwarding) (ascii ''10.0.0.2/24'') = Inr demo_forwarding_arguments \<and>
   demo_forward \<in> set (po_forwards demo_forwarding) \<and> fw_protocol demo_forward = ForwardUdp \<and>
   guest_subnet (ascii ''10.0.0.2/24'') = Some (0x0A000000, 0x0A0000FF) \<and>
   posture_permits demo_forwarding FamilyV4 0x0A000007 (Some NativeUdp) 40000"
proof -
  have u: "fw_protocol demo_forward = ForwardUdp" by (simp add: demo_forward_def)
  have "\<forall>a p q. 0x0A000000 \<le> a \<and> a \<le> 0x0A0000FF \<longrightarrow> posture_permits demo_forwarding FamilyV4 a p q"
    using forwards_are_sound [OF demo_forwards] u demo_subnet by auto
  then have "posture_permits demo_forwarding FamilyV4 0x0A000007 (Some NativeUdp) 40000" by simp
  with u demo_forwards demo_subnet show ?thesis by blast
qed

end
