(* ===== verification/Spec2Isabelle.thy ===== *)
theory Spec2Isabelle
  imports Exec_Delivery Exec_Runner_Ends Nvxs_Host Nvxs_Guest Wire_Exec_Layout Wire_Maps_Layout Net_Cidr_Cover Gpt_Image
    Egress_Posture Egress_Roundtrip
begin

text \<open>
  NVX starts sandboxes as micro virtual machines. A host program builds a sandbox from a request, launches
  OpenVMM with it, and controls it over consoles; inside the machine a guest agent assembles the root file
  system, runs workloads and reports on them. This development models the parts of the Rust crate
  \<^verbatim>\<open>src/nvx-rs/src\<close> that decide rather than perform: the engine that both sides run an execution with, the
  protocols they speak, and the formats and the arithmetic of the inputs they must not trust. Below, paths
  are relative to that directory.

  \<^bold>\<open>Conventions.\<close> A word type is the machine integer of its width, and its arithmetic is written with the
  operation that the source uses: checked ones return an option, saturating and wrapping ones are defined in
  \<^verbatim>\<open>Nvx_Prelude\<close>. A \<^verbatim>\<open>usize\<close> that counts bytes in memory is a natural number, and is bounded by 2 to the 64
  where the source relies on it. Byte strings are lists of 8-bit words, a \<^verbatim>\<open>Result\<close> is a sum with the error on
  the left, a struct is a record, an enum a datatype, a \<^verbatim>\<open>&mut self\<close> method a function that also returns the new
  state. Instants are nanoseconds, and adding to one fails beyond the limit of the platform's clock. Loops
  are recursion that is shown to terminate; no definition uses fuel.

  \<^bold>\<open>The execution engine\<close> (\<^verbatim>\<open>exec/\<close>) runs one workload for one requester. Its \<^verbatim>\<open>Runner\<close> is on the side of the
  workload, its \<^verbatim>\<open>Peer\<close> on the side of the requester; adapters carry the messages of both over any transport,
  under credit that bounds what each side has to hold.
  \<^item> \<^verbatim>\<open>Exec_Types\<close> has the vocabulary of \<^verbatim>\<open>exec/mod.rs\<close>, \<^verbatim>\<open>Exec_Credit\<close> the pools, inboxes and queues of
    \<^verbatim>\<open>exec/credit/\<close>, with the contract of a pool as locales: a sender that never exceeds its credit, a receiver
    that never grants more than its window, and a link of both on which credit is conserved.
  \<^item> \<^verbatim>\<open>Exec_Runner\<close> and \<^verbatim>\<open>Exec_Peer\<close> have one definition for each method of \<^verbatim>\<open>exec/runner.rs\<close> and
    \<^verbatim>\<open>exec/peer.rs\<close>; \<^verbatim>\<open>Exec_Runner_Inv\<close> and \<^verbatim>\<open>Exec_Peer_Inv\<close> show that every call keeps the invariant of its side,
    and with it the bound on the memory that a side holds, of which its high-water mark is exactly the most; a
    locale of \<^verbatim>\<open>Nvx_Prelude\<close> has what a mark is. \<^verbatim>\<open>Exec_Runner_Ends\<close> shows that a terminated
    execution ends within its grace and settlement time.
  \<^item> \<^verbatim>\<open>Exec_System\<close> connects a runner and a peer by queues of messages and lets the calls of both adapters
    interleave; \<^verbatim>\<open>Exec_Quiet\<close>, \<^verbatim>\<open>Exec_Order\<close>, \<^verbatim>\<open>Exec_Flow\<close> and \<^verbatim>\<open>Exec_Flow_Input\<close> have the invariants of the
    connection: the order of the messages in flight, the conservation of credit, and where every byte of the
    streams and of the input is. \<^verbatim>\<open>Exec_Delivery\<close> draws the conclusions that the theorems of this theory state.

  \<^bold>\<open>The protocols\<close> (\<^verbatim>\<open>protocol/\<close>). \<^verbatim>\<open>Wire_Outer\<close> has the records of the control console (\<^verbatim>\<open>outer.rs\<close>),
  \<^verbatim>\<open>Wire_App\<close> the messages in them and the feature sets (\<^verbatim>\<open>app.rs\<close>, \<^verbatim>\<open>features.rs\<close>), \<^verbatim>\<open>Wire_Exec\<close> and
  \<^verbatim>\<open>Wire_Exec_Layout\<close> the workload of an execution (\<^verbatim>\<open>exec.rs\<close>), \<^verbatim>\<open>Wire_Maps\<close> and \<^verbatim>\<open>Wire_Maps_Layout\<close> the tables
  of host directories (\<^verbatim>\<open>maps.rs\<close>). The layout theories describe each format independently of the code, prove
  that the decoder accepts exactly that format, and derive the round trip; the decoders of the host and of the
  guest, which differ in the strings they accept, are two interpretations of one locale. \<^verbatim>\<open>Nvxs_Record\<close> and
  \<^verbatim>\<open>Nvxs_Parser\<close> have the records of an NVXS session and their incremental parser (\<^verbatim>\<open>nvxs/record.rs\<close>), which is shown
  equal to parsing the whole stream; \<^verbatim>\<open>Nvxs_Session\<close> has what both roles share (\<^verbatim>\<open>nvxs/mod.rs\<close>) as locales, which
  \<^verbatim>\<open>Nvxs_Host\<close> and \<^verbatim>\<open>Nvxs_Guest\<close> interpret for \<^verbatim>\<open>nvxs/host.rs\<close> and \<^verbatim>\<open>nvxs/guest.rs\<close>: what each role accepts,
  sends and refuses, for any bytes that the other sends. \<^verbatim>\<open>Rust_Text\<close> has UTF-8 validity and the parsing of
  decimal numbers as the sources use them.

  \<^bold>\<open>Formats and arithmetic.\<close> \<^verbatim>\<open>Uuid_Text\<close> has the text of UUIDs (\<^verbatim>\<open>uuid.rs\<close>); \<^verbatim>\<open>Gpt_Crc\<close> the table-driven CRC
  (\<^verbatim>\<open>gpt/crc.rs\<close>), which is shown equal to the bit-serial one and to detect bursts; \<^verbatim>\<open>Gpt_Disk\<close> the reader of GPT
  disks (\<^verbatim>\<open>gpt/mod.rs\<close>, \<^verbatim>\<open>gpt/source.rs\<close>, \<^verbatim>\<open>gpt/error.rs\<close>), \<^verbatim>\<open>Gpt_Layout\<close> what it guarantees, with the source it reads from
  as a locale, and \<^verbatim>\<open>Gpt_Image\<close> the disks that it must accept, with arbitrary bytes where the reader interprets none. \<^verbatim>\<open>Net_Cidr\<close> has IP networks and their subtraction
  (\<^verbatim>\<open>net/cidr.rs\<close>), \<^verbatim>\<open>Net_Cidr_Cover\<close> that the subtraction is exact and minimal.

  \<^bold>\<open>Network postures\<close> (\<^verbatim>\<open>host/network/\<close>) state what traffic a sandbox may send, and are compiled to options of
  OpenVMM. \<^verbatim>\<open>Egress_Address\<close> and \<^verbatim>\<open>Egress_Network\<close> have intervals of addresses, their union, difference and
  summary as networks (\<^verbatim>\<open>address.rs\<close>), each with the set of addresses that it denotes; \<^verbatim>\<open>Egress_Text\<close> the text
  of networks and native rules, and \<^verbatim>\<open>Egress_Roundtrip\<close> that a network that is written is read back. \<^verbatim>\<open>Egress_Lowering\<close> has the lowering of rules (\<^verbatim>\<open>lowering.rs\<close>), which merges
  networks, widens them into what is selected anyway, and sweeps over the ports; \<^verbatim>\<open>Egress_Cover\<close>,
  \<^verbatim>\<open>Egress_Sweep\<close>, \<^verbatim>\<open>Egress_Active\<close> and \<^verbatim>\<open>Egress_Exact\<close> show that it selects exactly the traffic of the rules,
  \<^verbatim>\<open>Egress_Budget\<close> that a limit refuses exactly the rules that need more, and \<^verbatim>\<open>Egress_Render\<close> that the text of a
  native rule says which rule it is.
  \<^verbatim>\<open>Egress_Rules\<close> has the rules as callers write them (\<^verbatim>\<open>rule.rs\<close>) and states what they select in the terms of
  their documentation. \<^verbatim>\<open>Egress_Posture\<close> has the policies (\<^verbatim>\<open>mod.rs\<close>, \<^verbatim>\<open>loopback.rs\<close>, \<^verbatim>\<open>proxy.rs\<close>, \<^verbatim>\<open>arguments.rs\<close>) and the
  forms of a guest network (\<^verbatim>\<open>net/mod.rs\<close>), and shows that the options permit exactly what the policy permits, that the
  DNS server of a guest is one that it may reach, and that the replies of UDP forwards pass.

  \<^bold>\<open>Parameters.\<close> What a source of a disk does, beyond bytes in memory, is an argument of the reader; its
  documented behaviour, that it fills the buffer or fails, is an assumption of the locale.

  \<^bold>\<open>Not modelled.\<close> The rest of the crate performs effects that no definition could be faithful to without a
  model of the operating system, or is a declaration of data: the agent's processes, mounts, cgroups, clocks
  and devices (\<^verbatim>\<open>guest/\<close>), the host's stores, supervisors, templates, command line and platform layers
  (\<^verbatim>\<open>host/\<close>), the activation of clones (\<^verbatim>\<open>activation/\<close>), the boot tokens (\<^verbatim>\<open>protocol/cmdline.rs\<close>, \<^verbatim>\<open>boot.rs\<close>,
  \<^verbatim>\<open>root.rs\<close>, \<^verbatim>\<open>export.rs\<close>, \<^verbatim>\<open>share.rs\<close>, \<^verbatim>\<open>status.rs\<close>), which are parsed and printed with the text functions of the standard
  library, the texts of errors, the tests, and the scripts around the crate. The egress policy files
  (\<^verbatim>\<open>host/network/policy/\<close>) reproduce the JSON reader of Python before they reach the modelled lowering. Of
  \<^verbatim>\<open>net/cidr.rs\<close> and of \<^verbatim>\<open>EgressRule::parse_native\<close> the parsing and the display of addresses is the standard library's.
\<close>

section \<open>Executions end to end\<close>

text \<open>
  C1. A peer and a runner that are started with the same key and limits never report a violation of
  each other, however their adapters' calls interleave, whatever the workload, the caller and the
  clocks do, and even when a side detaches and its last messages are lost: credit is never
  exceeded, nothing follows an end, and no message comes out of order.
\<close>

theorem no_violation:
  "sy_refused (system_run as (system_new key l tp np tr nr)) = None"
  using system_run_delivers by (simp add: delivers_def system_ok_def)

text \<open>
  C2. What the sink has taken of a stream is at every moment a prefix of what the runner took of it
  from the workload: no byte is lost from the middle, duplicated, reordered or invented.
\<close>

theorem output_in_order:
  "\<exists>rest. bytes_of (sy_read (system_run as (system_new key l tp np tr nr))) s =
     bytes_of (sy_sunk (system_run as (system_new key l tp np tr nr))) s @ rest"
  by (rule delivers_sunk [OF system_run_delivers])

text \<open>
  C3. When the peer tells its caller that the execution finished and the outcome does not say that a
  stream is truncated, the sink took every byte that the runner took of that stream.
\<close>

theorem untruncated_output_is_whole:
  assumes "fst (next_event (sy_peer (system_run as (system_new key l tp np tr nr)))) =
      Some (EventFinished oc)"
    and "\<not> is_truncated oc s"
  shows "bytes_of (sy_sunk (system_run as (system_new key l tp np tr nr))) s =
     bytes_of (sy_read (system_run as (system_new key l tp np tr nr))) s"
  by (rule delivers_whole [OF system_run_delivers assms])

theorem untruncated_output_is_whole_witness:
  "bytes_of (sy_sunk (system_run (demo_input @ demo_output)
     (system_new demo_key demo_limits (timers_new 10 10) 0 (timers_new 10 10) 0))) Stdout = [1, 2, 3]"
proof -
  let ?as = "demo_input @ demo_output"
    and ?new = "system_new demo_key demo_limits (timers_new 10 10) 0 (timers_new 10 10) 0"
    and ?oc = "\<lparr>oc_status = Some (Exited 0), oc_cause = None, oc_launch_failure = None,
      oc_truncated = Arr2 False False, oc_reusable = True\<rparr>"
  have "fst (next_event (sy_peer (system_run ?as ?new))) = Some (EventFinished ?oc)" by code_simp
  moreover have "\<not> is_truncated ?oc Stdout" by code_simp
  moreover have "bytes_of (sy_read (system_run ?as ?new)) Stdout = [1, 2, 3]" by code_simp
  ultimately show ?thesis
    using untruncated_output_is_whole [of ?as demo_key demo_limits "timers_new 10 10" 0
        "timers_new 10 10" 0 ?oc Stdout] by simp
qed

text \<open>
  C4. What the workload has taken of its input is at every moment a prefix of what the peer took from
  its caller.
\<close>

theorem input_in_order:
  "\<exists>rest. sy_given (system_run as (system_new key l tp np tr nr)) =
     sy_written (system_run as (system_new key l tp np tr nr)) @ rest"
  by (rule delivers_written [OF system_run_delivers])

text \<open>
  C5. The runner asks its adapter to close the workload's input only when the workload took every byte
  that the caller gave: the end that the workload sees is the caller's.
\<close>

theorem input_end_is_complete:
  assumes "fst (next_request (sy_runner (system_run as (system_new key l tp np tr nr)))) =
      Some CloseInput"
  shows "sy_written (system_run as (system_new key l tp np tr nr)) =
     sy_given (system_run as (system_new key l tp np tr nr))"
  by (rule delivers_close [OF system_run_delivers assms])

theorem input_end_is_complete_witness:
  "sy_written (system_run demo_input
     (system_new demo_key demo_limits (timers_new 10 10) 0 (timers_new 10 10) 0)) = [7, 8]"
proof -
  let ?new = "system_new demo_key demo_limits (timers_new 10 10) 0 (timers_new 10 10) 0"
  have "fst (next_request (sy_runner (system_run demo_input ?new))) = Some CloseInput" by code_simp
  moreover have "sy_given (system_run demo_input ?new) = [7, 8]" by code_simp
  ultimately show ?thesis
    using input_end_is_complete [of demo_input demo_key demo_limits "timers_new 10 10" 0
        "timers_new 10 10" 0] by simp
qed

end
